(* ===== verification/Prelude.thy ===== *)
theory Prelude
  imports Main "HOL-Library.Word" "HOL-Library.Monad_Syntax"
begin

text \<open>
  Shared vocabulary of the development: the fixed-width integer types of
  \<^verbatim>\<open>common/types.h\<close>, the status codes of \<^verbatim>\<open>common/status.h\<close>, little-endian byte
  strings, and the generic lemmas on lists, options and words that the component
  theories use.

  Conventions.  A C++ function that can end the process (a failed \<open>LOG(FATAL)\<close> check or
  \<open>assert\<close>) or that would leave the defined behaviour of the language (a read or write
  outside an array, a shift by the width of the operand) returns an \<open>option\<close>, and
  \<^const>\<open>None\<close> is that outcome; a \<open>Status\<close> or \<open>bool\<close> the caller can inspect is an
  ordinary value.  Stateful objects are records that are passed in and returned.  A
  \<open>double\<close> is the 64-bit pattern that represents it.
\<close>

unbundle bit_operations_syntax

subsection \<open>Integer types\<close>

type_synonym u8 = "8 word"
type_synonym u16 = "16 word"
type_synonym u32 = "32 word"
type_synonym u64 = "64 word"
type_synonym timestamp = u64
type_synonym param_id = u64
type_synonym double_bits = u64
type_synonym logic_addr = u64
type_synonym block_addr = u32

subsection \<open>Status codes\<close>

datatype status =
    kOk | kOutOfRange | kOverflow | kFileSeekError | kFileWriteError | kBadArg
  | kBadData | kNoData | kUnavailable | kNotFound | kNoMemory | kEAccess | kErrIO
  | kRegullarExpected | kHighCardinality | kMissingDataNotSupported
  | kQueryParsingError | kTimeout | kRetry | kGeneral | kLateWrite | kNotPermitted
  | kBusy | kInternal | kUnknown

definition IsOk :: "status \<Rightarrow> bool" where
  "IsOk s \<longleftrightarrow> s = kOk"

lemma IsOk_simps [simp]:
  "IsOk kOk" "\<not> IsOk kOutOfRange" "\<not> IsOk kOverflow" "\<not> IsOk kBadArg" "\<not> IsOk kBadData"
  "\<not> IsOk kNoData" "\<not> IsOk kUnavailable" "\<not> IsOk kNotFound"
  "\<not> IsOk kFileSeekError" "\<not> IsOk kFileWriteError"
  by (simp_all add: IsOk_def)

subsection \<open>Collections of facts\<close>

named_theorems spec_simps \<open>evaluation rules of the byte-level reference encodings\<close>
named_theorems op_defs \<open>definitions of record-level operations\<close>

subsection \<open>Option and list facts\<close>

lemma bind_Some_conv: "Option.bind m f = Some y \<longleftrightarrow> (\<exists>x. m = Some x \<and> f x = Some y)"
  by (cases m) auto

text \<open>Checked array access, \<open>at\<close> of the standard containers.\<close>

definition at :: "'a list \<Rightarrow> nat \<Rightarrow> 'a option" where
  "at xs i = (if i < length xs then Some (xs ! i) else None)"

definition upd_at :: "'a list \<Rightarrow> nat \<Rightarrow> 'a \<Rightarrow> 'a list option" where
  "upd_at xs i v = (if i < length xs then Some (xs[i := v]) else None)"

lemma at_Some [simp]: "i < length xs \<Longrightarrow> at xs i = Some (xs ! i)"
  by (simp add: at_def)

lemma at_None [simp]: "\<not> i < length xs \<Longrightarrow> at xs i = None"
  by (simp add: at_def)

lemma upd_at_Some [simp]: "i < length xs \<Longrightarrow> upd_at xs i v = Some (xs[i := v])"
  by (simp add: upd_at_def)

lemma upd_at_None [simp]: "\<not> i < length xs \<Longrightarrow> upd_at xs i v = None"
  by (simp add: upd_at_def)

lemma take_Suc_update [simp]:
  "p < length xs \<Longrightarrow> take (Suc p) (xs[p := v]) = take p xs @ [v]"
  by (simp add: take_Suc_conv_app_nth)

text \<open>Overwriting a run of cells, \<open>memcpy\<close> into an array.\<close>

definition splice_at :: "nat \<Rightarrow> 'a list \<Rightarrow> 'a list \<Rightarrow> 'a list" where
  "splice_at p vs xs = take p xs @ vs @ drop (p + length vs) xs"

lemma length_splice_at [simp]:
  "p + length vs \<le> length xs \<Longrightarrow> length (splice_at p vs xs) = length xs"
  by (simp add: splice_at_def)

lemma take_splice_at [simp]:
  "p + length vs \<le> length xs \<Longrightarrow> take (p + length vs) (splice_at p vs xs) = take p xs @ vs"
  by (simp add: splice_at_def)

lemma take_splice_at_prefix [simp]: "p \<le> length xs \<Longrightarrow> take p (splice_at p vs xs) = take p xs"
  by (simp add: splice_at_def)

lemma splice_at_Nil [simp]: "splice_at p [] xs = xs"
  by (simp add: splice_at_def)

lemma splice_at_Cons:
  "p < length xs \<Longrightarrow> splice_at p (v # vs) xs = splice_at (Suc p) vs (xs[p := v])"
  by (simp add: splice_at_def take_Suc_conv_app_nth drop_update_cancel)

lemma splice_at_splice_at [simp]:
  "p + length vs \<le> length xs \<Longrightarrow>
   splice_at (p + length vs) us (splice_at p vs xs) = splice_at p (vs @ us) xs"
  by (simp add: splice_at_def ac_simps)

lemma take_splice_at_inner:
  "off + length vs \<le> p \<Longrightarrow> take p (splice_at off vs xs) = splice_at off vs (take p xs)"
  by (cases "p = off") (auto simp: splice_at_def min_def drop_take)

lemma read_splice_at_same [simp]:
  "p \<le> length xs \<Longrightarrow> m = length vs \<Longrightarrow> take m (drop p (splice_at p vs xs)) = vs"
  by (simp add: splice_at_def)

lemma read_splice_at_before:
  "q + m \<le> p \<Longrightarrow> p \<le> length xs \<Longrightarrow> take m (drop q (splice_at p vs xs)) = take m (drop q xs)"
  by (simp add: splice_at_def drop_take)

lemma read_splice_at_after:
  "p + length vs \<le> q \<Longrightarrow> p + length vs \<le> length xs \<Longrightarrow>
   take m (drop q (splice_at p vs xs)) = take m (drop q xs)"
  by (simp add: splice_at_def)

lemma read_splice_at_inner:
  "p + length vs \<le> length xs \<Longrightarrow> p \<le> q \<Longrightarrow> q + m \<le> p + length vs \<Longrightarrow>
   take m (drop q (splice_at p vs xs)) = take m (drop (q - p) vs)"
  by (simp add: splice_at_def)

text \<open>Reading \<open>n\<close> items in a row from a stateful source.\<close>

primrec read_n :: "('s \<Rightarrow> ('a \<times> 's) option) \<Rightarrow> nat \<Rightarrow> 's \<Rightarrow> ('a list \<times> 's) option" where
  "read_n f 0 s = Some ([], s)"
| "read_n f (Suc n) s =
     do { (x, s') \<leftarrow> f s; (xs, s'') \<leftarrow> read_n f n s'; Some (x # xs, s'') }"

lemma read_n_length: "read_n f n s = Some (xs, s') \<Longrightarrow> length xs = n"
  by (induction n arbitrary: s xs) (auto simp: bind_Some_conv split: prod.splits)

lemma read_n_start_cong: "f s = f s' \<Longrightarrow> 0 < n \<Longrightarrow> read_n f n s = read_n f n s'"
  by (cases n) simp_all

lemma read_n_add:
  "read_n f (m + n) s =
     do { (xs, s') \<leftarrow> read_n f m s; (ys, s'') \<leftarrow> read_n f n s'; Some (xs @ ys, s'') }"
proof (induction m arbitrary: s)
  case 0
  show ?case by (cases "read_n f n s") auto
next
  case (Suc m)
  show ?case
  proof (cases "f s")
    case None
    then show ?thesis by simp
  next
    case (Some a)
    obtain x s1 where a: "a = (x, s1)" by (cases a)
    show ?thesis
    proof (cases "read_n f m s1")
      case None
      then show ?thesis by (simp add: Some a Suc.IH)
    next
      case (Some b)
      obtain xs s2 where b: "b = (xs, s2)" by (cases b)
      show ?thesis
        by (cases "read_n f n s2") (simp_all add: \<open>f s = Some a\<close> Some a b Suc.IH split: prod.splits)
    qed
  qed
qed

end
