(* ===== verification/Bytes.thy ===== *)
theory Bytes
  imports Prelude
begin

text \<open>
  Words as little-endian byte strings (the object representation that \<open>put_raw\<close>,
  \<open>read_raw\<close> and \<open>memcpy\<close> move on the supported targets), and the compiler intrinsics
  \<open>__builtin_clzll\<close> and \<open>__builtin_ctzll\<close>.
\<close>

subsection \<open>Little-endian byte strings\<close>

primrec le_bytes :: "nat \<Rightarrow> 'a::len word \<Rightarrow> u8 list" where
  "le_bytes 0 v = []"
| "le_bytes (Suc n) v = ucast v # le_bytes n (drop_bit 8 v)"

primrec le_val :: "u8 list \<Rightarrow> 'a::len word" where
  "le_val [] = 0"
| "le_val (b # bs) = ucast b OR push_bit 8 (le_val bs)"

lemma length_le_bytes [simp]: "length (le_bytes n v) = n"
  by (induction n arbitrary: v) auto

lemma le_val_le_bytes: "le_val (le_bytes n v) = take_bit (8 * n) (v :: 'a::len word)"
proof (induction n arbitrary: v)
  case 0
  show ?case by simp
next
  case (Suc n)
  have "ucast (ucast v :: u8) OR push_bit 8 (take_bit (8 * n) (drop_bit 8 v))
    = take_bit (8 + 8 * n) v"
    by (rule bit_word_eqI) (auto simp: bit_simps)
  with Suc.IH show ?case by simp
qed

lemma le_val_le_bytes_full [simp]: "le_val (le_bytes 8 v) = (v :: u64)"
  by (simp add: le_val_le_bytes take_bit_word_eq_self)

lemma le_val_le_bytes_u32 [simp]: "le_val (le_bytes 4 v) = (v :: u32)"
  by (simp add: le_val_le_bytes take_bit_word_eq_self)

lemma le_val_le_bytes_u16 [simp]: "le_val (le_bytes 2 v) = (v :: u16)"
  by (simp add: le_val_le_bytes take_bit_word_eq_self)

lemma le_bytes_append:
  "le_bytes m v @ le_bytes n (drop_bit (8 * m) v) = le_bytes (m + n) (v :: 'a::len word)"
proof (induction m arbitrary: v)
  case (Suc m)
  from Suc.IH[of "drop_bit 8 v"] show ?case by (simp add: drop_bit_drop_bit add.commute)
qed simp

lemma le_bytes_take_bit:
  "8 * n \<le> m \<Longrightarrow> le_bytes n (take_bit m v) = le_bytes n (v :: 'a::len word)"
proof -
  have "le_bytes k (drop_bit j (take_bit m v)) = le_bytes k (drop_bit j v)"
    if "j + 8 * k \<le> m" for j k
    using that
  proof (induction k arbitrary: j)
    case (Suc k)
    have "(ucast (drop_bit j (take_bit m v)) :: u8) = ucast (drop_bit j v)"
      using Suc.prems by (intro bit_word_eqI) (auto simp: bit_simps)
    with Suc show ?case by (simp add: drop_bit_drop_bit)
  qed simp
  from this[of 0 n] show "8 * n \<le> m \<Longrightarrow> ?thesis" by simp
qed

text \<open>The reading loops add one byte at a time at a growing shift.\<close>

primrec le_acc :: "u8 list \<Rightarrow> nat \<Rightarrow> 'a::len word \<Rightarrow> 'a word" where
  "le_acc [] i acc = acc"
| "le_acc (b # bs) i acc = le_acc bs (i + 8) (acc OR push_bit i (ucast b))"

lemma le_acc_le_val: "le_acc bs i acc = acc OR push_bit i (le_val bs)"
proof (induction bs arbitrary: i acc)
  case (Cons b bs)
  then show ?case by (simp add: push_bit_push_bit push_bit_or or.assoc add.commute)
qed simp

subsection \<open>Leading and trailing zeros\<close>

text \<open>
  The intrinsics are undefined on 0; every use in the source is guarded by a test.
\<close>

definition clzll :: "u64 \<Rightarrow> nat" where
  "clzll x = length (takeWhile (\<lambda>i. \<not> bit x i) (rev [0..<64]))"

definition ctzll :: "u64 \<Rightarrow> nat" where
  "ctzll x = length (takeWhile (\<lambda>i. \<not> bit x i) [0..<64])"

lemma takeWhile_nth_pred:
  "i < length (takeWhile P xs) \<Longrightarrow> P (xs ! i)"
  by (metis nth_mem set_takeWhileD takeWhile_nth)

lemma clzll_le: "clzll x \<le> 64"
  unfolding clzll_def using length_takeWhile_le[of _ "rev [0..<64]"] by simp

lemma ctzll_le: "ctzll x \<le> 64"
  unfolding ctzll_def using length_takeWhile_le[of _ "[0..<64]"] by simp

lemma clzll_bit: "i < 64 \<Longrightarrow> 64 - clzll x \<le> i \<Longrightarrow> \<not> bit x i"
proof -
  assume i: "i < 64" and c: "64 - clzll x \<le> i"
  have "63 - i < clzll x" using i c clzll_le[of x] by linarith
  then have "\<not> bit x (rev [0..<64] ! (63 - i))"
    unfolding clzll_def by (rule takeWhile_nth_pred)
  then show ?thesis using i by (simp add: rev_nth)
qed

lemma ctzll_bit: "i < ctzll x \<Longrightarrow> \<not> bit x i"
proof -
  assume i: "i < ctzll x"
  then have "i < 64" using ctzll_le[of x] by linarith
  moreover have "\<not> bit x ([0..<64] ! i)"
    using i unfolding ctzll_def by (rule takeWhile_nth_pred)
  ultimately show ?thesis by simp
qed

lemma clzll_top_bit: "x \<noteq> 0 \<Longrightarrow> clzll x < 64 \<and> bit x (63 - clzll x)"
proof -
  assume x: "x \<noteq> 0"
  have lt: "clzll x < 64"
  proof (rule ccontr)
    assume "\<not> clzll x < 64"
    then have "clzll x = 64" using clzll_le[of x] by linarith
    then have "\<not> bit x i" for i using clzll_bit[of i x] by (cases "i < 64") (auto simp: bit_word.rep_eq)
    then have "x = 0" by (intro bit_word_eqI) simp
    with x show False by simp
  qed
  have "clzll x < length (rev [0..<64])" using lt by simp
  then have "bit x (rev [0..<64] ! clzll x)"
    unfolding clzll_def using nth_length_takeWhile by blast
  with lt show ?thesis by (simp add: rev_nth)
qed

lemma ctzll_low_bit: "x \<noteq> 0 \<Longrightarrow> ctzll x < 64 \<and> bit x (ctzll x)"
proof -
  assume x: "x \<noteq> 0"
  have lt: "ctzll x < 64"
  proof (rule ccontr)
    assume "\<not> ctzll x < 64"
    then have c: "ctzll x = 64" using ctzll_le[of x] by linarith
    have "\<not> bit x i" for i
      using ctzll_bit[of i x] c by (cases "i < 64") (auto simp: bit_word.rep_eq)
    then have "x = 0" by (intro bit_word_eqI) simp
    with x show False by simp
  qed
  have "ctzll x < length [0..<64]" using lt by simp
  then have "bit x ([0..<64] ! ctzll x)"
    unfolding ctzll_def using nth_length_takeWhile by blast
  with lt show ?thesis by simp
qed

text \<open>The lowest and the highest set bit: leading and trailing zeros never overlap.\<close>

lemma clz_plus_ctz: "x \<noteq> 0 \<Longrightarrow> clzll x + ctzll x < 64"
proof -
  assume x: "x \<noteq> 0"
  have "\<not> 64 - clzll x \<le> ctzll x"
    using clzll_bit[of "ctzll x" x] ctzll_low_bit[OF x] by blast
  then show ?thesis by linarith
qed

subsection \<open>Decimal numbers\<close>

text \<open>The digits that \<open>std::to_string\<close> and the output operator of a stream print for a number that
  is not negative.\<close>

fun to_string :: "nat \<Rightarrow> u8 list" where
  "to_string n = (if n < 10 then [of_nat (48 + n)] else to_string (n div 10) @ [of_nat (48 + n mod 10)])"

end
