(* ===== verification/Base128.thy ===== *)
theory Base128
  imports Bytes
begin

text \<open>
  \<open>Base128Int\<close>, \<open>Base128StreamWriter\<close> and \<open>Base128StreamReader\<close> of
  \<^verbatim>\<open>storage/compression.h\<close>: base-128 variable-length integers.  A memory region
  \<open>[begin, end)\<close> is a byte list, a pointer into it an index, and \<open>end\<close> the length of
  the list.  \<open>TVal\<close> is any unsigned word type.
\<close>

subsection \<open>Reference encoding\<close>

lemma unat_drop_bit_7: "unat (drop_bit 7 (v :: 'a::len word)) = unat v div 128"
  unfolding unat_drop_bit_eq by (simp add: drop_bit_eq_div)

lemma unat_drop_bit_7_less: "drop_bit 7 (v :: 'a::len word) \<noteq> 0 \<Longrightarrow> unat (drop_bit 7 v) < unat v"
  using unat_eq_zero[of "drop_bit 7 v"] unfolding unat_drop_bit_7 by auto

function leb128 :: "'a::len word \<Rightarrow> u8 list" where
  "leb128 v =
     (if drop_bit 7 v \<noteq> 0 then (ucast (v AND 127) OR 128) # leb128 (drop_bit 7 v)
      else [ucast (v AND 127)])"
  by pat_completeness auto
termination
  by (relation "measure unat") (simp_all add: unat_drop_bit_7_less)

declare leb128.simps [simp del]

lemma leb128_more [spec_simps]:
  "drop_bit 7 v \<noteq> 0 \<Longrightarrow> leb128 v = (ucast (v AND 127) OR 128) # leb128 (drop_bit 7 v)"
  by (subst leb128.simps) simp

lemma leb128_last [spec_simps]: "drop_bit 7 v = 0 \<Longrightarrow> leb128 v = [ucast (v AND 127)]"
  by (subst leb128.simps) simp

lemma leb128_nonempty [simp]: "leb128 v \<noteq> []"
  by (cases "drop_bit 7 v = 0") (simp_all add: spec_simps)

lemma leb128_length_bound: "unat v < 128 ^ Suc n \<Longrightarrow> length (leb128 v) \<le> Suc n"
proof (induction n arbitrary: v)
  case 0
  then have "drop_bit 7 v = 0"
    using unat_drop_bit_7[of v] by (simp add: unat_eq_zero flip: unat_eq_zero)
  then show ?case by (simp add: leb128_last)
next
  case (Suc n)
  show ?case
  proof (cases "drop_bit 7 v = 0")
    case True
    then show ?thesis by (simp add: leb128_last)
  next
    case False
    have "unat v div 128 < 128 ^ Suc n"
      by (rule less_mult_imp_div_less) (use Suc.prems in simp)
    then have "unat (drop_bit 7 v) < 128 ^ Suc n" by (simp only: unat_drop_bit_7)
    then have "length (leb128 (drop_bit 7 v)) \<le> Suc n" by (rule Suc.IH)
    then show ?thesis by (simp only: leb128_more[OF False] list.size)
  qed
qed

lemma leb128_u64_length: "length (leb128 (v :: u64)) \<le> 10"
proof -
  have "unat v < 2 ^ LENGTH(64)" by (rule unsigned_less)
  also have "(2::nat) ^ LENGTH(64) \<le> 128 ^ 10" by simp
  finally have "unat v < 128 ^ Suc 9" by simp
  then have "length (leb128 v) \<le> Suc 9" by (rule leb128_length_bound)
  then show ?thesis by simp
qed

lemma leb128_length_pos: "1 \<le> length (leb128 v)"
  by (cases "leb128 v") auto

subsection \<open>Base128Int\<close>

text \<open>\<open>put\<close>: the loop of the writer; the second component is the end of the written
  bytes, \<^const>\<open>None\<close> when the region is exhausted.\<close>

function b128_put_loop :: "u8 list \<Rightarrow> nat \<Rightarrow> 'a::len word \<Rightarrow> u8 list \<times> nat option" where
  "b128_put_loop buf p value =
     (if length buf \<le> p then (buf, None)
      else if drop_bit 7 value \<noteq> 0
        then b128_put_loop (buf[p := ucast (value AND 127) OR 128]) (Suc p) (drop_bit 7 value)
      else (buf[p := ucast (value AND 127)], Some (Suc p)))"
  by pat_completeness auto
termination
  by (relation "measure (\<lambda>(buf, p, value). unat value)") (simp_all add: unat_drop_bit_7_less)

declare b128_put_loop.simps [simp del]

definition Base128Int_put :: "u8 list \<Rightarrow> nat \<Rightarrow> 'a::len word \<Rightarrow> u8 list \<times> nat" where
  "Base128Int_put buf begin value =
     (if length buf \<le> begin then (buf, begin)
      else case b128_put_loop buf begin value of
             (buf', None) \<Rightarrow> (buf', begin)
           | (buf', Some p) \<Rightarrow> (buf', p))"

text \<open>\<open>get\<close>: \<^const>\<open>None\<close> is a shift by at least the width of \<open>TVal\<close>; \<open>Some None\<close> is the
  end of the region.\<close>

definition b128_more :: "u8 \<Rightarrow> bool" where
  "b128_more b \<longleftrightarrow> b AND 128 \<noteq> 0"

function b128_get_loop ::
  "u8 list \<Rightarrow> nat \<Rightarrow> 'a::len word \<Rightarrow> nat \<Rightarrow> ('a word \<times> nat) option option" where
  "b128_get_loop buf p acc cnt =
     (if length buf \<le> p then Some None
      else if LENGTH('a) \<le> cnt then None
      else let acc' = acc OR push_bit cnt (ucast (buf ! p AND 127))
           in if \<not> b128_more (buf ! p) then Some (Some (acc', Suc p))
              else b128_get_loop buf (Suc p) acc' (cnt + 7))"
  by pat_completeness auto
termination
  by (relation "measure (\<lambda>(buf, p, acc, cnt). length buf - p)") auto

declare b128_get_loop.simps [simp del]

definition Base128Int_get ::
  "u8 list \<Rightarrow> nat \<Rightarrow> 'a::len word \<Rightarrow> (nat \<times> 'a word) option" where
  "Base128Int_get buf begin value =
     (if \<not> begin < length buf then None
      else case b128_get_loop buf begin 0 0 of
             None \<Rightarrow> None
           | Some None \<Rightarrow> Some (begin, value)
           | Some (Some (v, p)) \<Rightarrow> Some (p, v))"

subsection \<open>The loops meet the reference encoding\<close>

lemma b128_put_loop_ok:
  "p + length (leb128 v) \<le> length buf \<Longrightarrow>
   b128_put_loop buf p v = (splice_at p (leb128 v) buf, Some (p + length (leb128 v)))"
proof (induction v arbitrary: p buf rule: leb128.induct)
  case (1 v)
  then have p: "p < length buf" using leb128_length_pos[of v] by linarith
  show ?case
  proof (cases "drop_bit 7 v = 0")
    case True
    with p show ?thesis
      by (subst b128_put_loop.simps) (simp add: spec_simps splice_at_Cons)
  next
    case False
    with 1 p show ?thesis
      by (subst b128_put_loop.simps) (simp add: spec_simps splice_at_Cons)
  qed
qed

lemma b128_put_loop_full:
  "length buf < p + length (leb128 v) \<Longrightarrow>
   \<exists>buf'. b128_put_loop buf p v = (buf', None) \<and> length buf' = length buf \<and> take p buf' = take p buf"
proof (induction v arbitrary: p buf rule: leb128.induct)
  case (1 v)
  show ?case
  proof (cases "length buf \<le> p")
    case True
    then show ?thesis by (subst b128_put_loop.simps) simp
  next
    case False
    with 1(2) have more: "drop_bit 7 v \<noteq> 0"
      by (cases "drop_bit 7 v = 0") (simp_all add: spec_simps)
    let ?b = "buf[p := ucast (v AND 127) OR 128]"
    have "length ?b < Suc p + length (leb128 (drop_bit 7 v))"
      using 1(2) more by (simp add: spec_simps)
    with 1(1)[OF more] obtain buf' where
      b: "b128_put_loop ?b (Suc p) (drop_bit 7 v) = (buf', None)"
      and l: "length buf' = length buf" and t: "take (Suc p) buf' = take (Suc p) ?b"
      by fastforce
    from t have "take p (take (Suc p) buf') = take p (take (Suc p) ?b)" by simp
    then have "take p buf' = take p buf" by simp
    with False more b l show ?thesis by (subst b128_put_loop.simps) simp
  qed
qed

lemma Base128Int_put_ok:
  "p + length (leb128 v) \<le> length buf \<Longrightarrow>
   Base128Int_put buf p v = (splice_at p (leb128 v) buf, p + length (leb128 v))"
  using leb128_length_pos[of v] by (simp add: Base128Int_put_def b128_put_loop_ok)

lemma Base128Int_put_full:
  "length buf < p + length (leb128 v) \<Longrightarrow>
   \<exists>buf'. Base128Int_put buf p v = (buf', p) \<and> length buf' = length buf \<and> take p buf' = take p buf"
  using b128_put_loop_full[of buf p v] by (auto simp: Base128Int_put_def)

lemma leb128_more_bits:
  "drop_bit 7 (v :: 'a::len word) \<noteq> 0 \<Longrightarrow> unat v < 2 ^ (LENGTH('a) - cnt) \<Longrightarrow> cnt + 7 < LENGTH('a)"
proof -
  assume d: "drop_bit 7 v \<noteq> 0" and b: "unat v < 2 ^ (LENGTH('a) - cnt)"
  have "128 \<le> unat v"
    using d by (metis div_eq_0_iff not_le unat_drop_bit_7 unat_eq_zero zero_neq_numeral)
  with b have "(2::nat) ^ 7 < 2 ^ (LENGTH('a) - cnt)" by simp
  then have "7 < LENGTH('a) - cnt" by (simp only: power_strict_increasing_iff)
  then show ?thesis by linarith
qed

lemma and_127: "v AND 127 = take_bit 7 (v :: 'a::len word)"
proof -
  have "(127 :: 'a word) = mask 7" by (simp add: mask_eq_exp_minus_1)
  then show ?thesis by (simp add: take_bit_eq_mask)
qed

lemma leb128_split: "take_bit 7 v OR push_bit 7 (drop_bit 7 v) = (v :: 'a::len word)"
proof (rule bit_word_eqI)
  fix n assume "n < LENGTH('a)"
  then show "bit (take_bit 7 v OR push_bit 7 (drop_bit 7 v)) n = bit v n"
    by (cases "n < 7") (auto simp: bit_simps)
qed

lemma bit_128_u8: "bit (128 :: u8) i \<longleftrightarrow> i = 7"
proof -
  have "(128 :: u8) = push_bit 7 1" by simp
  then show ?thesis by (simp only: bit_push_bit_iff bit_1_iff) auto
qed

lemma b128_more_bit: "b128_more b \<longleftrightarrow> bit b 7"
proof -
  have "b AND 128 = 0 \<longleftrightarrow> (\<forall>n. \<not> (bit b n \<and> bit (128 :: u8) n))"
    by (simp only: bit_eq_iff bit_and_iff bit_0_eq bot_apply bot_bool_def) simp
  also have "\<dots> \<longleftrightarrow> \<not> bit b 7" unfolding bit_128_u8 by blast
  finally have "b AND 128 = 0 \<longleftrightarrow> \<not> bit b 7" .
  then show ?thesis by (simp add: b128_more_def)
qed

lemma b128_more_simps [simp]:
  "b128_more (ucast (v AND 127) OR 128)"
  "\<not> b128_more (ucast (v AND 127))"
  by (simp_all add: b128_more_bit and_127 bit_simps bit_128_u8)

lemma b128_payload [simp]:
  "ucast ((ucast (v AND 127) OR 128 :: u8) AND 127) = (v AND 127 :: 'a::len word)"
  "ucast ((ucast (v AND 127) :: u8) AND 127) = (v AND 127 :: 'a::len word)"
  by (rule bit_word_eqI, auto simp: and_127 bit_simps bit_128_u8)+

lemma drop_eq_Cons_nth: "drop p xs = y # ys \<Longrightarrow> p < length xs \<and> xs ! p = y \<and> drop (Suc p) xs = ys"
  by (metis Cons_nth_drop_Suc drop_eq_Nil linorder_not_le list.discI list.inject)

lemma b128_get_loop_ok:
  "drop p buf = leb128 (v :: 'a::len word) @ rest \<Longrightarrow> cnt < LENGTH('a) \<Longrightarrow>
   unat v < 2 ^ (LENGTH('a) - cnt) \<Longrightarrow>
   b128_get_loop buf p acc cnt = Some (Some (acc OR push_bit cnt v, p + length (leb128 v)))"
proof (induction v arbitrary: p acc cnt rule: leb128.induct)
  case (1 v)
  show ?case
  proof (cases "drop_bit 7 v = 0")
    case True
    with 1(2) have p: "p < length buf" "buf ! p = ucast (v AND 127)"
      by (auto simp: leb128_last dest!: drop_eq_Cons_nth)
    have eq: "v AND 127 = v" using leb128_split[of v] True by (simp add: and_127)
    have "b128_get_loop buf p acc cnt = Some (Some (acc OR push_bit cnt (v AND 127), Suc p))"
      using p 1(3) by (subst b128_get_loop.simps) (simp add: Let_def)
    then show ?thesis unfolding eq by (simp add: leb128_last[OF True])
  next
    case False
    let ?b = "ucast (v AND 127) OR 128 :: u8"
    have p: "p < length buf" "buf ! p = ?b"
      "drop (Suc p) buf = leb128 (drop_bit 7 v) @ rest"
      using 1(2) by (auto simp: leb128_more[OF False] dest!: drop_eq_Cons_nth)
    have cnt: "cnt + 7 < LENGTH('a)" by (rule leb128_more_bits[OF False 1(4)])
    have "LENGTH('a) - cnt = (LENGTH('a) - (cnt + 7)) + 7" using cnt by simp
    then have "unat v < 2 ^ (LENGTH('a) - (cnt + 7)) * 128"
      using 1(4) by (simp only: power_add) simp
    then have "unat v div 128 < 2 ^ (LENGTH('a) - (cnt + 7))" by (rule less_mult_imp_div_less)
    then have "unat (drop_bit 7 v) < 2 ^ (LENGTH('a) - (cnt + 7))" by (simp only: unat_drop_bit_7)
    note IH = 1(1)[OF False p(3) cnt this]
    have "(acc OR push_bit cnt (v AND 127)) OR push_bit (cnt + 7) (drop_bit 7 v)
      = acc OR push_bit cnt (v AND 127 OR push_bit 7 (drop_bit 7 v))"
      by (simp add: push_bit_or push_bit_push_bit or.assoc add.commute)
    also have "\<dots> = acc OR push_bit cnt v" by (simp add: leb128_split and_127)
    finally have acc: "(acc OR push_bit cnt (v AND 127)) OR push_bit (cnt + 7) (drop_bit 7 v)
      = acc OR push_bit cnt v" .
    show ?thesis
      using p 1(3) by (subst b128_get_loop.simps) (simp add: IH acc leb128_more[OF False] Let_def del: push_bit_and)
  qed
qed

lemma Base128Int_get_ok:
  "drop p buf = leb128 v @ rest \<Longrightarrow> Base128Int_get buf p v0 = Some (p + length (leb128 v), v)"
proof -
  assume d: "drop p buf = leb128 v @ rest"
  then have p: "p < length buf"
    by (metis append_is_Nil_conv drop_all leb128_nonempty not_le_imp_less)
  have "b128_get_loop buf p 0 0 = Some (Some (0 OR push_bit 0 v, p + length (leb128 v)))"
    by (rule b128_get_loop_ok[OF d]) (simp_all add: unsigned_less)
  with p show ?thesis by (simp add: Base128Int_get_def)
qed

subsection \<open>Base128StreamWriter and Base128StreamReader\<close>

record b128_writer =
  b128w_buf :: "u8 list"
  b128w_pos :: nat

definition Base128StreamWriter_put :: "'a::len word \<Rightarrow> b128_writer \<Rightarrow> bool \<times> b128_writer" where
  "Base128StreamWriter_put value w =
     (case Base128Int_put (b128w_buf w) (b128w_pos w) value of
        (buf', p) \<Rightarrow>
          if b128w_pos w = p then (False, w\<lparr>b128w_buf := buf'\<rparr>)
          else (True, w\<lparr>b128w_buf := buf', b128w_pos := p\<rparr>))"

primrec b128_tput_loop :: "nat \<Rightarrow> 'a::len word list \<Rightarrow> b128_writer \<Rightarrow> bool \<times> b128_writer" where
  "b128_tput_loop oldpos [] w = (True, w)"
| "b128_tput_loop oldpos (v # vs) w =
     (case Base128StreamWriter_put v w of
        (ok, w') \<Rightarrow> if \<not> ok then (False, w'\<lparr>b128w_pos := oldpos\<rparr>) else b128_tput_loop oldpos vs w')"

definition Base128StreamWriter_tput :: "'a::len word list \<Rightarrow> b128_writer \<Rightarrow> bool \<times> b128_writer" where
  "Base128StreamWriter_tput vs w = b128_tput_loop (b128w_pos w) vs w"

definition Base128StreamWriter_space_left :: "b128_writer \<Rightarrow> nat" where
  "Base128StreamWriter_space_left w = length (b128w_buf w) - b128w_pos w"

definition Base128StreamWriter_put_raw :: "u8 list \<Rightarrow> b128_writer \<Rightarrow> bool \<times> b128_writer" where
  "Base128StreamWriter_put_raw bs w =
     (if Base128StreamWriter_space_left w < length bs then (False, w)
      else (True, w\<lparr>b128w_buf := splice_at (b128w_pos w) bs (b128w_buf w),
                    b128w_pos := b128w_pos w + length bs\<rparr>))"

record b128_reader =
  b128r_data :: "u8 list"
  b128r_pos :: nat

definition Base128StreamReader_next :: "b128_reader \<Rightarrow> ('a::len word \<times> b128_reader) option" where
  "Base128StreamReader_next r =
     (case Base128Int_get (b128r_data r) (b128r_pos r) 0 of
        None \<Rightarrow> None
      | Some (p, v) \<Rightarrow> if p = b128r_pos r then None else Some (v, r\<lparr>b128r_pos := p\<rparr>))"

definition Base128StreamReader_read_raw :: "nat \<Rightarrow> b128_reader \<Rightarrow> (u8 list \<times> b128_reader) option" where
  "Base128StreamReader_read_raw n r =
     (if length (b128r_data r) - b128r_pos r < n then None
      else Some (take n (drop (b128r_pos r) (b128r_data r)), r\<lparr>b128r_pos := b128r_pos r + n\<rparr>))"

text \<open>Bytes written so far, and bytes still to read.\<close>

definition b128w_bytes :: "b128_writer \<Rightarrow> u8 list" where
  "b128w_bytes w = take (b128w_pos w) (b128w_buf w)"

definition b128w_ok :: "b128_writer \<Rightarrow> bool" where
  "b128w_ok w \<longleftrightarrow> b128w_pos w \<le> length (b128w_buf w)"

lemma Base128StreamWriter_put_cases:
  assumes "b128w_ok w"
  shows "(case Base128StreamWriter_put v w of (ok, w') \<Rightarrow>
     b128w_ok w' \<and> length (b128w_buf w') = length (b128w_buf w) \<and>
     ok = (b128w_pos w + length (leb128 v) \<le> length (b128w_buf w)) \<and>
     b128w_bytes w' = (if ok then b128w_bytes w @ leb128 v else b128w_bytes w) \<and>
     b128w_pos w' = (if ok then b128w_pos w + length (leb128 v) else b128w_pos w) \<and>
     take (b128w_pos w) (b128w_buf w') = take (b128w_pos w) (b128w_buf w))"
proof (cases "b128w_pos w + length (leb128 v) \<le> length (b128w_buf w)")
  case True
  then show ?thesis
    using assms leb128_length_pos[of v]
    by (simp add: Base128StreamWriter_put_def Base128Int_put_ok b128w_bytes_def b128w_ok_def)
next
  case False
  then have "length (b128w_buf w) < b128w_pos w + length (leb128 v)" by simp
  from Base128Int_put_full[OF this] False show ?thesis
    using assms by (auto simp: Base128StreamWriter_put_def b128w_bytes_def b128w_ok_def)
qed

lemma b128_tput_loop_cases:
  assumes "b128w_ok w" "oldpos \<le> b128w_pos w"
  shows "(case b128_tput_loop oldpos vs w of (ok, w') \<Rightarrow>
     b128w_ok w' \<and> length (b128w_buf w') = length (b128w_buf w) \<and>
     ok = (b128w_pos w + length (concat (map leb128 vs)) \<le> length (b128w_buf w)) \<and>
     b128w_bytes w' = (if ok then b128w_bytes w @ concat (map leb128 vs) else take oldpos (b128w_buf w)))"
  using assms
proof (induction vs arbitrary: w)
  case Nil
  then show ?case by (simp add: b128w_ok_def)
next
  case (Cons v vs)
  obtain ok w1 where p: "Base128StreamWriter_put v w = (ok, w1)" by fastforce
  note c = Base128StreamWriter_put_cases[OF Cons.prems(1), of v, unfolded p prod.case]
  have "take oldpos (take (b128w_pos w) (b128w_buf w1)) = take oldpos (take (b128w_pos w) (b128w_buf w))"
    using c by simp
  then have old: "take oldpos (b128w_buf w1) = take oldpos (b128w_buf w)"
    using Cons.prems by (simp add: min_def)
  show ?case
  proof (cases ok)
    case True
    with c have "b128w_ok w1" "oldpos \<le> b128w_pos w1" using Cons.prems by simp_all
    from Cons.IH[OF this] c True old p show ?thesis by (auto split: prod.splits)
  next
    case False
    with c old p Cons.prems show ?thesis
      by (auto simp: b128w_bytes_def b128w_ok_def)
  qed
qed

lemma Base128StreamReader_next_ok:
  "drop (b128r_pos r) (b128r_data r) = leb128 v @ rest \<Longrightarrow>
   Base128StreamReader_next r = Some (v, r\<lparr>b128r_pos := b128r_pos r + length (leb128 v)\<rparr>)"
  by (simp add: Base128StreamReader_next_def Base128Int_get_ok)

lemma Base128StreamReader_read_list:
  "drop (b128r_pos r) (b128r_data r) = concat (map leb128 vs) @ rest \<Longrightarrow>
   \<exists>r'. read_n Base128StreamReader_next (length vs) r = Some (vs, r') \<and>
        b128r_data r' = b128r_data r \<and> drop (b128r_pos r') (b128r_data r') = rest"
proof (induction vs arbitrary: r)
  case Nil
  then show ?case by simp
next
  case (Cons v vs)
  let ?r = "r\<lparr>b128r_pos := b128r_pos r + length (leb128 v)\<rparr>"
  have d: "drop (b128r_pos r) (b128r_data r) = leb128 v @ (concat (map leb128 vs) @ rest)"
    using Cons.prems by simp
  then have "drop (length (leb128 v)) (drop (b128r_pos r) (b128r_data r)) = concat (map leb128 vs) @ rest"
    by simp
  then have "drop (b128r_pos ?r) (b128r_data ?r) = concat (map leb128 vs) @ rest"
    by (simp add: add.commute)
  from Cons.IH[OF this] Base128StreamReader_next_ok[OF d] show ?case by auto
qed

end
