(* ===== verification/Streams.thy ===== *)
theory Streams
  imports Base128
begin

text \<open>
  The interface between the byte streams and the encoders built on them.  In
  \<^verbatim>\<open>storage/compression.h\<close> the delta and FCM encoders and the block writers are templates
  over a stream class; here such a class is a record of its member functions, and its
  contract is a locale: \<open>byte_sink\<close> for writers and \<open>byte_source\<close> for readers.  The laws
  are stated against the reference encodings \<open>leb128\<close> and \<open>vb_chunk\<close>.
\<close>

subsection \<open>Reference encoding of a chunk\<close>

definition nbytes :: "u64 \<Rightarrow> nat" where
  "nbytes v = 8 - (if v = 0 then 64 else clzll v) div 8"

definition vb_ctrl :: "nat \<Rightarrow> nat \<Rightarrow> u8" where
  "vb_ctrl f s = of_nat f OR push_bit 4 (of_nat s)"

definition vb_pair :: "u64 \<Rightarrow> u64 \<Rightarrow> u8 list" where
  "vb_pair a b =
     vb_ctrl (nbytes a) (nbytes b) # le_bytes (nbytes a) a @ le_bytes (nbytes b) b"

fun vb_pairs :: "u64 list \<Rightarrow> u8 list" where
  "vb_pairs (a # b # xs) = vb_pair a b @ vb_pairs xs"
| "vb_pairs _ = []"

definition vb_chunk :: "u64 list \<Rightarrow> u8 list" where
  "vb_chunk xs = (if \<forall>x \<in> set xs. x = 0 then [255] else vb_pairs xs)"

lemma nbytes_le [simp]: "nbytes v \<le> 8"
  by (simp add: nbytes_def)

lemma take_bit_nbytes: "take_bit (8 * nbytes v) v = v"
proof (cases "v = 0")
  case False
  show ?thesis
  proof (rule bit_word_eqI)
    fix i assume i: "i < LENGTH(64)"
    show "bit (take_bit (8 * nbytes v) v) i = bit v i"
    proof (cases "i < 8 * nbytes v")
      case False
      have "64 - clzll v \<le> 8 * nbytes v"
        using \<open>v \<noteq> 0\<close> clzll_le[of v] by (simp add: nbytes_def)
      then have "\<not> bit v i" using clzll_bit[of i v] i False by simp
      then show ?thesis by (simp add: bit_take_bit_iff)
    qed (simp add: bit_take_bit_iff)
  qed
qed simp

lemma le_val_nbytes [simp]: "le_val (le_bytes (nbytes v) v) = v"
  by (simp add: le_val_le_bytes take_bit_nbytes)

text \<open>No shorter byte string would do: the control nibble is minimal.\<close>

lemma nbytes_minimal: "v \<noteq> 0 \<Longrightarrow> take_bit (8 * (nbytes v - 1)) v \<noteq> v"
proof -
  assume v: "v \<noteq> 0"
  note top = clzll_top_bit[OF v]
  have "8 * (nbytes v - 1) \<le> 63 - clzll v"
    using v top by (simp add: nbytes_def)
  then have "\<not> bit (take_bit (8 * (nbytes v - 1)) v) (63 - clzll v)"
    by (simp add: bit_take_bit_iff)
  with top show ?thesis by metis
qed

lemma vb_ctrl_decode:
  assumes "f \<le> 8" "s \<le> 8"
  shows "unat (vb_ctrl f s AND 15) = f \<and> unat (drop_bit 4 (vb_ctrl f s)) = s"
proof -
  have "\<forall>f \<in> set [0..<9]. \<forall>s \<in> set [0..<9].
      unat (vb_ctrl f s AND 15) = f \<and> unat (drop_bit 4 (vb_ctrl f s)) = s"
    unfolding vb_ctrl_def by code_simp
  with assms show ?thesis by auto
qed

lemma vb_pair_length: "length (vb_pair a b) \<le> 17"
  using add_le_mono[OF nbytes_le[of a] nbytes_le[of b]] by (simp add: vb_pair_def)

lemma vb_pairs_length: "length (vb_pairs xs) \<le> 17 * (length xs div 2)"
proof (induction xs rule: vb_pairs.induct)
  case (1 a b xs)
  then show ?case using vb_pair_length[of a b] by simp
qed simp_all

lemma vb_chunk_length: "length xs = 16 \<Longrightarrow> length (vb_chunk xs) \<le> 136"
  using vb_pairs_length[of xs] by (simp add: vb_chunk_def)

lemma vb_chunk_nonempty: "length xs = 16 \<Longrightarrow> 1 \<le> length (vb_chunk xs)"
  by (cases xs rule: vb_pairs.cases) (auto simp: vb_chunk_def vb_pair_def)

subsection \<open>Writers\<close>

text \<open>A value of type \<open>T\<close> passed to \<open>put_raw<T>\<close> is its object representation.  The
  pointers that \<open>allocate\<close> returns are offsets; \<open>store16\<close> and \<open>load16\<close> are the accesses
  through them.\<close>

record 's wstream =
  ws_put_base128 :: "u64 \<Rightarrow> 's \<Rightarrow> (bool \<times> 's) option"
  ws_tput :: "u64 list \<Rightarrow> 's \<Rightarrow> (bool \<times> 's) option"
  ws_put :: "u64 \<Rightarrow> 's \<Rightarrow> (bool \<times> 's) option"
  ws_put_raw :: "u8 list \<Rightarrow> 's \<Rightarrow> (bool \<times> 's) option"
  ws_commit :: "'s \<Rightarrow> (bool \<times> 's) option"
  ws_space_left :: "'s \<Rightarrow> nat"
  ws_size :: "'s \<Rightarrow> nat"
  ws_empty :: "'s \<Rightarrow> bool"
  ws_allocate :: "nat \<Rightarrow> 's \<Rightarrow> (nat option \<times> 's) option"
  ws_store16 :: "nat \<Rightarrow> u16 \<Rightarrow> 's \<Rightarrow> 's option"
  ws_load16 :: "nat \<Rightarrow> 's \<Rightarrow> u16 option"

definition appended ::
  "'s wstream \<Rightarrow> ('s \<Rightarrow> u8 list) \<Rightarrow> ('s \<Rightarrow> bool) \<Rightarrow> 's \<Rightarrow> u8 list \<Rightarrow> 's \<Rightarrow> bool" where
  "appended W wbytes winv s bs s' \<longleftrightarrow>
     winv s' \<and> wbytes s' = wbytes s @ bs \<and>
     ws_space_left W s = ws_space_left W s' + length bs"

lemma appended_trans [trans]:
  "appended W wb wi s a s' \<Longrightarrow> appended W wb wi s' b s'' \<Longrightarrow> appended W wb wi s (a @ b) s''"
  by (simp add: appended_def)

lemma appended_Nil: "wi s \<Longrightarrow> appended W wb wi s [] s"
  by (simp add: appended_def)

lemma appended_space: "appended W wb wi s bs s' \<Longrightarrow> ws_space_left W s' = ws_space_left W s - length bs"
  by (simp add: appended_def)

lemma appended_inv: "appended W wb wi s bs s' \<Longrightarrow> wi s'"
  by (simp add: appended_def)

locale byte_sink =
  fixes W :: "'s wstream"
    and wbytes :: "'s \<Rightarrow> u8 list"
    and winv :: "'s \<Rightarrow> bool"
  assumes put_raw_ok:
      "winv s \<Longrightarrow> length bs \<le> ws_space_left W s \<Longrightarrow>
       \<exists>s'. ws_put_raw W bs s = Some (True, s') \<and> appended W wbytes winv s bs s'"
    and put_raw_full:
      "winv s \<Longrightarrow> ws_space_left W s < length bs \<Longrightarrow> ws_put_raw W bs s = Some (False, s)"
    and put_base128_ok:
      "winv s \<Longrightarrow> length (leb128 v) \<le> ws_space_left W s \<Longrightarrow>
       \<exists>s'. ws_put_base128 W v s = Some (True, s') \<and> appended W wbytes winv s (leb128 v) s'"
    and tput_ok:
      "winv s \<Longrightarrow> length xs = 16 \<Longrightarrow> length (vb_chunk xs) \<le> ws_space_left W s \<Longrightarrow>
       \<exists>s'. ws_tput W xs s = Some (True, s') \<and> appended W wbytes winv s (vb_chunk xs) s'"
    and commit_ok: "winv s \<Longrightarrow> ws_commit W s = Some (True, s)"
    and size_ok: "winv s \<Longrightarrow> ws_size W s = length (wbytes s)"

text \<open>A sink with a patchable header: the first component of an \<open>IOVecBlock\<close> holds 1024
  bytes, and a header field lies inside it.\<close>

locale header_sink = byte_sink +
  assumes allocate_ok:
      "winv s \<Longrightarrow> n \<le> ws_space_left W s \<Longrightarrow> 0 < n \<Longrightarrow> length (wbytes s) + n \<le> 1024 \<Longrightarrow>
       \<exists>s' xs. ws_allocate W n s = Some (Some (length (wbytes s)), s') \<and> length xs = n \<and>
               appended W wbytes winv s xs s'"
    and store16_ok:
      "winv s \<Longrightarrow> off + 2 \<le> length (wbytes s) \<Longrightarrow> off + 2 \<le> 1024 \<Longrightarrow>
       \<exists>s'. ws_store16 W off v s = Some s' \<and> winv s' \<and>
            wbytes s' = splice_at off (le_bytes 2 v) (wbytes s) \<and>
            ws_space_left W s' = ws_space_left W s"
    and load16_ok:
      "winv s \<Longrightarrow> off + 2 \<le> length (wbytes s) \<Longrightarrow> off + 2 \<le> 1024 \<Longrightarrow>
       ws_load16 W off s = Some (le_val (take 2 (drop off (wbytes s))))"
    and not_empty: "winv s \<Longrightarrow> wbytes s \<noteq> [] \<Longrightarrow> \<not> ws_empty W s"

subsection \<open>Readers\<close>

record 'r rstream =
  rs_next :: "'r \<Rightarrow> (u64 \<times> 'r) option"
  rs_next_base128 :: "'r \<Rightarrow> (u64 \<times> 'r) option"
  rs_read_raw :: "nat \<Rightarrow> 'r \<Rightarrow> (u8 list \<times> 'r) option"

locale byte_source =
  fixes R :: "'r rstream"
    and rest :: "'r \<Rightarrow> u8 list"
    and rinv :: "'r \<Rightarrow> bool"
  assumes read_raw_ok:
      "rinv r \<Longrightarrow> rest r = xs @ ys \<Longrightarrow>
       \<exists>r'. rs_read_raw R (length xs) r = Some (xs, r') \<and> rinv r' \<and> rest r' = ys"
    and next_base128_ok:
      "rinv r \<Longrightarrow> rest r = leb128 v @ ys \<Longrightarrow>
       \<exists>r'. rs_next_base128 R r = Some (v, r') \<and> rinv r' \<and> rest r' = ys"
    and next_chunk_ok:
      "rinv r \<Longrightarrow> length vs = 16 \<Longrightarrow> rest r = vb_chunk vs @ ys \<Longrightarrow>
       \<exists>r'. read_n (rs_next R) 16 r = Some (vs, r') \<and> rinv r' \<and> rest r' = ys"

end
