(* ===== verification/DeltaDelta.thy ===== *)
theory DeltaDelta
  imports Streams
begin

text \<open>
  \<open>DeltaDeltaStreamWriter\<close> and \<open>DeltaDeltaStreamReader\<close> of \<^verbatim>\<open>storage/compression.h\<close> at
  \<open>Step = 16\<close> and \<open>TVal = u64\<close>, over any stream.  The stream is shared with the value
  encoder in the source (\<open>stream_\<close> is a reference), so an operation takes and returns the
  encoder's own fields and the stream.
\<close>

subsection \<open>Writer\<close>

record dd_writer =
  ddw_prev :: u64
  ddw_put_calls :: nat

definition DeltaDeltaStreamWriter_new :: dd_writer where
  "DeltaDeltaStreamWriter_new = \<lparr>ddw_prev = 0, ddw_put_calls = 0\<rparr>"

text \<open>The first loop of \<open>tput\<close>: \<open>outbuf\<close>, the final \<open>prev_\<close> and \<open>min\<close>.\<close>

primrec dd_delta_loop :: "u64 list \<Rightarrow> u64 \<Rightarrow> u64 \<Rightarrow> u64 list \<times> u64 \<times> u64" where
  "dd_delta_loop [] prev mn = ([], prev, mn)"
| "dd_delta_loop (value # vs) prev mn =
     (let result = value - prev;
          (out, prev', mn') = dd_delta_loop vs value (min result mn)
      in (result # out, prev', mn'))"

definition DeltaDeltaStreamWriter_tput ::
  "'s wstream \<Rightarrow> u64 list \<Rightarrow> dd_writer \<times> 's \<Rightarrow> (bool \<times> dd_writer \<times> 's) option" where
  "DeltaDeltaStreamWriter_tput W iter ds =
     (case ds of (d, s) \<Rightarrow>
        if length iter \<noteq> 16 then None
        else let (outbuf, prev, mn) = dd_delta_loop iter (ddw_prev d) (hd iter - ddw_prev d);
                 d = d\<lparr>ddw_prev := prev\<rparr>
             in do {
               (ok, s) \<leftarrow> ws_put_base128 W mn s;
               if \<not> ok then Some (False, d, s)
               else do {
                 (ok, s) \<leftarrow> ws_tput W (map (\<lambda>x. x - mn) outbuf) s;
                 Some (ok, d, s) } })"

definition DeltaDeltaStreamWriter_put ::
  "'s wstream \<Rightarrow> u64 \<Rightarrow> dd_writer \<times> 's \<Rightarrow> (bool \<times> dd_writer \<times> 's) option" where
  "DeltaDeltaStreamWriter_put W value ds =
     (case ds of (d, s) \<Rightarrow>
        do {
          (ok, s) \<leftarrow> (if ddw_put_calls d = 0 then ws_put_base128 W 0 s else Some (True, s));
          if \<not> ok then Some (False, d, s)
          else do {
            (ok, s) \<leftarrow> ws_put W (value - ddw_prev d) s;
            Some (ok, d\<lparr>ddw_put_calls := ddw_put_calls d + 1, ddw_prev := value\<rparr>, s) } })"

definition DeltaDeltaStreamWriter_commit ::
  "'s wstream \<Rightarrow> dd_writer \<times> 's \<Rightarrow> (bool \<times> dd_writer \<times> 's) option" where
  "DeltaDeltaStreamWriter_commit W ds =
     (case ds of (d, s) \<Rightarrow> do { (ok, s) \<leftarrow> ws_commit W s; Some (ok, d, s) })"

subsection \<open>Reader\<close>

record dd_reader =
  ddr_prev :: u64
  ddr_min :: u64
  ddr_counter :: nat

definition DeltaDeltaStreamReader_new :: dd_reader where
  "DeltaDeltaStreamReader_new = \<lparr>ddr_prev = 0, ddr_min = 0, ddr_counter = 0\<rparr>"

definition DeltaDeltaStreamReader_next ::
  "'r rstream \<Rightarrow> dd_reader \<times> 'r \<Rightarrow> (u64 \<times> dd_reader \<times> 'r) option" where
  "DeltaDeltaStreamReader_next R dr =
     (case dr of (d, r) \<Rightarrow>
        do {
          (d, r) \<leftarrow> (if ddr_counter d mod 16 = 0
                     then do { (m, r) \<leftarrow> rs_next_base128 R r; Some (d\<lparr>ddr_min := m\<rparr>, r) }
                     else Some (d, r));
          (delta, r) \<leftarrow> rs_next R r;
          let value = ddr_prev d + delta + ddr_min d;
          Some (value, d\<lparr>ddr_counter := ddr_counter d + 1, ddr_prev := value\<rparr>, r) })"

subsection \<open>Reference encoding of a chunk of timestamps\<close>

primrec deltas :: "u64 \<Rightarrow> u64 list \<Rightarrow> u64 list" where
  "deltas p [] = []"
| "deltas p (x # xs) = (x - p) # deltas x xs"

primrec undeltas :: "u64 \<Rightarrow> u64 \<Rightarrow> u64 list \<Rightarrow> u64 list" where
  "undeltas p m [] = []"
| "undeltas p m (x # xs) = (p + x + m) # undeltas (p + x + m) m xs"

definition dd_min :: "u64 \<Rightarrow> u64 list \<Rightarrow> u64" where
  "dd_min p xs = fold min (deltas p xs) (hd xs - p)"

definition dd_chunk :: "u64 \<Rightarrow> u64 list \<Rightarrow> u8 list" where
  "dd_chunk p xs = leb128 (dd_min p xs) @ vb_chunk (map (\<lambda>x. x - dd_min p xs) (deltas p xs))"

lemma length_deltas [simp]: "length (deltas p xs) = length xs"
  by (induction xs arbitrary: p) auto

lemma undeltas_deltas: "undeltas p m (map (\<lambda>x. x - m) (deltas p xs)) = xs"
  by (induction xs arbitrary: p) auto

lemma dd_delta_loop_eq:
  "dd_delta_loop xs p m = (deltas p xs, last (p # xs), fold min (deltas p xs) m)"
  by (induction xs arbitrary: p m) (auto simp: Let_def)

lemma dd_chunk_length: "length xs = 16 \<Longrightarrow> length (dd_chunk p xs) \<le> 146"
  using leb128_u64_length[of "dd_min p xs"]
    vb_chunk_length[of "map (\<lambda>x. x - dd_min p xs) (deltas p xs)"]
  by (simp add: dd_chunk_def)

lemma dd_chunk_nonempty: "length xs = 16 \<Longrightarrow> 2 \<le> length (dd_chunk p xs)"
  using leb128_length_pos[of "dd_min p xs"]
    vb_chunk_nonempty[of "map (\<lambda>x. x - dd_min p xs) (deltas p xs)"]
  by (simp add: dd_chunk_def)

subsection \<open>The operations meet the reference encoding\<close>

context byte_sink
begin

lemma dd_tput_ok:
  assumes s: "winv s" and l: "length xs = 16"
    and room: "length (dd_chunk (ddw_prev d) xs) \<le> ws_space_left W s"
  shows "\<exists>s'. DeltaDeltaStreamWriter_tput W xs (d, s)
           = Some (True, d\<lparr>ddw_prev := last xs\<rparr>, s') \<and>
         appended W wbytes winv s (dd_chunk (ddw_prev d) xs) s'"
proof -
  let ?m = "dd_min (ddw_prev d) xs"
  let ?out = "map (\<lambda>x. x - ?m) (deltas (ddw_prev d) xs)"
  have "length (leb128 ?m) \<le> ws_space_left W s" using room by (simp add: dd_chunk_def)
  from put_base128_ok[OF s this] obtain s1 where
    s1: "ws_put_base128 W ?m s = Some (True, s1)" and a1: "appended W wbytes winv s (leb128 ?m) s1"
    by blast
  have "length ?out = 16" using l by simp
  moreover have "length (vb_chunk ?out) \<le> ws_space_left W s1"
    using room appended_space[OF a1] by (simp add: dd_chunk_def)
  ultimately obtain s2 where
    s2: "ws_tput W ?out s1 = Some (True, s2)" and a2: "appended W wbytes winv s1 (vb_chunk ?out) s2"
    using tput_ok[OF appended_inv[OF a1]] by blast
  have "appended W wbytes winv s (dd_chunk (ddw_prev d) xs) s2"
    using appended_trans[OF a1 a2] by (simp add: dd_chunk_def)
  moreover have "xs \<noteq> []" using l by auto
  ultimately show ?thesis
    using s1 s2 l by (simp add: DeltaDeltaStreamWriter_tput_def dd_delta_loop_eq dd_min_def)
qed

end

lemma dd_read_within:
  "0 < ddr_counter d mod 16 \<Longrightarrow> ddr_counter d mod 16 + n \<le> 16 \<Longrightarrow>
   read_n (rs_next R) n r = Some (ds, r') \<Longrightarrow>
   read_n (DeltaDeltaStreamReader_next R) n (d, r) =
     Some (undeltas (ddr_prev d) (ddr_min d) ds,
           d\<lparr>ddr_counter := ddr_counter d + n,
             ddr_prev := last (ddr_prev d # undeltas (ddr_prev d) (ddr_min d) ds)\<rparr>, r')"
proof (induction n arbitrary: d r ds)
  case 0
  then show ?case by simp
next
  case (Suc n)
  from Suc.prems(3) obtain x r1 ds' where
    x: "rs_next R r = Some (x, r1)" "read_n (rs_next R) n r1 = Some (ds', r')" "ds = x # ds'"
    by (auto simp: bind_Some_conv split: prod.splits)
  let ?v = "ddr_prev d + x + ddr_min d"
  let ?d = "d\<lparr>ddr_counter := Suc (ddr_counter d), ddr_prev := ?v\<rparr>"
  have step: "DeltaDeltaStreamReader_next R (d, r) = Some (?v, ?d, r1)"
    using Suc.prems(1) x(1) by (simp add: DeltaDeltaStreamReader_next_def Let_def)
  show ?case
  proof (cases n)
    case 0
    with step x show ?thesis by simp
  next
    case (Suc k)
    have "Suc (ddr_counter d) mod 16 = Suc (ddr_counter d mod 16)"
      using Suc.prems(2) Suc by (auto simp: mod_Suc)
    then have "0 < ddr_counter ?d mod 16" "ddr_counter ?d mod 16 + n \<le> 16"
      using Suc.prems(2) by simp_all
    from Suc.IH[OF this x(2)] step x(3) show ?thesis by simp
  qed
qed

context byte_source
begin

lemma dd_read_chunk:
  assumes r: "rinv r" and c: "ddr_counter d mod 16 = 0" and l: "length xs = 16"
    and d: "rest r = dd_chunk (ddr_prev d) xs @ ys"
  shows "\<exists>d' r'. read_n (DeltaDeltaStreamReader_next R) 16 (d, r) = Some (xs, d', r') \<and>
           ddr_counter d' mod 16 = 0 \<and> ddr_prev d' = last xs \<and> rinv r' \<and> rest r' = ys"
proof -
  let ?m = "dd_min (ddr_prev d) xs"
  let ?out = "map (\<lambda>x. x - ?m) (deltas (ddr_prev d) xs)"
  have "rest r = leb128 ?m @ (vb_chunk ?out @ ys)" using d by (simp add: dd_chunk_def)
  from next_base128_ok[OF r this] obtain r1 where
    r1: "rs_next_base128 R r = Some (?m, r1)" "rinv r1" "rest r1 = vb_chunk ?out @ ys" by blast
  have "length ?out = 16" using l by simp
  from next_chunk_ok[OF r1(2) this r1(3)] obtain r2 where
    r2: "read_n (rs_next R) 16 r1 = Some (?out, r2)" "rinv r2" "rest r2 = ys" by blast
  have "read_n (rs_next R) (Suc 15) r1 = Some (?out, r2)" using r2(1) by simp
  then obtain x r3 ds where x: "rs_next R r1 = Some (x, r3)"
      "read_n (rs_next R) 15 r3 = Some (ds, r2)" "?out = x # ds"
    by (auto simp only: read_n.simps bind_Some_conv split: prod.splits) auto
  let ?v = "ddr_prev d + x + ?m"
  let ?d = "d\<lparr>ddr_min := ?m, ddr_counter := Suc (ddr_counter d), ddr_prev := ?v\<rparr>"
  have first: "DeltaDeltaStreamReader_next R (d, r) = Some (?v, ?d, r3)"
    using c r1(1) x(1) by (simp add: DeltaDeltaStreamReader_next_def Let_def)
  have c1: "ddr_counter ?d mod 16 = 1" using c by (simp add: mod_Suc)
  let ?us = "undeltas ?v ?m ds"
  have "read_n (DeltaDeltaStreamReader_next R) 15 (?d, r3) =
      Some (?us, ?d\<lparr>ddr_counter := ddr_counter ?d + 15, ddr_prev := last (?v # ?us)\<rparr>, r2)"
    using dd_read_within[of ?d 15 R r3 ds r2] c1 x(2) by simp
  moreover have xs: "?v # ?us = xs"
    using undeltas_deltas[of "ddr_prev d" ?m xs] x(3) by simp
  ultimately have "read_n (DeltaDeltaStreamReader_next R) (Suc 15) (d, r) =
      Some (xs, ?d\<lparr>ddr_counter := ddr_counter ?d + 15, ddr_prev := last xs\<rparr>, r2)"
    using first by (simp only: read_n.simps Option.bind.simps prod.case)
  moreover have "(ddr_counter ?d + 15) mod 16 = 0" using c by (simp add: mod_Suc mod_add_eq)
  ultimately show ?thesis using r2(2,3) by simp
qed

end

end
