(* ===== verification/Fcm.thy ===== *)
theory Fcm
  imports Streams
begin

text \<open>
  The predictors of \<^verbatim>\<open>storage/compression.cc\<close> and the FCM value encoder
  (\<open>encode_value\<close>, \<open>FcmStreamWriter\<close>, \<open>FcmStreamReader\<close>) of \<^verbatim>\<open>storage/compression.h\<close>, over
  any stream.  A \<open>double\<close> is its bit pattern: the encoder reads and writes it through a
  union and never computes with it.
\<close>

subsection \<open>Predictors\<close>

record simple_predictor =
  sp_last_value :: u64

definition SimplePredictor_predict_next :: "simple_predictor \<Rightarrow> u64 option" where
  "SimplePredictor_predict_next p = Some (sp_last_value p)"

definition SimplePredictor_update :: "u64 \<Rightarrow> simple_predictor \<Rightarrow> simple_predictor option" where
  "SimplePredictor_update value p = Some (p\<lparr>sp_last_value := value\<rparr>)"

record fcm_predictor =
  fp_table :: "u64 list"
  fp_last_hash :: u64
  fp_mask :: u64

definition FcmPredictor_new :: "u64 \<Rightarrow> fcm_predictor option" where
  "FcmPredictor_new table_size =
     (let mask = table_size - 1
      in if table_size AND mask \<noteq> 0 then None
         else Some \<lparr>fp_table = replicate (unat table_size) 0, fp_last_hash = 0, fp_mask = mask\<rparr>)"

definition FcmPredictor_predict_next :: "fcm_predictor \<Rightarrow> u64 option" where
  "FcmPredictor_predict_next p = at (fp_table p) (unat (fp_last_hash p))"

definition FcmPredictor_update :: "u64 \<Rightarrow> fcm_predictor \<Rightarrow> fcm_predictor option" where
  "FcmPredictor_update value p =
     do {
       table \<leftarrow> upd_at (fp_table p) (unat (fp_last_hash p)) value;
       Some (p\<lparr>fp_table := table,
               fp_last_hash := (push_bit 5 (fp_last_hash p) XOR drop_bit 50 value) AND fp_mask p\<rparr>) }"

text \<open>\<open>DfcmPredictor\<close>, with \<open>table\<close> a fixed array of \<open>PREDICTOR_N = 128\<close> cells.\<close>

record dfcm_predictor =
  df_table :: "u64 list"
  df_last_hash :: u64
  df_last_value :: u64
  df_mask :: u64

definition PREDICTOR_N :: nat where
  "PREDICTOR_N = 2 ^ 7"

definition DfcmPredictor_new :: "u64 \<Rightarrow> dfcm_predictor option" where
  "DfcmPredictor_new table_size =
     (let mask = table_size - 1
      in if table_size AND mask \<noteq> 0 then None
         else Some \<lparr>df_table = replicate PREDICTOR_N 0, df_last_hash = 0, df_last_value = 0,
                    df_mask = mask\<rparr>)"

definition DfcmPredictor_predict_next :: "dfcm_predictor \<Rightarrow> u64 option" where
  "DfcmPredictor_predict_next p =
     do { t \<leftarrow> at (df_table p) (unat (df_last_hash p)); Some (t + df_last_value p) }"

definition DfcmPredictor_update :: "u64 \<Rightarrow> dfcm_predictor \<Rightarrow> dfcm_predictor option" where
  "DfcmPredictor_update value p =
     do {
       table \<leftarrow> upd_at (df_table p) (unat (df_last_hash p)) (value - df_last_value p);
       Some (p\<lparr>df_table := table,
               df_last_hash := (push_bit 5 (df_last_hash p)
                                 XOR drop_bit 50 (value - df_last_value p)) AND df_mask p,
               df_last_value := value\<rparr>) }"

text \<open>What the encoders rely on: a predictor in its invariant always answers, and an update
  keeps the invariant.\<close>

locale predictor =
  fixes pinv :: "'p \<Rightarrow> bool"
    and predict :: "'p \<Rightarrow> u64 option"
    and update :: "u64 \<Rightarrow> 'p \<Rightarrow> 'p option"
  assumes predict_total: "pinv p \<Longrightarrow> \<exists>v. predict p = Some v"
    and update_total: "pinv p \<Longrightarrow> \<exists>p'. update v p = Some p' \<and> pinv p'"
begin

lemma updates_total: "pinv p \<Longrightarrow> \<exists>p'. fold (\<lambda>v q. Option.bind q (update v)) vs (Some p) = Some p' \<and> pinv p'"
proof (induction vs arbitrary: p)
  case (Cons v vs)
  from update_total[OF Cons.prems] obtain p' where "update v p = Some p'" "pinv p'" by blast
  with Cons.IH show ?case by simp
qed simp

end

lemma unat_and_mask_less: "unat (x AND (mask n :: u64)) < 2 ^ n"
proof -
  have "unat (x AND mask n) = unat (take_bit n x)" by (simp add: take_bit_eq_mask)
  also have "\<dots> = take_bit n (unat x)" by (rule unsigned_take_bit_eq)
  also have "\<dots> < 2 ^ n" by (rule take_bit_nat_less_exp)
  finally show ?thesis .
qed

interpretation simple_pred: predictor "\<lambda>_. True" SimplePredictor_predict_next SimplePredictor_update
  by unfold_locales (simp_all add: SimplePredictor_predict_next_def SimplePredictor_update_def)

definition fcm_pred_inv :: "fcm_predictor \<Rightarrow> bool" where
  "fcm_pred_inv p \<longleftrightarrow> (\<exists>n. fp_mask p = mask n \<and> length (fp_table p) = 2 ^ n) \<and>
     unat (fp_last_hash p) < length (fp_table p)"

interpretation fcm_pred: predictor fcm_pred_inv FcmPredictor_predict_next FcmPredictor_update
proof
  fix p :: fcm_predictor and v :: u64
  assume p: "fcm_pred_inv p"
  show "\<exists>v. FcmPredictor_predict_next p = Some v"
    using p by (simp add: fcm_pred_inv_def FcmPredictor_predict_next_def)
  show "\<exists>p'. FcmPredictor_update v p = Some p' \<and> fcm_pred_inv p'"
    using p by (auto simp: fcm_pred_inv_def FcmPredictor_update_def unat_and_mask_less)
qed

definition dfcm_inv :: "dfcm_predictor \<Rightarrow> bool" where
  "dfcm_inv p \<longleftrightarrow> df_mask p = mask 7 \<and> length (df_table p) = 128 \<and> unat (df_last_hash p) < 128"

interpretation dfcm: predictor dfcm_inv DfcmPredictor_predict_next DfcmPredictor_update
proof
  fix p :: dfcm_predictor and v :: u64
  assume p: "dfcm_inv p"
  show "\<exists>v. DfcmPredictor_predict_next p = Some v"
    using p by (simp add: dfcm_inv_def DfcmPredictor_predict_next_def)
  have "unat (x AND mask 7 :: u64) < 128" for x using unat_and_mask_less[of x 7] by simp
  then show "\<exists>p'. DfcmPredictor_update v p = Some p' \<and> dfcm_inv p'"
    using p by (simp add: dfcm_inv_def DfcmPredictor_update_def)
qed

lemma dfcm_new_inv: "\<exists>p. DfcmPredictor_new 128 = Some p \<and> dfcm_inv p"
  by (simp add: DfcmPredictor_new_def dfcm_inv_def PREDICTOR_N_def mask_eq_exp_minus_1)

subsection \<open>encode_value\<close>

text \<open>The single-byte cases of the fall-through switch: \<open>n\<close> bytes in a row, each followed
  by \<open>diff >>= 8\<close>.\<close>

primrec ev_bytes :: "'s wstream \<Rightarrow> nat \<Rightarrow> u64 \<Rightarrow> 's \<Rightarrow> (bool \<times> 's) option" where
  "ev_bytes W 0 diff s = Some (True, s)"
| "ev_bytes W (Suc n) diff s =
     do {
       (ok, s) \<leftarrow> ws_put_raw W (le_bytes 1 (diff AND 255)) s;
       if \<not> ok then Some (False, s) else ev_bytes W n (drop_bit 8 diff) s }"

definition fl_nbytes :: "u8 \<Rightarrow> nat" where
  "fl_nbytes flag = unat (flag AND 7) + 1"

definition fl_shift :: "u8 \<Rightarrow> nat" where
  "fl_shift flag = (64 - fl_nbytes flag * 8) * unat (drop_bit 3 flag)"

definition encode_value :: "'s wstream \<Rightarrow> u64 \<Rightarrow> u8 \<Rightarrow> 's \<Rightarrow> (bool \<times> 's) option" where
  "encode_value W diff flag s =
     (let nbytes = fl_nbytes flag; nshift = fl_shift flag; diff = drop_bit nshift diff
      in if 64 \<le> nshift then None
         else if nbytes = 8 then ws_put_raw W (le_bytes 8 diff) s
         else if 4 \<le> nbytes then
           do {
             (ok, s) \<leftarrow> ev_bytes W (nbytes - 4) diff s;
             if \<not> ok then Some (False, s)
             else ws_put_raw W (le_bytes 4 (drop_bit (8 * (nbytes - 4)) diff AND 0xFFFFFFFF)) s }
         else ev_bytes W nbytes diff s)"

subsection \<open>FcmStreamWriter\<close>

record fcm_writer =
  fw_predictor :: dfcm_predictor
  fw_prev_diff :: u64
  fw_prev_flag :: u8
  fw_nelements :: nat

definition FcmStreamWriter_new :: "fcm_writer option" where
  "FcmStreamWriter_new =
     do { p \<leftarrow> DfcmPredictor_new (of_nat PREDICTOR_N);
          Some \<lparr>fw_predictor = p, fw_prev_diff = 0, fw_prev_flag = 0, fw_nelements = 0\<rparr> }"

text \<open>\<open>encode\<close>: the difference to the prediction and its flag, and the updated predictor.\<close>

definition fcm_encode :: "u64 \<Rightarrow> dfcm_predictor \<Rightarrow> ((u64 \<times> u8) \<times> dfcm_predictor) option" where
  "fcm_encode bits p =
     do {
       predicted \<leftarrow> DfcmPredictor_predict_next p;
       p \<leftarrow> DfcmPredictor_update bits p;
       let diff = bits XOR predicted;
       if diff = 0 then Some ((0, 15), p)
       else
         let trailing_bytes = ctzll diff div 8; leading_bytes = clzll diff div 8
         in if trailing_bytes > leading_bytes
            then let nbytes = 8 - trailing_bytes;
                     nbytes = (if nbytes > 0 then nbytes - 1 else nbytes)
                 in Some ((diff, 8 OR (of_nat nbytes AND 7)), p)
            else let nbytes = 8 - leading_bytes;
                     nbytes = (if nbytes > 0 then nbytes - 1 else nbytes)
                 in Some ((diff, of_nat nbytes AND 7), p) }"

definition FcmStreamWriter_encode :: "u64 \<Rightarrow> fcm_writer \<Rightarrow> ((u64 \<times> u8) \<times> fcm_writer) option" where
  "FcmStreamWriter_encode value f =
     do { (e, p) \<leftarrow> fcm_encode value (fw_predictor f); Some (e, f\<lparr>fw_predictor := p\<rparr>) }"

text \<open>The encoding loop of \<open>tput\<close>, over the predictor.\<close>

primrec fcm_encode_all ::
  "u64 list \<Rightarrow> dfcm_predictor \<Rightarrow> ((u64 \<times> u8) list \<times> dfcm_predictor) option" where
  "fcm_encode_all [] p = Some ([], p)"
| "fcm_encode_all (v # vs) p =
     do { (e, p) \<leftarrow> fcm_encode v p; (es, p) \<leftarrow> fcm_encode_all vs p; Some (e # es, p) }"

definition fcm_put_pair ::
  "'s wstream \<Rightarrow> u64 \<Rightarrow> u8 \<Rightarrow> u64 \<Rightarrow> u8 \<Rightarrow> 's \<Rightarrow> (bool \<times> 's) option" where
  "fcm_put_pair W prev_diff prev_flag diff flag s =
     do {
       (ok, s) \<leftarrow> ws_put_raw W [push_bit 4 prev_flag OR flag] s;
       if \<not> ok then Some (False, s)
       else do {
         (ok, s) \<leftarrow> encode_value W prev_diff prev_flag s;
         if \<not> ok then Some (False, s) else encode_value W diff flag s } }"

definition fl_norm :: "u8 \<Rightarrow> u8" where
  "fl_norm flag = (if flag = 15 then 0 else flag)"

fun fcm_pair_loop :: "'s wstream \<Rightarrow> (u64 \<times> u8) list \<Rightarrow> 's \<Rightarrow> (bool \<times> 's) option" where
  "fcm_pair_loop W ((d1, f1) # (d2, f2) # es) s =
     do {
       (ok, s) \<leftarrow> fcm_put_pair W d1 (fl_norm f1) d2 (fl_norm f2) s;
       if \<not> ok then Some (False, s) else fcm_pair_loop W es s }"
| "fcm_pair_loop W _ s = Some (True, s)"

definition FcmStreamWriter_commit ::
  "'s wstream \<Rightarrow> fcm_writer \<times> 's \<Rightarrow> (bool \<times> fcm_writer \<times> 's) option" where
  "FcmStreamWriter_commit W fs =
     (case fs of (f, s) \<Rightarrow>
        do {
          (ok, s) \<leftarrow> (if odd (fw_nelements f)
                      then fcm_put_pair W (fw_prev_diff f) (fw_prev_flag f) 0 0 s
                      else Some (True, s));
          if \<not> ok then Some (False, f, s)
          else do { (ok, s) \<leftarrow> ws_commit W s; Some (ok, f, s) } })"

definition FcmStreamWriter_tput ::
  "'s wstream \<Rightarrow> u64 list \<Rightarrow> fcm_writer \<times> 's \<Rightarrow> (bool \<times> fcm_writer \<times> 's) option" where
  "FcmStreamWriter_tput W values fs =
     (case fs of (f, s) \<Rightarrow>
        if length values \<noteq> 16 then None
        else do {
          (es, p) \<leftarrow> fcm_encode_all values (fw_predictor f);
          let f = f\<lparr>fw_predictor := p\<rparr>;
          let sum_diff = fold (\<lambda>e acc. acc OR fst e) es 0;
          (ok, s) \<leftarrow> (if sum_diff = 0 then ws_put_raw W [255] s else fcm_pair_loop W es s);
          if \<not> ok then Some (False, f, s) else FcmStreamWriter_commit W (f, s) })"

definition FcmStreamWriter_put ::
  "'s wstream \<Rightarrow> u64 \<Rightarrow> fcm_writer \<times> 's \<Rightarrow> (bool \<times> fcm_writer \<times> 's) option" where
  "FcmStreamWriter_put W value fs =
     (case fs of (f, s) \<Rightarrow>
        do {
          ((diff, flag), f) \<leftarrow> FcmStreamWriter_encode value f;
          let flag = fl_norm flag;
          if even (fw_nelements f)
          then Some (True, f\<lparr>fw_prev_diff := diff, fw_prev_flag := flag,
                             fw_nelements := fw_nelements f + 1\<rparr>, s)
          else do {
            (ok, s) \<leftarrow> fcm_put_pair W (fw_prev_diff f) (fw_prev_flag f) diff flag s;
            if \<not> ok then Some (False, f, s)
            else Some (True, f\<lparr>fw_nelements := fw_nelements f + 1\<rparr>, s) } })"

subsection \<open>FcmStreamReader\<close>

record fcm_reader =
  fr_predictor :: dfcm_predictor
  fr_flags :: u32
  fr_iter :: u32
  fr_nzeroes :: u32

definition FcmStreamReader_new :: "fcm_reader option" where
  "FcmStreamReader_new =
     do { p \<leftarrow> DfcmPredictor_new (of_nat PREDICTOR_N);
          Some \<lparr>fr_predictor = p, fr_flags = 0, fr_iter = 0, fr_nzeroes = 0\<rparr> }"

primrec dv_loop :: "'r rstream \<Rightarrow> nat \<Rightarrow> nat \<Rightarrow> u64 \<Rightarrow> 'r \<Rightarrow> (u64 \<times> 'r) option" where
  "dv_loop R 0 i diff r = Some (diff, r)"
| "dv_loop R (Suc n) i diff r =
     do { (bs, r) \<leftarrow> rs_read_raw R 1 r;
          dv_loop R n (i + 1) (diff OR push_bit (i * 8) (le_val bs)) r }"

definition decode_value :: "'r rstream \<Rightarrow> u8 \<Rightarrow> 'r \<Rightarrow> (u64 \<times> 'r) option" where
  "decode_value R flag r =
     do {
       (diff, r) \<leftarrow> dv_loop R (fl_nbytes flag) 0 0 r;
       if 64 \<le> fl_shift flag then None else Some (push_bit (fl_shift flag) diff, r) }"

definition FcmStreamReader_next ::
  "'r rstream \<Rightarrow> fcm_reader \<times> 'r \<Rightarrow> (u64 \<times> fcm_reader \<times> 'r) option" where
  "FcmStreamReader_next R fr =
     (case fr of (f, r) \<Rightarrow>
        do {
          (flag :: u8, f, r) \<leftarrow>
            (if even (fr_iter f) \<and> fr_nzeroes f = 0
             then do {
               (bs, r) \<leftarrow> rs_read_raw R 1 r;
               let flags = le_val bs;
               Some (ucast (drop_bit 4 flags),
                     f\<lparr>fr_flags := flags,
                       fr_nzeroes := (if flags = 255 then 16 else fr_nzeroes f)\<rparr>, r) }
             else Some (ucast (fr_flags f AND 15), f, r));
          let f = f\<lparr>fr_iter := fr_iter f + 1\<rparr>;
          (diff, f, r) \<leftarrow>
            (if fr_nzeroes f = 0
             then do { (diff, r) \<leftarrow> decode_value R flag r; Some (diff, f, r) }
             else Some (0, f\<lparr>fr_nzeroes := fr_nzeroes f - 1\<rparr>, r));
          predicted \<leftarrow> DfcmPredictor_predict_next (fr_predictor f);
          let bits = predicted XOR diff;
          p \<leftarrow> DfcmPredictor_update bits (fr_predictor f);
          Some (bits, f\<lparr>fr_predictor := p\<rparr>, r) })"

subsection \<open>Reference encoding of a chunk of values\<close>

definition fcm_value :: "u64 \<Rightarrow> u8 \<Rightarrow> u8 list" where
  "fcm_value d f = le_bytes (fl_nbytes f) (drop_bit (fl_shift f) d)"

fun fcm_pairs :: "(u64 \<times> u8) list \<Rightarrow> u8 list" where
  "fcm_pairs ((d1, f1) # (d2, f2) # es) =
     (push_bit 4 (fl_norm f1) OR fl_norm f2) # fcm_value d1 (fl_norm f1) @ fcm_value d2 (fl_norm f2)
       @ fcm_pairs es"
| "fcm_pairs _ = []"

definition fcm_chunk :: "(u64 \<times> u8) list \<Rightarrow> u8 list" where
  "fcm_chunk es = (if \<forall>e \<in> set es. fst e = 0 then [255] else fcm_pairs es)"

text \<open>A difference and a flag that carries all of its non-zero bytes.\<close>

definition fcm_ok :: "u64 \<times> u8 \<Rightarrow> bool" where
  "fcm_ok e \<longleftrightarrow> (case e of (d, f) \<Rightarrow>
     unat (fl_norm f) < 15 \<and> fl_shift (fl_norm f) < 64 \<and>
     push_bit (fl_shift (fl_norm f))
       (take_bit (8 * fl_nbytes (fl_norm f)) (drop_bit (fl_shift (fl_norm f)) d)) = d)"

lemma fl_nbytes_le: "fl_nbytes f \<le> 8"
proof -
  have "unat (f AND 7) < 8" using unat_and_mask_less[of "ucast f" 3]
  proof -
    have "f AND 7 = take_bit 3 f" by (simp add: take_bit_eq_mask mask_eq_exp_minus_1)
    then have "unat (f AND 7) = take_bit 3 (unat f)" by (simp add: unsigned_take_bit_eq)
    then show ?thesis using take_bit_nat_less_exp[of 3 "unat f"] by simp
  qed
  then show ?thesis by (simp add: fl_nbytes_def)
qed

lemma fcm_value_length [simp]: "length (fcm_value d f) = fl_nbytes f"
  by (simp add: fcm_value_def)

lemma fcm_pairs_length: "length (fcm_pairs es) \<le> 17 * (length es div 2)"
proof (induction es rule: fcm_pairs.induct)
  case (1 d1 f1 d2 f2 es)
  then show ?case using fl_nbytes_le[of "fl_norm f1"] fl_nbytes_le[of "fl_norm f2"] by simp
qed simp_all

lemma fcm_chunk_length: "length es = 16 \<Longrightarrow> length (fcm_chunk es) \<le> 136"
  using fcm_pairs_length[of es] by (simp add: fcm_chunk_def)

lemma fcm_chunk_nonempty: "length es = 16 \<Longrightarrow> 1 \<le> length (fcm_chunk es)"
  by (cases es rule: fcm_pairs.cases) (auto simp: fcm_chunk_def)

lemma fl_low: "k < 8 \<Longrightarrow>
    (let g = of_nat k AND 7 in fl_norm g = g \<and> fl_nbytes g = k + 1 \<and> fl_shift g = 0 \<and> unat g < 15)"
proof -
  have "\<forall>k \<in> set [0..<8].
     (let g = of_nat k AND 7 in fl_norm g = g \<and> fl_nbytes g = k + 1 \<and> fl_shift g = 0 \<and> unat g < 15)"
    by code_simp
  then show "k < 8 \<Longrightarrow> ?thesis" by auto
qed

lemma fl_high: "k < 7 \<Longrightarrow>
    (let g = 8 OR (of_nat k AND 7)
     in fl_norm g = g \<and> fl_nbytes g = k + 1 \<and> fl_shift g = 64 - 8 * (k + 1) \<and> unat g < 15)"
proof -
  have "\<forall>k \<in> set [0..<7].
    (let g = 8 OR (of_nat k AND 7)
     in fl_norm g = g \<and> fl_nbytes g = k + 1 \<and> fl_shift g = 64 - 8 * (k + 1) \<and> unat g < 15)"
    by code_simp
  then show "k < 7 \<Longrightarrow> ?thesis" by auto
qed

lemma fcm_ok_low:
  assumes "d \<noteq> 0"
  shows "fcm_ok (d, of_nat (7 - clzll d div 8) AND 7)"
proof -
  let ?k = "7 - clzll d div 8"
  have "clzll d < 64" using clzll_top_bit[OF assms] by simp
  then have c: "64 - clzll d \<le> 8 * (?k + 1)" by presburger
  have "take_bit (8 * (?k + 1)) d = d"
  proof (rule bit_word_eqI)
    fix i assume "i < LENGTH(64)"
    then show "bit (take_bit (8 * (?k + 1)) d) i = bit d i"
      using clzll_bit[of i d] c by (cases "i < 8 * (?k + 1)") (simp_all add: bit_take_bit_iff)
  qed
  with fl_low[of ?k] show ?thesis by (simp add: fcm_ok_def Let_def)
qed

lemma fcm_ok_high:
  assumes "d \<noteq> 0" "clzll d div 8 < ctzll d div 8"
  shows "fcm_ok (d, 8 OR (of_nat (7 - ctzll d div 8) AND 7))"
proof -
  let ?k = "7 - ctzll d div 8"
  have c: "ctzll d < 64" using ctzll_low_bit[OF assms(1)] by simp
  then have k: "?k < 7" "8 * (?k + 1) = 64 - 8 * (ctzll d div 8)" using assms(2) by auto
  let ?sh = "8 * (ctzll d div 8)"
  have sh: "64 - 8 * (?k + 1) = ?sh" using c by (auto simp: k(2))
  have "push_bit ?sh (take_bit (64 - ?sh) (drop_bit ?sh d)) = d"
  proof (rule bit_word_eqI)
    fix i assume "i < LENGTH(64)"
    moreover have "?sh \<le> ctzll d" by simp
    ultimately show "bit (push_bit ?sh (take_bit (64 - ?sh) (drop_bit ?sh d))) i = bit d i"
      using ctzll_bit[of i d] by (cases "?sh \<le> i") (auto simp: bit_simps)
  qed
  moreover have "64 - 8 * (?k + 1) < 64" by simp
  ultimately show ?thesis
    using fl_high[OF k(1)] unfolding fcm_ok_def Let_def prod.case by (simp only: sh k(2)) simp
qed

lemma fcm_ok_zero: "fcm_ok (0, 15)"
  by (simp add: fcm_ok_def fl_norm_def fl_shift_def)

lemma fcm_encode_correct:
  assumes "dfcm_inv p"
  shows "\<exists>predicted f p'. DfcmPredictor_predict_next p = Some predicted \<and>
     DfcmPredictor_update v p = Some p' \<and> dfcm_inv p' \<and>
     fcm_encode v p = Some ((v XOR predicted, f), p') \<and> fcm_ok (v XOR predicted, f)"
proof -
  obtain q where q: "DfcmPredictor_predict_next p = Some q" using dfcm.predict_total[OF assms] by blast
  obtain p' where p': "DfcmPredictor_update v p = Some p'" "dfcm_inv p'"
    using dfcm.update_total[OF assms] by blast
  let ?d = "v XOR q"
  consider "?d = 0" | "?d \<noteq> 0" "clzll ?d div 8 < ctzll ?d div 8" | "?d \<noteq> 0" "\<not> clzll ?d div 8 < ctzll ?d div 8"
    by blast
  then show ?thesis
  proof cases
    case 1
    then show ?thesis using q p' fcm_ok_zero by (auto simp: fcm_encode_def Let_def)
  next
    case 2
    then have "ctzll ?d div 8 < 8" using ctzll_low_bit[OF 2(1)] by linarith
    with 2 fcm_ok_high[OF 2] q p' show ?thesis by (simp add: fcm_encode_def Let_def)
  next
    case 3
    then have "clzll ?d div 8 < 8" using clzll_top_bit[OF 3(1)] by linarith
    with 3 fcm_ok_low[OF 3(1)] q p' show ?thesis by (simp add: fcm_encode_def Let_def)
  qed
qed

lemma fcm_encode_all_correct:
  "dfcm_inv p \<Longrightarrow> \<exists>es p'. fcm_encode_all vs p = Some (es, p') \<and> dfcm_inv p' \<and>
     length es = length vs \<and> (\<forall>e \<in> set es. fcm_ok e)"
proof (induction vs arbitrary: p)
  case (Cons v vs)
  from fcm_encode_correct[OF Cons.prems, of v] obtain e p1 where
    "fcm_encode v p = Some (e, p1)" "dfcm_inv p1" "fcm_ok e" by blast
  with Cons.IH[of p1] show ?case by auto
qed simp

lemma sum_diff_zero: "fold (\<lambda>e acc. acc OR fst e) es (0 :: u64) = 0 \<longleftrightarrow> (\<forall>e \<in> set es. fst e = 0)"
proof -
  have "fold (\<lambda>e acc. acc OR fst e) es (a :: u64) = 0 \<longleftrightarrow> a = 0 \<and> (\<forall>e \<in> set es. fst e = 0)" for a
    by (induction es arbitrary: a) (auto simp: or_eq_0_iff)
  then show ?thesis by simp
qed

lemma le_bytes_and_mask32: "le_bytes 4 (x AND 0xFFFFFFFF :: u64) = le_bytes 4 x"
proof -
  have "(0xFFFFFFFF :: u64) = mask 32" by (simp add: mask_eq_exp_minus_1)
  then have "x AND 0xFFFFFFFF = take_bit 32 x" by (simp add: take_bit_eq_mask)
  then show ?thesis using le_bytes_take_bit[of 4 32 x] by simp
qed

lemma ucast_and_255: "(ucast (x AND 255 :: u64) :: u8) = ucast x"
proof -
  have "(255 :: u64) = mask 8" by (simp add: mask_eq_exp_minus_1)
  then have "x AND 255 = take_bit 8 x" by (simp add: take_bit_eq_mask)
  then show ?thesis by (simp only:) (rule bit_word_eqI, simp add: bit_simps)
qed

subsection \<open>The writer meets the reference encoding\<close>

context byte_sink
begin

lemma ev_bytes_ok:
  "winv s \<Longrightarrow> n \<le> ws_space_left W s \<Longrightarrow>
   \<exists>s'. ev_bytes W n d s = Some (True, s') \<and> appended W wbytes winv s (le_bytes n d) s'"
proof (induction n arbitrary: d s)
  case 0
  then show ?case by (simp add: appended_Nil)
next
  case (Suc n)
  have b: "le_bytes 1 (d AND 255) = [ucast d]" by (simp add: ucast_and_255)
  from put_raw_ok[OF Suc.prems(1), of "[ucast d]"] Suc.prems(2) obtain s1 where
    s1: "ws_put_raw W [ucast d] s = Some (True, s1)" "appended W wbytes winv s [ucast d] s1" by auto
  have "n \<le> ws_space_left W s1" using appended_space[OF s1(2)] Suc.prems(2) by simp
  from Suc.IH[OF appended_inv[OF s1(2)] this, of "drop_bit 8 d"]
  obtain s2 where s2: "ev_bytes W n (drop_bit 8 d) s1 = Some (True, s2)"
    "appended W wbytes winv s1 (le_bytes n (drop_bit 8 d)) s2" by blast
  from appended_trans[OF s1(2) s2(2)] s1(1) s2(1) b show ?case by simp
qed

lemma encode_value_ok:
  assumes s: "winv s" and sh: "fl_shift f < 64" and room: "fl_nbytes f \<le> ws_space_left W s"
  shows "\<exists>s'. encode_value W d f s = Some (True, s') \<and> appended W wbytes winv s (fcm_value d f) s'"
proof -
  let ?d = "drop_bit (fl_shift f) d"
  consider "fl_nbytes f = 8" | "4 \<le> fl_nbytes f" "fl_nbytes f \<noteq> 8" | "fl_nbytes f < 4" by linarith
  then show ?thesis
  proof cases
    case 1
    with put_raw_ok[OF s, of "le_bytes 8 ?d"] sh room show ?thesis
      by (simp add: encode_value_def fcm_value_def)
  next
    case 2
    let ?n = "fl_nbytes f - 4"
    let ?e = "drop_bit (8 * ?n) ?d"
    have "?n \<le> ws_space_left W s" using room by simp
    from ev_bytes_ok[OF s this, of ?d] obtain s1 where
      s1: "ev_bytes W ?n ?d s = Some (True, s1)" "appended W wbytes winv s (le_bytes ?n ?d) s1" by blast
    have "length (le_bytes 4 (?e AND 0xFFFFFFFF)) \<le> ws_space_left W s1"
      using appended_space[OF s1(2)] 2 room by simp
    from put_raw_ok[OF appended_inv[OF s1(2)] this] obtain s2 where
      s2: "ws_put_raw W (le_bytes 4 (?e AND 0xFFFFFFFF)) s1 = Some (True, s2)"
      "appended W wbytes winv s1 (le_bytes 4 (?e AND 0xFFFFFFFF)) s2" by blast
    have "le_bytes ?n ?d @ le_bytes 4 (?e AND 0xFFFFFFFF) = fcm_value d f"
      unfolding le_bytes_and_mask32 le_bytes_append using 2 by (simp add: fcm_value_def)
    with appended_trans[OF s1(2) s2(2)] s1(1) s2(1) 2 sh show ?thesis
      by (simp add: encode_value_def Let_def)
  next
    case 3
    with ev_bytes_ok[OF s room, of ?d] sh show ?thesis
      by (simp add: encode_value_def Let_def fcm_value_def)
  qed
qed

lemma fcm_put_pair_ok:
  assumes s: "winv s" and sh: "fl_shift f1 < 64" "fl_shift f2 < 64"
    and room: "1 + fl_nbytes f1 + fl_nbytes f2 \<le> ws_space_left W s"
  shows "\<exists>s'. fcm_put_pair W d1 f1 d2 f2 s = Some (True, s') \<and>
     appended W wbytes winv s ((push_bit 4 f1 OR f2) # fcm_value d1 f1 @ fcm_value d2 f2) s'"
proof -
  let ?b = "push_bit 4 f1 OR f2"
  from put_raw_ok[OF s, of "[?b]"] room obtain s1 where
    s1: "ws_put_raw W [?b] s = Some (True, s1)" "appended W wbytes winv s [?b] s1" by auto
  have "fl_nbytes f1 \<le> ws_space_left W s1" using appended_space[OF s1(2)] room by simp
  from encode_value_ok[OF appended_inv[OF s1(2)] sh(1) this, of d1]
  obtain s2 where s2: "encode_value W d1 f1 s1 = Some (True, s2)"
    "appended W wbytes winv s1 (fcm_value d1 f1) s2" by blast
  have "fl_nbytes f2 \<le> ws_space_left W s2"
    using appended_space[OF s1(2)] appended_space[OF s2(2)] room by simp
  from encode_value_ok[OF appended_inv[OF s2(2)] sh(2) this, of d2]
  obtain s3 where s3: "encode_value W d2 f2 s2 = Some (True, s3)"
    "appended W wbytes winv s2 (fcm_value d2 f2) s3" by blast
  from appended_trans[OF appended_trans[OF s1(2) s2(2)] s3(2)] s1(1) s2(1) s3(1) show ?thesis
    by (simp add: fcm_put_pair_def)
qed

lemma fcm_pair_loop_ok:
  "winv s \<Longrightarrow> \<forall>e \<in> set es. fcm_ok e \<Longrightarrow> length (fcm_pairs es) \<le> ws_space_left W s \<Longrightarrow>
   \<exists>s'. fcm_pair_loop W es s = Some (True, s') \<and> appended W wbytes winv s (fcm_pairs es) s'"
proof (induction es arbitrary: s rule: fcm_pairs.induct)
  case (1 d1 f1 d2 f2 es)
  let ?bs = "(push_bit 4 (fl_norm f1) OR fl_norm f2) # fcm_value d1 (fl_norm f1) @ fcm_value d2 (fl_norm f2)"
  from fcm_put_pair_ok[OF 1(2), of "fl_norm f1" "fl_norm f2" d1 d2] 1(3,4) obtain s1 where
    s1: "fcm_put_pair W d1 (fl_norm f1) d2 (fl_norm f2) s = Some (True, s1)"
    "appended W wbytes winv s ?bs s1" by (auto simp: fcm_ok_def)
  have "\<forall>e \<in> set es. fcm_ok e" "length (fcm_pairs es) \<le> ws_space_left W s1"
    using 1(3,4) appended_space[OF s1(2)] by simp_all
  from 1(1)[OF appended_inv[OF s1(2)] this] obtain s2 where
    s2: "fcm_pair_loop W es s1 = Some (True, s2)" "appended W wbytes winv s1 (fcm_pairs es) s2"
    by blast
  from appended_trans[OF s1(2) s2(2)] s1(1) s2(1) show ?case by simp
qed (simp_all add: appended_Nil)

lemma fcm_tput_ok:
  assumes s: "winv s" and even: "even (fw_nelements f)" and l: "length vs = 16"
    and enc: "fcm_encode_all vs (fw_predictor f) = Some (es, p')"
    and ok: "\<forall>e \<in> set es. fcm_ok e"
    and room: "length (fcm_chunk es) \<le> ws_space_left W s"
  shows "\<exists>s'. FcmStreamWriter_tput W vs (f, s) = Some (True, f\<lparr>fw_predictor := p'\<rparr>, s') \<and>
           appended W wbytes winv s (fcm_chunk es) s'"
proof -
  have "\<exists>s'. (if fold (\<lambda>e acc. acc OR fst e) es 0 = 0 then ws_put_raw W [255] s
              else fcm_pair_loop W es s) = Some (True, s') \<and>
            appended W wbytes winv s (fcm_chunk es) s'"
  proof (cases "\<forall>e \<in> set es. fst e = 0")
    case True
    with put_raw_ok[OF s, of "[255]"] room show ?thesis
      unfolding sum_diff_zero fcm_chunk_def by simp
  next
    case False
    have "length (fcm_pairs es) \<le> ws_space_left W s"
      using room unfolding fcm_chunk_def if_not_P[OF False] .
    from fcm_pair_loop_ok[OF s ok this] show ?thesis
      unfolding sum_diff_zero fcm_chunk_def if_not_P[OF False] .
  qed
  then obtain s1 where s1: "(if fold (\<lambda>e acc. acc OR fst e) es 0 = 0 then ws_put_raw W [255] s
              else fcm_pair_loop W es s) = Some (True, s1)"
    and a: "appended W wbytes winv s (fcm_chunk es) s1" by blast
  from commit_ok[OF appended_inv[OF a]] s1 a l enc even show ?thesis
    by (simp add: FcmStreamWriter_tput_def FcmStreamWriter_commit_def Let_def)
qed

end

subsection \<open>The reader inverts the reference encoding\<close>

lemma fl_byte_decode:
  assumes "unat g1 < 15" "unat g2 < 15"
  shows "ucast (drop_bit 4 (le_val [push_bit 4 g1 OR g2] :: u32)) = g1"
    "ucast ((le_val [push_bit 4 g1 OR g2] :: u32) AND 15) = g2"
    "(le_val [push_bit 4 g1 OR g2] :: u32) \<noteq> 255"
proof -
  have all: "\<forall>i \<in> set [0..<15]. \<forall>j \<in> set [0..<15].
      (let g1 = of_nat i :: u8; g2 = of_nat j :: u8; b = le_val [push_bit 4 g1 OR g2] :: u32
       in ucast (drop_bit 4 b) = g1 \<and> ucast (b AND 15) = g2 \<and> b \<noteq> 255)"
    by code_simp
  have "unat g1 \<in> set [0..<15]" "unat g2 \<in> set [0..<15]" using assms by simp_all
  from bspec[OF bspec[OF all this(1)] this(2)] show "ucast (drop_bit 4 (le_val [push_bit 4 g1 OR g2] :: u32)) = g1"
    "ucast ((le_val [push_bit 4 g1 OR g2] :: u32) AND 15) = g2"
    "(le_val [push_bit 4 g1 OR g2] :: u32) \<noteq> 255"
    by (simp_all add: Let_def)
qed

text \<open>The state of the reader between two pairs.\<close>

definition fr_ready :: "fcm_reader \<Rightarrow> dfcm_predictor \<Rightarrow> bool" where
  "fr_ready f p \<longleftrightarrow> fr_predictor f = p \<and> dfcm_inv p \<and> fr_nzeroes f = 0 \<and> even (fr_iter f)"

lemma xor_xor_cancel: "q XOR (v XOR q) = (v :: u64)"
  by (rule bit_word_eqI) (auto simp: bit_simps)

context byte_source
begin

lemma dv_loop_ok:
  "rinv r \<Longrightarrow> rest r = bs @ ys \<Longrightarrow>
   \<exists>r'. dv_loop R (length bs) i d r = Some (le_acc bs (8 * i) d, r') \<and> rinv r' \<and> rest r' = ys"
proof (induction bs arbitrary: i d r)
  case (Cons b bs)
  from read_raw_ok[OF Cons.prems(1), of "[b]" "bs @ ys"] Cons.prems(2) obtain r1 where
    r1: "rs_read_raw R 1 r = Some ([b], r1)" "rinv r1" "rest r1 = bs @ ys" by auto
  have "8 * i + 8 = 8 * (i + 1)" by simp
  with Cons.IH[OF r1(2,3), of "i + 1" "d OR push_bit (i * 8) (ucast b)"] r1(1) show ?case
    by (simp add: mult.commute add.commute)
qed simp

lemma decode_value_ok:
  assumes "rinv r" "fcm_ok (d, f)" "rest r = fcm_value d (fl_norm f) @ ys"
  shows "\<exists>r'. decode_value R (fl_norm f) r = Some (d, r') \<and> rinv r' \<and> rest r' = ys"
proof -
  let ?g = "fl_norm f"
  from dv_loop_ok[OF assms(1,3), of 0 0] obtain r' where
    "dv_loop R (fl_nbytes ?g) 0 0 r = Some (le_acc (fcm_value d ?g) 0 0, r')" "rinv r'" "rest r' = ys"
    by auto
  then show ?thesis
    using assms(2) by (simp add: decode_value_def fcm_ok_def fcm_value_def le_acc_le_val le_val_le_bytes)
qed

lemma fcm_next_first:
  assumes f: "fr_ready f p" and r: "rinv r" and enc: "fcm_encode v p = Some ((d, fl), p')"
    and g: "unat g < 15" and d: "rest r = (push_bit 4 (fl_norm fl) OR g) # fcm_value d (fl_norm fl) @ ys"
  shows "\<exists>f' r'. FcmStreamReader_next R (f, r) = Some (v, f', r') \<and> fr_predictor f' = p' \<and>
     fr_nzeroes f' = 0 \<and> odd (fr_iter f') \<and> ucast (fr_flags f' AND 15) = g \<and> dfcm_inv p' \<and>
     rinv r' \<and> rest r' = ys"
proof -
  let ?b = "push_bit 4 (fl_norm fl) OR g"
  from fcm_encode_correct[of p v] f enc obtain q where
    q: "DfcmPredictor_predict_next p = Some q" "DfcmPredictor_update v p = Some p'" "dfcm_inv p'"
    "d = v XOR q" "fcm_ok (d, fl)" by (auto simp: fr_ready_def)
  note fb = fl_byte_decode[OF _ g, of "fl_norm fl"]
  from read_raw_ok[OF r, of "[?b]"] d obtain r1 where
    r1: "rs_read_raw R 1 r = Some ([?b], r1)" "rinv r1" "rest r1 = fcm_value d (fl_norm fl) @ ys" by auto
  from decode_value_ok[OF r1(2) q(5) r1(3)] obtain r2 where
    r2: "decode_value R (fl_norm fl) r1 = Some (d, r2)" "rinv r2" "rest r2 = ys" by blast
  have "unat (fl_norm fl) < 15" using q(5) by (simp add: fcm_ok_def)
  with f r1(1) r2 q fb show ?thesis
    by (simp add: FcmStreamReader_next_def fr_ready_def Let_def xor_xor_cancel del: le_val.simps)
qed

lemma fcm_next_second:
  assumes f: "fr_predictor f = p" "dfcm_inv p" "fr_nzeroes f = 0" "odd (fr_iter f)"
    "ucast (fr_flags f AND 15) = fl_norm fl"
    and r: "rinv r" and enc: "fcm_encode v p = Some ((d, fl), p')"
    and d: "rest r = fcm_value d (fl_norm fl) @ ys"
  shows "\<exists>f' r'. FcmStreamReader_next R (f, r) = Some (v, f', r') \<and> fr_ready f' p' \<and>
     rinv r' \<and> rest r' = ys"
proof -
  from fcm_encode_correct[of p v] f enc obtain q where
    q: "DfcmPredictor_predict_next p = Some q" "DfcmPredictor_update v p = Some p'" "dfcm_inv p'"
    "d = v XOR q" "fcm_ok (d, fl)" by auto
  from decode_value_ok[OF r q(5) d] obtain r2 where
    r2: "decode_value R (fl_norm fl) r = Some (d, r2)" "rinv r2" "rest r2 = ys" by blast
  with f q show ?thesis
    by (simp add: FcmStreamReader_next_def fr_ready_def Let_def xor_xor_cancel)
qed

lemma fcm_read_pairs:
  "fr_ready f p \<Longrightarrow> rinv r \<Longrightarrow> even (length vs) \<Longrightarrow> fcm_encode_all vs p = Some (es, p') \<Longrightarrow>
   rest r = fcm_pairs es @ ys \<Longrightarrow>
   \<exists>f' r'. read_n (FcmStreamReader_next R) (length vs) (f, r) = Some (vs, f', r') \<and>
     fr_ready f' p' \<and> rinv r' \<and> rest r' = ys"
proof (induction vs arbitrary: f p r es rule: induct_list012)
  case (3 v w vs)
  from 3(6) obtain d1 f1 p1 d2 f2 p2 es' where
    e: "fcm_encode v p = Some ((d1, f1), p1)" "fcm_encode w p1 = Some ((d2, f2), p2)"
    "fcm_encode_all vs p2 = Some (es', p')" "es = (d1, f1) # (d2, f2) # es'"
    by (auto simp: bind_Some_conv split: prod.splits)
  have p: "dfcm_inv p" using 3(3) by (simp add: fr_ready_def)
  from fcm_encode_correct[OF p, of v] e(1) have p1: "dfcm_inv p1" by auto
  from fcm_encode_correct[OF p1, of w] e(2) have f2: "fcm_ok (d2, f2)" by auto
  then have g2: "unat (fl_norm f2) < 15" by (simp add: fcm_ok_def)
  have d: "rest r = (push_bit 4 (fl_norm f1) OR fl_norm f2) # fcm_value d1 (fl_norm f1) @
      (fcm_value d2 (fl_norm f2) @ (fcm_pairs es' @ ys))"
    using 3(7) e(4) by simp
  from fcm_next_first[OF 3(3,4) e(1) g2 d] obtain fa ra where
    a: "FcmStreamReader_next R (f, r) = Some (v, fa, ra)" "fr_predictor fa = p1" "fr_nzeroes fa = 0"
    "odd (fr_iter fa)" "ucast (fr_flags fa AND 15) = fl_norm f2" "rinv ra"
    "rest ra = fcm_value d2 (fl_norm f2) @ (fcm_pairs es' @ ys)" by blast
  from fcm_next_second[OF a(2) p1 a(3,4,5,6) e(2) a(7)] obtain fb rb where
    b: "FcmStreamReader_next R (fa, ra) = Some (w, fb, rb)" "fr_ready fb p2" "rinv rb"
    "rest rb = fcm_pairs es' @ ys" by blast
  have "even (length vs)" using 3(5) by simp
  from 3(1)[OF b(2,3) this e(3) b(4)] a(1) b(1) show ?case by auto
qed auto

lemma fcm_next_zero:
  assumes "fr_predictor f = p" "dfcm_inv p" "fr_nzeroes f = of_nat (Suc n)" "Suc n < 2 ^ 32"
    and enc: "fcm_encode v p = Some ((0, fl), p')"
  shows "FcmStreamReader_next R (f, r) =
     Some (v, f\<lparr>fr_iter := fr_iter f + 1, fr_nzeroes := of_nat n, fr_predictor := p'\<rparr>, r) \<and> dfcm_inv p'"
proof -
  from fcm_encode_correct[OF assms(2), of v] enc obtain q where
    q: "DfcmPredictor_predict_next p = Some q" "DfcmPredictor_update v p = Some p'" "dfcm_inv p'"
    "0 = v XOR q" by auto
  have "q = v" using q(4) xor_xor_cancel[of q v] by simp
  moreover have "(of_nat (Suc n) :: u32) \<noteq> 0"
    using assms(4) by (auto simp: word_of_nat_eq_0_iff simp del: of_nat_Suc dest: dvd_imp_le)
  moreover have "(of_nat (Suc n) :: u32) - 1 = of_nat n" by simp
  ultimately show ?thesis
    using assms q by (simp add: FcmStreamReader_next_def Let_def del: of_nat_Suc)
qed

lemma fcm_zero_run:
  "fr_predictor f = p \<Longrightarrow> dfcm_inv p \<Longrightarrow> fr_nzeroes f = of_nat (length vs) \<Longrightarrow> length vs < 2 ^ 32 \<Longrightarrow>
   fcm_encode_all vs p = Some (es, p') \<Longrightarrow> \<forall>e \<in> set es. fst e = 0 \<Longrightarrow>
   read_n (FcmStreamReader_next R) (length vs) (f, r) =
     Some (vs, f\<lparr>fr_iter := fr_iter f + of_nat (length vs), fr_nzeroes := 0, fr_predictor := p'\<rparr>, r)"
proof (induction vs arbitrary: f p es)
  case (Cons v vs)
  from Cons.prems(5,6) obtain fl p1 es' where
    e: "fcm_encode v p = Some ((0, fl), p1)" "fcm_encode_all vs p1 = Some (es', p')" "es = (0, fl) # es'"
    by (auto simp: bind_Some_conv split: prod.splits)
  have "fr_nzeroes f = of_nat (Suc (length vs))" "Suc (length vs) < 2 ^ 32" using Cons.prems by simp_all
  note z = fcm_next_zero[OF Cons.prems(1,2) this e(1)]
  let ?f = "f\<lparr>fr_iter := fr_iter f + 1, fr_nzeroes := of_nat (length vs), fr_predictor := p1\<rparr>"
  have "read_n (FcmStreamReader_next R) (length vs) (?f, r) =
     Some (vs, ?f\<lparr>fr_iter := fr_iter ?f + of_nat (length vs), fr_nzeroes := 0, fr_predictor := p'\<rparr>, r)"
    using Cons.prems z e by (intro Cons.IH[where p = p1 and es = es']) auto
  with z show ?case by (simp add: add.assoc)
qed simp

lemma fcm_read_chunk:
  assumes f: "fr_ready f p" and r: "rinv r" and l: "length vs = 16"
    and enc: "fcm_encode_all vs p = Some (es, p')" and d: "rest r = fcm_chunk es @ ys"
  shows "\<exists>f' r'. read_n (FcmStreamReader_next R) 16 (f, r) = Some (vs, f', r') \<and>
     fr_ready f' p' \<and> rinv r' \<and> rest r' = ys"
proof (cases "\<forall>e \<in> set es. fst e = 0")
  case False
  then have "rest r = fcm_pairs es @ ys" using d unfolding fcm_chunk_def if_not_P[OF False] by simp
  from fcm_read_pairs[OF f r _ enc this] l show ?thesis by simp
next
  case True
  then have d255: "rest r = [255] @ ys" using d by (simp add: fcm_chunk_def)
  from read_raw_ok[OF r d255] obtain r1 where
    r1: "rs_read_raw R 1 r = Some ([255], r1)" "rinv r1" "rest r1 = ys" by auto
  have p: "fr_predictor f = p" "dfcm_inv p" using f by (simp_all add: fr_ready_def)
  \<comment> \<open>reading the shortcut byte behaves as a zero step in a state with 16 zeroes pending\<close>
  have start: "FcmStreamReader_next R (f, r) = FcmStreamReader_next R (f\<lparr>fr_flags := 255, fr_nzeroes := 16\<rparr>, r1)"
    using f r1(1) by (simp add: FcmStreamReader_next_def fr_ready_def Let_def)
  have run: "read_n (FcmStreamReader_next R) (length vs) (f\<lparr>fr_flags := 255, fr_nzeroes := 16\<rparr>, r1) =
     Some (vs, f\<lparr>fr_flags := 255, fr_iter := fr_iter f + 16, fr_nzeroes := 0, fr_predictor := p'\<rparr>, r1)"
    using fcm_zero_run[of "f\<lparr>fr_flags := 255, fr_nzeroes := 16\<rparr>" p vs es p' r1] p l enc True by simp
  have "read_n (FcmStreamReader_next R) (length vs) (f, r) =
     Some (vs, f\<lparr>fr_flags := 255, fr_iter := fr_iter f + 16, fr_nzeroes := 0, fr_predictor := p'\<rparr>, r1)"
    using run read_n_start_cong[OF start, of "length vs"] l by simp
  moreover have "dfcm_inv p'" using fcm_encode_all_correct[OF p(2), of vs] enc by auto
  ultimately show ?thesis using r1 l f by (simp add: fr_ready_def)
qed

end

end
