(* ===== verification/BlockCodec.thy ===== *)
theory BlockCodec
  imports DeltaDelta Fcm
begin

text \<open>
  The block compressor of \<^verbatim>\<open>storage/compression.h\<close>: \<open>IOVecBlockWriter\<close> and
  \<open>IOVecBlockReader\<close>, templates over the stream, with the header accessors.  A block is a
  14-byte header (version, number of chunks, tail size, series id), a sequence of chunks
  of sixteen timestamps and sixteen values, and an uncompressed tail.
\<close>

definition FASTSTDB_VERSION :: u16 where
  "FASTSTDB_VERSION = 101"

subsection \<open>Writer\<close>

record 's block_writer =
  bw_stream :: 's
  bw_ts_stream :: dd_writer
  bw_val_stream :: fcm_writer
  bw_write_index :: nat
  bw_ts_writebuf :: "u64 list"
  bw_val_writebuf :: "u64 list"
  bw_nchunks :: "nat option"
  bw_ntail :: "nat option"

text \<open>The constructor: \<open>nchunks_\<close> and \<open>ntail_\<close> are set by \<open>init\<close>.  The write buffers are
  uninitialised in the source; their cells are written before they are read.\<close>

definition IOVecBlockWriter_new :: "'s \<Rightarrow> 's block_writer option" where
  "IOVecBlockWriter_new s =
     do { f \<leftarrow> FcmStreamWriter_new;
          Some \<lparr>bw_stream = s, bw_ts_stream = DeltaDeltaStreamWriter_new, bw_val_stream = f,
                bw_write_index = 0, bw_ts_writebuf = replicate 16 0, bw_val_writebuf = replicate 16 0,
                bw_nchunks = None, bw_ntail = None\<rparr> }"

definition IOVecBlockWriter_init ::
  "'s wstream \<Rightarrow> param_id \<Rightarrow> 's block_writer \<Rightarrow> 's block_writer option" where
  "IOVecBlockWriter_init W sid w =
     do {
       (ok1, s) \<leftarrow> ws_put_raw W (le_bytes 2 FASTSTDB_VERSION) (bw_stream w);
       (nchunks, s) \<leftarrow> ws_allocate W 2 s;
       (ntail, s) \<leftarrow> ws_allocate W 2 s;
       (ok2, s) \<leftarrow> ws_put_raw W (le_bytes 8 sid) s;
       if \<not> (ok2 \<and> ok1) \<or> nchunks = None \<or> ntail = None then None
       else do {
         pc \<leftarrow> nchunks; pt \<leftarrow> ntail;
         s \<leftarrow> ws_store16 W pt 0 s;
         s \<leftarrow> ws_store16 W pc 0 s;
         Some (w\<lparr>bw_stream := s, bw_nchunks := nchunks, bw_ntail := ntail\<rparr>) } }"

definition room_for_chunk :: "'s wstream \<Rightarrow> 's block_writer \<Rightarrow> bool" where
  "room_for_chunk W w \<longleftrightarrow> \<not> ws_space_left W (bw_stream w) < 10 * 16 + 9 * 16"

text \<open>The statement \<open>*p += 1\<close> through a header pointer.\<close>

definition bump16 :: "'s wstream \<Rightarrow> nat option \<Rightarrow> 's \<Rightarrow> 's option" where
  "bump16 W ptr s = do { p \<leftarrow> ptr; v \<leftarrow> ws_load16 W p s; ws_store16 W p (v + 1) s }"

definition IOVecBlockWriter_put ::
  "'s wstream \<Rightarrow> timestamp \<Rightarrow> u64 \<Rightarrow> 's block_writer \<Rightarrow> (status \<times> 's block_writer) option" where
  "IOVecBlockWriter_put W ts value w =
     (if room_for_chunk W w then
        let ix = bw_write_index w mod 16;
            w = w\<lparr>bw_ts_writebuf := (bw_ts_writebuf w)[ix := ts],
                  bw_val_writebuf := (bw_val_writebuf w)[ix := value],
                  bw_write_index := bw_write_index w + 1\<rparr>
        in if bw_write_index w mod 16 = 0 then
             do {
               (ok, d, s) \<leftarrow> DeltaDeltaStreamWriter_tput W (bw_ts_writebuf w) (bw_ts_stream w, bw_stream w);
               if \<not> ok then None
               else do {
                 (ok, f, s) \<leftarrow> FcmStreamWriter_tput W (bw_val_writebuf w) (bw_val_stream w, s);
                 if \<not> ok then None
                 else do {
                   s \<leftarrow> bump16 W (bw_nchunks w) s;
                   Some (kOk, w\<lparr>bw_ts_stream := d, bw_val_stream := f, bw_stream := s\<rparr>) } } }
           else Some (kOk, w)
      else if bw_write_index w mod 16 \<noteq> 0 then None
      else do {
        (ok, s) \<leftarrow> ws_put_raw W (le_bytes 8 ts) (bw_stream w);
        if \<not> ok then Some (kOverflow, w\<lparr>bw_stream := s\<rparr>)
        else do {
          (ok, s) \<leftarrow> ws_put_raw W (le_bytes 8 value) s;
          if \<not> ok then Some (kOverflow, w\<lparr>bw_stream := s\<rparr>)
          else do {
            s \<leftarrow> bump16 W (bw_ntail w) s;
            Some (kOk, w\<lparr>bw_stream := s\<rparr>) } } })"

text \<open>The flush loop of \<open>commit\<close>, over the pairs left in the write buffers.\<close>

primrec bw_flush ::
  "'s wstream \<Rightarrow> (u64 \<times> u64) list \<Rightarrow> 's block_writer \<Rightarrow> 's block_writer option" where
  "bw_flush W [] w = Some w"
| "bw_flush W (tv # tvs) w =
     do {
       (ok1, s) \<leftarrow> ws_put_raw W (le_bytes 8 (fst tv)) (bw_stream w);
       (ok2, s) \<leftarrow> ws_put_raw W (le_bytes 8 (snd tv)) s;
       if \<not> (ok2 \<and> ok1) then None
       else do {
         s \<leftarrow> bump16 W (bw_ntail w) s;
         bw_flush W tvs (w\<lparr>bw_stream := s, bw_write_index := bw_write_index w - 1\<rparr>) } }"

definition IOVecBlockWriter_commit ::
  "'s wstream \<Rightarrow> 's block_writer \<Rightarrow> (nat \<times> 's block_writer) option" where
  "IOVecBlockWriter_commit W w =
     (let nchunks = bw_write_index w div 16;
          buftail = bw_write_index w mod 16
      in do {
        w \<leftarrow> (if buftail \<noteq> 0 then
                do {
                  pt \<leftarrow> bw_ntail w;
                  n \<leftarrow> ws_load16 W pt (bw_stream w);
                  if n \<noteq> 0 then None
                  else bw_flush W (take buftail (zip (bw_ts_writebuf w) (bw_val_writebuf w))) w }
              else Some w);
        if \<not> nchunks \<le> 0xFFFF then None
        else do {
          pc \<leftarrow> bw_nchunks w;
          s \<leftarrow> ws_store16 W pc (of_nat nchunks) (bw_stream w);
          Some (ws_size W s, w\<lparr>bw_stream := s\<rparr>) } })"

definition IOVecBlockWriter_read_tail_elements :: "'s block_writer \<Rightarrow> u64 list \<times> u64 list" where
  "IOVecBlockWriter_read_tail_elements w =
     (let tailsize = bw_write_index w mod 16
      in (take tailsize (bw_ts_writebuf w), take tailsize (bw_val_writebuf w)))"

definition IOVecBlockWriter_get_write_index :: "'s wstream \<Rightarrow> 's block_writer \<Rightarrow> nat option" where
  "IOVecBlockWriter_get_write_index W w =
     (if \<not> ws_empty W (bw_stream w)
      then do { pt \<leftarrow> bw_ntail w; n \<leftarrow> ws_load16 W pt (bw_stream w); Some (unat n + bw_write_index w) }
      else Some 0)"

text \<open>A client that puts elements until the block overflows; the number accepted.\<close>

primrec bw_put_list ::
  "'s wstream \<Rightarrow> (u64 \<times> u64) list \<Rightarrow> 's block_writer \<Rightarrow> (nat \<times> 's block_writer) option" where
  "bw_put_list W [] w = Some (0, w)"
| "bw_put_list W (tv # tvs) w =
     do {
       (st, w) \<leftarrow> IOVecBlockWriter_put W (fst tv) (snd tv) w;
       if st = kOk then do { (n, w) \<leftarrow> bw_put_list W tvs w; Some (Suc n, w) } else Some (0, w) }"

subsection \<open>Header accessors and reader\<close>

definition load_u16 :: "u8 list \<Rightarrow> nat \<Rightarrow> u16 option" where
  "load_u16 pdata off = (if off + 2 \<le> length pdata then Some (le_val (take 2 (drop off pdata))) else None)"

definition get_block_version :: "u8 list \<Rightarrow> u16 option" where
  "get_block_version pdata = load_u16 pdata 0"

definition get_main_size :: "u8 list \<Rightarrow> nat option" where
  "get_main_size pdata = do { main \<leftarrow> load_u16 pdata 2; Some (unat main * 16) }"

definition get_total_size :: "u8 list \<Rightarrow> nat option" where
  "get_total_size pdata =
     do { main \<leftarrow> load_u16 pdata 2; tail \<leftarrow> load_u16 pdata 4; Some (unat tail + unat main * 16) }"

definition get_block_id :: "u8 list \<Rightarrow> param_id option" where
  "get_block_id pdata =
     (if 6 + 8 \<le> length pdata then Some (le_val (take 8 (drop 6 pdata))) else None)"

record 'r block_reader =
  br_begin :: "u8 list"
  br_stream :: 'r
  br_ts_stream :: dd_reader
  br_val_stream :: fcm_reader
  br_read_buffer :: "u64 list"
  br_read_index :: nat

definition IOVecBlockReader_new :: "u8 list \<Rightarrow> 'r \<Rightarrow> 'r block_reader option" where
  "IOVecBlockReader_new header r =
     do { f \<leftarrow> FcmStreamReader_new;
          Some \<lparr>br_begin = header, br_stream = r, br_ts_stream = DeltaDeltaStreamReader_new,
                br_val_stream = f, br_read_buffer = replicate 16 0, br_read_index = 0\<rparr> }"

definition IOVecBlockReader_next ::
  "'r rstream \<Rightarrow> 'r block_reader \<Rightarrow> ((status \<times> timestamp \<times> u64) \<times> 'r block_reader) option" where
  "IOVecBlockReader_next R b =
     do {
       main \<leftarrow> get_main_size (br_begin b);
       total \<leftarrow> get_total_size (br_begin b);
       if br_read_index b < main then
         do {
           let chunk_index = br_read_index b mod 16;
           let b = b\<lparr>br_read_index := br_read_index b + 1\<rparr>;
           b \<leftarrow> (if chunk_index = 0
                  then do {
                    (ts, d, r) \<leftarrow> read_n (DeltaDeltaStreamReader_next R) 16 (br_ts_stream b, br_stream b);
                    Some (b\<lparr>br_read_buffer := ts, br_ts_stream := d, br_stream := r\<rparr>) }
                  else Some b);
           (value, f, r) \<leftarrow> FcmStreamReader_next R (br_val_stream b, br_stream b);
           ts \<leftarrow> at (br_read_buffer b) chunk_index;
           Some ((kOk, ts, value), b\<lparr>br_val_stream := f, br_stream := r\<rparr>) }
       else if br_read_index b < total then
         do {
           let b = b\<lparr>br_read_index := br_read_index b + 1\<rparr>;
           (ts, r) \<leftarrow> rs_read_raw R 8 (br_stream b);
           (value, r) \<leftarrow> rs_read_raw R 8 r;
           Some ((kOk, le_val ts, le_val value), b\<lparr>br_stream := r\<rparr>) }
       else Some ((kNoData, 0, 0), b) }"

subsection \<open>Reference layout of a block\<close>

definition hdr_bytes :: "nat \<Rightarrow> nat \<Rightarrow> param_id \<Rightarrow> u8 list" where
  "hdr_bytes k t sid =
     le_bytes 2 FASTSTDB_VERSION @ le_bytes 2 (of_nat k :: u16) @ le_bytes 2 (of_nat t :: u16)
       @ le_bytes 8 sid"

primrec tail_bytes :: "(u64 \<times> u64) list \<Rightarrow> u8 list" where
  "tail_bytes [] = []"
| "tail_bytes (tv # tvs) = le_bytes 8 (fst tv) @ le_bytes 8 (snd tv) @ tail_bytes tvs"

primrec chunks_bytes ::
  "(u64 \<times> u64) list list \<Rightarrow> u64 \<Rightarrow> dfcm_predictor \<Rightarrow> (u8 list \<times> u64 \<times> dfcm_predictor) option" where
  "chunks_bytes [] prev p = Some ([], prev, p)"
| "chunks_bytes (c # cs) prev p =
     do {
       (es, p) \<leftarrow> fcm_encode_all (map snd c) p;
       (bs, q) \<leftarrow> chunks_bytes cs (last (map fst c)) p;
       Some (dd_chunk prev (map fst c) @ fcm_chunk es @ bs, q) }"

lemma length_hdr_bytes [simp]: "length (hdr_bytes k t sid) = 14"
  by (simp add: hdr_bytes_def)

lemma length_tail_bytes [simp]: "length (tail_bytes tvs) = 16 * length tvs"
  by (induction tvs) auto

lemma tail_bytes_append [simp]: "tail_bytes (xs @ ys) = tail_bytes xs @ tail_bytes ys"
  by (induction xs) auto

lemma chunks_bytes_append:
  "chunks_bytes (cs @ [c]) prev p =
     do {
       (bs, prev', p') \<leftarrow> chunks_bytes cs prev p;
       (es, p'') \<leftarrow> fcm_encode_all (map snd c) p';
       Some (bs @ dd_chunk prev' (map fst c) @ fcm_chunk es, last (map fst c), p'') }"
proof (induction cs arbitrary: prev p)
  case Nil
  show ?case by (simp split: option.splits)
next
  case (Cons a cs)
  show ?case
  proof (cases "fcm_encode_all (map snd a) p")
    case None
    then show ?thesis by simp
  next
    case (Some e)
    obtain es p1 where e: "e = (es, p1)" by (cases e)
    show ?thesis
    proof (cases "chunks_bytes cs (last (map fst a)) p1")
      case None
      then show ?thesis by (simp add: Some e Cons.IH)
    next
      case (Some b)
      obtain bs q1 q2 where b: "b = (bs, q1, q2)" by (cases b)
      show ?thesis
        by (cases "fcm_encode_all (map snd c) q2")
          (simp_all add: \<open>fcm_encode_all (map snd a) p = Some e\<close> Some b e Cons.IH split: prod.splits)
    qed
  qed
qed

lemma chunks_bytes_length:
  "chunks_bytes cs prev p = Some (bs, q) \<Longrightarrow> dfcm_inv p \<Longrightarrow> \<forall>c \<in> set cs. length c = 16 \<Longrightarrow>
   3 * length cs \<le> length bs \<and> length bs \<le> 282 * length cs"
proof (induction cs arbitrary: prev p bs)
  case (Cons c cs)
  from Cons.prems(1) obtain es p1 bs' where
    e: "fcm_encode_all (map snd c) p = Some (es, p1)"
    "chunks_bytes cs (last (map fst c)) p1 = Some (bs', q)"
    "bs = dd_chunk prev (map fst c) @ fcm_chunk es @ bs'"
    by (auto simp: bind_Some_conv split: prod.splits)
  from fcm_encode_all_correct[OF Cons.prems(2), of "map snd c"] e(1) Cons.prems(3)
  have es: "length es = 16" "dfcm_inv p1" by auto
  have c: "length (map fst c) = 16" using Cons.prems(3) by simp
  have "3 * length cs \<le> length bs' \<and> length bs' \<le> 282 * length cs"
    using Cons.IH[OF e(2) es(2)] Cons.prems(3) by simp
  with e(3) dd_chunk_length[OF c, of prev] dd_chunk_nonempty[OF c, of prev]
    fcm_chunk_length[OF es(1)] fcm_chunk_nonempty[OF es(1)]
  show ?case by simp
qed simp

text \<open>The size estimate of \<open>room_for_chunk\<close> covers every chunk.\<close>

lemma chunk_fits_margin:
  assumes "length ts = 16" "length es = 16"
  shows "length (dd_chunk prev ts @ fcm_chunk es) \<le> 282"
  using dd_chunk_length[OF assms(1), of prev] fcm_chunk_length[OF assms(2)] by simp

subsection \<open>Patching the header\<close>

lemma splice_at_middle:
  "length a = off \<Longrightarrow> length old = length new \<Longrightarrow> splice_at off new (a @ old @ b) = a @ new @ b"
  by (simp add: splice_at_def)

lemma hdr_patch_nchunks:
  "splice_at (length pre + 2) (le_bytes 2 (of_nat k' :: u16)) (pre @ hdr_bytes k t sid @ rest)
    = pre @ hdr_bytes k' t sid @ rest"
  using splice_at_middle[of "pre @ le_bytes 2 FASTSTDB_VERSION" "length pre + 2"
      "le_bytes 2 (of_nat k :: u16)" "le_bytes 2 (of_nat k' :: u16)"
      "le_bytes 2 (of_nat t :: u16) @ le_bytes 8 sid @ rest"]
  by (simp only: hdr_bytes_def append_assoc length_append length_le_bytes)

lemma hdr_patch_ntail:
  "splice_at (length pre + 4) (le_bytes 2 (of_nat t' :: u16)) (pre @ hdr_bytes k t sid @ rest)
    = pre @ hdr_bytes k t' sid @ rest"
  using splice_at_middle[of "pre @ le_bytes 2 FASTSTDB_VERSION @ le_bytes 2 (of_nat k :: u16)"
      "length pre + 4" "le_bytes 2 (of_nat t :: u16)" "le_bytes 2 (of_nat t' :: u16)"
      "le_bytes 8 sid @ rest"]
  by (simp only: hdr_bytes_def append_assoc length_append length_le_bytes)

lemma hdr_fields:
  "take 2 (drop (length pre) (pre @ hdr_bytes k t sid @ rest)) = le_bytes 2 FASTSTDB_VERSION"
  "take 2 (drop (length pre + 2) (pre @ hdr_bytes k t sid @ rest)) = le_bytes 2 (of_nat k :: u16)"
  "take 2 (drop (length pre + 4) (pre @ hdr_bytes k t sid @ rest)) = le_bytes 2 (of_nat t :: u16)"
  "take 8 (drop (length pre + 6) (pre @ hdr_bytes k t sid @ rest)) = le_bytes 8 sid"
  by (simp_all add: hdr_bytes_def)

lemmas hdr_fields0 = hdr_fields[of "[]", unfolded append_Nil list.size add_0]

context header_sink
begin

lemma load_nchunks:
  assumes "winv s" "wbytes s = pre @ hdr_bytes k t sid @ rest" "length pre + 14 \<le> 1024"
  shows "ws_load16 W (length pre + 2) s = Some (of_nat k)"
proof -
  have "length pre + 2 + 2 \<le> length (wbytes s)" "length pre + 2 + 2 \<le> 1024"
    using assms(2,3) by simp_all
  from load16_ok[OF assms(1) this] show ?thesis
    unfolding assms(2) hdr_fields le_val_le_bytes_u16 .
qed

lemma load_ntail:
  assumes "winv s" "wbytes s = pre @ hdr_bytes k t sid @ rest" "length pre + 14 \<le> 1024"
  shows "ws_load16 W (length pre + 4) s = Some (of_nat t)"
proof -
  have "length pre + 4 + 2 \<le> length (wbytes s)" "length pre + 4 + 2 \<le> 1024"
    using assms(2,3) by simp_all
  from load16_ok[OF assms(1) this] show ?thesis
    unfolding assms(2) hdr_fields le_val_le_bytes_u16 .
qed

lemma store_nchunks:
  assumes "winv s" "wbytes s = pre @ hdr_bytes k t sid @ rest" "length pre + 14 \<le> 1024"
  shows "\<exists>s'. ws_store16 W (length pre + 2) (of_nat k') s = Some s' \<and> winv s' \<and>
     wbytes s' = pre @ hdr_bytes k' t sid @ rest \<and> ws_space_left W s' = ws_space_left W s"
proof -
  have "length pre + 2 + 2 \<le> length (wbytes s)" "length pre + 2 + 2 \<le> 1024"
    using assms(2,3) by simp_all
  from store16_ok[OF assms(1) this, of "of_nat k'"] show ?thesis
    unfolding assms(2) hdr_patch_nchunks .
qed

lemma store_ntail:
  assumes "winv s" "wbytes s = pre @ hdr_bytes k t sid @ rest" "length pre + 14 \<le> 1024"
  shows "\<exists>s'. ws_store16 W (length pre + 4) (of_nat t') s = Some s' \<and> winv s' \<and>
     wbytes s' = pre @ hdr_bytes k t' sid @ rest \<and> ws_space_left W s' = ws_space_left W s"
proof -
  have "length pre + 4 + 2 \<le> length (wbytes s)" "length pre + 4 + 2 \<le> 1024"
    using assms(2,3) by simp_all
  from store16_ok[OF assms(1) this, of "of_nat t'"] show ?thesis
    unfolding assms(2) hdr_patch_ntail .
qed

lemma bump_nchunks:
  assumes "winv s" "wbytes s = pre @ hdr_bytes k t sid @ rest" "length pre + 14 \<le> 1024"
  shows "\<exists>s'. bump16 W (Some (length pre + 2)) s = Some s' \<and> winv s' \<and>
     wbytes s' = pre @ hdr_bytes (Suc k) t sid @ rest \<and> ws_space_left W s' = ws_space_left W s"
proof -
  have "(of_nat k + 1 :: u16) = of_nat (Suc k)" by simp
  with store_nchunks[OF assms, of "Suc k"] load_nchunks[OF assms] show ?thesis
    unfolding bump16_def by (simp del: of_nat_Suc add_2_eq_Suc add_2_eq_Suc')
qed

lemma bump_ntail:
  assumes "winv s" "wbytes s = pre @ hdr_bytes k t sid @ rest" "length pre + 14 \<le> 1024"
  shows "\<exists>s'. bump16 W (Some (length pre + 4)) s = Some s' \<and> winv s' \<and>
     wbytes s' = pre @ hdr_bytes k (Suc t) sid @ rest \<and> ws_space_left W s' = ws_space_left W s"
proof -
  have "(of_nat t + 1 :: u16) = of_nat (Suc t)" by simp
  with store_ntail[OF assms, of "Suc t"] load_ntail[OF assms] show ?thesis
    unfolding bump16_def by (simp del: of_nat_Suc add_2_eq_Suc add_2_eq_Suc')
qed

end

subsection \<open>Invariant of the writer\<close>

text \<open>
  \<open>main\<close> are the compressed chunks, \<open>buf\<close> the elements in the write buffer, \<open>tail\<close> the
  uncompressed tail; \<open>junk\<close> is the timestamp left behind by a put that overflowed.  \<open>pre\<close>
  is what the stream held before \<open>init\<close>.
\<close>

definition bw_view ::
  "'s wstream \<Rightarrow> ('s \<Rightarrow> u8 list) \<Rightarrow> ('s \<Rightarrow> bool) \<Rightarrow> nat \<Rightarrow> u8 list \<Rightarrow> param_id \<Rightarrow>
   (u64 \<times> u64) list list \<Rightarrow> (u64 \<times> u64) list \<Rightarrow> (u64 \<times> u64) list \<Rightarrow> u8 list \<Rightarrow>
   's block_writer \<Rightarrow> bool" where
  "bw_view W wbytes winv cap pre sid main buf tail junk w \<longleftrightarrow>
     winv (bw_stream w) \<and> length pre + 14 \<le> 1024 \<and>
     bw_nchunks w = Some (length pre + 2) \<and> bw_ntail w = Some (length pre + 4) \<and>
     (\<exists>p bs. DfcmPredictor_new 128 = Some p \<and>
        chunks_bytes main 0 p = Some (bs, ddw_prev (bw_ts_stream w), fw_predictor (bw_val_stream w)) \<and>
        wbytes (bw_stream w) = pre @ hdr_bytes (length main) (length tail) sid @ bs @ tail_bytes tail @ junk) \<and>
     dfcm_inv (fw_predictor (bw_val_stream w)) \<and>
     (\<forall>c \<in> set main. length c = 16) \<and>
     bw_write_index w = 16 * length main + length buf \<and> length buf < 16 \<and>
     length (bw_ts_writebuf w) = 16 \<and> length (bw_val_writebuf w) = 16 \<and>
     take (length buf) (zip (bw_ts_writebuf w) (bw_val_writebuf w)) = buf \<and>
     even (fw_nelements (bw_val_stream w)) \<and>
     (buf \<noteq> [] \<longrightarrow> tail = [] \<and> junk = [] \<and> 304 \<le> ws_space_left W (bw_stream w)) \<and>
     (tail \<noteq> [] \<longrightarrow> ws_space_left W (bw_stream w) < 304) \<and>
     length (wbytes (bw_stream w)) + ws_space_left W (bw_stream w) = cap \<and>
     length junk \<le> 8 \<and> (junk \<noteq> [] \<longrightarrow> ws_space_left W (bw_stream w) < 8)"

lemma dfcm_new_128: "DfcmPredictor_new (of_nat PREDICTOR_N) = DfcmPredictor_new 128"
  by (simp add: PREDICTOR_N_def)

lemma zip_update_take:
  assumes "take n (zip xs ys) = buf" "length buf = n" "n < length xs" "n < length ys"
  shows "take (Suc n) (zip (xs[n := a]) (ys[n := b])) = buf @ [(a, b)]"
proof -
  have "zip (xs[n := a]) (ys[n := b]) = (zip xs ys)[n := (a, b)]" by (simp add: update_zip)
  with assms show ?thesis by simp
qed

context header_sink
begin

abbreviation view where
  "view \<equiv> bw_view W wbytes winv"

lemma init_ok:
  assumes s: "winv s" and pre: "wbytes s = pre" "length pre + 14 \<le> 1024"
    and room: "14 \<le> ws_space_left W s"
  shows "\<exists>w0 w. IOVecBlockWriter_new s = Some w0 \<and> IOVecBlockWriter_init W sid w0 = Some w \<and>
     view (length pre + ws_space_left W s) pre sid [] [] [] [] w \<and>
     ws_space_left W (bw_stream w) = ws_space_left W s - 14"
proof -
  obtain p where p: "DfcmPredictor_new 128 = Some p" "dfcm_inv p" using dfcm_new_inv by blast
  let ?ver = "le_bytes 2 FASTSTDB_VERSION"
  from put_raw_ok[OF s, of ?ver] room obtain s1 where
    s1: "ws_put_raw W ?ver s = Some (True, s1)" "appended W wbytes winv s ?ver s1" by auto
  note a1 = s1(2)[unfolded appended_def] 
  from allocate_ok[of s1 2] a1 room pre obtain s2 c where
    s2: "ws_allocate W 2 s1 = Some (Some (length pre + 2), s2)" "length c = 2" "appended W wbytes winv s1 c s2"
    by auto
  note a2 = s2(3)[unfolded appended_def]
  from allocate_ok[of s2 2] a1 a2 s2(2) room pre obtain s3 t where
    s3: "ws_allocate W 2 s2 = Some (Some (length pre + 4), s3)" "length t = 2" "appended W wbytes winv s2 t s3"
    by auto
  note a3 = s3(3)[unfolded appended_def]
  from put_raw_ok[of s3 "le_bytes 8 sid"] a1 a2 a3 s2(2) s3(2) room obtain s4 where
    s4: "ws_put_raw W (le_bytes 8 sid) s3 = Some (True, s4)" "appended W wbytes winv s3 (le_bytes 8 sid) s4"
    by auto
  note a4 = s4(2)[unfolded appended_def]
  have b4: "wbytes s4 = pre @ ?ver @ c @ t @ le_bytes 8 sid" using a1 a2 a3 a4 pre by simp
  have sp4: "ws_space_left W s4 = ws_space_left W s - 14" using a1 a2 a3 a4 s2(2) s3(2) by simp
  have o: "length pre + 4 + 2 \<le> length (wbytes s4)" "length pre + 4 + 2 \<le> 1024"
    using b4 s2(2) s3(2) pre by simp_all
  have i4: "winv s4" using a4 by simp
  from store16_ok[OF i4 o, of 0] obtain s5 where
    s5: "ws_store16 W (length pre + 4) 0 s4 = Some s5" "winv s5"
      "wbytes s5 = splice_at (length pre + 4) (le_bytes 2 (0 :: u16)) (wbytes s4)"
      "ws_space_left W s5 = ws_space_left W s4" by blast
  have b5: "wbytes s5 = pre @ ?ver @ c @ le_bytes 2 (0 :: u16) @ le_bytes 8 sid"
    unfolding s5(3) b4
    using splice_at_middle[of "pre @ ?ver @ c" "length pre + 4" t "le_bytes 2 (0 :: u16)" "le_bytes 8 sid"]
      s2(2) s3(2) by simp
  have o5: "length pre + 2 + 2 \<le> length (wbytes s5)" "length pre + 2 + 2 \<le> 1024"
    using b5 s2(2) pre by simp_all
  from store16_ok[OF s5(2) o5, of 0] obtain s6 where
    s6: "ws_store16 W (length pre + 2) 0 s5 = Some s6" "winv s6"
      "wbytes s6 = splice_at (length pre + 2) (le_bytes 2 (0 :: u16)) (wbytes s5)"
      "ws_space_left W s6 = ws_space_left W s5" by blast
  have b6: "wbytes s6 = pre @ hdr_bytes 0 0 sid"
    unfolding s6(3) b5
    using splice_at_middle[of "pre @ ?ver" "length pre + 2" c "le_bytes 2 (0 :: u16)"
        "le_bytes 2 (0 :: u16) @ le_bytes 8 sid"] s2(2) by (simp add: hdr_bytes_def)
  show ?thesis
    using s1(1) s2(1) s3(1) s4(1) s5(1) s6(1,2,4) b6 sp4 s5(4) p pre room
    by (simp add: IOVecBlockWriter_new_def FcmStreamWriter_new_def dfcm_new_128
        IOVecBlockWriter_init_def bw_view_def DeltaDeltaStreamWriter_new_def)
qed

lemma put_buffered:
  assumes v: "view cap pre sid main buf tail junk w" and room: "room_for_chunk W w"
    and l: "length buf < 15"
  shows "\<exists>w'. IOVecBlockWriter_put W ts x w = Some (kOk, w') \<and>
     view cap pre sid main (buf @ [(ts, x)]) tail junk w'"
proof -
  let ?n = "length buf"
  have ix: "bw_write_index w mod 16 = ?n" "Suc (bw_write_index w) mod 16 \<noteq> 0"
    using v l by (simp_all add: bw_view_def mod_Suc)
  let ?w = "w\<lparr>bw_ts_writebuf := (bw_ts_writebuf w)[?n := ts],
     bw_val_writebuf := (bw_val_writebuf w)[?n := x], bw_write_index := Suc (bw_write_index w)\<rparr>"
  have "IOVecBlockWriter_put W ts x w = Some (kOk, ?w)"
    using room ix by (simp add: IOVecBlockWriter_put_def Let_def)
  moreover have "304 \<le> ws_space_left W (bw_stream w)" using room by (simp add: room_for_chunk_def)
  moreover have "take (Suc ?n) (zip (bw_ts_writebuf ?w) (bw_val_writebuf ?w)) = buf @ [(ts, x)]"
    using zip_update_take[of ?n "bw_ts_writebuf w" "bw_val_writebuf w" buf ts x] v l
    by (simp add: bw_view_def)
  ultimately show ?thesis using v l by (auto simp: bw_view_def)
qed

lemma write_chunk:
  assumes s: "winv s" and ts: "length ts = 16" "length vs = 16"
    and f: "dfcm_inv (fw_predictor f)" "even (fw_nelements f)"
    and room: "304 \<le> ws_space_left W s"
  shows "\<exists>es p' s1 s2. fcm_encode_all vs (fw_predictor f) = Some (es, p') \<and> dfcm_inv p' \<and>
     DeltaDeltaStreamWriter_tput W ts (d, s) = Some (True, d\<lparr>ddw_prev := last ts\<rparr>, s1) \<and>
     FcmStreamWriter_tput W vs (f, s1) = Some (True, f\<lparr>fw_predictor := p'\<rparr>, s2) \<and>
     appended W wbytes winv s (dd_chunk (ddw_prev d) ts @ fcm_chunk es) s2"
proof -
  from fcm_encode_all_correct[OF f(1), of vs] ts(2) obtain es p' where
    e: "fcm_encode_all vs (fw_predictor f) = Some (es, p')" "dfcm_inv p'" "length es = 16"
    "\<forall>e \<in> set es. fcm_ok e" by auto
  have "length (dd_chunk (ddw_prev d) ts) \<le> ws_space_left W s"
    using dd_chunk_length[OF ts(1), of "ddw_prev d"] room by simp
  from dd_tput_ok[OF s ts(1) this] obtain s1 where
    s1: "DeltaDeltaStreamWriter_tput W ts (d, s) = Some (True, d\<lparr>ddw_prev := last ts\<rparr>, s1)"
    "appended W wbytes winv s (dd_chunk (ddw_prev d) ts) s1" by blast
  have "length (fcm_chunk es) \<le> ws_space_left W s1"
    using appended_space[OF s1(2)] dd_chunk_length[OF ts(1), of "ddw_prev d"]
      fcm_chunk_length[OF e(3)] room by simp
  from fcm_tput_ok[OF appended_inv[OF s1(2)] f(2) ts(2) e(1,4) this] obtain s2 where
    "FcmStreamWriter_tput W vs (f, s1) = Some (True, f\<lparr>fw_predictor := p'\<rparr>, s2)"
    "appended W wbytes winv s1 (fcm_chunk es) s2" by blast
  with e s1 appended_trans[OF s1(2)] show ?thesis by blast
qed

lemma put_flushes_chunk:
  assumes v: "view cap pre sid main buf tail junk w" and room: "room_for_chunk W w"
    and l: "length buf = 15"
  shows "\<exists>w'. IOVecBlockWriter_put W ts x w = Some (kOk, w') \<and>
     view cap pre sid (main @ [buf @ [(ts, x)]]) [] [] [] w'"
proof -
  let ?c = "buf @ [(ts, x)]"
  let ?tb = "(bw_ts_writebuf w)[15 := ts]"
  let ?vb = "(bw_val_writebuf w)[15 := x]"
  have sp: "304 \<le> ws_space_left W (bw_stream w)" using room by (simp add: room_for_chunk_def)
  then have empty: "tail = []" "junk = []" using v by (auto simp: bw_view_def)
  from v obtain p bs where
    p: "DfcmPredictor_new 128 = Some p"
    "chunks_bytes main 0 p = Some (bs, ddw_prev (bw_ts_stream w), fw_predictor (bw_val_stream w))"
    "wbytes (bw_stream w) = pre @ hdr_bytes (length main) 0 sid @ bs"
    by (auto simp: bw_view_def empty)
  have len: "length ?tb = 16" "length ?vb = 16" using v by (simp_all add: bw_view_def)
  have "take (Suc 15) (zip ?tb ?vb) = ?c"
    using zip_update_take[of 15 "bw_ts_writebuf w" "bw_val_writebuf w" buf ts x] v l
    by (simp add: bw_view_def)
  then have c: "zip ?tb ?vb = ?c" using len by simp
  have mc: "map fst ?c = ?tb" "map snd ?c = ?vb"
    using len by (simp_all only: c[symmetric] map_fst_zip map_snd_zip)
  have st: "winv (bw_stream w)" "dfcm_inv (fw_predictor (bw_val_stream w))"
    "even (fw_nelements (bw_val_stream w))" using v by (simp_all add: bw_view_def)
  from write_chunk[OF st(1) len st(2,3) sp, of "bw_ts_stream w"] obtain es p' s1 s2 where
    w: "fcm_encode_all ?vb (fw_predictor (bw_val_stream w)) = Some (es, p')" "dfcm_inv p'"
      "DeltaDeltaStreamWriter_tput W ?tb (bw_ts_stream w, bw_stream w)
         = Some (True, (bw_ts_stream w)\<lparr>ddw_prev := last ?tb\<rparr>, s1)"
      "FcmStreamWriter_tput W ?vb (bw_val_stream w, s1)
         = Some (True, (bw_val_stream w)\<lparr>fw_predictor := p'\<rparr>, s2)"
      "appended W wbytes winv (bw_stream w)
         (dd_chunk (ddw_prev (bw_ts_stream w)) ?tb @ fcm_chunk es) s2" by blast
  let ?bs = "bs @ dd_chunk (ddw_prev (bw_ts_stream w)) ?tb @ fcm_chunk es"
  have s2: "winv s2" "wbytes s2 = pre @ hdr_bytes (length main) 0 sid @ ?bs"
    "length (wbytes s2) + ws_space_left W s2 = cap" "length pre + 14 \<le> 1024"
    using w(5) p(3) v by (auto simp: appended_def bw_view_def)
  from bump_nchunks[OF s2(1,2,4)] obtain s3 where
    s3: "bump16 W (Some (length pre + 2)) s2 = Some s3" "winv s3"
    "wbytes s3 = pre @ hdr_bytes (Suc (length main)) 0 sid @ ?bs"
    "ws_space_left W s3 = ws_space_left W s2" by blast
  have "chunks_bytes (main @ [?c]) 0 p = Some (?bs, last ?tb, p')"
    unfolding chunks_bytes_append mc using p(2) w(1) by simp
  moreover have "bw_write_index w mod 16 = 15" "Suc (bw_write_index w) mod 16 = 0"
    "bw_write_index w = 16 * length main + 15"
    using v l by (simp_all add: bw_view_def mod_Suc)
  ultimately show ?thesis
    using v room w(2,3,4) s2(2,3,4) s3 p(1) len l
    by (simp add: IOVecBlockWriter_put_def Let_def bw_view_def)
qed

lemma append_raw_pair:
  assumes s: "winv s" and room: "16 \<le> ws_space_left W s"
    and b: "wbytes s = pre @ hdr_bytes k t sid @ rest" "length pre + 14 \<le> 1024"
  shows "\<exists>s1 s2 s3. ws_put_raw W (le_bytes 8 ts) s = Some (True, s1) \<and>
     ws_put_raw W (le_bytes 8 x) s1 = Some (True, s2) \<and>
     bump16 W (Some (length pre + 4)) s2 = Some s3 \<and> winv s3 \<and>
     wbytes s3 = pre @ hdr_bytes k (Suc t) sid @ rest @ le_bytes 8 ts @ le_bytes 8 x \<and>
     ws_space_left W s3 = ws_space_left W s - 16"
proof -
  from put_raw_ok[OF s, of "le_bytes 8 ts"] room obtain s1 where
    s1: "ws_put_raw W (le_bytes 8 ts) s = Some (True, s1)" "appended W wbytes winv s (le_bytes 8 ts) s1"
    by auto
  have "length (le_bytes 8 x) \<le> ws_space_left W s1" using appended_space[OF s1(2)] room by simp
  from put_raw_ok[OF appended_inv[OF s1(2)] this] obtain s2 where
    s2: "ws_put_raw W (le_bytes 8 x) s1 = Some (True, s2)" "appended W wbytes winv s1 (le_bytes 8 x) s2"
    by blast
  have b2: "wbytes s2 = pre @ hdr_bytes k t sid @ (rest @ le_bytes 8 ts @ le_bytes 8 x)"
    using s1(2) s2(2) b by (simp add: appended_def)
  from bump_ntail[OF appended_inv[OF s2(2)] b2 b(2)] s1 s2 show ?thesis
    by (auto simp: appended_def)
qed

lemma put_tail:
  assumes v: "view cap pre sid main buf tail junk w" and room: "\<not> room_for_chunk W w"
    and sp: "16 \<le> ws_space_left W (bw_stream w)"
  shows "\<exists>w'. IOVecBlockWriter_put W ts x w = Some (kOk, w') \<and>
     view cap pre sid main [] (tail @ [(ts, x)]) [] w'"
proof -
  have less: "ws_space_left W (bw_stream w) < 304" using room by (simp add: room_for_chunk_def)
  have e: "buf = []" "junk = []" using v less sp by (auto simp: bw_view_def)
  from v obtain p bs where
    p: "DfcmPredictor_new 128 = Some p"
    "chunks_bytes main 0 p = Some (bs, ddw_prev (bw_ts_stream w), fw_predictor (bw_val_stream w))"
    "wbytes (bw_stream w) = pre @ hdr_bytes (length main) (length tail) sid @ (bs @ tail_bytes tail)"
    by (auto simp: bw_view_def e)
  have st: "winv (bw_stream w)" "length pre + 14 \<le> 1024" using v by (simp_all add: bw_view_def)
  from append_raw_pair[OF st(1) sp p(3) st(2), of ts x] v room less sp p e show ?thesis
    by (auto simp: IOVecBlockWriter_put_def bw_view_def)
qed

lemma put_overflow:
  assumes v: "view cap pre sid main buf tail junk w" and room: "\<not> room_for_chunk W w"
    and sp: "ws_space_left W (bw_stream w) < 16"
  shows "\<exists>w' junk'. IOVecBlockWriter_put W ts x w = Some (kOverflow, w') \<and>
     view cap pre sid main [] tail junk' w' \<and> buf = [] \<and>
     ws_space_left W (bw_stream w') \<le> ws_space_left W (bw_stream w)"
proof -
  have e: "buf = []" "bw_write_index w mod 16 = 0" using v sp by (auto simp: bw_view_def)
  have st: "winv (bw_stream w)" using v by (simp add: bw_view_def)
  show ?thesis
  proof (cases "8 \<le> ws_space_left W (bw_stream w)")
    case False
    then have "ws_put_raw W (le_bytes 8 ts) (bw_stream w) = Some (False, bw_stream w)"
      using put_raw_full[OF st] by simp
    then show ?thesis using v e room by (auto simp: IOVecBlockWriter_put_def)
  next
    case True
    with put_raw_ok[OF st, of "le_bytes 8 ts"] obtain s1 where
      s1: "ws_put_raw W (le_bytes 8 ts) (bw_stream w) = Some (True, s1)"
      "appended W wbytes winv (bw_stream w) (le_bytes 8 ts) s1" by auto
    then have "ws_put_raw W (le_bytes 8 x) s1 = Some (False, s1)"
      using put_raw_full[OF appended_inv[OF s1(2)], of "le_bytes 8 x"] appended_space[OF s1(2)] sp by simp
    then have "IOVecBlockWriter_put W ts x w = Some (kOverflow, w\<lparr>bw_stream := s1\<rparr>)"
      using s1(1) e room by (simp add: IOVecBlockWriter_put_def)
    moreover have "view cap pre sid main [] tail (le_bytes 8 ts) (w\<lparr>bw_stream := s1\<rparr>)"
      using v s1(2) True sp e by (auto simp: bw_view_def appended_def)
    moreover have "ws_space_left W s1 \<le> ws_space_left W (bw_stream w)"
      using appended_space[OF s1(2)] by simp
    ultimately show ?thesis using e by fastforce
  qed
qed

text \<open>Every outcome of \<open>put\<close>: the element is accepted, or the block reports overflow and
  holds what it held.\<close>

lemma put_cases:
  assumes v: "view cap pre sid main buf tail junk w"
  shows "\<exists>st w' main' buf' tail' junk'. IOVecBlockWriter_put W ts x w = Some (st, w') \<and>
     view cap pre sid main' buf' tail' junk' w' \<and>
     (if ws_space_left W (bw_stream w) < 16
      then st = kOverflow \<and> concat main' @ buf' @ tail' = concat main @ buf @ tail \<and>
        ws_space_left W (bw_stream w') < 16
      else st = kOk \<and> concat main' @ buf' @ tail' = concat main @ buf @ tail @ [(ts, x)])"
proof -
  consider (buffered) "room_for_chunk W w" "length buf < 15" | (flush) "room_for_chunk W w" "length buf = 15"
    | (tail) "\<not> room_for_chunk W w" "16 \<le> ws_space_left W (bw_stream w)"
    | (full) "\<not> room_for_chunk W w" "ws_space_left W (bw_stream w) < 16"
    using v by (force simp: bw_view_def)
  then show ?thesis
  proof cases
    case buffered
    then have "tail = []" "\<not> ws_space_left W (bw_stream w) < 16"
      using v by (auto simp: bw_view_def room_for_chunk_def)
    with put_buffered[OF v buffered, of ts x] show ?thesis by fastforce
  next
    case flush
    then have "tail = []" "\<not> ws_space_left W (bw_stream w) < 16"
      using v by (auto simp: bw_view_def room_for_chunk_def)
    with put_flushes_chunk[OF v flush, of ts x] show ?thesis by fastforce
  next
    case tail
    then have "buf = []" using v by (auto simp: bw_view_def room_for_chunk_def)
    with put_tail[OF v tail, of ts x] tail show ?thesis by fastforce
  next
    case full
    from put_overflow[OF v full, of ts x] full show ?thesis by fastforce
  qed
qed

lemma put_list_ok:
  "view cap pre sid main buf tail junk w \<Longrightarrow>
   \<exists>n w' main' buf' tail' junk'. bw_put_list W xs w = Some (n, w') \<and>
     view cap pre sid main' buf' tail' junk' w' \<and> n \<le> length xs \<and>
     concat main' @ buf' @ tail' = concat main @ buf @ tail @ take n xs \<and>
     (n < length xs \<longrightarrow> ws_space_left W (bw_stream w') < 16)"
proof (induction xs arbitrary: main buf tail junk w)
  case Nil
  then show ?case by auto
next
  case (Cons tv xs)
  from put_cases[OF Cons.prems, of "fst tv" "snd tv"] obtain st w1 m1 b1 t1 j1 where
    p: "IOVecBlockWriter_put W (fst tv) (snd tv) w = Some (st, w1)" "view cap pre sid m1 b1 t1 j1 w1"
    and st: "if ws_space_left W (bw_stream w) < 16
      then st = kOverflow \<and> concat m1 @ b1 @ t1 = concat main @ buf @ tail \<and>
        ws_space_left W (bw_stream w1) < 16
      else st = kOk \<and> concat m1 @ b1 @ t1 = concat main @ buf @ tail @ [tv]" by auto
  show ?case
  proof (cases "ws_space_left W (bw_stream w) < 16")
    case True
    with p st show ?thesis by fastforce
  next
    case False
    with st have ok: "st = kOk" and el: "concat m1 @ b1 @ t1 = concat main @ buf @ tail @ [tv]" by simp_all
    from Cons.IH[OF p(2)] obtain n w' m2 b2 t2 j2 where
      n: "bw_put_list W xs w1 = Some (n, w')" "view cap pre sid m2 b2 t2 j2 w'" "n \<le> length xs"
      "concat m2 @ b2 @ t2 = (concat m1 @ b1 @ t1) @ take n xs"
      "n < length xs \<longrightarrow> ws_space_left W (bw_stream w') < 16" by auto
    have "bw_put_list W (tv # xs) w = Some (Suc n, w')" using p(1) ok n(1) by simp
    with n el show ?thesis by fastforce
  qed
qed

lemma flush_ok:
  "winv (bw_stream w) \<Longrightarrow> bw_ntail w = Some (length pre + 4) \<Longrightarrow> length pre + 14 \<le> 1024 \<Longrightarrow>
   wbytes (bw_stream w) = pre @ hdr_bytes k t sid @ rest \<Longrightarrow>
   16 * length tvs \<le> ws_space_left W (bw_stream w) \<Longrightarrow> length tvs \<le> bw_write_index w \<Longrightarrow>
   \<exists>s. bw_flush W tvs w = Some (w\<lparr>bw_stream := s, bw_write_index := bw_write_index w - length tvs\<rparr>) \<and>
     winv s \<and> wbytes s = pre @ hdr_bytes k (t + length tvs) sid @ rest @ tail_bytes tvs \<and>
     ws_space_left W s = ws_space_left W (bw_stream w) - 16 * length tvs"
proof (induction tvs arbitrary: w t rest)
  case Nil
  then show ?case by (intro exI[of _ "bw_stream w"]) simp
next
  case (Cons tv tvs)
  have "16 \<le> ws_space_left W (bw_stream w)" using Cons.prems(5) by simp
  from append_raw_pair[OF Cons.prems(1) this Cons.prems(4,3), of "fst tv" "snd tv"] obtain s1 s2 s3 where
    s: "ws_put_raw W (le_bytes 8 (fst tv)) (bw_stream w) = Some (True, s1)"
    "ws_put_raw W (le_bytes 8 (snd tv)) s1 = Some (True, s2)"
    "bump16 W (Some (length pre + 4)) s2 = Some s3" "winv s3"
    "wbytes s3 = pre @ hdr_bytes k (Suc t) sid @ (rest @ le_bytes 8 (fst tv) @ le_bytes 8 (snd tv))"
    "ws_space_left W s3 = ws_space_left W (bw_stream w) - 16" by auto
  let ?w = "w\<lparr>bw_stream := s3, bw_write_index := bw_write_index w - 1\<rparr>"
  have "\<exists>s. bw_flush W tvs ?w = Some (?w\<lparr>bw_stream := s, bw_write_index := bw_write_index ?w - length tvs\<rparr>) \<and>
     winv s \<and> wbytes s = pre @ hdr_bytes k (Suc t + length tvs) sid @
       (rest @ le_bytes 8 (fst tv) @ le_bytes 8 (snd tv)) @ tail_bytes tvs \<and>
     ws_space_left W s = ws_space_left W (bw_stream ?w) - 16 * length tvs"
    using s Cons.prems by (intro Cons.IH) auto
  with s Cons.prems(2) show ?case by auto
qed

text \<open>The first half of \<open>commit\<close>: the write buffer becomes the tail.\<close>

lemma commit_flush:
  assumes v: "view cap pre sid main buf tail junk w"
    and b: "wbytes (bw_stream w) =
      pre @ hdr_bytes (length main) (length tail) sid @ (bs @ tail_bytes tail @ junk)"
  shows "\<exists>s i. (if length buf \<noteq> 0 then
                do { pt \<leftarrow> bw_ntail w; n \<leftarrow> ws_load16 W pt (bw_stream w);
                     if n \<noteq> 0 then None else bw_flush W buf w }
              else Some w) = Some (w\<lparr>bw_stream := s, bw_write_index := i\<rparr>) \<and> winv s \<and>
      wbytes s = pre @ hdr_bytes (length main) (length (buf @ tail)) sid @ (bs @ tail_bytes (buf @ tail) @ junk) \<and>
      length (wbytes s) + ws_space_left W s = cap"
proof (cases "buf = []")
  case True
  then show ?thesis using v b
    by (intro exI[of _ "bw_stream w"] exI[of _ "bw_write_index w"]) (simp add: bw_view_def)
next
  case False
  then have e: "tail = []" "junk = []" "304 \<le> ws_space_left W (bw_stream w)"
    using v by (simp_all add: bw_view_def)
  have st: "winv (bw_stream w)" "length pre + 14 \<le> 1024" "bw_ntail w = Some (length pre + 4)"
    and n: "length buf < 16" "length buf \<le> bw_write_index w" using v by (simp_all add: bw_view_def)
  have b0: "wbytes (bw_stream w) = pre @ hdr_bytes (length main) 0 sid @ bs" using b e by simp
  from flush_ok[OF st(1,3,2) b0, of buf] e(3) n obtain s where
    s: "bw_flush W buf w = Some (w\<lparr>bw_stream := s, bw_write_index := bw_write_index w - length buf\<rparr>)"
    "winv s" "wbytes s = pre @ hdr_bytes (length main) (length buf) sid @ bs @ tail_bytes buf"
    "ws_space_left W s = ws_space_left W (bw_stream w) - 16 * length buf" by auto
  moreover have "ws_load16 W (length pre + 4) (bw_stream w) = Some 0"
    using load_ntail[OF st(1) b0 st(2)] by simp
  moreover have "length (wbytes (bw_stream w)) + ws_space_left W (bw_stream w) = cap"
    using v by (simp add: bw_view_def)
  ultimately show ?thesis using False e st(3) b0 n by auto
qed

lemma view_counts:
  assumes v: "view cap pre sid main buf tail junk w" and cap: "cap \<le> 3 * 65535"
  shows "length main \<le> 65535" "length (buf @ tail) \<le> 65535"
proof -
  from v obtain p bs q where
    p: "DfcmPredictor_new 128 = Some p" "chunks_bytes main 0 p = Some (bs, q)"
    "wbytes (bw_stream w) = pre @ hdr_bytes (length main) (length tail) sid @ (bs @ tail_bytes tail @ junk)"
    by (auto simp: bw_view_def)
  have c16: "\<forall>c \<in> set main. length c = 16" using v by (simp add: bw_view_def)
  have "dfcm_inv p" using dfcm_new_inv p(1) by simp
  then have "3 * length main \<le> length bs" using chunks_bytes_length[OF p(2) _ c16] by simp
  moreover have "length (wbytes (bw_stream w)) \<le> cap" using v by (auto simp: bw_view_def)
  ultimately show "length main \<le> 65535" "length (buf @ tail) \<le> 65535"
    using p(3) cap v by (auto simp: bw_view_def)
qed

text \<open>A block that refuses an element is nearly full: it holds at least sixteen elements for
  every 282 bytes of its payload.\<close>

lemma full_block_bound:
  assumes v: "view cap pre sid main buf tail junk w" and full: "ws_space_left W (bw_stream w) < 16"
  shows "16 * (cap - length pre - 29) \<le> 282 * length (concat main @ buf @ tail)"
proof -
  from v obtain p bs q where
    p: "DfcmPredictor_new 128 = Some p" "chunks_bytes main 0 p = Some (bs, q)"
    "wbytes (bw_stream w) = pre @ hdr_bytes (length main) (length tail) sid @ (bs @ tail_bytes tail @ junk)"
    by (auto simp: bw_view_def)
  have c16: "\<forall>c \<in> set main. length c = 16" using v by (simp add: bw_view_def)
  have "dfcm_inv p" using dfcm_new_inv p(1) by simp
  then have bs: "length bs \<le> 282 * length main" using chunks_bytes_length[OF p(2) _ c16] by simp
  have "length junk + ws_space_left W (bw_stream w) \<le> 15"
    using v full by (cases "junk = []") (auto simp: bw_view_def)
  then have "cap - length pre - 29 \<le> length bs + 16 * length tail"
    using v p(3) by (auto simp: bw_view_def)
  moreover have "length (concat main) = 16 * length main" using c16 by (induction main) auto
  ultimately show ?thesis using bs by simp
qed

lemma commit_ok_view:
  assumes v: "view cap pre sid main buf tail junk w" and cap: "cap \<le> 3 * 65535"
  shows "\<exists>n w' p bs q. IOVecBlockWriter_commit W w = Some (n, w') \<and>
     DfcmPredictor_new 128 = Some p \<and> chunks_bytes main 0 p = Some (bs, q) \<and>
     winv (bw_stream w') \<and> n = length (wbytes (bw_stream w')) \<and>
     wbytes (bw_stream w') =
       pre @ hdr_bytes (length main) (length (buf @ tail)) sid @ bs @ tail_bytes (buf @ tail) @ junk \<and>
     n + ws_space_left W (bw_stream w') = cap"
proof -
  from v obtain p bs q where
    p: "DfcmPredictor_new 128 = Some p" "chunks_bytes main 0 p = Some (bs, q)"
    "wbytes (bw_stream w) = pre @ hdr_bytes (length main) (length tail) sid @ (bs @ tail_bytes tail @ junk)"
    by (auto simp: bw_view_def)
  from v have ix: "bw_write_index w div 16 = length main" "bw_write_index w mod 16 = length buf"
    "take (length buf) (zip (bw_ts_writebuf w) (bw_val_writebuf w)) = buf"
    "length pre + 14 \<le> 1024" "bw_nchunks w = Some (length pre + 2)" by (simp_all add: bw_view_def)
  from commit_flush[OF v p(3)] obtain s i where
    s: "(if length buf \<noteq> 0 then
           do { pt \<leftarrow> bw_ntail w; n \<leftarrow> ws_load16 W pt (bw_stream w);
                if n \<noteq> 0 then None else bw_flush W buf w }
         else Some w) = Some (w\<lparr>bw_stream := s, bw_write_index := i\<rparr>)" "winv s"
    "wbytes s = pre @ hdr_bytes (length main) (length (buf @ tail)) sid @ (bs @ tail_bytes (buf @ tail) @ junk)"
    "length (wbytes s) + ws_space_left W s = cap" by blast
  from store_nchunks[OF s(2,3) ix(4), of "length main"] obtain s' where
    s': "ws_store16 W (length pre + 2) (of_nat (length main)) s = Some s'" "winv s'"
    "wbytes s' = wbytes s" "ws_space_left W s' = ws_space_left W s" using s(3) by auto
  show ?thesis
    unfolding IOVecBlockWriter_commit_def Let_def ix(1-3) s(1)
    using s s' ix(5) p(1,2) size_ok[OF s'(2)] view_counts[OF v cap] by simp
qed

end

subsection \<open>The reader inverts the layout\<close>

definition ok_item :: "u64 \<times> u64 \<Rightarrow> status \<times> timestamp \<times> u64" where
  "ok_item tv = (kOk, fst tv, snd tv)"

definition br_sizes :: "nat \<Rightarrow> nat \<Rightarrow> 'r block_reader \<Rightarrow> bool" where
  "br_sizes k t b \<longleftrightarrow>
     get_main_size (br_begin b) = Some (16 * k) \<and> get_total_size (br_begin b) = Some (16 * k + t)"

lemma br_sizes_header:
  assumes "br_begin b = hdr_bytes k t sid @ rest" "k \<le> 65535" "t \<le> 65535"
  shows "br_sizes k t b"
proof -
  have "unat (of_nat k :: u16) = k" "unat (of_nat t :: u16) = t"
    using assms(2,3) by (simp_all add: unat_of_nat)
  then show ?thesis
    unfolding br_sizes_def get_main_size_def get_total_size_def load_u16_def assms(1) hdr_fields0
    by simp
qed

lemma hdr_accessors:
  "get_block_version (hdr_bytes k t sid @ rest) = Some FASTSTDB_VERSION"
  "get_block_id (hdr_bytes k t sid @ rest) = Some sid"
  unfolding get_block_version_def get_block_id_def load_u16_def hdr_fields0 by simp_all

text \<open>Inside a chunk the timestamps are in the read buffer and the values come one by one.\<close>

lemma br_read_within:
  "br_sizes k t b \<Longrightarrow> br_read_index b < 16 * k \<Longrightarrow> 0 < br_read_index b mod 16 \<Longrightarrow>
   br_read_index b mod 16 + n \<le> 16 \<Longrightarrow> length (br_read_buffer b) = 16 \<Longrightarrow>
   read_n (FcmStreamReader_next R) n (br_val_stream b, br_stream b) = Some (vs, f', r') \<Longrightarrow>
   read_n (IOVecBlockReader_next R) n b =
     Some (map ok_item (zip (take n (drop (br_read_index b mod 16) (br_read_buffer b))) vs),
           b\<lparr>br_val_stream := f', br_stream := r', br_read_index := br_read_index b + n\<rparr>)"
proof (induction n arbitrary: b vs)
  case 0
  then show ?case by simp
next
  case (Suc n)
  from Suc.prems(6) obtain v f1 r1 vs' where
    v: "FcmStreamReader_next R (br_val_stream b, br_stream b) = Some (v, f1, r1)"
    "read_n (FcmStreamReader_next R) n (f1, r1) = Some (vs', f', r')" "vs = v # vs'"
    by (auto simp: bind_Some_conv split: prod.splits)
  let ?i = "br_read_index b mod 16"
  let ?b = "b\<lparr>br_read_index := Suc (br_read_index b), br_val_stream := f1, br_stream := r1\<rparr>"
  have i: "?i < length (br_read_buffer b)" using Suc.prems(5) by simp
  have step: "IOVecBlockReader_next R b = Some (ok_item (br_read_buffer b ! ?i, v), ?b)"
    using Suc.prems(1-5) v(1) by (simp add: IOVecBlockReader_next_def br_sizes_def Let_def ok_item_def)
  have split: "take (Suc n) (drop ?i (br_read_buffer b)) =
      br_read_buffer b ! ?i # take n (drop (Suc ?i) (br_read_buffer b))"
    using Cons_nth_drop_Suc[OF i] by (metis take_Suc_Cons)
  show ?case
  proof (cases n)
    case 0
    with step v(2,3) split show ?thesis by simp
  next
    case (Suc m)
    have mod: "Suc (br_read_index b) mod 16 = Suc ?i"
      using Suc.prems(4) Suc by (auto simp: mod_Suc)
    have "Suc (br_read_index b) < 16 * k"
      using Suc.prems(2,4) mod by (metis Suc_lessI mod_mult_self1_is_0 nat.distinct(1))
    then have "read_n (IOVecBlockReader_next R) n ?b =
      Some (map ok_item (zip (take n (drop (br_read_index ?b mod 16) (br_read_buffer ?b))) vs'),
           ?b\<lparr>br_val_stream := f', br_stream := r', br_read_index := br_read_index ?b + n\<rparr>)"
      using Suc.prems v(2) mod by (intro Suc.IH) (simp_all add: br_sizes_def)
    with step v(3) split mod show ?thesis by simp
  qed
qed

context byte_source
begin

text \<open>The reader between two chunks.\<close>

definition br_between :: "u64 \<Rightarrow> dfcm_predictor \<Rightarrow> 'r block_reader \<Rightarrow> bool" where
  "br_between prev p b \<longleftrightarrow> rinv (br_stream b) \<and> ddr_counter (br_ts_stream b) mod 16 = 0 \<and>
     ddr_prev (br_ts_stream b) = prev \<and> fr_ready (br_val_stream b) p"

lemma br_read_chunk:
  assumes b: "br_between prev p b" "br_sizes k t b" and ix: "br_read_index b = 16 * j" "j < k"
    and c: "length c = 16" "fcm_encode_all (map snd c) p = Some (es, p')"
    and d: "rest (br_stream b) = dd_chunk prev (map fst c) @ fcm_chunk es @ ys"
  shows "\<exists>b'. read_n (IOVecBlockReader_next R) 16 b = Some (map ok_item c, b') \<and>
     br_between (last (map fst c)) p' b' \<and> br_begin b' = br_begin b \<and>
     br_read_index b' = 16 * Suc j \<and> rest (br_stream b') = ys"
proof -
  have b1: "rinv (br_stream b)" "ddr_counter (br_ts_stream b) mod 16 = 0"
    "ddr_prev (br_ts_stream b) = prev" "fr_ready (br_val_stream b) p" using b(1) by (simp_all add: br_between_def)
  have l: "length (map fst c) = 16" "length (map snd c) = 16" using c(1) by simp_all
  from dd_read_chunk[OF b1(1,2) l(1), of "fcm_chunk es @ ys"] d b1(3) obtain d' r1 where
    r1: "read_n (DeltaDeltaStreamReader_next R) 16 (br_ts_stream b, br_stream b) = Some (map fst c, d', r1)"
    "ddr_counter d' mod 16 = 0" "ddr_prev d' = last (map fst c)" "rinv r1" "rest r1 = fcm_chunk es @ ys"
    by auto
  from fcm_read_chunk[OF b1(4) r1(4) l(2) c(2) r1(5)] obtain f' r2 where
    r2: "read_n (FcmStreamReader_next R) 16 (br_val_stream b, r1) = Some (map snd c, f', r2)"
    "fr_ready f' p'" "rinv r2" "rest r2 = ys" by blast
  have "read_n (FcmStreamReader_next R) (Suc 15) (br_val_stream b, r1) = Some (map snd c, f', r2)"
    using r2(1) by simp
  then obtain v f1 r3 vs where
    v: "FcmStreamReader_next R (br_val_stream b, r1) = Some (v, f1, r3)"
    "read_n (FcmStreamReader_next R) 15 (f1, r3) = Some (vs, f', r2)" "map snd c = v # vs"
    by (auto simp only: read_n.simps bind_Some_conv split: prod.splits) auto
  obtain tv cs where cs: "c = tv # cs" using c(1) by (cases c) auto
  let ?b = "b\<lparr>br_read_buffer := map fst c, br_ts_stream := d', br_read_index := Suc (br_read_index b),
     br_val_stream := f1, br_stream := r3\<rparr>"
  have "br_read_index b < 16 * k" using ix by simp
  then have first: "IOVecBlockReader_next R b = Some (ok_item tv, ?b)"
    using b(2) ix r1(1) v(1,3) cs
    by (simp add: IOVecBlockReader_next_def br_sizes_def Let_def ok_item_def at_def)
  have "br_read_index ?b mod 16 = 1" using ix by (simp add: mod_Suc)
  moreover have "br_read_index ?b < 16 * k" using ix by simp
  ultimately have "read_n (IOVecBlockReader_next R) 15 ?b =
     Some (map ok_item (zip (take 15 (drop 1 (map fst c))) vs),
           ?b\<lparr>br_val_stream := f', br_stream := r2, br_read_index := br_read_index ?b + 15\<rparr>)"
    using br_read_within[of k t ?b 15 R vs f' r2] b(2) v(2) l by (simp add: br_sizes_def)
  moreover have "zip (take 15 (drop 1 (map fst c))) vs = cs"
    using v(3) cs c(1) by (auto simp: zip_map_fst_snd)
  ultimately have "read_n (IOVecBlockReader_next R) (Suc 15) b = Some (map ok_item c,
      ?b\<lparr>br_val_stream := f', br_stream := r2, br_read_index := br_read_index ?b + 15\<rparr>)"
    using first cs by (simp only: read_n.simps Option.bind.simps prod.case list.map)
  then show ?thesis using r1(2,3) r2 ix by (simp add: br_between_def)
qed

lemma br_read_main:
  "br_between prev p b \<Longrightarrow> br_sizes k t b \<Longrightarrow> br_read_index b = 16 * j \<Longrightarrow> j + length cs = k \<Longrightarrow>
   \<forall>c \<in> set cs. length c = 16 \<Longrightarrow> chunks_bytes cs prev p = Some (bs, q) \<Longrightarrow>
   rest (br_stream b) = bs @ ys \<Longrightarrow>
   \<exists>b'. read_n (IOVecBlockReader_next R) (16 * length cs) b = Some (map ok_item (concat cs), b') \<and>
     rinv (br_stream b') \<and> br_begin b' = br_begin b \<and> br_read_index b' = 16 * k \<and>
     rest (br_stream b') = ys"
proof (induction cs arbitrary: prev p b j bs)
  case Nil
  then show ?case by (auto simp: br_between_def)
next
  case (Cons c cs)
  from Cons.prems(6) obtain es p1 bs' where
    e: "fcm_encode_all (map snd c) p = Some (es, p1)"
    "chunks_bytes cs (last (map fst c)) p1 = Some (bs', q)"
    "bs = dd_chunk prev (map fst c) @ fcm_chunk es @ bs'"
    by (auto simp: bind_Some_conv split: prod.splits)
  have c: "length c = 16" "j < k" using Cons.prems(4,5) by simp_all
  have "rest (br_stream b) = dd_chunk prev (map fst c) @ fcm_chunk es @ (bs' @ ys)"
    using Cons.prems(7) e(3) by simp
  from br_read_chunk[OF Cons.prems(1,2,3) c(2,1) e(1) this] obtain b1 where
    b1: "read_n (IOVecBlockReader_next R) 16 b = Some (map ok_item c, b1)"
    "br_between (last (map fst c)) p1 b1" "br_begin b1 = br_begin b" "br_read_index b1 = 16 * Suc j"
    "rest (br_stream b1) = bs' @ ys" by blast
  have "br_sizes k t b1" "Suc j + length cs = k" "\<forall>c \<in> set cs. length c = 16"
    using Cons.prems(2,4,5) b1(3) by (simp_all add: br_sizes_def)
  from Cons.IH[OF b1(2) this(1) b1(4) this(2,3) e(2) b1(5)] b1 show ?case
    by (auto simp: read_n_add)
qed

lemma br_read_tail:
  "rinv (br_stream b) \<Longrightarrow> br_sizes k t b \<Longrightarrow> br_read_index b = 16 * k + i \<Longrightarrow> i + length tvs \<le> t \<Longrightarrow>
   rest (br_stream b) = tail_bytes tvs @ ys \<Longrightarrow>
   \<exists>b'. read_n (IOVecBlockReader_next R) (length tvs) b = Some (map ok_item tvs, b') \<and>
     br_begin b' = br_begin b \<and> br_read_index b' = 16 * k + i + length tvs"
proof (induction tvs arbitrary: b i)
  case (Cons tv tvs)
  have "rest (br_stream b) = le_bytes 8 (fst tv) @ (le_bytes 8 (snd tv) @ tail_bytes tvs @ ys)"
    using Cons.prems(5) by simp
  from read_raw_ok[OF Cons.prems(1) this] obtain r1 where
    r1: "rs_read_raw R 8 (br_stream b) = Some (le_bytes 8 (fst tv), r1)" "rinv r1"
    "rest r1 = le_bytes 8 (snd tv) @ (tail_bytes tvs @ ys)" by auto
  from read_raw_ok[OF r1(2,3)] obtain r2 where
    r2: "rs_read_raw R 8 r1 = Some (le_bytes 8 (snd tv), r2)" "rinv r2" "rest r2 = tail_bytes tvs @ ys"
    by auto
  let ?b = "b\<lparr>br_read_index := Suc (br_read_index b), br_stream := r2\<rparr>"
  have "IOVecBlockReader_next R b = Some (ok_item tv, ?b)"
    using r1(1) r2(1) Cons.prems(2,3,4)
    by (simp add: IOVecBlockReader_next_def br_sizes_def Let_def ok_item_def)
  moreover have "\<exists>b'. read_n (IOVecBlockReader_next R) (length tvs) ?b = Some (map ok_item tvs, b') \<and>
     br_begin b' = br_begin ?b \<and> br_read_index b' = 16 * k + Suc i + length tvs"
    using r2 Cons.prems by (intro Cons.IH) (simp_all add: br_sizes_def)
  ultimately show ?case by auto
qed simp

text \<open>Reading a whole block: every element in order, then no data.\<close>

lemma br_read_all:
  assumes new: "IOVecBlockReader_new h r = Some b" and r: "rinv r"
    and h: "h = hdr_bytes (length main) (length tvs) sid @ hrest"
    and n: "length main \<le> 65535" "length tvs \<le> 65535"
    and c: "\<forall>c \<in> set main. length c = 16" "DfcmPredictor_new 128 = Some p"
      "chunks_bytes main 0 p = Some (bs, q)"
    and d: "rest r = bs @ tail_bytes tvs @ ys"
  shows "\<exists>b'. read_n (IOVecBlockReader_next R) (length (concat main @ tvs)) b
      = Some (map ok_item (concat main @ tvs), b') \<and>
      IOVecBlockReader_next R b' = Some ((kNoData, 0, 0), b')"
proof -
  have p: "dfcm_inv p" using dfcm_new_inv c(2) by simp
  from new have b: "br_begin b = h" "br_stream b = r" "br_read_index b = 16 * 0" "br_between 0 p b"
    using c(2) p r
    by (auto simp: IOVecBlockReader_new_def FcmStreamReader_new_def dfcm_new_128 br_between_def
        DeltaDeltaStreamReader_new_def fr_ready_def)
  have sz: "br_sizes (length main) (length tvs) b" by (rule br_sizes_header[OF _ n]) (use b h in auto)
  from br_read_main[OF b(4) sz b(3) _ c(1,3), of "tail_bytes tvs @ ys"] d b(2) obtain b1 where
    b1: "read_n (IOVecBlockReader_next R) (16 * length main) b = Some (map ok_item (concat main), b1)"
    "rinv (br_stream b1)" "br_begin b1 = br_begin b" "br_read_index b1 = 16 * length main"
    "rest (br_stream b1) = tail_bytes tvs @ ys" by auto
  have sz1: "br_sizes (length main) (length tvs) b1" using sz b1(3) by (simp add: br_sizes_def)
  from br_read_tail[OF b1(2) sz1 _ _ b1(5), of 0] b1(4) obtain b2 where
    b2: "read_n (IOVecBlockReader_next R) (length tvs) b1 = Some (map ok_item tvs, b2)"
    "br_begin b2 = br_begin b1" "br_read_index b2 = 16 * length main + length tvs" by auto
  have len: "length (concat main) = 16 * length main"
    using c(1) by (induction main) auto
  have "IOVecBlockReader_next R b2 = Some ((kNoData, 0, 0), b2)"
    using sz1 b2(2,3) by (simp add: IOVecBlockReader_next_def br_sizes_def)
  then show ?thesis using b1(1) b2(1) len by (auto simp: read_n_add)
qed

end

end
