(* ===== verification/VByte.thy ===== *)
theory VByte
  imports BlockCodec
begin

text \<open>
  \<open>VByteStreamWriter\<close> and \<open>VByteStreamReader\<close> of \<^verbatim>\<open>storage/compression.h\<close>, at
  \<open>TVal = u64\<close>, the only instance the storage engine uses: pairs of integers under one
  control byte, the sixteen-zeros shortcut, raw values and the base-128 values of the
  delta encoder.
\<close>

subsection \<open>VByteStreamWriter\<close>

record vbyte_writer =
  vw_buf :: "u8 list"
  vw_pos :: nat
  vw_cnt :: u32
  vw_prev :: u64

definition VByteStreamWriter_new :: "u8 list \<Rightarrow> vbyte_writer" where
  "VByteStreamWriter_new buf = \<lparr>vw_buf = buf, vw_pos = 0, vw_cnt = 0, vw_prev = 0\<rparr>"

definition vw_space_left :: "vbyte_writer \<Rightarrow> nat" where
  "vw_space_left w = length (vw_buf w) - vw_pos w"

definition vw_size :: "vbyte_writer \<Rightarrow> nat" where
  "vw_size w = vw_pos w"

text \<open>The statement \<open>*pos_++ = b\<close>.\<close>

definition vw_emit :: "u8 \<Rightarrow> vbyte_writer \<Rightarrow> vbyte_writer option" where
  "vw_emit b w =
     (if vw_pos w < length (vw_buf w)
      then Some (w\<lparr>vw_buf := (vw_buf w)[vw_pos w := b], vw_pos := Suc (vw_pos w)\<rparr>)
      else None)"

text \<open>The loops \<open>for (i < ctrl) { *pos_++ = (u8)x; x >>= 8; }\<close>.\<close>

primrec vw_emit_le :: "nat \<Rightarrow> u64 \<Rightarrow> vbyte_writer \<Rightarrow> vbyte_writer option" where
  "vw_emit_le 0 x w = Some w"
| "vw_emit_le (Suc n) x w = do { w \<leftarrow> vw_emit (ucast x) w; vw_emit_le n (drop_bit 8 x) w }"

definition vw_encode :: "u64 \<Rightarrow> u64 \<Rightarrow> vbyte_writer \<Rightarrow> (bool \<times> vbyte_writer) option" where
  "vw_encode a b w =
     (let fstlen = (if a \<noteq> 0 then clzll a else 8 * 8);
          sndlen = (if b \<noteq> 0 then clzll b else 8 * 8);
          fstctrl = 8 - fstlen div 8;
          sndctrl = 8 - sndlen div 8;
          ctrlword = of_nat fstctrl OR push_bit 4 (of_nat sndctrl)
      in if vw_space_left w < 1 + fstctrl + sndctrl then Some (False, w)
         else do {
           w \<leftarrow> vw_emit ctrlword w;
           w \<leftarrow> vw_emit_le fstctrl a w;
           w \<leftarrow> vw_emit_le sndctrl b w;
           Some (True, w) })"

definition vw_put_base128 :: "u64 \<Rightarrow> vbyte_writer \<Rightarrow> (bool \<times> vbyte_writer) option" where
  "vw_put_base128 value w =
     (case Base128Int_put (vw_buf w) (vw_pos w) value of
        (buf', p) \<Rightarrow>
          if vw_pos w = p then Some (False, w\<lparr>vw_buf := buf'\<rparr>)
          else Some (True, w\<lparr>vw_buf := buf', vw_pos := p\<rparr>))"

definition vw_shortcut :: "vbyte_writer \<Rightarrow> (bool \<times> vbyte_writer) option" where
  "vw_shortcut w =
     (if vw_space_left w = 0 then Some (False, w)
      else do { w \<leftarrow> vw_emit 255 w; Some (True, w) })"

fun vw_tput_loop :: "nat \<Rightarrow> u64 list \<Rightarrow> vbyte_writer \<Rightarrow> (bool \<times> vbyte_writer) option" where
  "vw_tput_loop oldpos (a # b # xs) w =
     do { (ok, w) \<leftarrow> vw_encode a b w;
          if \<not> ok then Some (False, w\<lparr>vw_pos := oldpos\<rparr>) else vw_tput_loop oldpos xs w }"
| "vw_tput_loop oldpos _ w = Some (True, w)"

definition vw_tput :: "u64 list \<Rightarrow> vbyte_writer \<Rightarrow> (bool \<times> vbyte_writer) option" where
  "vw_tput iter w =
     (if odd (length iter) then None
      else if \<forall>x \<in> set iter. x = 0 then vw_shortcut w
      else vw_tput_loop (vw_pos w) iter w)"

definition vw_put :: "u64 \<Rightarrow> vbyte_writer \<Rightarrow> (bool \<times> vbyte_writer) option" where
  "vw_put value w =
     (let w = w\<lparr>vw_cnt := vw_cnt w + 1\<rparr>
      in if odd (vw_cnt w) then Some (True, w\<lparr>vw_prev := value\<rparr>)
         else vw_encode (vw_prev w) value w)"

definition vw_put_raw :: "u8 list \<Rightarrow> vbyte_writer \<Rightarrow> (bool \<times> vbyte_writer) option" where
  "vw_put_raw bs w =
     (if vw_space_left w < length bs then Some (False, w)
      else Some (True, w\<lparr>vw_buf := splice_at (vw_pos w) bs (vw_buf w),
                         vw_pos := vw_pos w + length bs\<rparr>))"

definition vw_commit :: "vbyte_writer \<Rightarrow> (bool \<times> vbyte_writer) option" where
  "vw_commit w =
     (if odd (vw_cnt w) then
        let len = (if vw_prev w \<noteq> 0 then clzll (vw_prev w) else 64);
            ctrl = 8 - len div 8
        in if vw_space_left w < 1 + ctrl then Some (False, w)
           else do {
             w \<leftarrow> vw_emit (of_nat ctrl) w;
             w \<leftarrow> vw_emit_le ctrl (vw_prev w) w;
             Some (True, w\<lparr>vw_prev := drop_bit (8 * ctrl) (vw_prev w)\<rparr>) }
      else Some (True, w))"

text \<open>\<open>allocate<T>\<close> returns a pointer into the region (its offset) or a null pointer.\<close>

definition vw_allocate :: "nat \<Rightarrow> vbyte_writer \<Rightarrow> nat option \<times> vbyte_writer" where
  "vw_allocate sz w =
     (if vw_space_left w < sz then (None, w)
      else (Some (vw_pos w), w\<lparr>vw_pos := vw_pos w + sz\<rparr>))"

subsection \<open>VByteStreamReader\<close>

record vbyte_reader =
  vr_data :: "u8 list"
  vr_pos :: nat
  vr_cnt :: u32
  vr_ctrl :: u8
  vr_scut :: nat

definition VByteStreamReader_new :: "u8 list \<Rightarrow> vbyte_reader" where
  "VByteStreamReader_new data = \<lparr>vr_data = data, vr_pos = 0, vr_cnt = 0, vr_ctrl = 0, vr_scut = 0\<rparr>"

definition vr_space_left :: "vbyte_reader \<Rightarrow> nat" where
  "vr_space_left r = length (vr_data r) - vr_pos r"

definition vr_read_raw :: "nat \<Rightarrow> vbyte_reader \<Rightarrow> (u8 list \<times> vbyte_reader) option" where
  "vr_read_raw sz r =
     (if vr_space_left r < sz then None
      else Some (take sz (drop (vr_pos r) (vr_data r)), r\<lparr>vr_pos := vr_pos r + sz\<rparr>))"

text \<open>The accumulation loop of \<open>next\<close>; a control nibble above 8 would shift a \<open>u64\<close> by 64
  or more.\<close>

definition vr_read_le :: "nat \<Rightarrow> vbyte_reader \<Rightarrow> (u64 \<times> vbyte_reader) option" where
  "vr_read_le bytelen r =
     (if vr_space_left r < bytelen then None
      else if 8 < bytelen then None
      else Some (le_acc (take bytelen (drop (vr_pos r) (vr_data r))) 0 0,
                 r\<lparr>vr_pos := vr_pos r + bytelen\<rparr>))"

definition vr_next :: "vbyte_reader \<Rightarrow> (u64 \<times> vbyte_reader) option" where
  "vr_next r =
     (if vr_ctrl r = 255 \<and> vr_scut r \<noteq> 0
      then Some (0, r\<lparr>vr_scut := vr_scut r - 1, vr_cnt := vr_cnt r + 1\<rparr>)
      else if even (vr_cnt r)
      then do {
        (bs, r) \<leftarrow> vr_read_raw 1 (r\<lparr>vr_cnt := vr_cnt r + 1\<rparr>);
        let ctrl = le_val bs;
        let r = r\<lparr>vr_ctrl := ctrl\<rparr>;
        if drop_bit 4 ctrl = 15 then Some (0, r\<lparr>vr_scut := 15\<rparr>)
        else vr_read_le (unat (ctrl AND 15)) r }
      else vr_read_le (unat (drop_bit 4 (vr_ctrl r))) (r\<lparr>vr_cnt := vr_cnt r + 1\<rparr>))"

definition vr_next_base128 :: "vbyte_reader \<Rightarrow> (u64 \<times> vbyte_reader) option" where
  "vr_next_base128 r =
     (case Base128Int_get (vr_data r) (vr_pos r) 0 of
        None \<Rightarrow> None
      | Some (p, v) \<Rightarrow> if p = vr_pos r then None else Some (v, r\<lparr>vr_pos := p\<rparr>))"

subsection \<open>The writer as a byte sink\<close>

definition vw_write :: "u8 list \<Rightarrow> vbyte_writer \<Rightarrow> vbyte_writer" where
  "vw_write bs w = w\<lparr>vw_buf := splice_at (vw_pos w) bs (vw_buf w), vw_pos := vw_pos w + length bs\<rparr>"

definition vw_bytes :: "vbyte_writer \<Rightarrow> u8 list" where
  "vw_bytes w = take (vw_pos w) (vw_buf w)"

definition vw_inv :: "vbyte_writer \<Rightarrow> bool" where
  "vw_inv w \<longleftrightarrow> vw_pos w \<le> length (vw_buf w) \<and> even (vw_cnt w)"

definition VByteW :: "vbyte_writer wstream" where
  "VByteW = \<lparr>ws_put_base128 = vw_put_base128, ws_tput = vw_tput, ws_put = vw_put,
     ws_put_raw = vw_put_raw, ws_commit = vw_commit, ws_space_left = vw_space_left,
     ws_size = vw_size, ws_empty = (\<lambda>w. length (vw_buf w) = 0),
     ws_allocate = (\<lambda>n w. Some (vw_allocate n w)),
     ws_store16 = (\<lambda>off v w.
       if off + 2 \<le> length (vw_buf w)
       then Some (w\<lparr>vw_buf := splice_at off (le_bytes 2 v) (vw_buf w)\<rparr>) else None),
     ws_load16 = (\<lambda>off w.
       if off + 2 \<le> length (vw_buf w)
       then Some (le_val (take 2 (drop off (vw_buf w)))) else None)\<rparr>"

lemma VByteW_sel [simp]:
  "ws_put_base128 VByteW = vw_put_base128" "ws_tput VByteW = vw_tput" "ws_put VByteW = vw_put"
  "ws_put_raw VByteW = vw_put_raw" "ws_commit VByteW = vw_commit"
  "ws_space_left VByteW = vw_space_left" "ws_size VByteW = vw_size"
  by (simp_all add: VByteW_def)

lemma vw_write_sel [simp]:
  "vw_pos (vw_write bs w) = vw_pos w + length bs" "vw_cnt (vw_write bs w) = vw_cnt w"
  "vw_prev (vw_write bs w) = vw_prev w"
  by (simp_all add: vw_write_def)

lemma length_vw_write [simp]:
  "vw_pos w + length bs \<le> length (vw_buf w) \<Longrightarrow> length (vw_buf (vw_write bs w)) = length (vw_buf w)"
  by (simp add: vw_write_def)

lemma vw_write_write [simp]:
  "vw_pos w + length a \<le> length (vw_buf w) \<Longrightarrow> vw_write b (vw_write a w) = vw_write (a @ b) w"
  by (simp add: vw_write_def)

lemma vw_write_Nil [simp]: "vw_write [] w = w"
  by (simp add: vw_write_def)

lemma vw_write_appended:
  "vw_inv w \<Longrightarrow> length bs \<le> vw_space_left w \<Longrightarrow> appended VByteW vw_bytes vw_inv w bs (vw_write bs w)"
  by (auto simp: appended_def vw_inv_def vw_space_left_def vw_bytes_def vw_write_def)

lemma vw_emit_ok:
  "vw_pos w < length (vw_buf w) \<Longrightarrow> vw_emit b w = Some (vw_write [b] w)"
  by (simp add: vw_emit_def vw_write_def splice_at_Cons)

lemma vw_emit_le_ok:
  "vw_pos w + n \<le> length (vw_buf w) \<Longrightarrow> vw_emit_le n x w = Some (vw_write (le_bytes n x) w)"
proof (induction n arbitrary: x w)
  case (Suc n)
  then show ?case by (simp add: vw_emit_ok)
qed simp

lemma nbytes_ctrl: "8 - (if v \<noteq> 0 then clzll v else 8 * 8) div 8 = nbytes v"
  by (simp add: nbytes_def)

lemma vw_encode_alt:
  "vw_encode a b w =
     (if vw_space_left w < length (vb_pair a b) then Some (False, w)
      else do {
        w \<leftarrow> vw_emit (vb_ctrl (nbytes a) (nbytes b)) w;
        w \<leftarrow> vw_emit_le (nbytes a) a w;
        w \<leftarrow> vw_emit_le (nbytes b) b w;
        Some (True, w) })"
  unfolding vw_encode_def Let_def nbytes_ctrl by (simp add: vb_pair_def vb_ctrl_def)

lemma vw_encode_ok:
  "vw_inv w \<Longrightarrow> length (vb_pair a b) \<le> vw_space_left w \<Longrightarrow>
   vw_encode a b w = Some (True, vw_write (vb_pair a b) w)"
  by (simp add: vw_encode_alt vb_pair_def vw_emit_ok vw_emit_le_ok vw_space_left_def vw_inv_def)

lemma vw_encode_full:
  "vw_space_left w < length (vb_pair a b) \<Longrightarrow> vw_encode a b w = Some (False, w)"
  by (simp add: vw_encode_alt)

lemma vw_tput_loop_ok:
  "vw_inv w \<Longrightarrow> length (vb_pairs xs) \<le> vw_space_left w \<Longrightarrow>
   vw_tput_loop old xs w = Some (True, vw_write (vb_pairs xs) w)"
proof (induction xs arbitrary: w rule: vb_pairs.induct)
  case (1 a b xs)
  then have s: "length (vb_pair a b) \<le> vw_space_left w" by simp
  then have room: "vw_pos w + length (vb_pair a b) \<le> length (vw_buf w)"
    using 1(2) by (auto simp: vw_inv_def vw_space_left_def)
  have "vw_inv (vw_write (vb_pair a b) w)"
    "length (vb_pairs xs) \<le> vw_space_left (vw_write (vb_pair a b) w)"
    using 1(2,3) by (auto simp: vw_inv_def vw_space_left_def)
  with 1(1) 1(2) s room show ?case by (simp add: vw_encode_ok)
qed simp_all

lemma vw_tput_ok:
  assumes "vw_inv w" "length xs = 16" "length (vb_chunk xs) \<le> vw_space_left w"
  shows "vw_tput xs w = Some (True, vw_write (vb_chunk xs) w)"
proof (cases "\<forall>x \<in> set xs. x = 0")
  case True
  with assms show ?thesis
    by (simp add: vw_tput_def vb_chunk_def vw_shortcut_def vw_emit_ok vw_space_left_def)
next
  case False
  with assms show ?thesis by (simp only: vw_tput_def vb_chunk_def if_False vw_tput_loop_ok) simp
qed

lemma vw_put_base128_ok:
  "length (leb128 v) \<le> vw_space_left w \<Longrightarrow> vw_inv w \<Longrightarrow>
   vw_put_base128 v w = Some (True, vw_write (leb128 v) w)"
  using leb128_length_pos[of v]
  by (simp add: vw_put_base128_def Base128Int_put_ok vw_write_def vw_space_left_def vw_inv_def)

interpretation vbw: header_sink VByteW vw_bytes vw_inv
proof
  fix w :: vbyte_writer and bs :: "u8 list"
  assume w: "vw_inv w"
  show "\<exists>s'. ws_put_raw VByteW bs w = Some (True, s') \<and> appended VByteW vw_bytes vw_inv w bs s'"
    if "length bs \<le> ws_space_left VByteW w"
    using that w vw_write_appended[OF w, of bs] by (auto simp: vw_put_raw_def vw_write_def)
  show "ws_put_raw VByteW bs w = Some (False, w)" if "ws_space_left VByteW w < length bs"
    using that by (simp add: vw_put_raw_def)
  show "\<exists>s'. ws_put_base128 VByteW v w = Some (True, s') \<and> appended VByteW vw_bytes vw_inv w (leb128 v) s'"
    if "length (leb128 v) \<le> ws_space_left VByteW w" for v
    using that w by (simp add: vw_put_base128_ok vw_write_appended)
  show "\<exists>s'. ws_tput VByteW xs w = Some (True, s') \<and> appended VByteW vw_bytes vw_inv w (vb_chunk xs) s'"
    if "length xs = 16" "length (vb_chunk xs) \<le> ws_space_left VByteW w" for xs
    using that w by (simp add: vw_tput_ok vw_write_appended)
  show "ws_commit VByteW w = Some (True, w)"
    using w by (simp add: vw_commit_def vw_inv_def)
  show "ws_size VByteW w = length (vw_bytes w)"
    using w by (simp add: vw_size_def vw_bytes_def vw_inv_def)
  show "\<exists>s' xs. ws_allocate VByteW n w = Some (Some (length (vw_bytes w)), s') \<and> length xs = n \<and>
      appended VByteW vw_bytes vw_inv w xs s'" if "n \<le> ws_space_left VByteW w" for n
    using that w
    by (intro exI[of _ "w\<lparr>vw_pos := vw_pos w + n\<rparr>"] exI[of _ "take n (drop (vw_pos w) (vw_buf w))"])
      (auto simp: VByteW_def vw_allocate_def vw_space_left_def vw_bytes_def vw_inv_def appended_def
        take_add)
  show "\<exists>s'. ws_store16 VByteW off v w = Some s' \<and> vw_inv s' \<and>
      vw_bytes s' = splice_at off (le_bytes 2 v) (vw_bytes w) \<and>
      ws_space_left VByteW s' = ws_space_left VByteW w"
    if "off + 2 \<le> length (vw_bytes w)" for off v
    using that w
    by (simp add: VByteW_def vw_bytes_def vw_inv_def vw_space_left_def take_splice_at_inner)
  show "ws_load16 VByteW off w = Some (le_val (take 2 (drop off (vw_bytes w))))"
    if "off + 2 \<le> length (vw_bytes w)" for off
  proof -
    from that w have "off + 2 \<le> vw_pos w" "vw_pos w \<le> length (vw_buf w)"
      by (auto simp: vw_bytes_def vw_inv_def)
    moreover from this have "min 2 (vw_pos w - off) = 2" by simp
    ultimately show ?thesis by (simp add: VByteW_def vw_bytes_def take_drop[symmetric] drop_take)
  qed
  show "\<not> ws_empty VByteW w" if "vw_bytes w \<noteq> []"
    using that by (auto simp: VByteW_def vw_bytes_def)
qed

subsection \<open>The reader as a byte source\<close>

definition vr_rest :: "vbyte_reader \<Rightarrow> u8 list" where
  "vr_rest r = drop (vr_pos r) (vr_data r)"

definition vr_inv :: "vbyte_reader \<Rightarrow> bool" where
  "vr_inv r \<longleftrightarrow> even (vr_cnt r) \<and> vr_scut r = 0"

definition VByteR :: "vbyte_reader rstream" where
  "VByteR = \<lparr>rs_next = vr_next, rs_next_base128 = vr_next_base128, rs_read_raw = vr_read_raw\<rparr>"

lemma VByteR_sel [simp]:
  "rs_next VByteR = vr_next" "rs_next_base128 VByteR = vr_next_base128"
  "rs_read_raw VByteR = vr_read_raw"
  by (simp_all add: VByteR_def)

lemma vr_rest_adv: "vr_rest r = xs @ ys \<Longrightarrow> drop (vr_pos r + length xs) (vr_data r) = ys"
  by (metis add.commute append_eq_conv_conj drop_drop vr_rest_def)

lemma vr_read_raw_ok:
  assumes "vr_rest r = xs @ ys"
  shows "vr_read_raw (length xs) r = Some (xs, r\<lparr>vr_pos := vr_pos r + length xs\<rparr>)"
proof -
  have "length xs \<le> length (vr_rest r)" using assms by simp
  moreover have "take (length xs) (vr_rest r) = xs" using assms by simp
  ultimately show ?thesis by (simp add: vr_read_raw_def vr_space_left_def vr_rest_def)
qed

lemma vr_read_le_ok:
  assumes "vr_rest r = le_bytes (nbytes v) v @ ys"
  shows "vr_read_le (nbytes v) r = Some (v, r\<lparr>vr_pos := vr_pos r + nbytes v\<rparr>)"
proof -
  have "nbytes v \<le> length (vr_rest r)" using assms by simp
  moreover have "take (nbytes v) (vr_rest r) = le_bytes (nbytes v) v" using assms by simp
  ultimately show ?thesis
    using nbytes_le[of v]
    by (simp add: vr_read_le_def vr_space_left_def vr_rest_def le_acc_le_val del: nbytes_le)
qed

lemma vr_next_first:
  assumes r: "vr_inv r" and d: "vr_rest r = vb_pair a b @ ys"
  shows "\<exists>r'. vr_next r = Some (a, r') \<and> odd (vr_cnt r') \<and> vr_scut r' = 0 \<and>
           vr_ctrl r' = vb_ctrl (nbytes a) (nbytes b) \<and> vr_rest r' = le_bytes (nbytes b) b @ ys"
proof -
  let ?c = "vb_ctrl (nbytes a) (nbytes b)"
  let ?r1 = "r\<lparr>vr_cnt := vr_cnt r + 1\<rparr>"
  let ?r2 = "?r1\<lparr>vr_pos := vr_pos r + 1, vr_ctrl := ?c\<rparr>"
  note ctrl = vb_ctrl_decode[OF nbytes_le nbytes_le, of a b]
  have raw: "vr_read_raw 1 ?r1 = Some ([?c], ?r1\<lparr>vr_pos := vr_pos r + 1\<rparr>)"
    using vr_read_raw_ok[of ?r1 "[?c]"] d by (simp add: vb_pair_def vr_rest_def)
  have d2: "vr_rest ?r2 = le_bytes (nbytes a) a @ le_bytes (nbytes b) b @ ys"
    using vr_rest_adv[of r "[?c]"] d by (simp add: vb_pair_def vr_rest_def)
  have "drop_bit 4 ?c \<noteq> 15"
  proof
    assume "drop_bit 4 ?c = 15"
    then have "nbytes b = 15" using ctrl by simp
    with nbytes_le[of b] show False by linarith
  qed
  moreover have "vr_read_le (unat (?c AND 15)) ?r2 = Some (a, ?r2\<lparr>vr_pos := vr_pos ?r2 + nbytes a\<rparr>)"
    using vr_read_le_ok[OF d2] ctrl by simp
  moreover have "vr_rest (?r2\<lparr>vr_pos := vr_pos ?r2 + nbytes a\<rparr>) = le_bytes (nbytes b) b @ ys"
    using vr_rest_adv[OF d2] by (simp add: vr_rest_def)
  ultimately show ?thesis using r raw by (simp add: vr_next_def vr_inv_def)
qed

lemma vr_next_second:
  assumes "odd (vr_cnt r)" "vr_scut r = 0" "vr_ctrl r = vb_ctrl (nbytes a) (nbytes b)"
    and d: "vr_rest r = le_bytes (nbytes b) b @ ys"
  shows "\<exists>r'. vr_next r = Some (b, r') \<and> vr_inv r' \<and> vr_rest r' = ys"
proof -
  let ?r1 = "r\<lparr>vr_cnt := vr_cnt r + 1\<rparr>"
  note ctrl = vb_ctrl_decode[OF nbytes_le nbytes_le, of a b]
  have "vr_rest ?r1 = le_bytes (nbytes b) b @ ys" using d by (simp add: vr_rest_def)
  from vr_read_le_ok[OF this] vr_rest_adv[OF this] show ?thesis
    using assms ctrl by (simp add: vr_next_def vr_inv_def vr_rest_def)
qed

lemma vr_read_pairs:
  "vr_inv r \<Longrightarrow> even (length vs) \<Longrightarrow> vr_rest r = vb_pairs vs @ ys \<Longrightarrow>
   \<exists>r'. read_n vr_next (length vs) r = Some (vs, r') \<and> vr_inv r' \<and> vr_rest r' = ys"
proof (induction vs arbitrary: r rule: vb_pairs.induct)
  case (1 a b xs)
  then have d: "vr_rest r = vb_pair a b @ (vb_pairs xs @ ys)" by simp
  from vr_next_first[OF 1(2) d] obtain r1 where
    r1: "vr_next r = Some (a, r1)" "odd (vr_cnt r1)" "vr_scut r1 = 0"
      "vr_ctrl r1 = vb_ctrl (nbytes a) (nbytes b)"
      "vr_rest r1 = le_bytes (nbytes b) b @ (vb_pairs xs @ ys)" by auto
  from vr_next_second[OF r1(2-5)] obtain r2 where
    r2: "vr_next r1 = Some (b, r2)" "vr_inv r2" "vr_rest r2 = vb_pairs xs @ ys" by auto
  from 1(1)[OF r2(2) _ r2(3)] 1(3) r1(1) r2(1) show ?case by auto
qed auto

lemma vr_scut_run:
  "vr_ctrl r = 255 \<Longrightarrow> vr_scut r = n \<Longrightarrow>
   read_n vr_next n r = Some (replicate n 0, r\<lparr>vr_scut := 0, vr_cnt := vr_cnt r + of_nat n\<rparr>)"
proof (induction n arbitrary: r)
  case (Suc n)
  let ?r = "r\<lparr>vr_scut := n, vr_cnt := vr_cnt r + 1\<rparr>"
  have "vr_next r = Some (0, ?r)" using Suc.prems by (simp add: vr_next_def)
  moreover have "read_n vr_next n ?r = Some (replicate n 0, ?r\<lparr>vr_scut := 0, vr_cnt := vr_cnt ?r + of_nat n\<rparr>)"
    using Suc.prems by (intro Suc.IH) simp_all
  ultimately show ?case by (simp add: add.assoc)
qed simp

lemma vr_read_shortcut:
  assumes "vr_inv r" "vr_rest r = 255 # ys"
  shows "\<exists>r'. read_n vr_next 16 r = Some (replicate 16 0, r') \<and> vr_inv r' \<and> vr_rest r' = ys"
proof -
  let ?r1 = "r\<lparr>vr_cnt := vr_cnt r + 1\<rparr>"
  let ?r2 = "?r1\<lparr>vr_pos := vr_pos r + 1, vr_ctrl := 255, vr_scut := 15\<rparr>"
  have raw: "vr_read_raw 1 ?r1 = Some ([255], ?r1\<lparr>vr_pos := vr_pos r + 1\<rparr>)"
    using vr_read_raw_ok[of ?r1 "[255]" ys] assms(2) by (simp add: vr_rest_def)
  then have first: "vr_next r = Some (0, ?r2)"
    using assms(1) by (simp add: vr_next_def vr_inv_def)
  have "read_n vr_next 15 ?r2 = Some (replicate 15 0, ?r2\<lparr>vr_scut := 0, vr_cnt := vr_cnt ?r2 + of_nat 15\<rparr>)"
    by (rule vr_scut_run) simp_all
  with first have "read_n vr_next (Suc 15) r =
      Some (replicate (Suc 15) 0, ?r2\<lparr>vr_scut := 0, vr_cnt := vr_cnt ?r2 + of_nat 15\<rparr>)"
    by (simp only: read_n.simps Option.bind.simps prod.case replicate.simps)
  moreover have "drop (vr_pos r + 1) (vr_data r) = ys"
    using vr_rest_adv[of r "[255]" ys] assms(2) by simp
  ultimately show ?thesis using assms(1) by (simp add: vr_inv_def vr_rest_def)
qed

interpretation vbr: byte_source VByteR vr_rest vr_inv
proof
  fix r :: vbyte_reader and xs ys :: "u8 list"
  assume r: "vr_inv r"
  show "\<exists>r'. rs_read_raw VByteR (length xs) r = Some (xs, r') \<and> vr_inv r' \<and> vr_rest r' = ys"
    if "vr_rest r = xs @ ys"
    using vr_read_raw_ok[OF that] vr_rest_adv[OF that] r by (simp add: vr_inv_def vr_rest_def)
  show "\<exists>r'. rs_next_base128 VByteR r = Some (v, r') \<and> vr_inv r' \<and> vr_rest r' = ys"
    if "vr_rest r = leb128 v @ ys" for v
    using Base128Int_get_ok[of "vr_pos r" "vr_data r" v ys 0] vr_rest_adv[OF that] that r
    by (simp add: vr_next_base128_def vr_inv_def vr_rest_def)
  show "\<exists>r'. read_n (rs_next VByteR) 16 r = Some (vs, r') \<and> vr_inv r' \<and> vr_rest r' = ys"
    if l: "length vs = 16" and d: "vr_rest r = vb_chunk vs @ ys" for vs
  proof (cases "\<forall>x \<in> set vs. x = 0")
    case True
    then have "vs = replicate 16 0" using l by (intro replicate_eqI) auto
    with vr_read_shortcut[OF r] d True show ?thesis by (simp add: vb_chunk_def)
  next
    case False
    with vr_read_pairs[OF r, of vs ys] d l show ?thesis by (simp only: vb_chunk_def VByteR_sel) simp
  qed
qed

end
