(* ===== verification/DataBlock.thy ===== *)
theory DataBlock
  imports VByte
begin

text \<open>
  \<open>DataBlockWriter\<close> and \<open>DataBlockReader\<close> of \<^verbatim>\<open>storage/compression.cc\<close>, over a contiguous
  buffer.  Their bodies are those of the block templates at \<open>VByteStreamWriter\<close> and
  \<open>VByteStreamReader\<close>; the equations below show it, and the properties follow from the
  interpretations of the stream interfaces.
\<close>

type_synonym data_block_writer = "vbyte_writer block_writer"
type_synonym data_block_reader = "vbyte_reader block_reader"

subsection \<open>DataBlockWriter\<close>

text \<open>Accesses through \<open>nchunks_\<close> and \<open>ntail_\<close>, which point into the buffer.\<close>

definition dbw_load16 :: "nat option \<Rightarrow> data_block_writer \<Rightarrow> u16 option" where
  "dbw_load16 ptr w =
     do { off \<leftarrow> ptr;
          if off + 2 \<le> length (vw_buf (bw_stream w))
          then Some (le_val (take 2 (drop off (vw_buf (bw_stream w))))) else None }"

definition dbw_store16 :: "nat option \<Rightarrow> u16 \<Rightarrow> data_block_writer \<Rightarrow> data_block_writer option" where
  "dbw_store16 ptr v w =
     do { off \<leftarrow> ptr;
          if off + 2 \<le> length (vw_buf (bw_stream w))
          then Some (w\<lparr>bw_stream := (bw_stream w)\<lparr>vw_buf :=
                         splice_at off (le_bytes 2 v) (vw_buf (bw_stream w))\<rparr>\<rparr>) else None }"

definition DataBlockWriter_new :: "param_id \<Rightarrow> u8 list \<Rightarrow> data_block_writer option" where
  "DataBlockWriter_new sid buf =
     do {
       f \<leftarrow> FcmStreamWriter_new;
       (ok1, s) \<leftarrow> vw_put_raw (le_bytes 2 FASTSTDB_VERSION) (VByteStreamWriter_new buf);
       let (nchunks, s) = vw_allocate 2 s;
       let (ntail, s) = vw_allocate 2 s;
       (ok2, s) \<leftarrow> vw_put_raw (le_bytes 8 sid) s;
       let w = \<lparr>bw_stream = s, bw_ts_stream = DeltaDeltaStreamWriter_new, bw_val_stream = f,
                bw_write_index = 0, bw_ts_writebuf = replicate 16 0, bw_val_writebuf = replicate 16 0,
                bw_nchunks = nchunks, bw_ntail = ntail\<rparr>;
       if \<not> (ok2 \<and> ok1) \<or> nchunks = None \<or> ntail = None then None
       else do { w \<leftarrow> dbw_store16 ntail 0 w; dbw_store16 nchunks 0 w } }"

definition DataBlockWriter_room_for_chunk :: "data_block_writer \<Rightarrow> bool" where
  "DataBlockWriter_room_for_chunk w \<longleftrightarrow> \<not> vw_space_left (bw_stream w) < 10 * 16 + 9 * 16"

definition DataBlockWriter_put ::
  "timestamp \<Rightarrow> u64 \<Rightarrow> data_block_writer \<Rightarrow> (status \<times> data_block_writer) option" where
  "DataBlockWriter_put ts value w =
     (if DataBlockWriter_room_for_chunk w then
        let ix = bw_write_index w mod 16;
            w = w\<lparr>bw_ts_writebuf := (bw_ts_writebuf w)[ix := ts],
                  bw_val_writebuf := (bw_val_writebuf w)[ix := value],
                  bw_write_index := bw_write_index w + 1\<rparr>
        in if bw_write_index w mod 16 = 0 then
             do {
               (ok, d, s) \<leftarrow> DeltaDeltaStreamWriter_tput VByteW (bw_ts_writebuf w)
                               (bw_ts_stream w, bw_stream w);
               if \<not> ok then None
               else do {
                 (ok, f, s) \<leftarrow> FcmStreamWriter_tput VByteW (bw_val_writebuf w) (bw_val_stream w, s);
                 if \<not> ok then None
                 else do {
                   let w = w\<lparr>bw_ts_stream := d, bw_val_stream := f, bw_stream := s\<rparr>;
                   n \<leftarrow> dbw_load16 (bw_nchunks w) w;
                   w \<leftarrow> dbw_store16 (bw_nchunks w) (n + 1) w;
                   Some (kOk, w) } } }
           else Some (kOk, w)
      else if bw_write_index w mod 16 \<noteq> 0 then None
      else do {
        (ok, s) \<leftarrow> vw_put_raw (le_bytes 8 ts) (bw_stream w);
        if \<not> ok then Some (kOverflow, w\<lparr>bw_stream := s\<rparr>)
        else do {
          (ok, s) \<leftarrow> vw_put_raw (le_bytes 8 value) s;
          if \<not> ok then Some (kOverflow, w\<lparr>bw_stream := s\<rparr>)
          else do {
            let w = w\<lparr>bw_stream := s\<rparr>;
            n \<leftarrow> dbw_load16 (bw_ntail w) w;
            w \<leftarrow> dbw_store16 (bw_ntail w) (n + 1) w;
            Some (kOk, w) } } })"

primrec dbw_flush :: "(u64 \<times> u64) list \<Rightarrow> data_block_writer \<Rightarrow> data_block_writer option" where
  "dbw_flush [] w = Some w"
| "dbw_flush (tv # tvs) w =
     do {
       (ok1, s) \<leftarrow> vw_put_raw (le_bytes 8 (fst tv)) (bw_stream w);
       (ok2, s) \<leftarrow> vw_put_raw (le_bytes 8 (snd tv)) s;
       if \<not> (ok2 \<and> ok1) then None
       else do {
         let w = w\<lparr>bw_stream := s\<rparr>;
         n \<leftarrow> dbw_load16 (bw_ntail w) w;
         w \<leftarrow> dbw_store16 (bw_ntail w) (n + 1) w;
         dbw_flush tvs (w\<lparr>bw_write_index := bw_write_index w - 1\<rparr>) } }"

definition DataBlockWriter_commit :: "data_block_writer \<Rightarrow> (nat \<times> data_block_writer) option" where
  "DataBlockWriter_commit w =
     (let nchunks = bw_write_index w div 16;
          buftail = bw_write_index w mod 16
      in do {
        w \<leftarrow> (if buftail \<noteq> 0 then
                do {
                  n \<leftarrow> dbw_load16 (bw_ntail w) w;
                  if n \<noteq> 0 then None
                  else dbw_flush (take buftail (zip (bw_ts_writebuf w) (bw_val_writebuf w))) w }
              else Some w);
        if \<not> nchunks \<le> 0xFFFF then None
        else do {
          w \<leftarrow> dbw_store16 (bw_nchunks w) (of_nat nchunks) w;
          Some (vw_size (bw_stream w), w) } })"

definition DataBlockWriter_read_tail_elements :: "data_block_writer \<Rightarrow> u64 list \<times> u64 list" where
  "DataBlockWriter_read_tail_elements w =
     (let tailsize = bw_write_index w mod 16
      in (take tailsize (bw_ts_writebuf w), take tailsize (bw_val_writebuf w)))"

definition DataBlockWriter_get_write_index :: "data_block_writer \<Rightarrow> nat option" where
  "DataBlockWriter_get_write_index w =
     (if length (vw_buf (bw_stream w)) \<noteq> 0
      then do { n \<leftarrow> dbw_load16 (bw_ntail w) w; Some (unat n + bw_write_index w) }
      else Some 0)"

subsection \<open>DataBlockReader\<close>

definition DataBlockReader_new :: "u8 list \<Rightarrow> data_block_reader option" where
  "DataBlockReader_new buf =
     do {
       f \<leftarrow> FcmStreamReader_new;
       if \<not> 13 < length buf then None
       else Some \<lparr>br_begin = buf, br_stream = VByteStreamReader_new (drop 14 buf),
                  br_ts_stream = DeltaDeltaStreamReader_new, br_val_stream = f,
                  br_read_buffer = replicate 16 0, br_read_index = 0\<rparr> }"

definition DataBlockReader_next ::
  "data_block_reader \<Rightarrow> ((status \<times> timestamp \<times> u64) \<times> data_block_reader) option" where
  "DataBlockReader_next b =
     do {
       main \<leftarrow> get_main_size (br_begin b);
       total \<leftarrow> get_total_size (br_begin b);
       if br_read_index b < main then
         do {
           let chunk_index = br_read_index b mod 16;
           let b = b\<lparr>br_read_index := br_read_index b + 1\<rparr>;
           b \<leftarrow> (if chunk_index = 0
                  then do {
                    (ts, d, r) \<leftarrow> read_n (DeltaDeltaStreamReader_next VByteR) 16
                                    (br_ts_stream b, br_stream b);
                    Some (b\<lparr>br_read_buffer := ts, br_ts_stream := d, br_stream := r\<rparr>) }
                  else Some b);
           (value, f, r) \<leftarrow> FcmStreamReader_next VByteR (br_val_stream b, br_stream b);
           ts \<leftarrow> at (br_read_buffer b) chunk_index;
           Some ((kOk, ts, value), b\<lparr>br_val_stream := f, br_stream := r\<rparr>) }
       else if br_read_index b < total then
         do {
           let b = b\<lparr>br_read_index := br_read_index b + 1\<rparr>;
           (ts, r) \<leftarrow> vr_read_raw 8 (br_stream b);
           (value, r) \<leftarrow> vr_read_raw 8 r;
           Some ((kOk, le_val ts, le_val value), b\<lparr>br_stream := r\<rparr>) }
       else Some ((kNoData, 0, 0), b) }"

definition DataBlockReader_nelements :: "data_block_reader \<Rightarrow> nat option" where
  "DataBlockReader_nelements b = get_total_size (br_begin b)"

definition DataBlockReader_get_id :: "data_block_reader \<Rightarrow> param_id option" where
  "DataBlockReader_get_id b = get_block_id (br_begin b)"

definition DataBlockReader_version :: "data_block_reader \<Rightarrow> u16 option" where
  "DataBlockReader_version b = get_block_version (br_begin b)"

subsection \<open>The block classes are instances of the templates\<close>

lemma dbw_bump_eq:
  "do { n \<leftarrow> dbw_load16 ptr w; dbw_store16 ptr (n + 1) w } =
   do { s \<leftarrow> bump16 VByteW ptr (bw_stream w); Some (w\<lparr>bw_stream := s\<rparr>) }"
  by (cases ptr) (simp_all add: dbw_load16_def dbw_store16_def bump16_def VByteW_def)

lemma DataBlockWriter_put_eq: "DataBlockWriter_put ts v w = IOVecBlockWriter_put VByteW ts v w"
proof -
  have bump: "do { n \<leftarrow> dbw_load16 ptr w; w \<leftarrow> dbw_store16 ptr (n + 1) w; Some (kOk, w) } =
      do { s \<leftarrow> bump16 VByteW ptr (bw_stream w); Some (kOk, w\<lparr>bw_stream := s\<rparr>) }" for ptr w
    using arg_cong[OF dbw_bump_eq[of ptr w], of "\<lambda>m. do { w \<leftarrow> m; Some (kOk, w) }"]
    by simp
  show ?thesis
    by (simp add: DataBlockWriter_put_def IOVecBlockWriter_put_def DataBlockWriter_room_for_chunk_def
        room_for_chunk_def Let_def bump cong: if_cong split del: if_split)
qed

lemma dbw_bump_bind:
  "do { n \<leftarrow> dbw_load16 ptr w; w \<leftarrow> dbw_store16 ptr (n + 1) w; g w } =
   do { s \<leftarrow> bump16 VByteW ptr (bw_stream w); g (w\<lparr>bw_stream := s\<rparr>) }"
  using arg_cong[OF dbw_bump_eq[of ptr w], of "\<lambda>m. do { w \<leftarrow> m; g w }"] by simp

lemma dbw_flush_eq: "dbw_flush tvs w = bw_flush VByteW tvs w"
  by (induction tvs arbitrary: w)
    (simp_all add: Let_def dbw_bump_bind cong: if_cong split del: if_split)

lemma DataBlockWriter_commit_eq: "DataBlockWriter_commit w = IOVecBlockWriter_commit VByteW w"
proof -
  have load: "do { n \<leftarrow> dbw_load16 ptr w; h n } = do { p \<leftarrow> ptr; n \<leftarrow> ws_load16 VByteW p (bw_stream w); h n }"
    for ptr w and h :: "u16 \<Rightarrow> data_block_writer option"
    by (cases ptr) (simp_all add: dbw_load16_def VByteW_def)
  have store: "do { w \<leftarrow> dbw_store16 ptr v w; Some (vw_size (bw_stream w), w) } =
      do { p \<leftarrow> ptr; s \<leftarrow> ws_store16 VByteW p v (bw_stream w); Some (vw_size s, w\<lparr>bw_stream := s\<rparr>) }"
    for ptr v w
    by (cases ptr) (simp_all add: dbw_store16_def VByteW_def)
  show ?thesis
    unfolding DataBlockWriter_commit_def IOVecBlockWriter_commit_def Let_def load dbw_flush_eq store
    by simp
qed

lemma DataBlockWriter_new_eq:
  "DataBlockWriter_new sid buf =
     do { w \<leftarrow> IOVecBlockWriter_new (VByteStreamWriter_new buf); IOVecBlockWriter_init VByteW sid w }"
proof -
  have alloc: "ws_allocate VByteW n s = Some (vw_allocate n s)" for n s by (simp add: VByteW_def)
  have store2: "do { w \<leftarrow> dbw_store16 nt 0 w; dbw_store16 nc 0 w } =
      do { pc \<leftarrow> nc; pt \<leftarrow> nt; s \<leftarrow> ws_store16 VByteW pt 0 (bw_stream w);
           s \<leftarrow> ws_store16 VByteW pc 0 s; Some (w\<lparr>bw_stream := s\<rparr>) }" for nt nc w
    by (cases nc; cases nt) (simp_all add: dbw_store16_def VByteW_def)
  show ?thesis
    unfolding DataBlockWriter_new_def IOVecBlockWriter_new_def IOVecBlockWriter_init_def
    by (cases FcmStreamWriter_new)
      (simp_all add: alloc store2 Let_def split_def cong: if_cong split del: if_split)
qed

lemma DataBlockReader_next_eq: "DataBlockReader_next b = IOVecBlockReader_next VByteR b"
  by (simp only: DataBlockReader_next_def IOVecBlockReader_next_def VByteR_sel)

lemma DataBlockReader_new_eq:
  "13 < length buf \<Longrightarrow>
   DataBlockReader_new buf = IOVecBlockReader_new buf (VByteStreamReader_new (drop 14 buf))"
  by (simp add: DataBlockReader_new_def IOVecBlockReader_new_def)

subsection \<open>Properties of the block codec\<close>

text \<open>A client that puts elements until the block overflows; the number accepted.\<close>

primrec dbw_put_list ::
  "(u64 \<times> u64) list \<Rightarrow> data_block_writer \<Rightarrow> (nat \<times> data_block_writer) option" where
  "dbw_put_list [] w = Some (0, w)"
| "dbw_put_list (tv # tvs) w =
     do {
       (st, w) \<leftarrow> DataBlockWriter_put (fst tv) (snd tv) w;
       if st = kOk then do { (n, w) \<leftarrow> dbw_put_list tvs w; Some (Suc n, w) } else Some (0, w) }"

lemma dbw_put_list_eq: "dbw_put_list xs w = bw_put_list VByteW xs w"
  by (induction xs arbitrary: w)
    (simp_all add: DataBlockWriter_put_eq cong: if_cong split del: if_split)

abbreviation dbw_view where
  "dbw_view \<equiv> bw_view VByteW vw_bytes vw_inv"

lemma dbw_new_view:
  assumes "14 \<le> length buf"
  shows "\<exists>w. DataBlockWriter_new sid buf = Some w \<and> dbw_view (length buf) [] sid [] [] [] [] w"
proof -
  have "vw_inv (VByteStreamWriter_new buf)" "vw_bytes (VByteStreamWriter_new buf) = []"
    "ws_space_left VByteW (VByteStreamWriter_new buf) = length buf"
    by (simp_all add: VByteStreamWriter_new_def vw_inv_def vw_bytes_def vw_space_left_def)
  with vbw.init_ok[of "VByteStreamWriter_new buf" "[]" sid] assms show ?thesis
    by (auto simp: DataBlockWriter_new_eq)
qed

lemma dbw_buf_of_bytes:
  assumes "vw_inv s" "vw_bytes s = bs" "length bs \<le> m"
  shows "\<exists>z. take m (vw_buf s) = bs @ z"
proof -
  have "take (length bs) (vw_buf s) = bs" using assms(1,2) by (auto simp: vw_bytes_def vw_inv_def)
  then have "take m (vw_buf s) = bs @ take (m - length bs) (drop (length bs) (vw_buf s))"
    using assms(3) by (metis le_add_diff_inverse take_add)
  then show ?thesis ..
qed

lemma dbw_commit_layout:
  assumes v: "dbw_view cap [] sid main buf tail junk w" and cap: "cap \<le> 3 * 65535"
  shows "\<exists>n w' p bs q. DataBlockWriter_commit w = Some (n, w') \<and> n \<le> cap \<and>
     DfcmPredictor_new 128 = Some p \<and> chunks_bytes main 0 p = Some (bs, q) \<and>
     (\<forall>m\<ge>n. \<exists>z. take m (vw_buf (bw_stream w')) =
        hdr_bytes (length main) (length (buf @ tail)) sid @ (bs @ tail_bytes (buf @ tail) @ z))"
proof -
  from vbw.commit_ok_view[OF v cap] obtain n w' p bs q where
    c: "IOVecBlockWriter_commit VByteW w = Some (n, w')" "DfcmPredictor_new 128 = Some p"
    "chunks_bytes main 0 p = Some (bs, q)" "vw_inv (bw_stream w')" "n = length (vw_bytes (bw_stream w'))"
    "vw_bytes (bw_stream w') = hdr_bytes (length main) (length (buf @ tail)) sid @ bs @
       tail_bytes (buf @ tail) @ junk" "n + ws_space_left VByteW (bw_stream w') = cap" by auto
  have "\<exists>z. take m (vw_buf (bw_stream w')) =
        hdr_bytes (length main) (length (buf @ tail)) sid @ (bs @ tail_bytes (buf @ tail) @ z)"
    if "n \<le> m" for m
    using dbw_buf_of_bytes[OF c(4,6), of m] that c(5,6) by fastforce
  with c show ?thesis by (auto simp: DataBlockWriter_commit_eq)
qed

lemma dbr_read_layout:
  assumes v: "dbw_view cap [] sid main buf tail junk w" and cap: "cap \<le> 3 * 65535"
    and c: "DfcmPredictor_new 128 = Some p" "chunks_bytes main 0 p = Some (bs, q)"
    and data: "data = hdr_bytes (length main) (length (buf @ tail)) sid @ (bs @ tail_bytes (buf @ tail) @ z)"
  shows "\<exists>b b'. DataBlockReader_new data = Some b \<and>
     read_n DataBlockReader_next (length (concat main @ buf @ tail)) b
       = Some (map ok_item (concat main @ buf @ tail), b') \<and>
     DataBlockReader_next b' = Some ((kNoData, 0, 0), b') \<and>
     DataBlockReader_nelements b = Some (length (concat main @ buf @ tail)) \<and>
     DataBlockReader_get_id b = Some sid \<and> DataBlockReader_version b = Some FASTSTDB_VERSION"
proof -
  let ?r = "VByteStreamReader_new (drop 14 data)"
  have len: "13 < length data" using data by simp
  have eq: "DataBlockReader_next = IOVecBlockReader_next VByteR"
    by (rule ext) (rule DataBlockReader_next_eq)
  have r: "vr_inv ?r" "vr_rest ?r = bs @ tail_bytes (buf @ tail) @ z"
    by (simp_all add: VByteStreamReader_new_def vr_inv_def vr_rest_def data)
  have c16: "\<forall>c \<in> set main. length c = 16" using v by (simp add: bw_view_def)
  have "DfcmPredictor_new (of_nat PREDICTOR_N) = Some p" using c(1) by (simp add: dfcm_new_128)
  then obtain b where b: "IOVecBlockReader_new data ?r = Some b" "br_begin b = data"
    by (simp add: IOVecBlockReader_new_def FcmStreamReader_new_def)
  note n = vbw.view_counts[OF v cap]
  have "br_sizes (length main) (length (buf @ tail)) b"
    by (rule br_sizes_header[OF _ n]) (simp add: b(2) data)
  moreover have "length (concat main) = 16 * length main" using c16 by (induction main) auto
  ultimately have ne: "DataBlockReader_nelements b = Some (length (concat main @ buf @ tail))"
    by (simp add: DataBlockReader_nelements_def br_sizes_def)
  have acc: "DataBlockReader_get_id b = Some sid" "DataBlockReader_version b = Some FASTSTDB_VERSION"
    by (simp_all add: DataBlockReader_get_id_def DataBlockReader_version_def b(2) data hdr_accessors)
  have new: "DataBlockReader_new data = Some b" using b(1) DataBlockReader_new_eq[OF len] by simp
  from vbr.br_read_all[OF b(1) r(1) data n c16 c r(2)] ne acc new show ?thesis unfolding eq by blast
qed

text \<open>C12. Round trip of the block codec: put any elements into a fresh block until it is
  full, commit, and open the buffer (the committed size or any larger prefix): the reader
  returns exactly the accepted elements in order, bit for bit, and then \<open>NoData\<close>.\<close>

theorem datablock_roundtrip:
  assumes "14 \<le> length buf" and "length buf \<le> 3 * 65535"
  shows "\<exists>w0 n w1 size w2.
     DataBlockWriter_new sid buf = Some w0 \<and>
     dbw_put_list xs w0 = Some (n, w1) \<and> n \<le> length xs \<and>
     DataBlockWriter_commit w1 = Some (size, w2) \<and> size \<le> length buf \<and>
     (\<forall>m\<ge>size. \<exists>b b'.
        DataBlockReader_new (take m (vw_buf (bw_stream w2))) = Some b \<and>
        read_n DataBlockReader_next n b = Some (map ok_item (take n xs), b') \<and>
        DataBlockReader_next b' = Some ((kNoData, 0, 0), b') \<and>
        DataBlockReader_nelements b = Some n \<and>
        DataBlockReader_get_id b = Some sid \<and>
        DataBlockReader_version b = Some FASTSTDB_VERSION)"
proof -
  obtain w0 where w0: "DataBlockWriter_new sid buf = Some w0"
    "dbw_view (length buf) [] sid [] [] [] [] w0" using dbw_new_view[OF assms(1)] by blast
  from vbw.put_list_ok[OF w0(2), of xs] obtain n w1 main b tail junk where
    w1: "dbw_put_list xs w0 = Some (n, w1)" "dbw_view (length buf) [] sid main b tail junk w1"
    "n \<le> length xs" "concat main @ b @ tail = take n xs" by (auto simp: dbw_put_list_eq)
  from dbw_commit_layout[OF w1(2) assms(2)] obtain size w2 p bs q where
    w2: "DataBlockWriter_commit w1 = Some (size, w2)" "size \<le> length buf"
    "DfcmPredictor_new 128 = Some p" "chunks_bytes main 0 p = Some (bs, q)"
    "\<forall>m\<ge>size. \<exists>z. take m (vw_buf (bw_stream w2)) =
        hdr_bytes (length main) (length (b @ tail)) sid @ (bs @ tail_bytes (b @ tail) @ z)" by blast
  have "length (take n xs) = n" using w1(3) by simp
  with dbr_read_layout[OF w1(2) assms(2) w2(3,4)] w1 w2 w0(1) show ?thesis by metis
qed

theorem datablock_roundtrip_witness:
  "14 \<le> length (replicate 64 (0 :: u8)) \<and> length (replicate 64 (0 :: u8)) \<le> 3 * 65535 \<and>
   (\<exists>w0 n w1 size w2.
     DataBlockWriter_new 7 (replicate 64 0) = Some w0 \<and>
     dbw_put_list [(100, 1), (101, 2)] w0 = Some (n, w1) \<and> n \<le> 2 \<and>
     DataBlockWriter_commit w1 = Some (size, w2) \<and> size \<le> 64 \<and>
     (\<exists>b b'. DataBlockReader_new (take 64 (vw_buf (bw_stream w2))) = Some b \<and>
        read_n DataBlockReader_next n b = Some (map ok_item (take n [(100, 1), (101, 2)]), b') \<and>
        DataBlockReader_next b' = Some ((kNoData, 0, 0), b') \<and>
        DataBlockReader_get_id b = Some 7))"
proof -
  have h: "14 \<le> length (replicate 64 (0 :: u8))" "length (replicate 64 (0 :: u8)) \<le> 3 * 65535" by simp_all
  from datablock_roundtrip[OF h, of 7 "[(100, 1), (101, 2)]"] h show ?thesis by fastforce
qed

text \<open>C17. A put never fails an assertion of the writer.  After any sequence of puts into a
  fresh block the next one is accepted exactly when sixteen bytes are free, and otherwise
  reports \<open>kOverflow\<close>; the chunk written when sixteen elements are buffered always fits.\<close>

theorem datablock_put_total:
  assumes "14 \<le> length buf"
  shows "\<exists>w0 n w1 st w2. DataBlockWriter_new sid buf = Some w0 \<and>
     dbw_put_list xs w0 = Some (n, w1) \<and> DataBlockWriter_put ts v w1 = Some (st, w2) \<and>
     st = (if vw_space_left (bw_stream w1) < 16 then kOverflow else kOk)"
proof -
  obtain w0 where w0: "DataBlockWriter_new sid buf = Some w0"
    "dbw_view (length buf) [] sid [] [] [] [] w0" using dbw_new_view[OF assms] by blast
  from vbw.put_list_ok[OF w0(2), of xs] obtain n w1 main b tail junk where
    w1: "dbw_put_list xs w0 = Some (n, w1)" "dbw_view (length buf) [] sid main b tail junk w1"
    by (auto simp: dbw_put_list_eq)
  from vbw.put_cases[OF w1(2), of ts v] w0(1) w1(1) show ?thesis
    by (auto simp: DataBlockWriter_put_eq split: if_splits)
qed

theorem datablock_put_total_witness:
  "14 \<le> length (replicate 16 (0 :: u8)) \<and>
   (\<exists>w0 n w1 st w2. DataBlockWriter_new 3 (replicate 16 0) = Some w0 \<and>
     dbw_put_list [] w0 = Some (n, w1) \<and> DataBlockWriter_put 5 6 w1 = Some (st, w2) \<and>
     st = (if vw_space_left (bw_stream w1) < 16 then kOverflow else kOk))"
  using datablock_put_total[of "replicate 16 0" 3 "[]" 5 6] by simp

text \<open>C18. Capacity: when a block refuses an element it already holds at least sixteen
  elements for every 282 bytes of its payload (the worst case of both encoders), so a
  4096-byte block always takes at least 231 elements.\<close>

theorem datablock_capacity:
  assumes "DataBlockWriter_new sid buf = Some w0" and "14 \<le> length buf"
    and "dbw_put_list xs w0 = Some (n, w1)" and "n < length xs"
  shows "16 * (length buf - 29) \<le> 282 * n"
proof -
  have v0: "dbw_view (length buf) [] sid [] [] [] [] w0" using dbw_new_view[OF assms(2), of sid] assms(1) by auto
  from vbw.put_list_ok[OF v0, of xs] assms(3,4) obtain main b tail junk where
    w1: "dbw_view (length buf) [] sid main b tail junk w1" "ws_space_left VByteW (bw_stream w1) < 16"
    "concat main @ b @ tail = take n xs" by (auto simp: dbw_put_list_eq)
  from vbw.full_block_bound[OF w1(1,2)] w1(3) assms(4) show ?thesis by simp
qed

theorem datablock_capacity_witness:
  "\<exists>w0 w1. DataBlockWriter_new 1 (replicate 14 0) = Some w0 \<and> dbw_put_list [(1, 2)] w0 = Some (0, w1) \<and>
     16 * (length (replicate 14 (0 :: u8)) - 29) \<le> 282 * (0 :: nat)"
proof -
  have "14 \<le> length (replicate 14 (0 :: u8))" by simp
  then obtain w0 where w0: "DataBlockWriter_new 1 (replicate 14 0) = Some w0"
    "dbw_view (length (replicate 14 (0 :: u8))) [] 1 [] [] [] [] w0" using dbw_new_view by blast
  then have "ws_space_left VByteW (bw_stream w0) < 16" by (auto simp: bw_view_def)
  with vbw.put_cases[OF w0(2), of 1 2] obtain w1 where
    "dbw_put_list [(1, 2)] w0 = Some (0, w1)" by (auto simp: DataBlockWriter_put_eq)
  with datablock_capacity[OF w0(1) _ this] w0(1) show ?thesis by simp
qed

end
