(* ===== verification/IOVecBlock.thy ===== *)
theory IOVecBlock
  imports Bytes
begin

text \<open>
  \<open>IOVecBlock\<close> of \<^verbatim>\<open>storage/volume.h\<close> and \<^verbatim>\<open>storage/volume.cc\<close>: a 4096-byte block kept as
  four 1024-byte components that are allocated on demand, or (when it was read from a
  volume) as one component of 4096 bytes.  The abstraction of a block is the flat sequence of
  its 4096 bytes and its write position; every operation is shown to act on it as the same
  operation on a flat buffer.
\<close>

subsection \<open>State\<close>

definition EMPTY_ADDR :: logic_addr where
  "EMPTY_ADDR = 0xFFFFFFFFFFFFFFFF"

abbreviation (input) FASTSTDB_BLOCK_SIZE :: nat where
  "FASTSTDB_BLOCK_SIZE \<equiv> 4096"

abbreviation (input) NCOMPONENTS :: nat where
  "NCOMPONENTS \<equiv> 4"

abbreviation (input) COMPONENT_SIZE :: nat where
  "COMPONENT_SIZE \<equiv> 1024"

record iovec_block =
  ib_data :: "u8 list list"
  ib_pos :: nat
  ib_addr :: logic_addr

definition IOVecBlock_new :: iovec_block where
  "IOVecBlock_new = \<lparr>ib_data = [[], [], [], []], ib_pos = 0, ib_addr = EMPTY_ADDR\<rparr>"

definition IOVecBlock_new_allocated :: iovec_block where
  "IOVecBlock_new_allocated =
     \<lparr>ib_data = [replicate FASTSTDB_BLOCK_SIZE 0, [], [], []], ib_pos = FASTSTDB_BLOCK_SIZE,
      ib_addr = EMPTY_ADDR\<rparr>"

subsection \<open>Operations\<close>

definition IOVecBlock_set_addr :: "logic_addr \<Rightarrow> iovec_block \<Rightarrow> iovec_block" where
  "IOVecBlock_set_addr addr b = b\<lparr>ib_addr := addr\<rparr>"

definition IOVecBlock_get_addr :: "iovec_block \<Rightarrow> logic_addr" where
  "IOVecBlock_get_addr b = ib_addr b"

definition IOVecBlock_is_readonly :: "iovec_block \<Rightarrow> bool" where
  "IOVecBlock_is_readonly b = False"

text \<open>\<open>add\<close> allocates the first unallocated component; the index, or \<open>None\<close> for -1.\<close>

definition IOVecBlock_add :: "iovec_block \<Rightarrow> nat option \<times> iovec_block" where
  "IOVecBlock_add b =
     (let i = length (takeWhile (\<lambda>c. length c \<noteq> 0) (ib_data b))
      in if i < NCOMPONENTS
         then (Some i, b\<lparr>ib_data := (ib_data b)[i := replicate COMPONENT_SIZE 0]\<rparr>)
         else (None, b))"

definition IOVecBlock_space_left :: "iovec_block \<Rightarrow> int" where
  "IOVecBlock_space_left b = int FASTSTDB_BLOCK_SIZE - int (ib_pos b)"

definition IOVecBlock_bytes_to_read :: "nat \<Rightarrow> iovec_block \<Rightarrow> int" where
  "IOVecBlock_bytes_to_read offset b = int (ib_pos b) - int offset"

definition IOVecBlock_size :: "iovec_block \<Rightarrow> nat" where
  "IOVecBlock_size b = ib_pos b"

definition single_chunk :: "iovec_block \<Rightarrow> bool" where
  "single_chunk b \<longleftrightarrow> length (ib_data b ! 0) = FASTSTDB_BLOCK_SIZE"

text \<open>The statement \<open>if (data_[c].empty()) data_[c].resize(COMPONENT_SIZE)\<close>.\<close>

definition ib_ensure :: "nat \<Rightarrow> iovec_block \<Rightarrow> iovec_block" where
  "ib_ensure c b =
     (if ib_data b ! c = [] then b\<lparr>ib_data := (ib_data b)[c := replicate COMPONENT_SIZE 0]\<rparr> else b)"

definition ib_store :: "nat \<Rightarrow> nat \<Rightarrow> u8 list \<Rightarrow> iovec_block \<Rightarrow> iovec_block option" where
  "ib_store c i bs b =
     (if c < NCOMPONENTS \<and> i + length bs \<le> length (ib_data b ! c)
      then Some (b\<lparr>ib_data := (ib_data b)[c := splice_at i bs (ib_data b ! c)]\<rparr>) else None)"

definition IOVecBlock_put :: "u8 \<Rightarrow> iovec_block \<Rightarrow> iovec_block option" where
  "IOVecBlock_put val b =
     (let c = ib_pos b div COMPONENT_SIZE; i = ib_pos b mod COMPONENT_SIZE
      in if NCOMPONENTS \<le> c then None
         else do {
           b \<leftarrow> ib_store c i [val] (ib_ensure c b);
           Some (b\<lparr>ib_pos := ib_pos b + 1\<rparr>) })"

definition IOVecBlock_safe_put :: "u8 \<Rightarrow> iovec_block \<Rightarrow> (bool \<times> iovec_block) option" where
  "IOVecBlock_safe_put val b =
     (let c = ib_pos b div COMPONENT_SIZE; i = ib_pos b mod COMPONENT_SIZE
      in if NCOMPONENTS \<le> c then Some (False, b)
         else do {
           b \<leftarrow> ib_store c i [val] (ib_ensure c b);
           Some (True, b\<lparr>ib_pos := ib_pos b + 1\<rparr>) })"

text \<open>The template \<open>put<POD>\<close>: the bytes of the object representation, one by one.\<close>

primrec IOVecBlock_put_pod :: "u8 list \<Rightarrow> iovec_block \<Rightarrow> iovec_block option" where
  "IOVecBlock_put_pod [] b = Some b"
| "IOVecBlock_put_pod (x # xs) b = do { b \<leftarrow> IOVecBlock_put x b; IOVecBlock_put_pod xs b }"

definition IOVecBlock_get :: "nat \<Rightarrow> iovec_block \<Rightarrow> u8 option" where
  "IOVecBlock_get offset b =
     (let (c, i) = (if single_chunk b then (0, offset)
                    else (offset div COMPONENT_SIZE, offset mod COMPONENT_SIZE))
      in if NCOMPONENTS \<le> c \<or> length (ib_data b ! c) \<le> i then None
         else at (ib_data b ! c) i)"

text \<open>The template \<open>get_raw<POD>\<close>.\<close>

primrec IOVecBlock_get_raw :: "nat \<Rightarrow> nat \<Rightarrow> iovec_block \<Rightarrow> u8 list option" where
  "IOVecBlock_get_raw 0 offset b = Some []"
| "IOVecBlock_get_raw (Suc n) offset b =
     do { x \<leftarrow> IOVecBlock_get offset b; xs \<leftarrow> IOVecBlock_get_raw n (offset + 1) b; Some (x # xs) }"

text \<open>\<open>allocate\<close>, in the plain and the template form: the pointer is the pair of the
  component and the offset in it, or null.\<close>

definition IOVecBlock_allocate :: "nat \<Rightarrow> iovec_block \<Rightarrow> (nat \<times> nat) option \<times> iovec_block" where
  "IOVecBlock_allocate sz b =
     (let c = ib_pos b div COMPONENT_SIZE; i = ib_pos b mod COMPONENT_SIZE
      in if NCOMPONENTS \<le> c then (None, b)
         else let b = ib_ensure c b
              in if length (ib_data b ! c) - i < sz then (None, b)
                 else (Some (c, i), b\<lparr>ib_pos := ib_pos b + sz\<rparr>))"

definition IOVecBlock_get_write_pos :: "iovec_block \<Rightarrow> nat" where
  "IOVecBlock_get_write_pos b = ib_pos b"

definition IOVecBlock_set_write_pos :: "nat \<Rightarrow> iovec_block \<Rightarrow> iovec_block option" where
  "IOVecBlock_set_write_pos pos b =
     (if NCOMPONENTS \<le> pos div COMPONENT_SIZE then None else Some (b\<lparr>ib_pos := pos\<rparr>))"

text \<open>The component-wise loop of \<open>copy_from\<close> stops at the first unallocated component.\<close>

fun ib_copy_loop :: "u8 list list \<Rightarrow> u8 list list \<Rightarrow> u8 list list" where
  "ib_copy_loop (d # ds) (s # ss) =
     (if length s = 0 then d # ds else take COMPONENT_SIZE s # ib_copy_loop ds ss)"
| "ib_copy_loop ds _ = ds"

definition IOVecBlock_copy_from :: "iovec_block \<Rightarrow> iovec_block \<Rightarrow> iovec_block" where
  "IOVecBlock_copy_from other b =
     (if single_chunk other
      then b\<lparr>ib_data := map (\<lambda>i. take COMPONENT_SIZE (drop (i * COMPONENT_SIZE) (ib_data other ! 0)))
                          [0..<NCOMPONENTS]\<rparr>
      else b\<lparr>ib_data := ib_copy_loop (ib_data b) (ib_data other)\<rparr>)"

text \<open>\<open>read_chunk\<close> returns the count and the bytes that were copied to \<open>dest\<close>.\<close>

definition IOVecBlock_read_chunk :: "nat \<Rightarrow> nat \<Rightarrow> iovec_block \<Rightarrow> (nat \<times> u8 list) option" where
  "IOVecBlock_read_chunk offset sz b =
     (if single_chunk b then
        (if offset + sz \<le> length (ib_data b ! 0)
         then Some (sz, take sz (drop offset (ib_data b ! 0))) else None)
      else
        let ixbegin = offset div COMPONENT_SIZE;
            offbegin = offset mod COMPONENT_SIZE;
            end' = (offset + sz) mod 2 ^ 32;
            ixend = end' div COMPONENT_SIZE
        in if NCOMPONENTS \<le> ixbegin then None
           else if ixbegin = ixend then
             (if length (ib_data b ! ixbegin) = 0 then Some (0, [])
              else if offbegin + sz \<le> length (ib_data b ! ixbegin)
              then Some (sz, take sz (drop offbegin (ib_data b ! ixbegin))) else None)
           else if length (ib_data b ! ixbegin) = 0 then Some (0, [])
           else
             let l1 = COMPONENT_SIZE - offbegin;
                 part1 = take l1 (drop offbegin (ib_data b ! ixbegin));
                 l2 = sz - l1
             in if NCOMPONENTS \<le> ixend then None
                else if length (ib_data b ! ixend) = 0 then Some (0, part1)
                else if l2 \<le> length (ib_data b ! ixend)
                then Some (sz, part1 @ take l2 (ib_data b ! ixend)) else None)"

text \<open>The fragment \<open>if (data_[ix].size() == 0) { if (add() != ix) LOG(FATAL) }\<close>.\<close>

definition ib_add_at :: "nat \<Rightarrow> iovec_block \<Rightarrow> iovec_block option" where
  "ib_add_at ix b =
     (if length (ib_data b ! ix) = 0
      then (case IOVecBlock_add b of (r, b') \<Rightarrow> if r \<noteq> Some ix then None else Some b')
      else Some b)"

definition IOVecBlock_append_chunk :: "u8 list \<Rightarrow> iovec_block \<Rightarrow> (nat \<times> iovec_block) option" where
  "IOVecBlock_append_chunk source b =
     (let sz = length source
      in if IOVecBlock_is_readonly b then Some (0, b)
         else if single_chunk b then
           (if FASTSTDB_BLOCK_SIZE < ib_pos b + sz then Some (0, b)
            else do {
              b \<leftarrow> ib_store 0 (ib_pos b) source b;
              Some (ib_pos b + sz, b\<lparr>ib_pos := ib_pos b + sz\<rparr>) })
         else
           let ixbegin = ib_pos b div COMPONENT_SIZE;
               offbegin = ib_pos b mod COMPONENT_SIZE;
               end' = ib_pos b + sz;
               ixend = end' div COMPONENT_SIZE
           in if NCOMPONENTS \<le> ixbegin \<or> NCOMPONENTS \<le> ixend then Some (0, b)
              else do {
                b \<leftarrow> (if ixbegin = ixend
                       then do { b \<leftarrow> ib_add_at ixbegin b; ib_store ixbegin offbegin source b }
                       else do {
                         b \<leftarrow> ib_add_at ixbegin b;
                         let l1 = COMPONENT_SIZE - offbegin;
                         b \<leftarrow> ib_store ixbegin offbegin (take l1 source) b;
                         b \<leftarrow> ib_add_at ixend b;
                         ib_store ixend 0 (drop l1 source) b });
                Some (ib_pos b + sz, b\<lparr>ib_pos := ib_pos b + sz\<rparr>) })"

definition IOVecBlock_set_write_pos_and_shrink :: "nat \<Rightarrow> iovec_block \<Rightarrow> iovec_block option" where
  "IOVecBlock_set_write_pos_and_shrink tp b =
     do {
       b \<leftarrow> IOVecBlock_set_write_pos tp b;
       if IOVecBlock_is_readonly b \<or> single_chunk b then Some b
       else
         let component = ib_pos b div COMPONENT_SIZE
         in Some (b\<lparr>ib_data := map (\<lambda>(ix, d). if component < ix then [] else d)
                                (zip [0..<NCOMPONENTS] (ib_data b))\<rparr>) }"

definition IOVecBlock_get_data :: "nat \<Rightarrow> iovec_block \<Rightarrow> u8 list option" where
  "IOVecBlock_get_data component b = at (ib_data b) component"

definition IOVecBlock_get_size :: "nat \<Rightarrow> iovec_block \<Rightarrow> nat option" where
  "IOVecBlock_get_size component b = map_option length (at (ib_data b) component)"

subsection \<open>Lists cut into equal pieces\<close>

lemma concat_pieces_length:
  "\<forall>x \<in> set xss. length x = n \<Longrightarrow> length (concat xss) = length xss * n"
  by (induction xss) auto

lemma concat_pieces_nth:
  "\<forall>x \<in> set xss. length x = n \<Longrightarrow> i < length xss \<Longrightarrow> j < n \<Longrightarrow>
   concat xss ! (i * n + j) = xss ! i ! j"
proof (induction xss arbitrary: i)
  case (Cons x xss)
  then show ?case by (cases i) (auto simp: nth_append)
qed simp

lemma concat_pieces_splice:
  "\<forall>x \<in> set xss. length x = n \<Longrightarrow> i < length xss \<Longrightarrow> j + length vs \<le> n \<Longrightarrow>
   concat (xss[i := splice_at j vs (xss ! i)]) = splice_at (i * n + j) vs (concat xss)"
proof (induction xss arbitrary: i)
  case (Cons x xss)
  show ?case
  proof (cases i)
    case 0
    with Cons.prems show ?thesis by (simp add: splice_at_def)
  next
    case (Suc k)
    have len: "length x = n" using Cons.prems by simp
    have "concat (xss[k := splice_at j vs (xss ! k)]) = splice_at (k * n + j) vs (concat xss)"
      using Cons.prems Suc by (intro Cons.IH) auto
    then show ?thesis using len Suc by (simp add: splice_at_def add.assoc)
  qed
qed simp

lemma drop_pieces:
  "\<forall>x \<in> set xss. length x = n \<Longrightarrow> i \<le> length xss \<Longrightarrow> drop (i * n) (concat xss) = concat (drop i xss)"
proof (induction xss arbitrary: i)
  case (Cons x xss)
  then show ?case by (cases i) auto
qed simp

subsection \<open>The flat view of a block\<close>

definition ib_pad :: "u8 list \<Rightarrow> u8 list" where
  "ib_pad c = (if c = [] then replicate COMPONENT_SIZE 0 else c)"

definition ib_flat :: "iovec_block \<Rightarrow> u8 list" where
  "ib_flat b = (if single_chunk b then ib_data b ! 0 else concat (map ib_pad (ib_data b)))"

definition ib_bytes :: "iovec_block \<Rightarrow> u8 list" where
  "ib_bytes b = take (ib_pos b) (ib_flat b)"

text \<open>A writable block: a prefix of the components is allocated and holds everything below
  the write position.\<close>

definition ib_alloc :: "nat \<Rightarrow> iovec_block \<Rightarrow> bool" where
  "ib_alloc k b \<longleftrightarrow> k \<le> NCOMPONENTS \<and> length (ib_data b) = NCOMPONENTS \<and>
     (\<forall>i < NCOMPONENTS. length (ib_data b ! i) = (if i < k then COMPONENT_SIZE else 0))"

definition ib_inv :: "iovec_block \<Rightarrow> bool" where
  "ib_inv b \<longleftrightarrow> (\<exists>k. ib_alloc k b \<and> ib_pos b \<le> k * COMPONENT_SIZE)"

text \<open>A readable block: writable, or one chunk of 4096 bytes.\<close>

definition ib_readable :: "iovec_block \<Rightarrow> bool" where
  "ib_readable b \<longleftrightarrow>
     ib_inv b \<or> (length (ib_data b) = NCOMPONENTS \<and> single_chunk b \<and> ib_pos b \<le> FASTSTDB_BLOCK_SIZE)"

lemma ib_flat_pos [simp]: "ib_flat (b\<lparr>ib_pos := p\<rparr>) = ib_flat b"
  by (simp add: ib_flat_def single_chunk_def)

lemma ib_alloc_full: "ib_alloc k b \<Longrightarrow> i < k \<Longrightarrow> length (ib_data b ! i) = 1024"
  by (simp add: ib_alloc_def)

lemma ib_alloc_nil: "ib_alloc k b \<Longrightarrow> k \<le> i \<Longrightarrow> i < 4 \<Longrightarrow> ib_data b ! i = []"
  unfolding ib_alloc_def by (metis leD length_0_conv)

lemma ib_alloc_sharded: "ib_alloc k b \<Longrightarrow> \<not> single_chunk b"
  by (auto simp: ib_alloc_def single_chunk_def dest!: spec[of _ 0] split: if_splits)

lemma ib_inv_sharded: "ib_inv b \<Longrightarrow> \<not> single_chunk b"
  by (auto simp: ib_inv_def ib_alloc_sharded)

lemma ib_inv_pos: "ib_inv b \<Longrightarrow> ib_pos b \<le> 4096"
  by (auto simp: ib_inv_def ib_alloc_def)

lemma ib_pads: "ib_alloc k b \<Longrightarrow> \<forall>c \<in> set (map ib_pad (ib_data b)). length c = 1024"
  by (auto simp: ib_alloc_def ib_pad_def in_set_conv_nth split: if_splits)

lemma ib_flat_alloc: "ib_alloc k b \<Longrightarrow> ib_flat b = concat (map ib_pad (ib_data b))"
  by (simp add: ib_flat_def ib_alloc_sharded)

lemma ib_flat_length: "ib_alloc k b \<Longrightarrow> length (ib_flat b) = 4096"
  using concat_pieces_length[OF ib_pads[of k b]] by (simp add: ib_flat_alloc) (simp add: ib_alloc_def)

lemma ib_flat_single: "single_chunk b \<Longrightarrow> length (ib_flat b) = 4096"
  by (simp add: ib_flat_def single_chunk_def)

lemma ib_readable_flat_length: "ib_readable b \<Longrightarrow> length (ib_flat b) = 4096"
  unfolding ib_readable_def ib_inv_def using ib_flat_length ib_flat_single by blast

lemma ib_readable_pos: "ib_readable b \<Longrightarrow> ib_pos b \<le> 4096"
  using ib_inv_pos by (auto simp: ib_readable_def)

lemma ib_bytes_length: "ib_readable b \<Longrightarrow> length (ib_bytes b) = ib_pos b"
  by (simp add: ib_bytes_def ib_readable_flat_length ib_readable_pos)

lemma ib_inv_readable: "ib_inv b \<Longrightarrow> ib_readable b"
  by (simp add: ib_readable_def)

lemma ib_flat_nth:
  assumes "ib_alloc k b" "off < k * 1024"
  shows "ib_data b ! (off div 1024) ! (off mod 1024) = ib_flat b ! off"
proof -
  let ?c = "off div 1024"
  have c: "?c < k" "k \<le> 4" "length (ib_data b) = 4" using assms by (auto simp: ib_alloc_def)
  then have "length (ib_data b ! ?c) = 1024" using assms(1) by (simp add: ib_alloc_def)
  then have "ib_pad (ib_data b ! ?c) = ib_data b ! ?c" by (auto simp: ib_pad_def)
  moreover have "concat (map ib_pad (ib_data b)) ! (?c * 1024 + off mod 1024)
      = map ib_pad (ib_data b) ! ?c ! (off mod 1024)"
    by (rule concat_pieces_nth[OF ib_pads[OF assms(1)]]) (use c in auto)
  ultimately show ?thesis using c by (simp add: ib_flat_alloc[OF assms(1)])
qed

subsection \<open>Storing into a component\<close>

lemma ib_grow:
  assumes "ib_alloc k b" "k < 4"
  shows "ib_alloc (Suc k) (b\<lparr>ib_data := (ib_data b)[k := replicate 1024 0]\<rparr>)"
    and "ib_flat (b\<lparr>ib_data := (ib_data b)[k := replicate 1024 0]\<rparr>) = ib_flat b"
proof -
  let ?b = "b\<lparr>ib_data := (ib_data b)[k := replicate 1024 0]\<rparr>"
  show a: "ib_alloc (Suc k) ?b"
    using assms ib_alloc_nil[OF assms(1)] unfolding ib_alloc_def by (auto simp: nth_list_update)
  have "ib_data b ! k = []" using ib_alloc_nil[OF assms(1)] assms(2) by simp
  then have "map ib_pad ((ib_data b)[k := replicate 1024 0]) = map ib_pad (ib_data b)"
    using assms by (simp add: ib_alloc_def map_update list_update_same_conv) (simp add: ib_pad_def)
  then show "ib_flat ?b = ib_flat b" by (simp add: ib_flat_alloc[OF a] ib_flat_alloc[OF assms(1)])
qed

lemma ib_ensure_ok:
  assumes "ib_alloc k b" "c \<le> k" "c < 4"
  shows "\<exists>k' b'. ib_ensure c b = b' \<and> ib_alloc k' b' \<and> c < k' \<and> k \<le> k' \<and> ib_flat b' = ib_flat b \<and>
     ib_pos b' = ib_pos b \<and> ib_addr b' = ib_addr b"
proof (cases "c < k")
  case True
  then have "length (ib_data b ! c) = 1024" using assms by (simp add: ib_alloc_def)
  then have "ib_data b ! c \<noteq> []" by auto
  with True assms show ?thesis by (auto simp: ib_ensure_def)
next
  case False
  then have c: "c = k" using assms(2) by simp
  then have "ib_data b ! c = []" using ib_alloc_nil[OF assms(1)] assms(3) by simp
  with ib_grow[OF assms(1)] c assms(3) show ?thesis by (auto simp: ib_ensure_def)
qed

lemma ib_add_at_ok:
  assumes "ib_alloc k b" "c \<le> k" "c < 4"
  shows "\<exists>k' b'. ib_add_at c b = Some b' \<and> ib_alloc k' b' \<and> c < k' \<and> k \<le> k' \<and> ib_flat b' = ib_flat b \<and>
     ib_pos b' = ib_pos b \<and> ib_addr b' = ib_addr b"
proof (cases "c < k")
  case True
  then have "length (ib_data b ! c) = 1024" using assms by (simp add: ib_alloc_def)
  with True assms show ?thesis by (auto simp: ib_add_at_def)
next
  case False
  then have c: "c = k" using assms(2) by simp
  have l: "length (ib_data b) = 4" "\<forall>i<4. length (ib_data b ! i) = (if i < k then 1024 else 0)"
    using assms(1) by (auto simp: ib_alloc_def)
  have "takeWhile (\<lambda>c. length c \<noteq> 0) (ib_data b) = take k (ib_data b)"
    using l c assms(3) by (intro takeWhile_eq_take_P_nth) auto
  then have "IOVecBlock_add b = (Some k, b\<lparr>ib_data := (ib_data b)[k := replicate 1024 0]\<rparr>)"
    using l c assms(3) by (simp add: IOVecBlock_add_def min_def)
  with ib_grow[OF assms(1)] c l assms(3) show ?thesis by (auto simp: ib_add_at_def)
qed

lemma ib_store_ok:
  assumes "ib_alloc k b" "c < k" "i + length bs \<le> 1024"
  shows "\<exists>b'. ib_store c i bs b = Some b' \<and> ib_alloc k b' \<and>
     ib_flat b' = splice_at (c * 1024 + i) bs (ib_flat b) \<and> ib_pos b' = ib_pos b \<and> ib_addr b' = ib_addr b"
proof -
  let ?b = "b\<lparr>ib_data := (ib_data b)[c := splice_at i bs (ib_data b ! c)]\<rparr>"
  have l: "k \<le> 4" "length (ib_data b) = 4" "length (ib_data b ! c) = 1024" "c < 4"
    using assms by (auto simp: ib_alloc_def)
  have len: "length (splice_at i bs (ib_data b ! c)) = 1024" using l assms(3) by simp
  have a: "ib_alloc k ?b" using assms l len by (auto simp: ib_alloc_def nth_list_update)
  have p: "ib_pad (ib_data b ! c) = ib_data b ! c" using l(3) by (auto simp: ib_pad_def)
  moreover have "ib_pad (splice_at i bs (ib_data b ! c)) = splice_at i bs (ib_data b ! c)"
    using len by (auto simp: ib_pad_def)
  ultimately have "map ib_pad ((ib_data b)[c := splice_at i bs (ib_data b ! c)])
      = (map ib_pad (ib_data b))[c := splice_at i bs (map ib_pad (ib_data b) ! c)]"
    using l by (simp add: map_update)
  moreover have "concat ((map ib_pad (ib_data b))[c := splice_at i bs (map ib_pad (ib_data b) ! c)])
      = splice_at (c * 1024 + i) bs (concat (map ib_pad (ib_data b)))"
    by (rule concat_pieces_splice[OF ib_pads[OF assms(1)]]) (use l assms(3) in auto)
  ultimately have "ib_flat ?b = splice_at (c * 1024 + i) bs (ib_flat b)"
    by (simp add: ib_flat_alloc[OF a] ib_flat_alloc[OF assms(1)])
  with a l assms show ?thesis by (simp add: ib_store_def)
qed

subsection \<open>Writes\<close>

text \<open>The bytes \<open>bs\<close> were written at the write position.\<close>

definition ib_wrote :: "u8 list \<Rightarrow> iovec_block \<Rightarrow> iovec_block \<Rightarrow> bool" where
  "ib_wrote bs b b' \<longleftrightarrow> ib_inv b' \<and> ib_flat b' = splice_at (ib_pos b) bs (ib_flat b) \<and>
     ib_pos b' = ib_pos b + length bs \<and> ib_addr b' = ib_addr b"

lemma ib_wrote_Nil [simp]: "ib_inv b \<Longrightarrow> ib_wrote [] b b"
  by (simp add: ib_wrote_def)

lemma ib_inv_flat_length: "ib_inv b \<Longrightarrow> length (ib_flat b) = 4096"
  by (rule ib_readable_flat_length[OF ib_inv_readable])

lemma ib_wrote_trans:
  assumes "ib_inv b" "ib_wrote xs b b'" "ib_wrote ys b' b''"
  shows "ib_wrote (xs @ ys) b b''"
proof -
  have "ib_pos b + length xs \<le> length (ib_flat b)"
    using assms ib_inv_pos[of b'] ib_inv_flat_length[OF assms(1)] by (simp add: ib_wrote_def)
  then show ?thesis using assms by (simp add: ib_wrote_def)
qed

lemma ib_wrote_bytes: "ib_inv b \<Longrightarrow> ib_wrote bs b b' \<Longrightarrow> ib_bytes b' = ib_bytes b @ bs"
  using ib_inv_pos[of b'] by (auto simp: ib_wrote_def ib_bytes_def ib_inv_flat_length)

lemma ib_inv_div: "ib_inv b \<Longrightarrow> ib_pos b < 4096 \<Longrightarrow>
  \<exists>k. ib_alloc k b \<and> ib_pos b div 1024 \<le> k \<and> ib_pos b div 1024 < 4"
  by (auto simp: ib_inv_def)

lemma ib_store_at_pos:
  assumes "ib_alloc k b" "c = ib_pos b div 1024" "c < k" "ib_pos b mod 1024 + length bs \<le> 1024"
  shows "\<exists>b'. ib_store c (ib_pos b mod 1024) bs b = Some b' \<and> ib_alloc k b' \<and>
     ib_pos b' = ib_pos b \<and> ib_wrote bs b (b'\<lparr>ib_pos := ib_pos b + length bs\<rparr>)"
proof -
  from ib_store_ok[OF assms(1,3,4)] obtain b' where
    b': "ib_store c (ib_pos b mod 1024) bs b = Some b'" "ib_alloc k b'"
    "ib_flat b' = splice_at (c * 1024 + ib_pos b mod 1024) bs (ib_flat b)"
    "ib_pos b' = ib_pos b" "ib_addr b' = ib_addr b" by blast
  have "ib_pos b + length bs \<le> Suc c * 1024"
    unfolding mult_Suc using assms(2,4) div_mult_mod_eq[of "ib_pos b" 1024] by linarith
  also have "\<dots> \<le> k * 1024" using assms(3) by simp
  finally have "ib_pos b + length bs \<le> k * 1024" .
  then have "ib_inv (b'\<lparr>ib_pos := ib_pos b + length bs\<rparr>)"
    using b'(2) by (auto simp: ib_inv_def ib_alloc_def)
  then show ?thesis using b' assms(2) by (simp add: ib_wrote_def)
qed

lemma ib_wrote_start:
  "ib_flat b1 = ib_flat b \<Longrightarrow> ib_pos b1 = ib_pos b \<Longrightarrow> ib_addr b1 = ib_addr b \<Longrightarrow>
   ib_wrote bs b1 b' \<Longrightarrow> ib_wrote bs b b'"
  by (simp add: ib_wrote_def)

lemma ib_ensure_store:
  assumes "ib_inv b" "ib_pos b < 4096"
  shows "\<exists>b'. ib_store (ib_pos b div 1024) (ib_pos b mod 1024) [v] (ib_ensure (ib_pos b div 1024) b) = Some b' \<and>
     ib_pos b' = ib_pos b \<and> ib_wrote [v] b (b'\<lparr>ib_pos := ib_pos b + 1\<rparr>)"
proof -
  let ?c = "ib_pos b div 1024"
  from ib_inv_div[OF assms] obtain k where k: "ib_alloc k b" "?c \<le> k" "?c < 4" by blast
  from ib_ensure_ok[OF k] obtain k' b1 where
    b1: "ib_ensure ?c b = b1" "ib_alloc k' b1" "?c < k'" "ib_flat b1 = ib_flat b"
    "ib_pos b1 = ib_pos b" "ib_addr b1 = ib_addr b" by blast
  have "ib_pos b1 mod 1024 + length [v] \<le> 1024" by (simp add: Suc_le_eq)
  from ib_store_at_pos[OF b1(2) _ _ this, of ?c] b1(3,5) obtain b' where
    "ib_store ?c (ib_pos b1 mod 1024) [v] b1 = Some b'" "ib_pos b' = ib_pos b1"
    "ib_wrote [v] b1 (b'\<lparr>ib_pos := ib_pos b1 + length [v]\<rparr>)" by auto
  with ib_wrote_start[OF b1(4-6)] b1(1,5) show ?thesis by simp
qed

lemma IOVecBlock_put_ok:
  "ib_inv b \<Longrightarrow> ib_pos b < 4096 \<Longrightarrow> \<exists>b'. IOVecBlock_put v b = Some b' \<and> ib_wrote [v] b b'"
  using ib_ensure_store[of b v] ib_inv_div[of b] by (fastforce simp: IOVecBlock_put_def Let_def)

lemma IOVecBlock_put_pod_ok:
  "ib_inv b \<Longrightarrow> ib_pos b + length bs \<le> 4096 \<Longrightarrow>
   \<exists>b'. IOVecBlock_put_pod bs b = Some b' \<and> ib_wrote bs b b'"
proof (induction bs arbitrary: b)
  case (Cons v bs)
  from IOVecBlock_put_ok[OF Cons.prems(1), of v] Cons.prems(2) obtain b1 where
    b1: "IOVecBlock_put v b = Some b1" "ib_wrote [v] b b1" by auto
  have "ib_inv b1" "ib_pos b1 + length bs \<le> 4096" using b1(2) Cons.prems(2) by (auto simp: ib_wrote_def)
  from Cons.IH[OF this] obtain b2 where
    "IOVecBlock_put_pod bs b1 = Some b2" "ib_wrote bs b1 b2" by blast
  with ib_wrote_trans[OF Cons.prems(1) b1(2)] b1(1) show ?case by fastforce
qed simp

lemma IOVecBlock_safe_put_ok:
  "ib_inv b \<Longrightarrow> ib_pos b < 4096 \<Longrightarrow>
   \<exists>b'. IOVecBlock_safe_put v b = Some (True, b') \<and> ib_wrote [v] b b'"
  using ib_ensure_store[of b v] ib_inv_div[of b] by (fastforce simp: IOVecBlock_safe_put_def Let_def)

lemma IOVecBlock_safe_put_full:
  "4096 \<le> ib_pos b \<Longrightarrow> IOVecBlock_safe_put v b = Some (False, b)"
  by (simp add: IOVecBlock_safe_put_def Let_def div_le_mono[of 4096 "ib_pos b" 1024, simplified])

subsection \<open>Reads\<close>

lemma ib_alloc_of_offset: "ib_inv b \<Longrightarrow> off < ib_pos b \<Longrightarrow> \<exists>k. ib_alloc k b \<and> off < k * 1024"
  by (auto simp: ib_inv_def intro: less_le_trans)

lemma IOVecBlock_get_ok:
  assumes "ib_readable b" "off < ib_pos b"
  shows "IOVecBlock_get off b = Some (ib_bytes b ! off)"
proof (cases "single_chunk b")
  case True
  then have "off < length (ib_data b ! 0)"
    using ib_readable_pos[OF assms(1)] assms(2) by (simp add: single_chunk_def)
  with True assms(2) show ?thesis by (simp add: IOVecBlock_get_def ib_bytes_def ib_flat_def)
next
  case False
  then obtain k where k: "ib_alloc k b" "off < k * 1024"
    using assms ib_alloc_of_offset by (auto simp: ib_readable_def)
  then have c: "off div 1024 < k" "k \<le> 4" by (auto simp: ib_alloc_def less_mult_imp_div_less)
  then have "length (ib_data b ! (off div 1024)) = 1024" using ib_alloc_full[OF k(1)] by simp
  with c False ib_flat_nth[OF k] assms(2) show ?thesis
    by (simp add: IOVecBlock_get_def ib_bytes_def)
qed

lemma IOVecBlock_get_raw_ok:
  "ib_readable b \<Longrightarrow> off + n \<le> ib_pos b \<Longrightarrow> IOVecBlock_get_raw n off b = Some (take n (drop off (ib_bytes b)))"
proof (induction n arbitrary: off)
  case (Suc n)
  have "off < length (ib_bytes b)" using Suc.prems by (simp add: ib_bytes_length)
  then have "drop off (ib_bytes b) = ib_bytes b ! off # drop (Suc off) (ib_bytes b)"
    by (rule Cons_nth_drop_Suc[symmetric])
  moreover have "IOVecBlock_get_raw n (off + 1) b = Some (take n (drop (off + 1) (ib_bytes b)))"
    using Suc.prems by (intro Suc.IH) simp_all
  ultimately show ?case using Suc.prems by (simp add: IOVecBlock_get_ok)
qed simp

subsection \<open>Chunks\<close>

lemma ib_append_two:
  assumes b: "ib_inv b" and c: "ib_pos b div 1024 = c" "Suc c < 4"
    and len: "1024 \<le> ib_pos b mod 1024 + length bs" "ib_pos b mod 1024 + length bs \<le> 2048"
  defines "l1 \<equiv> 1024 - ib_pos b mod 1024"
  shows "\<exists>b1 b2 b3 b4. ib_add_at c b = Some b1 \<and>
     ib_store c (ib_pos b mod 1024) (take l1 bs) b1 = Some b2 \<and> ib_add_at (Suc c) b2 = Some b3 \<and>
     ib_store (Suc c) 0 (drop l1 bs) b3 = Some b4 \<and> ib_pos b4 = ib_pos b \<and>
     ib_wrote bs b (b4\<lparr>ib_pos := ib_pos b + length bs\<rparr>) \<and> (\<exists>k. ib_alloc k b4 \<and> Suc c < k)"
proof -
  obtain k where k: "ib_alloc k b" "ib_pos b \<le> k * 1024" using b by (auto simp: ib_inv_def)
  have ck: "c \<le> k" "c < 4" using c k by auto
  from ib_add_at_ok[OF k(1) ck] obtain k1 b1 where
    b1: "ib_add_at c b = Some b1" "ib_alloc k1 b1" "c < k1" "ib_flat b1 = ib_flat b"
    "ib_pos b1 = ib_pos b" "ib_addr b1 = ib_addr b" by blast
  have l1: "l1 \<le> length bs" "ib_pos b mod 1024 + l1 = 1024" using len(1) by (auto simp: l1_def)
  have "ib_pos b mod 1024 + length (take l1 bs) \<le> 1024" using l1 by simp
  from ib_store_ok[OF b1(2,3) this] obtain b2 where
    b2: "ib_store c (ib_pos b mod 1024) (take l1 bs) b1 = Some b2" "ib_alloc k1 b2"
    "ib_flat b2 = splice_at (c * 1024 + ib_pos b mod 1024) (take l1 bs) (ib_flat b1)"
    "ib_pos b2 = ib_pos b1" "ib_addr b2 = ib_addr b1" by blast
  from ib_add_at_ok[OF b2(2), of "Suc c"] b1(3) c(2) obtain k3 b3 where
    b3: "ib_add_at (Suc c) b2 = Some b3" "ib_alloc k3 b3" "Suc c < k3" "ib_flat b3 = ib_flat b2"
    "ib_pos b3 = ib_pos b2" "ib_addr b3 = ib_addr b2" by auto
  have "0 + length (drop l1 bs) \<le> 1024" using len(2) l1 by simp
  from ib_store_ok[OF b3(2,3) this] obtain b4 where
    b4: "ib_store (Suc c) 0 (drop l1 bs) b3 = Some b4" "ib_alloc k3 b4"
    "ib_flat b4 = splice_at (Suc c * 1024 + 0) (drop l1 bs) (ib_flat b3)"
    "ib_pos b4 = ib_pos b3" "ib_addr b4 = ib_addr b3" by blast
  have pos: "c * 1024 + ib_pos b mod 1024 = ib_pos b" using c(1) div_mult_mod_eq[of "ib_pos b" 1024] by simp
  have pos2: "Suc c * 1024 + 0 = ib_pos b + length (take l1 bs)" using pos l1 by simp
  have fit: "ib_pos b + length (take l1 bs) \<le> length (ib_flat b)"
    using pos2[symmetric] c(2) ib_inv_flat_length[OF b] by simp
  have "ib_flat b4 = splice_at (ib_pos b + length (take l1 bs)) (drop l1 bs)
      (splice_at (ib_pos b) (take l1 bs) (ib_flat b))"
    unfolding b4(3) b3(4) b2(3) b1(4) pos pos2 ..
  also have "\<dots> = splice_at (ib_pos b) bs (ib_flat b)"
    by (simp only: splice_at_splice_at[OF fit] append_take_drop_id)
  finally have flat: "ib_flat b4 = splice_at (ib_pos b) bs (ib_flat b)" .
  have "ib_pos b + length bs \<le> Suc (Suc c) * 1024" using pos len(2) by simp
  also have "\<dots> \<le> k3 * 1024" using b3(3) by simp
  finally have "ib_inv (b4\<lparr>ib_pos := ib_pos b + length bs\<rparr>)" using b4(2) by (auto simp: ib_inv_def ib_alloc_def)
  moreover have "\<exists>k. ib_alloc k b4 \<and> Suc c < k" using b3(3) b4(2) by blast
  ultimately show ?thesis using b1 b2 b3 b4 flat by (simp add: ib_wrote_def)
qed

lemma ib_append_one:
  assumes b: "ib_inv b" and c: "ib_pos b div 1024 = c" "c < 4"
    and len: "ib_pos b mod 1024 + length bs \<le> 1024"
  shows "\<exists>b1 b2. ib_add_at c b = Some b1 \<and> ib_store c (ib_pos b mod 1024) bs b1 = Some b2 \<and>
     ib_pos b2 = ib_pos b \<and> ib_wrote bs b (b2\<lparr>ib_pos := ib_pos b + length bs\<rparr>) \<and>
     (\<exists>k. ib_alloc k b2 \<and> c < k)"
proof -
  obtain k where k: "ib_alloc k b" "ib_pos b \<le> k * 1024" using b by (auto simp: ib_inv_def)
  have ck: "c \<le> k" using c k by auto
  from ib_add_at_ok[OF k(1) ck c(2)] obtain k1 b1 where
    b1: "ib_add_at c b = Some b1" "ib_alloc k1 b1" "c < k1" "ib_flat b1 = ib_flat b"
    "ib_pos b1 = ib_pos b" "ib_addr b1 = ib_addr b" by blast
  from ib_store_at_pos[OF b1(2) _ b1(3), of bs] c(1) len b1(5) obtain b2 where
    "ib_store c (ib_pos b1 mod 1024) bs b1 = Some b2" "ib_pos b2 = ib_pos b1" "ib_alloc k1 b2"
    "ib_wrote bs b1 (b2\<lparr>ib_pos := ib_pos b1 + length bs\<rparr>)" by auto
  with ib_wrote_start[OF b1(4-6)] b1(1,3,5) show ?thesis by auto
qed

lemma IOVecBlock_append_chunk_ok:
  assumes b: "ib_inv b" and len: "length bs \<le> 1024" "ib_pos b + length bs < 4096"
  shows "\<exists>b' k. IOVecBlock_append_chunk bs b = Some (ib_pos b + length bs, b') \<and> ib_wrote bs b b' \<and>
     ib_alloc k b' \<and> (ib_pos b + length bs) div 1024 < k"
proof -
  have a: "ib_alloc k (b\<lparr>ib_pos := p\<rparr>) = ib_alloc k b" for k b p by (simp add: ib_alloc_def)
  define c where "c = ib_pos b div 1024"
  have c4: "c < 4" "(ib_pos b + length bs) div 1024 < 4" using len(2) by (auto simp: c_def)
  have dm: "ib_pos b = c * 1024 + ib_pos b mod 1024" by (simp add: c_def)
  consider (one) "(ib_pos b + length bs) div 1024 = c" | (two) "(ib_pos b + length bs) div 1024 = Suc c"
    using len(1) dm by linarith
  then show ?thesis
  proof cases
    case one
    have "ib_pos b mod 1024 + length bs \<le> 1024" using one dm by linarith
    from ib_append_one[OF b _ c4(1) this] c_def one c4 ib_inv_sharded[OF b] show ?thesis
      by (fastforce simp: IOVecBlock_append_chunk_def IOVecBlock_is_readonly_def Let_def a)
  next
    case two
    have l: "1024 \<le> ib_pos b mod 1024 + length bs" "ib_pos b mod 1024 + length bs \<le> 2048"
      using two dm by linarith+
    from ib_append_two[OF b _ _ l, of c] c_def two c4 ib_inv_sharded[OF b] show ?thesis
      by (fastforce simp: IOVecBlock_append_chunk_def IOVecBlock_is_readonly_def Let_def a)
  qed
qed

lemma IOVecBlock_append_chunk_full:
  "ib_inv b \<Longrightarrow> 4096 \<le> ib_pos b + length bs \<Longrightarrow> IOVecBlock_append_chunk bs b = Some (0, b)"
  using div_le_mono[of 4096 "ib_pos b + length bs" 1024]
  by (simp add: IOVecBlock_append_chunk_def IOVecBlock_is_readonly_def ib_inv_sharded Let_def)

lemma ib_flat_drop:
  assumes "ib_alloc k b" "c < k" "i \<le> 1024"
  shows "drop (c * 1024 + i) (ib_flat b) = drop i (ib_data b ! c) @ drop (Suc c * 1024) (ib_flat b)"
proof -
  let ?p = "map ib_pad (ib_data b)"
  have l: "k \<le> 4" "length (ib_data b) = 4" using assms(1) by (auto simp: ib_alloc_def)
  have full: "length (ib_data b ! c) = 1024" by (rule ib_alloc_full[OF assms(1,2)])
  have pc: "?p ! c = ib_data b ! c" using full l assms(2) by (auto simp: ib_pad_def)
  have "drop (c * 1024) (concat ?p) = concat (drop c ?p)"
    by (rule drop_pieces[OF ib_pads[OF assms(1)]]) (use l assms(2) in auto)
  also have "drop c ?p = ib_data b ! c # drop (Suc c) ?p"
    using l assms(2) pc Cons_nth_drop_Suc[of c ?p] by simp
  also have "concat (ib_data b ! c # drop (Suc c) ?p) = ib_data b ! c @ drop (Suc c * 1024) (concat ?p)"
    using drop_pieces[OF ib_pads[OF assms(1)], of "Suc c"] l assms(2) by simp
  finally have "drop i (drop (c * 1024) (ib_flat b)) = drop i (ib_data b ! c) @ drop (Suc c * 1024) (ib_flat b)"
    using full assms(3) by (simp add: ib_flat_alloc[OF assms(1)])
  then show ?thesis by (simp add: add.commute)
qed

lemma IOVecBlock_read_chunk_ok:
  assumes a: "ib_alloc k b" and n: "n \<le> 1024" and e: "(off + n) div 1024 < k"
  shows "IOVecBlock_read_chunk off n b = Some (n, take n (drop off (ib_flat b)))"
proof -
  define c where "c = off div 1024"
  have k4: "k \<le> 4" using a by (simp add: ib_alloc_def)
  have dm: "off = c * 1024 + off mod 1024" by (simp add: c_def)
  have ck: "c < k" using e div_le_mono[of off "off + n" 1024] by (simp add: c_def)
  have "off + n < 4096" using e k4 by linarith
  then have wrap: "(off + n) mod 2 ^ 32 = off + n" by simp
  have lc: "length (ib_data b ! c) = 1024" by (rule ib_alloc_full[OF a ck])
  have le: "length (ib_data b ! ((off + n) div 1024)) = 1024" by (rule ib_alloc_full[OF a e])
  have d: "drop off (ib_flat b) = drop (off mod 1024) (ib_data b ! c) @ drop (Suc c * 1024) (ib_flat b)"
    using ib_flat_drop[OF a ck, of "off mod 1024"] dm by simp
  consider (one) "(off + n) div 1024 = c" | (two) "(off + n) div 1024 = Suc c" using n dm by linarith
  then show ?thesis
  proof cases
    case one
    have "off mod 1024 + n \<le> 1024" using one dm by linarith
    with one lc ck k4 wrap ib_alloc_sharded[OF a] show ?thesis
      unfolding d by (simp add: IOVecBlock_read_chunk_def Let_def c_def)
  next
    case two
    have l1: "1024 - off mod 1024 \<le> n" using two dm by linarith
    have "Suc c < k" using two e by simp
    then have "drop (Suc c * 1024) (ib_flat b) = ib_data b ! Suc c @ drop (Suc (Suc c) * 1024) (ib_flat b)"
      using ib_flat_drop[OF a, of "Suc c" 0] by simp
    then have "take n (drop off (ib_flat b)) = drop (off mod 1024) (ib_data b ! c) @
        take (n - (1024 - off mod 1024)) (ib_data b ! Suc c)"
      unfolding d using lc le two l1 n by simp
    with two lc le ck k4 wrap e n ib_alloc_sharded[OF a] show ?thesis
      by (simp add: IOVecBlock_read_chunk_def Let_def c_def)
  qed
qed

subsection \<open>Copies and truncation\<close>

lemma ib_inv_new [simp]: "ib_inv IOVecBlock_new"
  by (auto simp: ib_inv_def ib_alloc_def IOVecBlock_new_def nth_Cons' intro!: exI[of _ 0])

lemma ib_new_sel [simp]:
  "ib_pos IOVecBlock_new = 0" "ib_bytes IOVecBlock_new = []" "ib_addr IOVecBlock_new = EMPTY_ADDR"
  by (simp_all add: IOVecBlock_new_def ib_bytes_def)

lemma upt_4: "[0..<4] = [0, 1, 2, 3 :: nat]"
  by (simp add: upt_rec)

lemma split4:
  assumes "length (xs :: 'a list) = 4096"
  shows "take 1024 xs @ take 1024 (drop 1024 xs) @ take 1024 (drop 2048 xs) @ take 1024 (drop 3072 xs) = xs"
proof -
  have "take 1024 (drop 3072 xs) = drop 3072 xs" using assms by simp
  moreover have "take 1024 (drop 2048 xs) @ drop 3072 xs = drop 2048 xs"
    using append_take_drop_id[of 1024 "drop 2048 xs"] by simp
  moreover have "take 1024 (drop 1024 xs) @ drop 2048 xs = drop 1024 xs"
    using append_take_drop_id[of 1024 "drop 1024 xs"] by simp
  ultimately show ?thesis by simp
qed

lemma copy_from_single:
  assumes "single_chunk other"
  shows "ib_alloc 4 (IOVecBlock_copy_from other b)"
    and "ib_flat (IOVecBlock_copy_from other b) = ib_flat other"
proof -
  let ?d = "ib_data other ! 0"
  have l: "length ?d = 4096" using assms by (simp add: single_chunk_def)
  show a: "ib_alloc 4 (IOVecBlock_copy_from other b)"
    using assms l by (auto simp: IOVecBlock_copy_from_def ib_alloc_def)
  have pads: "ib_pad (take 1024 (drop k ?d)) = take 1024 (drop k ?d)" if "k < 4096" for k
    using that l by (auto simp: ib_pad_def)
  have "concat (map ib_pad (ib_data (IOVecBlock_copy_from other b))) = ?d"
    using assms split4[OF l] pads[of 0] pads[of 1024] pads[of 2048] pads[of 3072]
    by (simp add: IOVecBlock_copy_from_def upt_4)
  then show "ib_flat (IOVecBlock_copy_from other b) = ib_flat other"
    unfolding ib_flat_alloc[OF a] using assms by (simp add: ib_flat_def)
qed

lemma ib_copy_loop_ok:
  "\<forall>s \<in> set full. length s = 1024 \<Longrightarrow>
   ib_copy_loop (replicate (length full + m) []) (full @ replicate m []) = full @ replicate m []"
proof (induction full)
  case Nil
  show ?case by (cases m) simp_all
next
  case (Cons s full)
  then show ?case by auto
qed

lemma ib_alloc_split:
  assumes "ib_alloc k b"
  shows "ib_data b = take k (ib_data b) @ replicate (4 - k) []"
proof -
  have "drop k (ib_data b) = replicate (4 - k) []"
  proof (rule nth_equalityI)
    show "length (drop k (ib_data b)) = length (replicate (4 - k) [])" using assms by (simp add: ib_alloc_def)
    fix i assume "i < length (drop k (ib_data b))"
    then have "k + i < 4" using assms by (auto simp: ib_alloc_def)
    with ib_alloc_nil[OF assms, of "k + i"] assms show "drop k (ib_data b) ! i = replicate (4 - k) [] ! i"
      by (simp add: ib_alloc_def)
  qed
  then show ?thesis by (metis append_take_drop_id)
qed

lemma copy_from_sharded:
  assumes "ib_alloc k other"
  shows "ib_data (IOVecBlock_copy_from other IOVecBlock_new) = ib_data other"
proof -
  have k: "k \<le> 4" "length (ib_data other) = 4" using assms by (auto simp: ib_alloc_def)
  have "\<forall>s \<in> set (take k (ib_data other)). length s = 1024"
  proof
    fix s assume "s \<in> set (take k (ib_data other))"
    then obtain i where "i < k" "s = ib_data other ! i" by (auto simp: in_set_conv_nth)
    then show "length s = 1024" using ib_alloc_full[OF assms] by simp
  qed
  from ib_copy_loop_ok[OF this, of "4 - k"] k
  have "ib_copy_loop (replicate 4 []) (ib_data other) = ib_data other"
    by (simp add: ib_alloc_split[OF assms, symmetric])
  then show ?thesis
    using ib_alloc_sharded[OF assms]
    by (simp add: IOVecBlock_copy_from_def IOVecBlock_new_def numeral_eq_Suc)
qed

lemma shrink_ok:
  assumes "ib_alloc k b" "tp \<le> k * 1024" "tp < 4096"
  shows "\<exists>b'. IOVecBlock_set_write_pos_and_shrink tp b = Some b' \<and>
     ib_alloc (min k (Suc (tp div 1024))) b' \<and> ib_pos b' = tp \<and>
     (\<forall>i < 4. i \<le> tp div 1024 \<longrightarrow> ib_data b' ! i = ib_data b ! i)"
proof -
  let ?b = "b\<lparr>ib_pos := tp, ib_data := map (\<lambda>(ix, d). if tp div 1024 < ix then [] else d)
    (zip [0..<4] (ib_data b))\<rparr>"
  have l: "length (ib_data b) = 4" "k \<le> 4" using assms(1) by (auto simp: ib_alloc_def)
  have nth: "ib_data ?b ! i = (if tp div 1024 < i then [] else ib_data b ! i)" if "i < 4" for i
    using that l by simp
  have "ib_alloc (min k (Suc (tp div 1024))) ?b"
    unfolding ib_alloc_def using assms(1) l nth by (auto simp: ib_alloc_def)
  moreover have "IOVecBlock_set_write_pos_and_shrink tp b = Some ?b"
    using assms ib_alloc_sharded[OF assms(1)]
    by (simp add: IOVecBlock_set_write_pos_and_shrink_def IOVecBlock_set_write_pos_def
        IOVecBlock_is_readonly_def single_chunk_def Let_def)
  ultimately show ?thesis using nth by auto
qed

subsection \<open>Properties of the block\<close>

text \<open>C23. A chunk of at most one component that ends below the end of the block can be
  appended, \<open>append_chunk\<close> returns the new write position, and \<open>read_chunk\<close> gives the same
  bytes back, also when the chunk crosses or ends on a component boundary; nothing before it
  changes and the block stays well formed.\<close>

theorem iovec_chunk_roundtrip:
  assumes "ib_inv b" and "length bs \<le> COMPONENT_SIZE"
    and "ib_pos b + length bs < FASTSTDB_BLOCK_SIZE"
  shows "\<exists>b'. IOVecBlock_append_chunk bs b = Some (ib_pos b + length bs, b') \<and> ib_inv b' \<and>
     IOVecBlock_read_chunk (ib_pos b) (length bs) b' = Some (length bs, bs) \<and>
     ib_bytes b' = ib_bytes b @ bs"
proof -
  from IOVecBlock_append_chunk_ok[OF assms] obtain b' k where
    b': "IOVecBlock_append_chunk bs b = Some (ib_pos b + length bs, b')" "ib_wrote bs b b'"
    "ib_alloc k b'" "(ib_pos b + length bs) div 1024 < k" by blast
  have "take (length bs) (drop (ib_pos b) (ib_flat b')) = bs"
    using b'(2) ib_inv_flat_length[OF assms(1)] ib_inv_pos[OF assms(1)]
    by (simp add: ib_wrote_def splice_at_def)
  with IOVecBlock_read_chunk_ok[OF b'(3) assms(2) b'(4)] b' ib_wrote_bytes[OF assms(1) b'(2)]
  show ?thesis by (auto simp: ib_wrote_def)
qed

theorem iovec_chunk_roundtrip_witness:
  "ib_inv IOVecBlock_new \<and>
   (\<exists>b'. IOVecBlock_append_chunk [1, 2, 3] IOVecBlock_new = Some (3, b') \<and> ib_inv b' \<and>
     IOVecBlock_read_chunk 0 3 b' = Some (3, [1, 2, 3]) \<and> ib_bytes b' = [1, 2, 3])"
  using iovec_chunk_roundtrip[of IOVecBlock_new "[1, 2, 3]"] by (simp add: eval_nat_numeral)

text \<open>C24. Bytes put one by one come back through \<open>get_raw\<close>: writing the object
  representation \<open>bs\<close> at the write position succeeds whenever it fits, crossing components
  as needed, and reading at the old position returns it.\<close>

theorem iovec_put_get:
  assumes "ib_inv b" and "ib_pos b + length bs \<le> FASTSTDB_BLOCK_SIZE"
  shows "\<exists>b'. IOVecBlock_put_pod bs b = Some b' \<and> ib_inv b' \<and>
     IOVecBlock_size b' = IOVecBlock_size b + length bs \<and>
     IOVecBlock_get_raw (length bs) (ib_pos b) b' = Some bs \<and>
     (\<forall>off < ib_pos b. IOVecBlock_get off b' = IOVecBlock_get off b)"
proof -
  from IOVecBlock_put_pod_ok[OF assms] obtain b' where
    b': "IOVecBlock_put_pod bs b = Some b'" "ib_wrote bs b b'" by blast
  have i: "ib_inv b'" "ib_pos b' = ib_pos b + length bs" using b'(2) by (auto simp: ib_wrote_def)
  note bytes = ib_wrote_bytes[OF assms(1) b'(2)] and len = ib_bytes_length[OF ib_inv_readable[OF assms(1)]]
  have "IOVecBlock_get_raw (length bs) (ib_pos b) b' = Some (take (length bs) (drop (ib_pos b) (ib_bytes b')))"
    by (rule IOVecBlock_get_raw_ok[OF ib_inv_readable[OF i(1)]]) (simp add: i)
  moreover have "IOVecBlock_get off b' = IOVecBlock_get off b" if "off < ib_pos b" for off
    using IOVecBlock_get_ok[OF ib_inv_readable[OF i(1)], of off]
      IOVecBlock_get_ok[OF ib_inv_readable[OF assms(1)] that] that i(2) bytes len
    by (simp add: nth_append)
  ultimately show ?thesis using b'(1) i bytes len by (simp add: IOVecBlock_size_def)
qed

theorem iovec_put_get_witness:
  "ib_inv IOVecBlock_new \<and>
   (\<exists>b'. IOVecBlock_put_pod [7, 8] IOVecBlock_new = Some b' \<and> ib_inv b' \<and>
     IOVecBlock_get_raw 2 0 b' = Some [7, 8])"
  using iovec_put_get[of IOVecBlock_new "[7, 8]"] by (auto simp: eval_nat_numeral)

text \<open>C28. \<open>append_chunk\<close> never uses the last byte of a sharded block: a chunk that would
  fill the block exactly is refused, although \<open>put\<close> accepts the same bytes.\<close>

theorem append_chunk_refuses_exact_fit:
  assumes "ib_inv b" and "ib_pos b + length bs = FASTSTDB_BLOCK_SIZE"
  shows "IOVecBlock_append_chunk bs b = Some (0, b) \<and>
     (\<exists>b'. IOVecBlock_put_pod bs b = Some b' \<and> IOVecBlock_size b' = FASTSTDB_BLOCK_SIZE \<and>
           ib_bytes b' = ib_bytes b @ bs)"
proof -
  from IOVecBlock_put_pod_ok[of b bs] assms obtain b' where
    "IOVecBlock_put_pod bs b = Some b'" "ib_wrote bs b b'" by auto
  with IOVecBlock_append_chunk_full[of b bs] assms ib_wrote_bytes[of b bs b'] show ?thesis
    by (auto simp: ib_wrote_def IOVecBlock_size_def)
qed

theorem append_chunk_refuses_exact_fit_witness:
  "let b = \<lparr>ib_data = replicate 4 (replicate 1024 0), ib_pos = 4095, ib_addr = 0\<rparr>
   in ib_inv b \<and> IOVecBlock_append_chunk [9] b = Some (0, b) \<and> (\<exists>b'. IOVecBlock_put_pod [9] b = Some b')"
proof -
  have "ib_inv \<lparr>ib_data = replicate 4 (replicate 1024 0), ib_pos = 4095, ib_addr = 0\<rparr>"
    unfolding ib_inv_def by (rule exI[of _ 4]) (auto simp: ib_alloc_def)
  with append_chunk_refuses_exact_fit[OF this, of "[9]"] show ?thesis by (auto simp: Let_def)
qed

text \<open>C25. \<open>copy_from\<close> into a fresh block gives a sharded, writable copy with the same
  content, from a sharded block and from a block read from disk as one chunk; the write
  position is not copied.\<close>

theorem iovec_copy_from:
  assumes "ib_readable other"
  shows "ib_flat (IOVecBlock_copy_from other IOVecBlock_new) = ib_flat other \<and>
     ib_inv (IOVecBlock_copy_from other IOVecBlock_new) \<and>
     ib_pos (IOVecBlock_copy_from other IOVecBlock_new) = 0"
proof -
  let ?b = "IOVecBlock_copy_from other IOVecBlock_new"
  have pos: "ib_pos ?b = 0" by (simp add: IOVecBlock_copy_from_def)
  consider (single) "single_chunk other" | (sharded) k where "ib_alloc k other"
    using assms by (auto simp: ib_readable_def ib_inv_def)
  then show ?thesis
  proof cases
    case single
    from copy_from_single[OF this, of IOVecBlock_new] pos show ?thesis by (auto simp: ib_inv_def)
  next
    case sharded
    have "ib_alloc k ?b" using sharded copy_from_sharded[OF sharded] by (simp add: ib_alloc_def)
    with copy_from_sharded[OF sharded] ib_flat_alloc sharded pos show ?thesis by (auto simp: ib_inv_def)
  qed
qed

theorem iovec_copy_from_witness:
  "ib_readable IOVecBlock_new_allocated \<and>
   ib_flat (IOVecBlock_copy_from IOVecBlock_new_allocated IOVecBlock_new) = ib_flat IOVecBlock_new_allocated"
proof -
  have "ib_readable IOVecBlock_new_allocated"
    by (simp add: ib_readable_def single_chunk_def IOVecBlock_new_allocated_def)
  with iovec_copy_from[OF this] show ?thesis by simp
qed

end
