(* ===== verification/IOVecStream.thy ===== *)
theory IOVecStream
  imports VByte IOVecBlock
begin

text \<open>
  \<open>IOVecVByteStreamWriter\<close>, \<open>IOVecVByteStreamReader\<close> and the block overloads of
  \<open>Base128Int\<close> (\<^verbatim>\<open>storage/compression.h\<close>) over an \<open>IOVecBlock\<close>.  The writer and the reader
  implement the stream interfaces, so the block codec over an \<open>IOVecBlock\<close> (the leaf blocks
  of the storage engine) has the same properties as the one over a contiguous buffer.
\<close>

subsection \<open>Base128Int over a block\<close>

function Base128Int_put_block :: "'a::len word \<Rightarrow> iovec_block \<Rightarrow> (bool \<times> iovec_block) option" where
  "Base128Int_put_block value b =
     (let s = value AND 127;
          value' = drop_bit 7 value;
          s = (if value' \<noteq> 0 then s OR 128 else s)
      in case IOVecBlock_safe_put (ucast s) b of
           None \<Rightarrow> None
         | Some (ok, b) \<Rightarrow>
             if \<not> ok then Some (False, b)
             else if value' = 0 then Some (True, b)
             else Base128Int_put_block value' b)"
  by pat_completeness auto
termination
  by (relation "measure (\<lambda>(value, b). unat value)") (simp_all add: unat_drop_bit_7_less)

declare Base128Int_put_block.simps [simp del]

text \<open>\<open>Some None\<close> is the exit at the end of the block, where \<open>begin\<close> is returned.\<close>

function b128_get_block_loop ::
  "iovec_block \<Rightarrow> nat \<Rightarrow> 'a::len word \<Rightarrow> nat \<Rightarrow> ('a word \<times> nat) option option" where
  "b128_get_block_loop b p acc cnt =
     (if p = IOVecBlock_size b then Some None
      else case IOVecBlock_get p b of
             None \<Rightarrow> None
           | Some byte \<Rightarrow>
               if LENGTH('a) \<le> cnt then None
               else let acc' = acc OR push_bit cnt (ucast (byte AND 127))
                    in if \<not> b128_more byte then Some (Some (acc', Suc p))
                       else b128_get_block_loop b (Suc p) acc' (cnt + 7))"
  by pat_completeness auto
termination
  by (relation "measure (\<lambda>(b, p, acc, cnt). LENGTH('a) - cnt)") auto

declare b128_get_block_loop.simps [simp del]

definition Base128Int_get_block ::
  "iovec_block \<Rightarrow> nat \<Rightarrow> 'a::len word \<Rightarrow> (nat \<times> 'a word) option" where
  "Base128Int_get_block b begin value =
     (case b128_get_block_loop b begin 0 0 of
        None \<Rightarrow> None
      | Some None \<Rightarrow> Some (begin, value)
      | Some (Some (v, p)) \<Rightarrow> Some (p, v))"

subsection \<open>IOVecVByteStreamWriter\<close>

record iov_writer =
  iw_block :: iovec_block
  iw_cnt :: u32
  iw_prev :: u64

definition IOVecVByteStreamWriter_new :: "iovec_block \<Rightarrow> iov_writer" where
  "IOVecVByteStreamWriter_new b = \<lparr>iw_block = b, iw_cnt = 0, iw_prev = 0\<rparr>"

definition iw_skip :: "nat \<Rightarrow> iov_writer \<Rightarrow> (nat \<times> nat) option \<times> iov_writer" where
  "iw_skip n w = (case IOVecBlock_allocate n (iw_block w) of (p, b) \<Rightarrow> (p, w\<lparr>iw_block := b\<rparr>))"

definition iw_empty :: "iov_writer \<Rightarrow> bool" where
  "iw_empty w \<longleftrightarrow> IOVecBlock_size (iw_block w) = 0"

definition iw_emit :: "u8 \<Rightarrow> iov_writer \<Rightarrow> iov_writer option" where
  "iw_emit v w = do { b \<leftarrow> IOVecBlock_put v (iw_block w); Some (w\<lparr>iw_block := b\<rparr>) }"

primrec iw_emit_le :: "nat \<Rightarrow> u64 \<Rightarrow> iov_writer \<Rightarrow> iov_writer option" where
  "iw_emit_le 0 x w = Some w"
| "iw_emit_le (Suc n) x w = do { w \<leftarrow> iw_emit (ucast x) w; iw_emit_le n (drop_bit 8 x) w }"

definition iw_encode :: "u64 \<Rightarrow> u64 \<Rightarrow> iov_writer \<Rightarrow> (bool \<times> iov_writer) option" where
  "iw_encode a b w =
     (let fstlen = (if a \<noteq> 0 then clzll a else 8 * 8);
          sndlen = (if b \<noteq> 0 then clzll b else 8 * 8);
          fstctrl = 8 - fstlen div 8;
          sndctrl = 8 - sndlen div 8;
          ctrlword = of_nat fstctrl OR push_bit 4 (of_nat sndctrl)
      in if IOVecBlock_space_left (iw_block w) < int (1 + fstctrl + sndctrl) then Some (False, w)
         else do {
           w \<leftarrow> iw_emit ctrlword w;
           w \<leftarrow> iw_emit_le fstctrl a w;
           w \<leftarrow> iw_emit_le sndctrl b w;
           Some (True, w) })"

definition iw_put_base128 :: "u64 \<Rightarrow> iov_writer \<Rightarrow> (bool \<times> iov_writer) option" where
  "iw_put_base128 value w =
     do { (ok, b) \<leftarrow> Base128Int_put_block value (iw_block w); Some (ok, w\<lparr>iw_block := b\<rparr>) }"

definition iw_shortcut :: "iov_writer \<Rightarrow> (bool \<times> iov_writer) option" where
  "iw_shortcut w =
     (if IOVecBlock_space_left (iw_block w) = 0 then Some (False, w)
      else do { w \<leftarrow> iw_emit 255 w; Some (True, w) })"

fun iw_tput_loop :: "nat \<Rightarrow> u64 list \<Rightarrow> iov_writer \<Rightarrow> (bool \<times> iov_writer) option" where
  "iw_tput_loop oldpos (a # b # xs) w =
     do { (ok, w) \<leftarrow> iw_encode a b w;
          if \<not> ok
          then do { b \<leftarrow> IOVecBlock_set_write_pos oldpos (iw_block w); Some (False, w\<lparr>iw_block := b\<rparr>) }
          else iw_tput_loop oldpos xs w }"
| "iw_tput_loop oldpos _ w = Some (True, w)"

definition iw_tput :: "u64 list \<Rightarrow> iov_writer \<Rightarrow> (bool \<times> iov_writer) option" where
  "iw_tput iter w =
     (if odd (length iter) then None
      else let oldpos = IOVecBlock_get_write_pos (iw_block w)
           in if \<forall>x \<in> set iter. x = 0 then iw_shortcut w else iw_tput_loop oldpos iter w)"

definition iw_put :: "u64 \<Rightarrow> iov_writer \<Rightarrow> (bool \<times> iov_writer) option" where
  "iw_put value w =
     (let w = w\<lparr>iw_cnt := iw_cnt w + 1\<rparr>
      in if odd (iw_cnt w) then Some (True, w\<lparr>iw_prev := value\<rparr>)
         else iw_encode (iw_prev w) value w)"

definition iw_put_raw :: "u8 list \<Rightarrow> iov_writer \<Rightarrow> (bool \<times> iov_writer) option" where
  "iw_put_raw bs w =
     (if IOVecBlock_space_left (iw_block w) < int (length bs) then Some (False, w)
      else do { b \<leftarrow> IOVecBlock_put_pod bs (iw_block w); Some (True, w\<lparr>iw_block := b\<rparr>) })"

definition iw_commit :: "iov_writer \<Rightarrow> (bool \<times> iov_writer) option" where
  "iw_commit w =
     (if odd (iw_cnt w) then
        let len = (if iw_prev w \<noteq> 0 then clzll (iw_prev w) else 64);
            ctrl = 8 - len div 8
        in if IOVecBlock_space_left (iw_block w) < int (1 + ctrl) then Some (False, w)
           else do {
             w \<leftarrow> iw_emit (of_nat ctrl) w;
             w \<leftarrow> iw_emit_le ctrl (iw_prev w) w;
             Some (True, w\<lparr>iw_prev := drop_bit (8 * ctrl) (iw_prev w)\<rparr>) }
      else Some (True, w))"

definition iw_size :: "iov_writer \<Rightarrow> nat" where
  "iw_size w = IOVecBlock_size (iw_block w)"

text \<open>The conversion of the \<open>int\<close> to \<open>size_t\<close>.\<close>

definition iw_space_left :: "iov_writer \<Rightarrow> nat" where
  "iw_space_left w = nat (IOVecBlock_space_left (iw_block w) mod 2 ^ 64)"

text \<open>The pointer of \<open>allocate<T>\<close> into a component is written as an offset in the block.\<close>

definition iw_allocate :: "nat \<Rightarrow> iov_writer \<Rightarrow> nat option \<times> iov_writer" where
  "iw_allocate n w =
     (case IOVecBlock_allocate n (iw_block w) of
        (p, b) \<Rightarrow> (map_option (\<lambda>(c, i). c * COMPONENT_SIZE + i) p, w\<lparr>iw_block := b\<rparr>))"

definition iw_store16 :: "nat \<Rightarrow> u16 \<Rightarrow> iov_writer \<Rightarrow> iov_writer option" where
  "iw_store16 off v w =
     do { b \<leftarrow> ib_store (off div COMPONENT_SIZE) (off mod COMPONENT_SIZE) (le_bytes 2 v) (iw_block w);
          Some (w\<lparr>iw_block := b\<rparr>) }"

definition iw_load16 :: "nat \<Rightarrow> iov_writer \<Rightarrow> u16 option" where
  "iw_load16 off w =
     do { d \<leftarrow> at (ib_data (iw_block w)) (off div COMPONENT_SIZE);
          if off mod COMPONENT_SIZE + 2 \<le> length d
          then Some (le_val (take 2 (drop (off mod COMPONENT_SIZE) d))) else None }"

definition IOVecW :: "iov_writer wstream" where
  "IOVecW = \<lparr>ws_put_base128 = iw_put_base128, ws_tput = iw_tput, ws_put = iw_put,
     ws_put_raw = iw_put_raw, ws_commit = iw_commit, ws_space_left = iw_space_left,
     ws_size = iw_size, ws_empty = iw_empty, ws_allocate = (\<lambda>n w. Some (iw_allocate n w)),
     ws_store16 = iw_store16, ws_load16 = iw_load16\<rparr>"

subsection \<open>IOVecVByteStreamReader\<close>

record iov_reader =
  ir_block :: iovec_block
  ir_pos :: nat
  ir_cnt :: u32
  ir_ctrl :: u8
  ir_scut :: nat

definition IOVecVByteStreamReader_new :: "iovec_block \<Rightarrow> iov_reader" where
  "IOVecVByteStreamReader_new b = \<lparr>ir_block = b, ir_pos = 0, ir_cnt = 0, ir_ctrl = 0, ir_scut = 0\<rparr>"

text \<open>\<open>skip\<close> returns a pointer into the first component: the bytes from there on.\<close>

definition ir_skip :: "nat \<Rightarrow> iov_reader \<Rightarrow> u8 list \<times> iov_reader" where
  "ir_skip n r = (drop (ir_pos r) (ib_data (ir_block r) ! 0), r\<lparr>ir_pos := ir_pos r + n\<rparr>)"

definition ir_space_left :: "iov_reader \<Rightarrow> nat" where
  "ir_space_left r = nat (IOVecBlock_bytes_to_read (ir_pos r) (ir_block r) mod 2 ^ 64)"

text \<open>\<open>block_->size() - pos_\<close> is computed in \<open>u32\<close>.\<close>

definition ir_read_raw :: "nat \<Rightarrow> iov_reader \<Rightarrow> (u8 list \<times> iov_reader) option" where
  "ir_read_raw sz r =
     (if nat ((int (IOVecBlock_size (ir_block r)) - int (ir_pos r)) mod 2 ^ 32) < sz then None
      else do { bs \<leftarrow> IOVecBlock_get_raw sz (ir_pos r) (ir_block r);
                Some (bs, r\<lparr>ir_pos := ir_pos r + sz\<rparr>) })"

definition ir_read_le :: "nat \<Rightarrow> iov_reader \<Rightarrow> (u64 \<times> iov_reader) option" where
  "ir_read_le bytelen r =
     (if ir_space_left r < bytelen then None
      else if 8 < bytelen then None
      else do { bs \<leftarrow> IOVecBlock_get_raw bytelen (ir_pos r) (ir_block r);
                Some (le_acc bs 0 0, r\<lparr>ir_pos := ir_pos r + bytelen\<rparr>) })"

definition ir_next :: "iov_reader \<Rightarrow> (u64 \<times> iov_reader) option" where
  "ir_next r =
     (if ir_ctrl r = 255 \<and> ir_scut r \<noteq> 0
      then Some (0, r\<lparr>ir_scut := ir_scut r - 1, ir_cnt := ir_cnt r + 1\<rparr>)
      else if even (ir_cnt r)
      then do {
        (bs, r) \<leftarrow> ir_read_raw 1 (r\<lparr>ir_cnt := ir_cnt r + 1\<rparr>);
        let ctrl = le_val bs;
        let r = r\<lparr>ir_ctrl := ctrl\<rparr>;
        if drop_bit 4 ctrl = 15 then Some (0, r\<lparr>ir_scut := 15\<rparr>)
        else ir_read_le (unat (ctrl AND 15)) r }
      else ir_read_le (unat (drop_bit 4 (ir_ctrl r))) (r\<lparr>ir_cnt := ir_cnt r + 1\<rparr>))"

definition ir_next_base128 :: "iov_reader \<Rightarrow> (u64 \<times> iov_reader) option" where
  "ir_next_base128 r =
     (case Base128Int_get_block (ir_block r) (ir_pos r) 0 of
        None \<Rightarrow> None
      | Some (p, v) \<Rightarrow> if p = ir_pos r then None else Some (v, r\<lparr>ir_pos := p\<rparr>))"

definition IOVecR :: "iov_reader rstream" where
  "IOVecR = \<lparr>rs_next = ir_next, rs_next_base128 = ir_next_base128, rs_read_raw = ir_read_raw\<rparr>"

subsection \<open>The writer as a byte sink\<close>

definition iw_bytes :: "iov_writer \<Rightarrow> u8 list" where
  "iw_bytes w = ib_bytes (iw_block w)"

definition iw_inv :: "iov_writer \<Rightarrow> bool" where
  "iw_inv w \<longleftrightarrow> ib_inv (iw_block w) \<and> even (iw_cnt w)"

definition iw_wrote :: "u8 list \<Rightarrow> iov_writer \<Rightarrow> iov_writer \<Rightarrow> bool" where
  "iw_wrote bs w w' \<longleftrightarrow>
     ib_wrote bs (iw_block w) (iw_block w') \<and> iw_cnt w' = iw_cnt w \<and> iw_prev w' = iw_prev w"

lemma IOVecW_sel [simp]:
  "ws_put_base128 IOVecW = iw_put_base128" "ws_tput IOVecW = iw_tput" "ws_put IOVecW = iw_put"
  "ws_put_raw IOVecW = iw_put_raw" "ws_commit IOVecW = iw_commit"
  "ws_space_left IOVecW = iw_space_left" "ws_size IOVecW = iw_size" "ws_empty IOVecW = iw_empty"
  "ws_allocate IOVecW = (\<lambda>n w. Some (iw_allocate n w))" "ws_store16 IOVecW = iw_store16"
  "ws_load16 IOVecW = iw_load16"
  by (simp_all add: IOVecW_def)

lemma iw_space: "ib_inv (iw_block w) \<Longrightarrow> iw_space_left w = 4096 - ib_pos (iw_block w)"
  using ib_inv_pos[of "iw_block w"] by (simp add: iw_space_left_def IOVecBlock_space_left_def)

lemma ib_space: "ib_inv b \<Longrightarrow> IOVecBlock_space_left b = int (4096 - ib_pos b)"
  using ib_inv_pos[of b] by (simp add: IOVecBlock_space_left_def of_nat_diff)

lemma iw_wrote_appended:
  assumes "iw_inv w" "iw_wrote bs w w'"
  shows "appended IOVecW iw_bytes iw_inv w bs w'"
proof -
  have w: "ib_inv (iw_block w)" "ib_inv (iw_block w')" "ib_pos (iw_block w') = ib_pos (iw_block w) + length bs"
    using assms by (auto simp: iw_inv_def iw_wrote_def ib_wrote_def)
  then show ?thesis
    using assms ib_wrote_bytes[OF w(1)] ib_inv_pos[OF w(2)]
    by (auto simp: appended_def iw_inv_def iw_wrote_def iw_bytes_def iw_space)
qed

lemma iw_wrote_trans:
  "ib_inv (iw_block w) \<Longrightarrow> iw_wrote xs w w' \<Longrightarrow> iw_wrote ys w' w'' \<Longrightarrow> iw_wrote (xs @ ys) w w''"
  unfolding iw_wrote_def using ib_wrote_trans by auto

lemma iw_wrote_Nil [simp]: "ib_inv (iw_block w) \<Longrightarrow> iw_wrote [] w w"
  by (simp add: iw_wrote_def)

lemma iw_wrote_inv:
  "iw_wrote bs w w' \<Longrightarrow> ib_inv (iw_block w') \<and> ib_pos (iw_block w') = ib_pos (iw_block w) + length bs"
  by (simp add: iw_wrote_def ib_wrote_def)

lemma iw_emit_ok:
  "ib_inv (iw_block w) \<Longrightarrow> ib_pos (iw_block w) < 4096 \<Longrightarrow> \<exists>w'. iw_emit v w = Some w' \<and> iw_wrote [v] w w'"
  using IOVecBlock_put_ok[of "iw_block w" v] by (auto simp: iw_emit_def iw_wrote_def)

lemma iw_emit_le_ok:
  "ib_inv (iw_block w) \<Longrightarrow> ib_pos (iw_block w) + n \<le> 4096 \<Longrightarrow>
   \<exists>w'. iw_emit_le n x w = Some w' \<and> iw_wrote (le_bytes n x) w w'"
proof (induction n arbitrary: x w)
  case (Suc n)
  from iw_emit_ok[OF Suc.prems(1), of "ucast x"] Suc.prems(2) obtain w1 where
    w1: "iw_emit (ucast x) w = Some w1" "iw_wrote [ucast x] w w1" by auto
  from Suc.IH[of w1 "drop_bit 8 x"] iw_wrote_inv[OF w1(2)] Suc.prems(2) obtain w2 where
    w2: "iw_emit_le n (drop_bit 8 x) w1 = Some w2" "iw_wrote (le_bytes n (drop_bit 8 x)) w1 w2" by auto
  from iw_wrote_trans[OF Suc.prems(1) w1(2) w2(2)] w1(1) w2(1) show ?case by auto
qed simp

lemma iw_encode_alt:
  "iw_encode a b w =
     (if IOVecBlock_space_left (iw_block w) < int (length (vb_pair a b)) then Some (False, w)
      else do {
        w \<leftarrow> iw_emit (vb_ctrl (nbytes a) (nbytes b)) w;
        w \<leftarrow> iw_emit_le (nbytes a) a w;
        w \<leftarrow> iw_emit_le (nbytes b) b w;
        Some (True, w) })"
  unfolding iw_encode_def Let_def nbytes_ctrl by (simp add: vb_pair_def vb_ctrl_def)

lemma iw_encode_ok:
  assumes "ib_inv (iw_block w)" "ib_pos (iw_block w) + length (vb_pair a b) \<le> 4096"
  shows "\<exists>w'. iw_encode a b w = Some (True, w') \<and> iw_wrote (vb_pair a b) w w'"
proof -
  let ?c = "vb_ctrl (nbytes a) (nbytes b)"
  have len: "ib_pos (iw_block w) + (1 + nbytes a + nbytes b) \<le> 4096" using assms(2) by (simp add: vb_pair_def)
  from iw_emit_ok[OF assms(1), of ?c] len obtain w1 where
    w1: "iw_emit ?c w = Some w1" "iw_wrote [?c] w w1" by auto
  note i1 = iw_wrote_inv[OF w1(2)]
  from iw_emit_le_ok[of w1 "nbytes a" a] i1 len obtain w2 where
    w2: "iw_emit_le (nbytes a) a w1 = Some w2" "iw_wrote (le_bytes (nbytes a) a) w1 w2" by auto
  note i2 = iw_wrote_inv[OF w2(2)]
  from iw_emit_le_ok[of w2 "nbytes b" b] i1 i2 len obtain w3 where
    w3: "iw_emit_le (nbytes b) b w2 = Some w3" "iw_wrote (le_bytes (nbytes b) b) w2 w3" by auto
  have "iw_wrote (vb_pair a b) w w3"
    using iw_wrote_trans[OF assms(1) w1(2) iw_wrote_trans[OF _ w2(2) w3(2)]] i1 by (simp add: vb_pair_def)
  moreover have "\<not> IOVecBlock_space_left (iw_block w) < int (length (vb_pair a b))"
    unfolding ib_space[OF assms(1)] using assms(2) by linarith
  ultimately show ?thesis using w1(1) w2(1) w3(1) by (simp add: iw_encode_alt)
qed

lemma iw_tput_loop_ok:
  "ib_inv (iw_block w) \<Longrightarrow> ib_pos (iw_block w) + length (vb_pairs xs) \<le> 4096 \<Longrightarrow>
   \<exists>w'. iw_tput_loop old xs w = Some (True, w') \<and> iw_wrote (vb_pairs xs) w w'"
proof (induction xs arbitrary: w rule: vb_pairs.induct)
  case (1 a b xs)
  from iw_encode_ok[OF 1(2), of a b] 1(3) obtain w1 where
    w1: "iw_encode a b w = Some (True, w1)" "iw_wrote (vb_pair a b) w w1" by auto
  from 1(1)[of w1] iw_wrote_inv[OF w1(2)] 1(3) obtain w2 where
    w2: "iw_tput_loop old xs w1 = Some (True, w2)" "iw_wrote (vb_pairs xs) w1 w2" by auto
  from iw_wrote_trans[OF 1(2) w1(2) w2(2)] w1(1) w2(1) show ?case by auto
qed simp_all

lemma iw_tput_ok:
  assumes "ib_inv (iw_block w)" "length xs = 16" "ib_pos (iw_block w) + length (vb_chunk xs) \<le> 4096"
  shows "\<exists>w'. iw_tput xs w = Some (True, w') \<and> iw_wrote (vb_chunk xs) w w'"
proof (cases "\<forall>x \<in> set xs. x = 0")
  case True
  then have c: "vb_chunk xs = [255]" by (simp add: vb_chunk_def)
  then have "ib_pos (iw_block w) < 4096" using assms(3) by simp
  with iw_emit_ok[OF assms(1) this, of 255] ib_space[OF assms(1)] True assms(2) c show ?thesis
    by (auto simp: iw_tput_def iw_shortcut_def)
next
  case False
  then have c: "vb_chunk xs = vb_pairs xs" by (simp only: vb_chunk_def if_False)
  with iw_tput_loop_ok[OF assms(1), of xs] assms False show ?thesis
    by (simp only: iw_tput_def Let_def if_False) simp
qed

lemma iw_base128_ok:
  "ib_inv b \<Longrightarrow> ib_pos b + length (leb128 (v :: u64)) \<le> 4096 \<Longrightarrow>
   \<exists>b'. Base128Int_put_block v b = Some (True, b') \<and> ib_wrote (leb128 v) b b'"
proof (induction v arbitrary: b rule: leb128.induct)
  case (1 v)
  show ?case
  proof (cases "drop_bit 7 v = 0")
    case True
    let ?x = "ucast (v AND 127) :: u8"
    have "ib_pos b < 4096" using 1(3) leb128_length_pos[of v] by linarith
    from IOVecBlock_safe_put_ok[OF 1(2) this, of ?x] True show ?thesis
      by (subst Base128Int_put_block.simps) (auto simp: leb128_last[OF True])
  next
    case False
    let ?x = "ucast ((v AND 127) OR 128) :: u8"
    have x: "?x = ucast (v AND 127) OR 128"
      by (rule bit_word_eqI) (auto simp: bit_simps)
    have l: "leb128 v = ?x # leb128 (drop_bit 7 v)" using False by (simp add: x leb128_more)
    then have "ib_pos b < 4096" using 1(3) by simp
    from IOVecBlock_safe_put_ok[OF 1(2) this, of ?x] obtain b1 where
      b1: "IOVecBlock_safe_put ?x b = Some (True, b1)" "ib_wrote [?x] b b1" by blast
    have "ib_inv b1" "ib_pos b1 + length (leb128 (drop_bit 7 v)) \<le> 4096"
      using b1(2) 1(3) l by (auto simp: ib_wrote_def)
    from 1(1)[OF False this] obtain b2 where
      b2: "Base128Int_put_block (drop_bit 7 v) b1 = Some (True, b2)" "ib_wrote (leb128 (drop_bit 7 v)) b1 b2"
      by blast
    from ib_wrote_trans[OF 1(2) b1(2) b2(2)] l b1(1) b2(1) False show ?thesis
      by (subst Base128Int_put_block.simps) (simp add: Let_def)
  qed
qed

lemma iw_allocate_ok:
  assumes w: "iw_inv w" and n: "length (iw_bytes w) + n \<le> 1024" "0 < n"
  shows "\<exists>w' xs. iw_allocate n w = (Some (length (iw_bytes w)), w') \<and> length xs = n \<and>
     appended IOVecW iw_bytes iw_inv w xs w'"
proof -
  let ?b = "iw_block w"
  have b: "ib_inv ?b" using w by (simp add: iw_inv_def)
  have pos: "length (iw_bytes w) = ib_pos ?b" using ib_bytes_length[OF ib_inv_readable[OF b]] by (simp add: iw_bytes_def)
  then have p: "ib_pos ?b div 1024 = 0" "ib_pos ?b mod 1024 = ib_pos ?b" "ib_pos ?b + n \<le> 1024" using n by auto
  obtain k where k: "ib_alloc k ?b" using b by (auto simp: ib_inv_def)
  from ib_ensure_ok[OF k, of 0] obtain k' b1 where
    b1: "ib_ensure 0 ?b = b1" "ib_alloc k' b1" "0 < k'" "ib_flat b1 = ib_flat ?b"
    "ib_pos b1 = ib_pos ?b" by auto
  let ?b2 = "b1\<lparr>ib_pos := ib_pos ?b + n\<rparr>"
  have len: "length (ib_data b1 ! 0) = 1024" by (rule ib_alloc_full[OF b1(2,3)])
  have b2: "ib_inv ?b2" using b1(2,3) p(3) unfolding ib_inv_def
    by (intro exI[of _ k']) (auto simp: ib_alloc_def)
  have flat: "ib_flat ?b2 = ib_flat ?b" using b1(4) by simp
  have "iw_allocate n w = (Some (ib_pos ?b), w\<lparr>iw_block := ?b2\<rparr>)"
    using p b1(1,5) len n by (simp add: iw_allocate_def IOVecBlock_allocate_def Let_def)
  moreover have "ib_bytes ?b2 = ib_bytes ?b @ take n (drop (ib_pos ?b) (ib_flat ?b))"
    using flat by (simp add: ib_bytes_def take_add)
  moreover have "length (take n (drop (ib_pos ?b) (ib_flat ?b))) = n"
    using ib_inv_flat_length[OF b] p(3) by simp
  moreover have "iw_space_left w = iw_space_left (w\<lparr>iw_block := ?b2\<rparr>) + n"
    using iw_space[OF b] iw_space[of "w\<lparr>iw_block := ?b2\<rparr>"] b2 p(3) by simp
  ultimately show ?thesis using w b2 pos by (auto simp: appended_def iw_inv_def iw_bytes_def)
qed

lemma iw_header_alloc:
  assumes "iw_inv w" "off + 2 \<le> length (iw_bytes w)"
  shows "\<exists>k. ib_alloc k (iw_block w) \<and> 0 < k \<and> ib_pos (iw_block w) \<le> k * 1024 \<and> off + 2 \<le> ib_pos (iw_block w)"
proof -
  have b: "ib_inv (iw_block w)" using assms(1) by (simp add: iw_inv_def)
  have "off + 2 \<le> ib_pos (iw_block w)"
    using assms(2) ib_bytes_length[OF ib_inv_readable[OF b]] by (simp add: iw_bytes_def)
  moreover obtain k where "ib_alloc k (iw_block w)" "ib_pos (iw_block w) \<le> k * 1024"
    using b by (auto simp: ib_inv_def)
  ultimately show ?thesis by (cases k) auto
qed

lemma iw_store16_ok:
  assumes w: "iw_inv w" and off: "off + 2 \<le> length (iw_bytes w)" "off + 2 \<le> 1024"
  shows "\<exists>w'. iw_store16 off v w = Some w' \<and> iw_inv w' \<and>
     iw_bytes w' = splice_at off (le_bytes 2 v) (iw_bytes w) \<and> iw_space_left w' = iw_space_left w"
proof -
  let ?b = "iw_block w"
  obtain k where k: "ib_alloc k ?b" "0 < k" "ib_pos ?b \<le> k * 1024" "off + 2 \<le> ib_pos ?b"
    using iw_header_alloc[OF w off(1)] by blast
  have o: "off div 1024 = 0" "off mod 1024 = off" using off(2) by auto
  have "off + length (le_bytes 2 v) \<le> 1024" using off(2) by simp
  from ib_store_ok[OF k(1,2) this] obtain b' where
    b': "ib_store 0 off (le_bytes 2 v) ?b = Some b'" "ib_alloc k b'"
    "ib_flat b' = splice_at (0 * 1024 + off) (le_bytes 2 v) (ib_flat ?b)" "ib_pos b' = ib_pos ?b" by blast
  have "ib_bytes b' = splice_at off (le_bytes 2 v) (ib_bytes ?b)"
    using b'(3,4) k(4) by (simp add: ib_bytes_def take_splice_at_inner)
  moreover have "ib_inv b'" using b'(2,4) k(3) by (auto simp: ib_inv_def)
  ultimately show ?thesis
    using w b'(1,4) o by (simp add: iw_store16_def iw_inv_def iw_bytes_def iw_space_left_def IOVecBlock_space_left_def)
qed

lemma iw_load16_ok:
  assumes w: "iw_inv w" and off: "off + 2 \<le> length (iw_bytes w)" "off + 2 \<le> 1024"
  shows "iw_load16 off w = Some (le_val (take 2 (drop off (iw_bytes w))))"
proof -
  let ?b = "iw_block w"
  obtain k where k: "ib_alloc k ?b" "0 < k" "ib_pos ?b \<le> k * 1024" "off + 2 \<le> ib_pos ?b"
    using iw_header_alloc[OF w off(1)] by blast
  have o: "off div 1024 = 0" "off mod 1024 = off" using off(2) by auto
  have len: "length (ib_data ?b ! 0) = 1024" "0 < length (ib_data ?b)"
    using ib_alloc_full[OF k(1,2)] k(1) by (auto simp: ib_alloc_def)
  have "drop off (ib_flat ?b) = drop off (ib_data ?b ! 0) @ drop 1024 (ib_flat ?b)"
    using ib_flat_drop[OF k(1,2), of off] off(2) by simp
  then have "take 2 (drop off (ib_flat ?b)) = take 2 (drop off (ib_data ?b ! 0))" using len off(2) by simp
  moreover have "take 2 (drop off (iw_bytes w)) = take 2 (drop off (ib_flat ?b))"
    using k(4) by (simp add: iw_bytes_def ib_bytes_def drop_take min_def)
  ultimately show ?thesis using len o off(2) by (simp add: iw_load16_def)
qed

interpretation ivw: header_sink IOVecW iw_bytes iw_inv
proof
  fix w :: iov_writer and bs :: "u8 list"
  assume w: "iw_inv w"
  then have b: "ib_inv (iw_block w)" by (simp add: iw_inv_def)
  note sp = ib_space[OF b] and pos = ib_inv_pos[OF b]
  have fits: "ib_pos (iw_block w) + n \<le> 4096" if "n \<le> ws_space_left IOVecW w" for n
    using that iw_space[OF b] pos by simp
  show "\<exists>s'. ws_put_raw IOVecW bs w = Some (True, s') \<and> appended IOVecW iw_bytes iw_inv w bs s'"
    if "length bs \<le> ws_space_left IOVecW w"
  proof -
    from IOVecBlock_put_pod_ok[OF b fits[OF that]] obtain b' where
      "IOVecBlock_put_pod bs (iw_block w) = Some b'" "ib_wrote bs (iw_block w) b'" by blast
    moreover have "\<not> IOVecBlock_space_left (iw_block w) < int (length bs)"
      unfolding sp using fits[OF that] by linarith
    ultimately show ?thesis
      using iw_wrote_appended[OF w, of bs "w\<lparr>iw_block := b'\<rparr>"] by (simp add: iw_put_raw_def iw_wrote_def)
  qed
  show "ws_put_raw IOVecW bs w = Some (False, w)" if "ws_space_left IOVecW w < length bs"
    using that iw_space[OF b] sp by (simp add: iw_put_raw_def)
  show "\<exists>s'. ws_put_base128 IOVecW v w = Some (True, s') \<and> appended IOVecW iw_bytes iw_inv w (leb128 v) s'"
    if "length (leb128 v) \<le> ws_space_left IOVecW w" for v
  proof -
    from iw_base128_ok[OF b fits[OF that]] obtain b' where
      "Base128Int_put_block v (iw_block w) = Some (True, b')" "ib_wrote (leb128 v) (iw_block w) b'" by blast
    then show ?thesis
      using iw_wrote_appended[OF w, of "leb128 v" "w\<lparr>iw_block := b'\<rparr>"] by (simp add: iw_put_base128_def iw_wrote_def)
  qed
  show "\<exists>s'. ws_tput IOVecW xs w = Some (True, s') \<and> appended IOVecW iw_bytes iw_inv w (vb_chunk xs) s'"
    if "length xs = 16" "length (vb_chunk xs) \<le> ws_space_left IOVecW w" for xs
    using iw_tput_ok[OF b that(1) fits[OF that(2)]] iw_wrote_appended[OF w] by auto
  show "ws_commit IOVecW w = Some (True, w)" using w by (simp add: iw_commit_def iw_inv_def)
  show "ws_size IOVecW w = length (iw_bytes w)"
    using ib_bytes_length[OF ib_inv_readable[OF b]] by (simp add: iw_size_def IOVecBlock_size_def iw_bytes_def)
  show "\<exists>s' xs. ws_allocate IOVecW n w = Some (Some (length (iw_bytes w)), s') \<and> length xs = n \<and>
      appended IOVecW iw_bytes iw_inv w xs s'" if "0 < n" "length (iw_bytes w) + n \<le> 1024" for n
    using iw_allocate_ok[OF w that(2,1)] by auto
  show "\<exists>s'. ws_store16 IOVecW off v w = Some s' \<and> iw_inv s' \<and>
      iw_bytes s' = splice_at off (le_bytes 2 v) (iw_bytes w) \<and> ws_space_left IOVecW s' = ws_space_left IOVecW w"
    if "off + 2 \<le> length (iw_bytes w)" "off + 2 \<le> 1024" for off v
    using iw_store16_ok[OF w that] by simp
  show "ws_load16 IOVecW off w = Some (le_val (take 2 (drop off (iw_bytes w))))"
    if "off + 2 \<le> length (iw_bytes w)" "off + 2 \<le> 1024" for off
    using iw_load16_ok[OF w that] by simp
  show "\<not> ws_empty IOVecW w" if "iw_bytes w \<noteq> []"
    using that by (auto simp: iw_empty_def IOVecBlock_size_def iw_bytes_def ib_bytes_def)
qed

subsection \<open>The reader as a byte source\<close>

text \<open>A reader of an \<open>IOVecBlock\<close> behaves as a \<open>VByteStreamReader\<close> over the bytes of the
  block.\<close>

definition ir_abs :: "iov_reader \<Rightarrow> vbyte_reader" where
  "ir_abs r = \<lparr>vr_data = ib_bytes (ir_block r), vr_pos = ir_pos r, vr_cnt = ir_cnt r,
     vr_ctrl = ir_ctrl r, vr_scut = ir_scut r\<rparr>"

definition ir_ok :: "iov_reader \<Rightarrow> bool" where
  "ir_ok r \<longleftrightarrow> ib_readable (ir_block r) \<and> ir_pos r \<le> ib_pos (ir_block r)"

definition ir_rest :: "iov_reader \<Rightarrow> u8 list" where
  "ir_rest r = vr_rest (ir_abs r)"

definition ir_inv :: "iov_reader \<Rightarrow> bool" where
  "ir_inv r \<longleftrightarrow> ir_ok r \<and> vr_inv (ir_abs r)"

lemma IOVecR_sel [simp]:
  "rs_next IOVecR = ir_next" "rs_next_base128 IOVecR = ir_next_base128" "rs_read_raw IOVecR = ir_read_raw"
  by (simp_all add: IOVecR_def)

lemma ir_space: "ir_ok r \<Longrightarrow> ir_space_left r = ib_pos (ir_block r) - ir_pos r"
  using ib_readable_pos[of "ir_block r"]
  by (auto simp: ir_ok_def ir_space_left_def IOVecBlock_bytes_to_read_def simp flip: of_nat_diff)

lemma ir_space_abs: "ir_ok r \<Longrightarrow> vr_space_left (ir_abs r) = ib_pos (ir_block r) - ir_pos r"
  by (simp add: ir_ok_def ir_abs_def vr_space_left_def ib_bytes_length)

lemma ir_read_raw_sim:
  assumes "ir_ok r" "vr_read_raw n (ir_abs r) = Some (bs, r')"
  shows "\<exists>q. ir_read_raw n r = Some (bs, q) \<and> ir_abs q = r' \<and> ir_ok q \<and> ir_block q = ir_block r"
proof -
  let ?b = "ir_block r"
  have r: "ib_readable ?b" "ir_pos r \<le> ib_pos ?b" "ib_pos ?b \<le> 4096"
    using assms(1) ib_readable_pos[of ?b] by (auto simp: ir_ok_def)
  have n: "ir_pos r + n \<le> ib_pos ?b"
    using assms r(2) by (auto simp: vr_read_raw_def ir_space_abs split: if_splits)
  have "nat ((int (IOVecBlock_size ?b) - int (ir_pos r)) mod 2 ^ 32) = ib_pos ?b - ir_pos r"
    using r(2,3) by (simp add: IOVecBlock_size_def flip: of_nat_diff)
  with n IOVecBlock_get_raw_ok[OF r(1) n] assms(2) r(1) show ?thesis
    by (auto simp: ir_read_raw_def vr_read_raw_def ir_abs_def ir_ok_def vr_space_left_def ib_bytes_length
        split: if_splits)
qed

lemma ir_read_le_sim:
  assumes "ir_ok r" "vr_read_le n (ir_abs r) = Some (v, r')"
  shows "\<exists>q. ir_read_le n r = Some (v, q) \<and> ir_abs q = r' \<and> ir_ok q \<and> ir_block q = ir_block r"
proof -
  let ?b = "ir_block r"
  have r: "ib_readable ?b" "ir_pos r \<le> ib_pos ?b" using assms(1) by (auto simp: ir_ok_def)
  have n: "ir_pos r + n \<le> ib_pos ?b" "n \<le> 8"
    using assms r(2) by (auto simp: vr_read_le_def ir_space_abs split: if_splits)
  with IOVecBlock_get_raw_ok[OF r(1) n(1)] assms r(1) ir_space[OF assms(1)] show ?thesis
    by (auto simp: ir_read_le_def vr_read_le_def ir_abs_def ir_ok_def vr_space_left_def ib_bytes_length
        split: if_splits)
qed

lemma ir_abs_upd:
  "ir_abs (r\<lparr>ir_cnt := c\<rparr>) = (ir_abs r)\<lparr>vr_cnt := c\<rparr>" "ir_abs (r\<lparr>ir_ctrl := x\<rparr>) = (ir_abs r)\<lparr>vr_ctrl := x\<rparr>"
  "ir_abs (r\<lparr>ir_scut := n\<rparr>) = (ir_abs r)\<lparr>vr_scut := n\<rparr>"
  "ir_ok (r\<lparr>ir_cnt := c\<rparr>) = ir_ok r" "ir_ok (r\<lparr>ir_ctrl := x\<rparr>) = ir_ok r" "ir_ok (r\<lparr>ir_scut := n\<rparr>) = ir_ok r"
  "vr_cnt (ir_abs r) = ir_cnt r" "vr_ctrl (ir_abs r) = ir_ctrl r" "vr_scut (ir_abs r) = ir_scut r"
  by (simp_all add: ir_abs_def ir_ok_def)

lemma ir_next_sim:
  assumes r: "ir_ok r" and v: "vr_next (ir_abs r) = Some (v, r')"
  shows "\<exists>q. ir_next r = Some (v, q) \<and> ir_abs q = r' \<and> ir_ok q"
proof -
  let ?r = "r\<lparr>ir_cnt := ir_cnt r + 1\<rparr>"
  have ok: "ir_ok ?r" using r by (simp add: ir_abs_upd)
  consider (scut) "ir_ctrl r = 255 \<and> ir_scut r \<noteq> 0"
    | (ctrl) "\<not> (ir_ctrl r = 255 \<and> ir_scut r \<noteq> 0)" "even (ir_cnt r)"
    | (second) "\<not> (ir_ctrl r = 255 \<and> ir_scut r \<noteq> 0)" "odd (ir_cnt r)" by blast
  then show ?thesis
  proof cases
    case scut
    with r v show ?thesis by (auto simp: ir_next_def vr_next_def ir_abs_upd)
  next
    case ctrl
    then obtain bs r1 where r1: "vr_read_raw 1 (ir_abs ?r) = Some (bs, r1)"
      and rest: "(if drop_bit 4 (le_val bs :: u8) = 15 then Some (0, r1\<lparr>vr_ctrl := le_val bs, vr_scut := 15\<rparr>)
        else vr_read_le (unat ((le_val bs :: u8) AND 15)) (r1\<lparr>vr_ctrl := le_val bs\<rparr>)) = Some (v, r')"
      using v unfolding vr_next_def ir_abs_upd if_not_P[OF ctrl(1)] if_P[OF ctrl(2)] Let_def
      by (auto simp: bind_Some_conv)
    from ir_read_raw_sim[OF ok r1] obtain q1 where
      q1: "ir_read_raw 1 ?r = Some (bs, q1)" "ir_abs q1 = r1" "ir_ok q1" by blast
    let ?q = "q1\<lparr>ir_ctrl := le_val bs\<rparr>"
    have q: "ir_abs ?q = r1\<lparr>vr_ctrl := le_val bs\<rparr>" "ir_ok ?q" using q1 by (simp_all add: ir_abs_upd)
    have nx: "ir_next r = (if drop_bit 4 (le_val bs :: u8) = 15 then Some (0, ?q\<lparr>ir_scut := 15\<rparr>)
        else ir_read_le (unat ((le_val bs :: u8) AND 15)) ?q)"
      unfolding ir_next_def if_not_P[OF ctrl(1)] if_P[OF ctrl(2)] q1(1) by (simp add: Let_def)
    show ?thesis
    proof (cases "drop_bit 4 (le_val bs :: u8) = 15")
      case True
      with rest nx q show ?thesis by (auto simp: ir_abs_upd)
    next
      case False
      with ir_read_le_sim[OF q(2), of "unat ((le_val bs :: u8) AND 15)" v r'] rest q(1) nx
      show ?thesis by auto
    qed
  next
    case second
    then have "vr_read_le (unat (drop_bit 4 (ir_ctrl r))) (ir_abs ?r) = Some (v, r')"
      using v unfolding vr_next_def ir_abs_upd if_not_P[OF second(1)] by simp
    from ir_read_le_sim[OF ok this] second show ?thesis by (auto simp: ir_next_def)
  qed
qed

lemma ir_read_n_sim:
  "ir_ok r \<Longrightarrow> read_n vr_next n (ir_abs r) = Some (vs, r') \<Longrightarrow>
   \<exists>q. read_n ir_next n r = Some (vs, q) \<and> ir_abs q = r' \<and> ir_ok q"
proof (induction n arbitrary: r vs)
  case (Suc n)
  from Suc.prems(2) obtain v r1 ws where
    v: "vr_next (ir_abs r) = Some (v, r1)" "read_n vr_next n r1 = Some (ws, r')" "vs = v # ws"
    by (auto simp: bind_Some_conv)
  from ir_next_sim[OF Suc.prems(1) v(1)] obtain q1 where
    q1: "ir_next r = Some (v, q1)" "ir_abs q1 = r1" "ir_ok q1" by blast
  from Suc.IH[OF q1(3), of ws] v(2) q1(2) obtain q where
    "read_n ir_next n q1 = Some (ws, q)" "ir_abs q = r'" "ir_ok q" by auto
  with q1(1) v(3) show ?case by auto
qed simp

lemma b128_get_block_loop_eq:
  "ib_readable b \<Longrightarrow> p \<le> ib_pos b \<Longrightarrow> b128_get_block_loop b p acc cnt = b128_get_loop (ib_bytes b) p acc cnt"
proof (induction b p acc cnt rule: b128_get_block_loop.induct)
  case (1 b p acc cnt)
  show ?case
  proof (cases "p = ib_pos b")
    case True
    with 1(2) show ?thesis
      by (subst b128_get_block_loop.simps, subst b128_get_loop.simps) (simp add: IOVecBlock_size_def ib_bytes_length)
  next
    case False
    then have p: "p < ib_pos b" "Suc p \<le> ib_pos b" using 1(3) by auto
    note get = IOVecBlock_get_ok[OF 1(2) p(1)]
    have IH: "\<not> LENGTH('a) \<le> cnt \<Longrightarrow> b128_more (ib_bytes b ! p) \<Longrightarrow>
      b128_get_block_loop b (Suc p) (acc OR push_bit cnt (ucast (ib_bytes b ! p AND 127))) (cnt + 7) =
      b128_get_loop (ib_bytes b) (Suc p) (acc OR push_bit cnt (ucast (ib_bytes b ! p AND 127))) (cnt + 7)"
      using 1(1)[OF _ get _ refl] False 1(2) p(2) by (simp add: IOVecBlock_size_def)
    with False get 1(2) p show ?thesis
      by (subst b128_get_block_loop.simps, subst b128_get_loop.simps)
        (simp add: IOVecBlock_size_def ib_bytes_length Let_def del: push_bit_and)
  qed
qed

lemma ir_next_base128_sim:
  assumes "ir_ok r" "vr_next_base128 (ir_abs r) = Some (v, r')"
  shows "\<exists>q. ir_next_base128 r = Some (v, q) \<and> ir_abs q = r' \<and> ir_block q = ir_block r"
proof -
  have "ib_readable (ir_block r)" "ir_pos r \<le> ib_pos (ir_block r)" using assms(1) by (auto simp: ir_ok_def)
  with assms(2) b128_get_block_loop_eq[OF this, of "0 :: u64" 0] show ?thesis
    by (auto simp: vr_next_base128_def ir_next_base128_def Base128Int_get_block_def Base128Int_get_def
        ir_abs_def split: if_splits option.splits)
qed

interpretation ivr: byte_source IOVecR ir_rest ir_inv
proof
  fix r :: iov_reader and xs ys :: "u8 list"
  assume "ir_inv r"
  then have r: "ir_ok r" "vr_inv (ir_abs r)" by (auto simp: ir_inv_def)
  show "\<exists>r'. rs_read_raw IOVecR (length xs) r = Some (xs, r') \<and> ir_inv r' \<and> ir_rest r' = ys"
    if "ir_rest r = xs @ ys"
    using vbr.read_raw_ok[OF r(2), of xs ys] that ir_read_raw_sim[OF r(1)]
    by (fastforce simp: ir_rest_def ir_inv_def)
  show "\<exists>r'. rs_next_base128 IOVecR r = Some (v, r') \<and> ir_inv r' \<and> ir_rest r' = ys"
    if d: "ir_rest r = leb128 v @ ys" for v
  proof -
    from vbr.next_base128_ok[OF r(2), of v ys] d obtain r1 where
      r1: "vr_next_base128 (ir_abs r) = Some (v, r1)" "vr_inv r1" "vr_rest r1 = ys" by (auto simp: ir_rest_def)
    from ir_next_base128_sim[OF r(1) r1(1)] obtain q where
      q: "ir_next_base128 r = Some (v, q)" "ir_abs q = r1" "ir_block q = ir_block r" by blast
    have "vr_pos r1 = ir_pos r + length (leb128 v)"
      using r1(1) Base128Int_get_ok[of "ir_pos r" "ib_bytes (ir_block r)" v ys 0] d
      by (auto simp: vr_next_base128_def ir_abs_def ir_rest_def vr_rest_def)
    moreover have "length (leb128 v) \<le> length (drop (ir_pos r) (ib_bytes (ir_block r)))"
      using d by (simp add: ir_rest_def vr_rest_def ir_abs_def)
    ultimately have "ir_ok q" using r(1) q(2,3) by (auto simp: ir_ok_def ir_abs_def ib_bytes_length)
    with q r1 show ?thesis by (auto simp: ir_inv_def ir_rest_def)
  qed
  show "\<exists>r'. read_n (rs_next IOVecR) 16 r = Some (vs, r') \<and> ir_inv r' \<and> ir_rest r' = ys"
    if "length vs = 16" "ir_rest r = vb_chunk vs @ ys" for vs
    using vbr.next_chunk_ok[OF r(2) that(1), of ys] that(2) ir_read_n_sim[OF r(1)]
    by (fastforce simp: ir_rest_def ir_inv_def)
qed

end
