(* ===== verification/LeafBlock.thy ===== *)
theory LeafBlock
  imports IOVecStream
begin

text \<open>
  \<open>IOVecBlockWriter<IOVecBlock>\<close> and \<open>IOVecBlockReader<IOVecBlock>\<close> of
  \<^verbatim>\<open>storage/compression.h\<close>: the constructors that place the codec behind a header of the
  block, the accessors, and the round trip of a leaf block, whether it is read back from
  memory (four components) or from a volume (one component).
\<close>

subsection \<open>Constructors and accessors\<close>

definition IOVecBlockWriter_open :: "iovec_block \<Rightarrow> nat \<Rightarrow> iov_writer block_writer option" where
  "IOVecBlockWriter_open b offset =
     (let s = IOVecVByteStreamWriter_new b;
          s = (if offset > 0 then snd (iw_skip offset s) else s)
      in IOVecBlockWriter_new s)"

definition IOVecBlockReader_open :: "iovec_block \<Rightarrow> nat \<Rightarrow> iov_reader block_reader option" where
  "IOVecBlockReader_open b offset =
     (let r = IOVecVByteStreamReader_new b;
          r = (if offset > 0 then snd (ir_skip offset r) else r);
          (begin', r) = ir_skip 14 r
      in IOVecBlockReader_new begin' r)"

definition IOVecBlockReader_nelements :: "'r block_reader \<Rightarrow> nat option" where
  "IOVecBlockReader_nelements b = get_total_size (br_begin b)"

definition IOVecBlockReader_get_id :: "'r block_reader \<Rightarrow> param_id option" where
  "IOVecBlockReader_get_id b = get_block_id (br_begin b)"

definition IOVecBlockReader_version :: "'r block_reader \<Rightarrow> u16 option" where
  "IOVecBlockReader_version b = get_block_version (br_begin b)"

subsection \<open>The round trip of a leaf block\<close>

abbreviation ivw_view where
  "ivw_view \<equiv> bw_view IOVecW iw_bytes iw_inv"

lemma iw_skip_allocate: "snd (iw_skip n w) = snd (iw_allocate n w)"
  by (simp add: iw_skip_def iw_allocate_def split: prod.splits)

lemma leaf_open_ok:
  assumes b: "ib_inv b" and off: "ib_pos b + offset + 14 \<le> 1024"
  shows "\<exists>w0 w1 pre. IOVecBlockWriter_open b offset = Some w0 \<and>
     IOVecBlockWriter_init IOVecW sid w0 = Some w1 \<and> length pre = ib_pos b + offset \<and>
     ivw_view 4096 pre sid [] [] [] [] w1"
proof -
  let ?w = "IOVecVByteStreamWriter_new b"
  define s where "s = (if offset > 0 then snd (iw_skip offset ?w) else ?w)"
  have w: "iw_inv ?w" "iw_bytes ?w = ib_bytes b"
    using b by (simp_all add: IOVecVByteStreamWriter_new_def iw_inv_def iw_bytes_def)
  have len: "length (ib_bytes b) = ib_pos b" by (rule ib_bytes_length[OF ib_inv_readable[OF b]])
  have s: "iw_inv s \<and> length (iw_bytes s) = ib_pos b + offset"
  proof (cases "offset = 0")
    case True
    then show ?thesis using w len by (simp add: s_def)
  next
    case False
    then obtain w' xs where
      "iw_allocate offset ?w = (Some (length (iw_bytes ?w)), w')" "length xs = offset"
      "appended IOVecW iw_bytes iw_inv ?w xs w'"
      using iw_allocate_ok[OF w(1), of offset] off w(2) len by auto
    then show ?thesis using False w(2) len by (simp add: s_def iw_skip_allocate appended_def)
  qed
  then have pos: "ib_pos (iw_block s) = ib_pos b + offset"
    using ib_bytes_length[OF ib_inv_readable, of "iw_block s"] by (simp add: iw_inv_def iw_bytes_def)
  then have sp: "ws_space_left IOVecW s = 4096 - (ib_pos b + offset)"
    using s iw_space[of s] by (simp add: iw_inv_def)
  have "length (iw_bytes s) + 14 \<le> 1024" "14 \<le> ws_space_left IOVecW s" using s sp off by auto
  from ivw.init_ok[OF _ refl this, of sid] s obtain w0 w1 where
    w: "IOVecBlockWriter_new s = Some w0" "IOVecBlockWriter_init IOVecW sid w0 = Some w1"
    "ivw_view (length (iw_bytes s) + ws_space_left IOVecW s) (iw_bytes s) sid [] [] [] [] w1" by auto
  have "length (iw_bytes s) + ws_space_left IOVecW s = 4096" using s sp off by simp
  with w s show ?thesis by (auto simp: IOVecBlockWriter_open_def s_def Let_def)
qed

text \<open>The header of a block is in its first component.\<close>

lemma ib_header_prefix:
  assumes r: "ib_readable b" and p: "off + n \<le> ib_pos b" "off + n \<le> 1024" "0 < n"
  shows "take n (drop off (ib_data b ! 0)) = take n (drop off (ib_bytes b))"
proof -
  have bytes: "take n (drop off (ib_bytes b)) = take n (drop off (ib_flat b))"
    using p(1) by (simp add: ib_bytes_def drop_take min_def)
  show ?thesis
  proof (cases "single_chunk b")
    case True
    then show ?thesis by (simp add: bytes) (simp add: ib_flat_def)
  next
    case False
    then obtain k where k: "ib_alloc k b" "ib_pos b \<le> k * 1024" using r by (auto simp: ib_readable_def ib_inv_def)
    then have k0: "0 < k" using p by (cases k) auto
    from ib_flat_drop[OF k(1) k0, of off] ib_alloc_full[OF k(1) k0] p(2) show ?thesis
      by (simp add: bytes)
  qed
qed

lemma leaf_read_layout:
  assumes rb: "ib_readable rb"
    and bytes: "ib_bytes rb = pre @ hdr_bytes (length main) (length tvs) sid @ bs @ tail_bytes tvs @ z"
    and off: "length pre = off" "off + 14 \<le> 1024"
    and n: "length main \<le> 65535" "length tvs \<le> 65535" "\<forall>c \<in> set main. length c = 16"
    and c: "DfcmPredictor_new 128 = Some p" "chunks_bytes main 0 p = Some (bs, q)"
  shows "\<exists>r r'. IOVecBlockReader_open rb off = Some r \<and>
     read_n (IOVecBlockReader_next IOVecR) (length (concat main @ tvs)) r
       = Some (map ok_item (concat main @ tvs), r') \<and>
     IOVecBlockReader_next IOVecR r' = Some ((kNoData, 0, 0), r') \<and>
     IOVecBlockReader_nelements r = Some (length (concat main @ tvs)) \<and>
     IOVecBlockReader_get_id r = Some sid \<and> IOVecBlockReader_version r = Some FASTSTDB_VERSION"
proof -
  let ?h = "hdr_bytes (length main) (length tvs) sid"
  let ?r = "(IOVecVByteStreamReader_new rb)\<lparr>ir_pos := off + 14\<rparr>"
  let ?d = "drop off (ib_data rb ! 0)"
  have pos: "off + 14 \<le> ib_pos rb" using ib_bytes_length[OF rb] bytes off(1) by simp
  have "take 14 ?d = take 14 (drop off (ib_bytes rb))" by (rule ib_header_prefix[OF rb pos off(2)]) simp
  also have "\<dots> = ?h" using bytes off(1) by simp
  finally have d: "?d = ?h @ drop 14 ?d" by (metis append_take_drop_id)
  have "DfcmPredictor_new (of_nat PREDICTOR_N) = Some p" using c(1) by (simp add: dfcm_new_128)
  then obtain r where r: "IOVecBlockReader_new ?d ?r = Some r" "br_begin r = ?d"
    by (simp add: IOVecBlockReader_new_def FcmStreamReader_new_def)
  have open': "IOVecBlockReader_open rb off = Some r"
    using r(1) by (auto simp: IOVecBlockReader_open_def ir_skip_def Let_def IOVecVByteStreamReader_new_def)
  have inv: "ir_inv ?r" using rb pos
    by (simp add: ir_inv_def ir_ok_def vr_inv_def ir_abs_def IOVecVByteStreamReader_new_def)
  have rest: "ir_rest ?r = bs @ tail_bytes tvs @ z"
    using bytes off(1) by (simp add: ir_rest_def vr_rest_def ir_abs_def IOVecVByteStreamReader_new_def)
  have "br_sizes (length main) (length tvs) r" by (rule br_sizes_header[OF _ n(1,2)]) (use r(2) d in simp)
  moreover have "length (concat main) = 16 * length main" using n(3) by (induction main) auto
  ultimately have "IOVecBlockReader_nelements r = Some (length (concat main @ tvs))"
    by (simp add: IOVecBlockReader_nelements_def br_sizes_def)
  moreover have "IOVecBlockReader_get_id r = Some sid" "IOVecBlockReader_version r = Some FASTSTDB_VERSION"
    using hdr_accessors[of "length main" "length tvs" sid "drop 14 ?d"] d r(2)
    by (simp_all add: IOVecBlockReader_get_id_def IOVecBlockReader_version_def)
  ultimately show ?thesis using ivr.br_read_all[OF r(1) inv d n c rest] open' by blast
qed

text \<open>C13. Round trip of a leaf block: the codec placed behind \<open>offset\<close> reserved bytes of any
  well-formed block accepts elements until the block is full, commits, and any readable block
  with the committed bytes as prefix (the block in memory, or the 4096-byte chunk a volume
  returns) reads back exactly the accepted elements, then \<open>NoData\<close>.\<close>

theorem leafblock_roundtrip:
  assumes "ib_inv b" and "ib_pos b + offset + 14 \<le> COMPONENT_SIZE"
  shows "\<exists>w0 w1 n w2 size w3.
     IOVecBlockWriter_open b offset = Some w0 \<and> IOVecBlockWriter_init IOVecW sid w0 = Some w1 \<and>
     bw_put_list IOVecW xs w1 = Some (n, w2) \<and> n \<le> length xs \<and>
     IOVecBlockWriter_commit IOVecW w2 = Some (size, w3) \<and> size \<le> FASTSTDB_BLOCK_SIZE \<and>
     ib_readable (iw_block (bw_stream w3)) \<and> size = IOVecBlock_size (iw_block (bw_stream w3)) \<and>
     (\<forall>rb. ib_readable rb \<and> take size (ib_bytes rb) = ib_bytes (iw_block (bw_stream w3)) \<longrightarrow>
       (\<exists>r r'. IOVecBlockReader_open rb (ib_pos b + offset) = Some r \<and>
          read_n (IOVecBlockReader_next IOVecR) n r = Some (map ok_item (take n xs), r') \<and>
          IOVecBlockReader_next IOVecR r' = Some ((kNoData, 0, 0), r') \<and>
          IOVecBlockReader_nelements r = Some n \<and> IOVecBlockReader_get_id r = Some sid \<and>
          IOVecBlockReader_version r = Some FASTSTDB_VERSION))"
proof -
  from leaf_open_ok[OF assms, of sid] obtain w0 w1 pre where
    w1: "IOVecBlockWriter_open b offset = Some w0" "IOVecBlockWriter_init IOVecW sid w0 = Some w1"
    "length pre = ib_pos b + offset" "ivw_view 4096 pre sid [] [] [] [] w1" by blast
  from ivw.put_list_ok[OF w1(4), of xs] obtain n w2 main buf tail junk where
    w2: "bw_put_list IOVecW xs w1 = Some (n, w2)" "ivw_view 4096 pre sid main buf tail junk w2"
    "n \<le> length xs" "concat main @ buf @ tail = take n xs" by auto
  have cap: "(4096 :: nat) \<le> 3 * 65535" by simp
  from ivw.commit_ok_view[OF w2(2) cap] obtain sz w3 p bs q where
    w3: "IOVecBlockWriter_commit IOVecW w2 = Some (sz, w3)" "DfcmPredictor_new 128 = Some p"
    "chunks_bytes main 0 p = Some (bs, q)" "iw_inv (bw_stream w3)" "sz = length (iw_bytes (bw_stream w3))"
    "iw_bytes (bw_stream w3) =
       pre @ hdr_bytes (length main) (length (buf @ tail)) sid @ bs @ tail_bytes (buf @ tail) @ junk"
    "sz + ws_space_left IOVecW (bw_stream w3) = 4096" by auto
  let ?b = "iw_block (bw_stream w3)"
  have rd: "ib_readable ?b" "sz = IOVecBlock_size ?b"
    using w3(4,5) ib_inv_readable ib_bytes_length[OF ib_inv_readable, of ?b]
    by (auto simp: iw_inv_def iw_bytes_def IOVecBlock_size_def)
  have c16: "\<forall>c \<in> set main. length c = 16" using w2(2) by (simp add: bw_view_def)
  have len: "length (take n xs) = n" using w2(3) by simp
  have "\<exists>r r'. IOVecBlockReader_open rb (ib_pos b + offset) = Some r \<and>
          read_n (IOVecBlockReader_next IOVecR) n r = Some (map ok_item (take n xs), r') \<and>
          IOVecBlockReader_next IOVecR r' = Some ((kNoData, 0, 0), r') \<and>
          IOVecBlockReader_nelements r = Some n \<and> IOVecBlockReader_get_id r = Some sid \<and>
          IOVecBlockReader_version r = Some FASTSTDB_VERSION"
    if rb: "ib_readable rb" "take sz (ib_bytes rb) = ib_bytes ?b" for rb
  proof -
    have "ib_bytes rb = pre @ hdr_bytes (length main) (length (buf @ tail)) sid @ bs @
        tail_bytes (buf @ tail) @ (junk @ drop sz (ib_bytes rb))"
      using append_take_drop_id[of sz "ib_bytes rb"] rb(2) w3(6) by (simp add: iw_bytes_def)
    from leaf_read_layout[OF rb(1) this w1(3) assms(2) ivw.view_counts[OF w2(2) cap] c16 w3(2,3)]
    show ?thesis unfolding w2(4) len .
  qed
  with w1(1,2) w2(1,3) w3(1,7) rd show ?thesis by auto
qed

theorem leafblock_roundtrip_witness:
  "ib_inv IOVecBlock_new \<and>
   (\<exists>w0 w1 n w2 size w3.
     IOVecBlockWriter_open IOVecBlock_new 0 = Some w0 \<and> IOVecBlockWriter_init IOVecW 42 w0 = Some w1 \<and>
     bw_put_list IOVecW [(10, 11)] w1 = Some (n, w2) \<and> IOVecBlockWriter_commit IOVecW w2 = Some (size, w3) \<and>
     (\<exists>r r'. IOVecBlockReader_open (iw_block (bw_stream w3)) 0 = Some r \<and>
        read_n (IOVecBlockReader_next IOVecR) n r = Some (map ok_item (take n [(10, 11)]), r') \<and>
        IOVecBlockReader_get_id r = Some 42))"
proof -
  have "ib_pos IOVecBlock_new + 0 + 14 \<le> COMPONENT_SIZE" by simp
  from leafblock_roundtrip[OF ib_inv_new this, of 42 "[(10, 11)]"] obtain w0 w1 n w2 sz w3 where
    w: "IOVecBlockWriter_open IOVecBlock_new 0 = Some w0" "IOVecBlockWriter_init IOVecW 42 w0 = Some w1"
    "bw_put_list IOVecW [(10, 11)] w1 = Some (n, w2)" "IOVecBlockWriter_commit IOVecW w2 = Some (sz, w3)"
    and b: "ib_readable (iw_block (bw_stream w3))" "sz = IOVecBlock_size (iw_block (bw_stream w3))"
    and r: "\<And>rb. ib_readable rb \<and> take sz (ib_bytes rb) = ib_bytes (iw_block (bw_stream w3)) \<Longrightarrow>
       \<exists>r r'. IOVecBlockReader_open rb 0 = Some r \<and>
          read_n (IOVecBlockReader_next IOVecR) n r = Some (map ok_item (take n [(10, 11)]), r') \<and>
          IOVecBlockReader_get_id r = Some 42" by fastforce
  have "take sz (ib_bytes (iw_block (bw_stream w3))) = ib_bytes (iw_block (bw_stream w3))"
    using b ib_bytes_length[OF b(1)] by (simp add: IOVecBlock_size_def)
  with r[of "iw_block (bw_stream w3)"] w b(1) show ?thesis by auto
qed

end
