(* ===== verification/Volume.thy ===== *)
theory Volume
  imports BlockCodec IOVecBlock
begin

text \<open>
  \<open>MetaVolume\<close> and \<open>Volume\<close> of \<^verbatim>\<open>storage/volume.h\<close> and \<^verbatim>\<open>storage/volume.cc\<close>.  The
  meta-volume keeps one 4096-byte page per volume in \<open>double_write_buffer_\<close>, with a
  \<open>VolumeRef\<close> at its start; the buffer is modelled byte by byte.  The calls to the abstract
  \<open>VolumeRegistry\<close> are recorded as events.  A volume is the memory-mapped file; the outcome
  of \<open>lseek\<close> and \<open>writev\<close>, with the bytes a failed write has left in the file, is an argument of
  the operation that uses them.
\<close>

subsection \<open>Volume descriptors\<close>

record volume_desc =
  vd_id :: u32
  vd_path :: "u8 list"
  vd_version :: u32
  vd_nblocks :: u32
  vd_capacity :: u32
  vd_generation :: u32

datatype reg_event = AddVolume volume_desc | UpdateVolume volume_desc

text \<open>\<open>VolumeRef\<close>: five \<open>u32\<close> fields and the path, a C string.\<close>

abbreviation (input) sizeof_VolumeRef :: nat where "sizeof_VolumeRef \<equiv> 20"
abbreviation (input) off_version :: nat where "off_version \<equiv> 0"
abbreviation (input) off_id :: nat where "off_id \<equiv> 4"
abbreviation (input) off_nblocks :: nat where "off_nblocks \<equiv> 8"
abbreviation (input) off_capacity :: nat where "off_capacity \<equiv> 12"
abbreviation (input) off_generation :: nat where "off_generation \<equiv> 16"

definition store_bytes :: "nat \<Rightarrow> u8 list \<Rightarrow> u8 list \<Rightarrow> u8 list option" where
  "store_bytes off bs buf = (if off + length bs \<le> length buf then Some (splice_at off bs buf) else None)"

definition load_u32 :: "nat \<Rightarrow> u8 list \<Rightarrow> u32 option" where
  "load_u32 off buf = (if off + 4 \<le> length buf then Some (le_val (take 4 (drop off buf))) else None)"

definition c_string :: "nat \<Rightarrow> u8 list \<Rightarrow> u8 list option" where
  "c_string off buf = (if 0 \<in> set (drop off buf) then Some (takeWhile (\<lambda>c. c \<noteq> 0) (drop off buf)) else None)"

definition volcpy :: "nat \<Rightarrow> volume_desc \<Rightarrow> u8 list \<Rightarrow> u8 list option" where
  "volcpy block desc buf =
     do {
       buf \<leftarrow> store_bytes (block + off_capacity) (le_bytes 4 (vd_capacity desc)) buf;
       buf \<leftarrow> store_bytes (block + off_generation) (le_bytes 4 (vd_generation desc)) buf;
       buf \<leftarrow> store_bytes (block + off_id) (le_bytes 4 (vd_id desc)) buf;
       buf \<leftarrow> store_bytes (block + off_nblocks) (le_bytes 4 (vd_nblocks desc)) buf;
       buf \<leftarrow> store_bytes (block + off_version) (le_bytes 4 (vd_version desc)) buf;
       buf \<leftarrow> store_bytes (block + sizeof_VolumeRef) (vd_path desc) buf;
       store_bytes (block + sizeof_VolumeRef + length (vd_path desc)) [0] buf }"

subsection \<open>MetaVolume\<close>

record meta_volume =
  mv_file_size :: nat
  mv_buffer :: "u8 list"
  mv_log :: "reg_event list"

text \<open>The loop of the constructor; \<open>init_list\<close> holds the identifiers seen.\<close>

fun mv_init :: "volume_desc list \<Rightarrow> u32 list \<Rightarrow> u8 list \<Rightarrow> u8 list option" where
  "mv_init [] init_list buf = Some buf"
| "mv_init (vol # vols) init_list buf =
     (if vd_id vol \<in> set init_list then None
      else do {
        buf \<leftarrow> volcpy (unat (vd_id vol * 4096)) vol buf;
        mv_init vols (vd_id vol # init_list) buf })"

definition MetaVolume_new :: "volume_desc list \<Rightarrow> meta_volume option" where
  "MetaVolume_new volumes =
     (let file_size = length volumes * FASTSTDB_BLOCK_SIZE
      in do {
        buf \<leftarrow> mv_init volumes [] (replicate file_size 0);
        Some \<lparr>mv_file_size = file_size, mv_buffer = buf, mv_log = []\<rparr> })"

definition MetaVolume_get_nvolumes :: "meta_volume \<Rightarrow> nat" where
  "MetaVolume_get_nvolumes mv = mv_file_size mv div FASTSTDB_BLOCK_SIZE"

text \<open>\<open>get_volref\<close>: the offset of the page; \<open>id * FASTSTDB_BLOCK_SIZE\<close> is computed in \<open>u32\<close>.\<close>

definition get_volref :: "u32 \<Rightarrow> nat" where
  "get_volref i = unat (i * 4096)"

definition MetaVolume_get_nblocks :: "u32 \<Rightarrow> meta_volume \<Rightarrow> (status \<times> u32) option" where
  "MetaVolume_get_nblocks i mv =
     (if unat i < mv_file_size mv div FASTSTDB_BLOCK_SIZE
      then do { n \<leftarrow> load_u32 (get_volref i + off_nblocks) (mv_buffer mv); Some (kOk, n) }
      else Some (kOutOfRange, 0))"

definition MetaVolume_get_capacity :: "u32 \<Rightarrow> meta_volume \<Rightarrow> (status \<times> u32) option" where
  "MetaVolume_get_capacity i mv =
     (if unat i < mv_file_size mv div FASTSTDB_BLOCK_SIZE
      then do { n \<leftarrow> load_u32 (get_volref i + off_capacity) (mv_buffer mv); Some (kOk, n) }
      else Some (kOutOfRange, 0))"

definition MetaVolume_get_generation :: "u32 \<Rightarrow> meta_volume \<Rightarrow> (status \<times> u32) option" where
  "MetaVolume_get_generation i mv =
     (if unat i < mv_file_size mv div FASTSTDB_BLOCK_SIZE
      then do { n \<leftarrow> load_u32 (get_volref i + off_generation) (mv_buffer mv); Some (kOk, n) }
      else Some (kOutOfRange, 0))"

definition MetaVolume_add_volume ::
  "u32 \<Rightarrow> u32 \<Rightarrow> u8 list \<Rightarrow> meta_volume \<Rightarrow> (status \<times> meta_volume) option" where
  "MetaVolume_add_volume i capacity path mv =
     (if FASTSTDB_BLOCK_SIZE - sizeof_VolumeRef < length path then Some (kBadArg, mv)
      else
        let old_size = length (mv_buffer mv);
            vol = \<lparr>vd_id = i, vd_path = path, vd_version = ucast FASTSTDB_VERSION, vd_nblocks = 0,
                   vd_capacity = capacity, vd_generation = i\<rparr>
        in do {
          buf \<leftarrow> volcpy old_size vol (mv_buffer mv @ replicate FASTSTDB_BLOCK_SIZE 0);
          Some (kOk, mv\<lparr>mv_file_size := mv_file_size mv + FASTSTDB_BLOCK_SIZE, mv_buffer := buf,
                        mv_log := mv_log mv @ [AddVolume vol]\<rparr>) })"

text \<open>The descriptor that the setters build from the page and pass to \<open>update_volume\<close>.\<close>

definition mv_desc :: "u32 \<Rightarrow> meta_volume \<Rightarrow> volume_desc option" where
  "mv_desc i mv =
     do {
       nblocks \<leftarrow> load_u32 (get_volref i + off_nblocks) (mv_buffer mv);
       generation \<leftarrow> load_u32 (get_volref i + off_generation) (mv_buffer mv);
       capacity \<leftarrow> load_u32 (get_volref i + off_capacity) (mv_buffer mv);
       vid \<leftarrow> load_u32 (get_volref i + off_id) (mv_buffer mv);
       version \<leftarrow> load_u32 (get_volref i + off_version) (mv_buffer mv);
       path \<leftarrow> c_string (get_volref i + sizeof_VolumeRef) (mv_buffer mv);
       Some \<lparr>vd_id = vid, vd_path = path, vd_version = version, vd_nblocks = nblocks,
             vd_capacity = capacity, vd_generation = generation\<rparr> }"

definition mv_update_volume :: "u32 \<Rightarrow> meta_volume \<Rightarrow> (status \<times> meta_volume) option" where
  "mv_update_volume i mv =
     do { vol \<leftarrow> mv_desc i mv; Some (kOk, mv\<lparr>mv_log := mv_log mv @ [UpdateVolume vol]\<rparr>) }"

definition mv_store :: "nat \<Rightarrow> u32 \<Rightarrow> meta_volume \<Rightarrow> meta_volume option" where
  "mv_store off v mv =
     do { buf \<leftarrow> store_bytes off (le_bytes 4 v) (mv_buffer mv); Some (mv\<lparr>mv_buffer := buf\<rparr>) }"

definition MetaVolume_update ::
  "u32 \<Rightarrow> u32 \<Rightarrow> u32 \<Rightarrow> u32 \<Rightarrow> meta_volume \<Rightarrow> (status \<times> meta_volume) option" where
  "MetaVolume_update i nblocks capacity gen mv =
     (if unat i < mv_file_size mv div FASTSTDB_BLOCK_SIZE
      then do {
        mv \<leftarrow> mv_store (get_volref i + off_nblocks) nblocks mv;
        mv \<leftarrow> mv_store (get_volref i + off_capacity) capacity mv;
        mv \<leftarrow> mv_store (get_volref i + off_generation) gen mv;
        mv_update_volume i mv }
      else Some (kOutOfRange, mv))"

definition MetaVolume_set_nblocks :: "u32 \<Rightarrow> u32 \<Rightarrow> meta_volume \<Rightarrow> (status \<times> meta_volume) option" where
  "MetaVolume_set_nblocks i nblocks mv =
     (if unat i < mv_file_size mv div FASTSTDB_BLOCK_SIZE
      then do { mv \<leftarrow> mv_store (get_volref i + off_nblocks) nblocks mv; mv_update_volume i mv }
      else Some (kOutOfRange, mv))"

definition MetaVolume_set_capacity :: "u32 \<Rightarrow> u32 \<Rightarrow> meta_volume \<Rightarrow> (status \<times> meta_volume) option" where
  "MetaVolume_set_capacity i cap mv =
     (if unat i < mv_file_size mv div FASTSTDB_BLOCK_SIZE
      then do { mv \<leftarrow> mv_store (get_volref i + off_capacity) cap mv; mv_update_volume i mv }
      else Some (kOutOfRange, mv))"

definition MetaVolume_set_generation :: "u32 \<Rightarrow> u32 \<Rightarrow> meta_volume \<Rightarrow> (status \<times> meta_volume) option" where
  "MetaVolume_set_generation i gen mv =
     (if unat i < mv_file_size mv div FASTSTDB_BLOCK_SIZE
      then do { mv \<leftarrow> mv_store (get_volref i + off_generation) gen mv; mv_update_volume i mv }
      else Some (kOutOfRange, mv))"

subsection \<open>Volume\<close>

text \<open>How the file system answers \<open>append_block\<close>: \<open>lseek\<close> may fail, and \<open>writev\<close> may fail or write
  less than the block; the number is that of the bytes that have reached the file by then.\<close>

datatype io_result = IoOk | IoSeekError | IoWriteError nat

record volume =
  vol_file_size :: u32
  vol_write_pos :: u32
  vol_path :: "u8 list"
  vol_mem :: "u8 list"

text \<open>The constructor, on the content of the mapped file.\<close>

definition Volume_new :: "u8 list \<Rightarrow> u8 list \<Rightarrow> nat \<Rightarrow> volume" where
  "Volume_new path content pos =
     \<lparr>vol_file_size = of_nat (length content div FASTSTDB_BLOCK_SIZE), vol_write_pos = of_nat pos,
      vol_path = path, vol_mem = content\<rparr>"

text \<open>Opening a volume maps its file: a missing file, or an empty one, which cannot be mapped,
  is fatal.\<close>

definition Volume_open_existing :: "u8 list \<Rightarrow> u8 list option \<Rightarrow> nat \<Rightarrow> volume option" where
  "Volume_open_existing path file pos =
     do { content \<leftarrow> file; if content = [] then None else Some (Volume_new path content pos) }"

text \<open>\<open>create_new\<close>: the file afterwards, \<open>None\<close> when there is none.  An existing file is kept; a
  size of 0 creates nothing, and the status that says so is dropped.\<close>

definition Volume_create_new :: "u8 list option \<Rightarrow> u64 \<Rightarrow> u8 list option" where
  "Volume_create_new existing capacity =
     (case existing of
        Some c \<Rightarrow> Some c
      | None \<Rightarrow>
          let size = unat (capacity * 4096)
          in if size = 0 then None else Some (replicate size 0))"

definition Volume_reset :: "volume \<Rightarrow> volume" where
  "Volume_reset v = v\<lparr>vol_write_pos := 0\<rparr>"

definition Volume_append_block_raw :: "u8 list \<Rightarrow> volume \<Rightarrow> ((status \<times> block_addr) \<times> volume) option" where
  "Volume_append_block_raw source v =
     (if vol_file_size v \<le> vol_write_pos v then Some ((kOverflow, 0), v)
      else
        let offset = unat (vol_write_pos v * 4096)
        in if length source < FASTSTDB_BLOCK_SIZE then None
           else do {
             m \<leftarrow> store_bytes offset (take FASTSTDB_BLOCK_SIZE source) (vol_mem v);
             Some ((kOk, vol_write_pos v), v\<lparr>vol_mem := m, vol_write_pos := vol_write_pos v + 1\<rparr>) })"

text \<open>The vector handed to \<open>writev\<close>: 1024 bytes of every component, zeros for an empty one.\<close>

definition iovec_image :: "iovec_block \<Rightarrow> u8 list" where
  "iovec_image b =
     concat (map (\<lambda>c. if length c \<noteq> 0 then take COMPONENT_SIZE c else replicate COMPONENT_SIZE 0)
               (ib_data b))"

text \<open>The mapping is shared, so what \<open>writev\<close> writes to the file is visible in it.\<close>

definition Volume_append_block ::
  "io_result \<Rightarrow> iovec_block \<Rightarrow> volume \<Rightarrow> ((status \<times> block_addr) \<times> volume) option" where
  "Volume_append_block io source v =
     (if vol_file_size v \<le> vol_write_pos v then Some ((kOverflow, 0), v)
      else
        let seek_off = unat (vol_write_pos v * 4096)
        in if io = IoSeekError then Some ((kFileSeekError, 0), v)
           else do {
             let written = (case io of IoWriteError n \<Rightarrow> take n (iovec_image source) | _ \<Rightarrow> iovec_image source);
             m \<leftarrow> store_bytes seek_off written (vol_mem v);
             if io \<noteq> IoOk then Some ((kFileWriteError, 0), v\<lparr>vol_mem := m\<rparr>)
             else Some ((kOk, vol_write_pos v), v\<lparr>vol_mem := m, vol_write_pos := vol_write_pos v + 1\<rparr>) })"

definition Volume_read_block_raw :: "u32 \<Rightarrow> volume \<Rightarrow> (status \<times> u8 list) option" where
  "Volume_read_block_raw ix v =
     (if vol_write_pos v \<le> ix then Some (kOverflow, [])
      else
        let offset = unat (ix * 4096)
        in if offset + FASTSTDB_BLOCK_SIZE \<le> length (vol_mem v)
           then Some (kOk, take FASTSTDB_BLOCK_SIZE (drop offset (vol_mem v))) else None)"

definition Volume_read_block :: "u32 \<Rightarrow> volume \<Rightarrow> (status \<times> iovec_block) option" where
  "Volume_read_block ix v =
     (let block = IOVecBlock_new_allocated
      in if length (ib_data block ! 0) \<noteq> FASTSTDB_BLOCK_SIZE then Some (kBadArg, block)
         else do {
           (st, bs) \<leftarrow> Volume_read_block_raw ix v;
           Some (st, if st = kOk then block\<lparr>ib_data := (ib_data block)[0 := bs]\<rparr> else block) })"

text \<open>\<open>read_block_zero_copy\<close> returns a pointer into the mapping: its offset.\<close>

definition Volume_read_block_zero_copy :: "u32 \<Rightarrow> volume \<Rightarrow> status \<times> nat option" where
  "Volume_read_block_zero_copy ix v =
     (if vol_write_pos v \<le> ix then (kOverflow, None) else (kOk, Some (unat (ix * 4096))))"

definition Volume_get_size :: "volume \<Rightarrow> u32" where
  "Volume_get_size v = vol_file_size v"

definition Volume_get_path :: "volume \<Rightarrow> u8 list" where
  "Volume_get_path v = vol_path v"

subsection \<open>Pages of the meta-volume\<close>

definition mv_u32 :: "nat \<Rightarrow> meta_volume \<Rightarrow> nat \<Rightarrow> u32" where
  "mv_u32 off mv i = le_val (take 4 (drop (i * 4096 + off) (mv_buffer mv)))"

abbreviation mv_nblocks :: "meta_volume \<Rightarrow> nat \<Rightarrow> u32" where
  "mv_nblocks \<equiv> mv_u32 off_nblocks"

abbreviation mv_generation :: "meta_volume \<Rightarrow> nat \<Rightarrow> u32" where
  "mv_generation \<equiv> mv_u32 off_generation"

abbreviation mv_capacity :: "meta_volume \<Rightarrow> nat \<Rightarrow> u32" where
  "mv_capacity \<equiv> mv_u32 off_capacity"

definition mv_path :: "meta_volume \<Rightarrow> nat \<Rightarrow> u8 list" where
  "mv_path mv i = takeWhile (\<lambda>c. c \<noteq> 0) (take 4076 (drop (i * 4096 + 20) (mv_buffer mv)))"

text \<open>A well-formed meta-volume of \<open>k\<close> pages; every path is terminated inside its page.\<close>

definition mv_ok :: "nat \<Rightarrow> meta_volume \<Rightarrow> bool" where
  "mv_ok k mv \<longleftrightarrow> mv_file_size mv = k * 4096 \<and> length (mv_buffer mv) = k * 4096 \<and> k \<le> 2 ^ 20 \<and>
     (\<forall>i < k. 0 \<in> set (take 4076 (drop (i * 4096 + 20) (mv_buffer mv))))"

lemma unat_mult_4096: "unat (i :: u32) < 2 ^ 20 \<Longrightarrow> unat (i * 4096) = unat i * 4096"
  by (simp add: unat_word_ariths)

lemma get_volref_eq: "mv_ok k mv \<Longrightarrow> unat i < k \<Longrightarrow> get_volref i = unat i * 4096"
  unfolding get_volref_def by (rule unat_mult_4096) (auto simp: mv_ok_def)

lemma page_fits: "(i :: nat) < k \<Longrightarrow> off + n \<le> 4096 \<Longrightarrow> i * 4096 + off + n \<le> k * 4096"
proof -
  assume "i < k" "off + n \<le> 4096"
  then have "i * 4096 + off + n \<le> Suc i * 4096" by simp
  also have "\<dots> \<le> k * 4096" using \<open>i < k\<close> by (simp only: mult_le_mono1 Suc_leI)
  finally show ?thesis .
qed

lemma mv_load:
  assumes "mv_ok k mv" "unat i < k" "off + 4 \<le> 4096"
  shows "load_u32 (get_volref i + off) (mv_buffer mv) = Some (mv_u32 off mv (unat i))"
  using page_fits[OF assms(2,3)] assms
  by (simp add: load_u32_def mv_u32_def get_volref_eq[OF assms(1,2)]) (simp add: mv_ok_def)

lemma takeWhile_take_found:
  "x \<in> set (take n xs) \<Longrightarrow> \<not> P x \<Longrightarrow> takeWhile P (take n xs) = takeWhile P xs"
  by (metis append_take_drop_id takeWhile_append1)

lemma mv_c_string:
  assumes "mv_ok k mv" "unat i < k"
  shows "c_string (get_volref i + 20) (mv_buffer mv) = Some (mv_path mv (unat i))"
proof -
  have z: "0 \<in> set (take 4076 (drop (unat i * 4096 + 20) (mv_buffer mv)))" using assms by (simp add: mv_ok_def)
  then have "0 \<in> set (drop (unat i * 4096 + 20) (mv_buffer mv))" by (rule in_set_takeD)
  with takeWhile_take_found[OF z, of "\<lambda>c. c \<noteq> 0"] show ?thesis
    by (simp add: c_string_def mv_path_def get_volref_eq[OF assms])
qed

definition mv_page_desc :: "meta_volume \<Rightarrow> nat \<Rightarrow> volume_desc" where
  "mv_page_desc mv i = \<lparr>vd_id = mv_u32 off_id mv i, vd_path = mv_path mv i,
     vd_version = mv_u32 off_version mv i, vd_nblocks = mv_nblocks mv i,
     vd_capacity = mv_capacity mv i, vd_generation = mv_generation mv i\<rparr>"

lemma mv_desc_ok: "mv_ok k mv \<Longrightarrow> unat i < k \<Longrightarrow> mv_desc i mv = Some (mv_page_desc mv (unat i))"
  using mv_load[of k mv i off_version] mv_load[of k mv i off_id] mv_load[of k mv i off_nblocks]
    mv_load[of k mv i off_capacity] mv_load[of k mv i off_generation] mv_c_string[of k mv i]
  by (simp add: mv_desc_def mv_page_desc_def)

text \<open>Storing one field of one page.\<close>

lemma page_disjoint:
  "(i :: nat) \<noteq> j \<Longrightarrow> off + n \<le> 4096 \<Longrightarrow> off' + m \<le> 4096 \<Longrightarrow>
   i * 4096 + off + n \<le> j * 4096 + off' \<or> j * 4096 + off' + m \<le> i * 4096 + off"
  by (cases "i < j") (use page_fits[of i j off n] page_fits[of j i off' m] in auto)

lemma mv_read_other:
  assumes ok: "mv_ok k mv" and i: "i < k" and o: "off + 4 \<le> 4096" "off' + m \<le> 4096"
    and d: "i \<noteq> j \<or> off + 4 \<le> off' \<or> off' + m \<le> off"
  shows "take m (drop (j * 4096 + off') (splice_at (i * 4096 + off) (le_bytes 4 v) (mv_buffer mv)))
     = take m (drop (j * 4096 + off') (mv_buffer mv))"
proof -
  have fit: "i * 4096 + off + length (le_bytes 4 v) \<le> length (mv_buffer mv)"
    using page_fits[OF i o(1)] ok by (simp add: mv_ok_def)
  consider "j * 4096 + off' + m \<le> i * 4096 + off" | "i * 4096 + off + 4 \<le> j * 4096 + off'"
  proof (cases "i = j")
    case True
    with d that show ?thesis by auto
  next
    case False
    from page_disjoint[OF False o] that show ?thesis by blast
  qed
  then show ?thesis
    by cases (use fit in \<open>simp_all add: read_splice_at_before read_splice_at_after\<close>)
qed

lemma mv_store_ok:
  assumes ok: "mv_ok k mv" and i: "unat i < k" and off: "off \<in> {0, 4, 8, 12, 16}"
  shows "\<exists>mv'. mv_store (get_volref i + off) v mv = Some mv' \<and> mv_ok k mv' \<and>
     mv_u32 off mv' = (mv_u32 off mv)(unat i := v) \<and>
     (\<forall>off' \<in> {0, 4, 8, 12, 16}. off' \<noteq> off \<longrightarrow> mv_u32 off' mv' = mv_u32 off' mv) \<and>
     mv_path mv' = mv_path mv \<and> mv_log mv' = mv_log mv"
proof -
  let ?p = "unat i * 4096 + off"
  let ?mv = "mv\<lparr>mv_buffer := splice_at ?p (le_bytes 4 v) (mv_buffer mv)\<rparr>"
  have o4: "off + 4 \<le> 4096" "off + 4 \<le> 20" using off by auto
  have fit: "?p + length (le_bytes 4 v) \<le> length (mv_buffer mv)"
    using page_fits[OF i o4(1)] ok by (simp add: mv_ok_def)
  have len: "length (mv_buffer ?mv) = length (mv_buffer mv)" using fit by simp
  have path: "take 4076 (drop (j * 4096 + 20) (mv_buffer ?mv)) = take 4076 (drop (j * 4096 + 20) (mv_buffer mv))" for j
    using mv_read_other[OF ok i o4(1), of 20 4076 j v] o4(2) by simp
  have same: "mv_u32 off ?mv (unat i) = v" using fit by (simp add: mv_u32_def)
  have other: "mv_u32 off' ?mv j = mv_u32 off' mv j"
    if "off' \<in> {0, 4, 8, 12, 16}" "j \<noteq> unat i \<or> off' \<noteq> off" for off' j
  proof -
    have "off' + 4 \<le> 4096" "unat i \<noteq> j \<or> off + 4 \<le> off' \<or> off' + 4 \<le> off" using that off by auto
    from mv_read_other[OF ok i o4(1) this, of v] show ?thesis by (simp add: mv_u32_def)
  qed
  have "mv_store (get_volref i + off) v mv = Some ?mv"
    using fit by (simp add: mv_store_def store_bytes_def get_volref_eq[OF ok i])
  moreover have "mv_ok k ?mv" using ok path len by (simp add: mv_ok_def)
  moreover have "mv_u32 off ?mv = (mv_u32 off mv)(unat i := v)" using same other off by (auto intro!: ext)
  moreover have "mv_u32 off' ?mv = mv_u32 off' mv" if "off' \<in> {0, 4, 8, 12, 16}" "off' \<noteq> off" for off'
    using other that by (auto intro!: ext)
  moreover have "mv_path ?mv = mv_path mv" using path by (auto simp: mv_path_def)
  ultimately show ?thesis by (intro exI[of _ ?mv]) auto
qed

lemma mv_count: "mv_ok k mv \<Longrightarrow> mv_file_size mv div 4096 = k"
  by (simp add: mv_ok_def)

lemma mv_getters:
  assumes "mv_ok k mv" "unat i < k"
  shows "MetaVolume_get_nblocks i mv = Some (kOk, mv_nblocks mv (unat i))"
    and "MetaVolume_get_capacity i mv = Some (kOk, mv_capacity mv (unat i))"
    and "MetaVolume_get_generation i mv = Some (kOk, mv_generation mv (unat i))"
  using mv_load[OF assms] mv_count[OF assms(1)] assms(2)
  by (simp_all add: MetaVolume_get_nblocks_def MetaVolume_get_capacity_def MetaVolume_get_generation_def)

lemma mv_getters_range:
  assumes "mv_ok k mv" "\<not> unat i < k"
  shows "MetaVolume_get_nblocks i mv = Some (kOutOfRange, 0)"
    and "MetaVolume_get_capacity i mv = Some (kOutOfRange, 0)"
    and "MetaVolume_get_generation i mv = Some (kOutOfRange, 0)"
  using assms(2) mv_count[OF assms(1)]
  by (simp_all add: MetaVolume_get_nblocks_def MetaVolume_get_capacity_def MetaVolume_get_generation_def)

text \<open>The views do not see the log.\<close>

lemma mv_log_irrelevant:
  "mv_u32 off (mv\<lparr>mv_log := l\<rparr>) = mv_u32 off mv" "mv_ok k (mv\<lparr>mv_log := l\<rparr>) = mv_ok k mv"
  "mv_path (mv\<lparr>mv_log := l\<rparr>) = mv_path mv" "mv_page_desc (mv\<lparr>mv_log := l\<rparr>) = mv_page_desc mv"
  by (auto simp: mv_u32_def mv_ok_def mv_path_def mv_page_desc_def)

lemma mv_update_volume_ok:
  "mv_ok k mv \<Longrightarrow> unat i < k \<Longrightarrow> mv_update_volume i mv =
     Some (kOk, mv\<lparr>mv_log := mv_log mv @ [UpdateVolume (mv_page_desc mv (unat i))]\<rparr>)"
  by (simp add: mv_update_volume_def mv_desc_ok)

lemma mv_set_field:
  assumes ok: "mv_ok k mv" and i: "unat i < k" and off: "off \<in> {0, 4, 8, 12, 16}"
  shows "\<exists>mv'. do { mv \<leftarrow> mv_store (get_volref i + off) v mv; mv_update_volume i mv } = Some (kOk, mv') \<and>
     mv_ok k mv' \<and> mv_u32 off mv' = (mv_u32 off mv)(unat i := v) \<and>
     (\<forall>off' \<in> {0, 4, 8, 12, 16}. off' \<noteq> off \<longrightarrow> mv_u32 off' mv' = mv_u32 off' mv) \<and>
     mv_path mv' = mv_path mv \<and> mv_log mv' = mv_log mv @ [UpdateVolume (mv_page_desc mv' (unat i))]"
proof -
  from mv_store_ok[OF assms] obtain m1 where
    m1: "mv_store (get_volref i + off) v mv = Some m1" "mv_ok k m1"
    "mv_u32 off m1 = (mv_u32 off mv)(unat i := v)"
    "\<forall>off' \<in> {0, 4, 8, 12, 16}. off' \<noteq> off \<longrightarrow> mv_u32 off' m1 = mv_u32 off' mv"
    "mv_path m1 = mv_path mv" "mv_log m1 = mv_log mv" by blast
  with mv_update_volume_ok[OF m1(2) i] show ?thesis by (simp add: mv_log_irrelevant)
qed

lemma mv_set_nblocks:
  assumes "mv_ok k mv" "unat i < k"
  shows "\<exists>mv'. MetaVolume_set_nblocks i v mv = Some (kOk, mv') \<and> mv_ok k mv' \<and>
     mv_nblocks mv' = (mv_nblocks mv)(unat i := v) \<and> mv_generation mv' = mv_generation mv \<and>
     mv_capacity mv' = mv_capacity mv \<and> mv_path mv' = mv_path mv \<and>
     mv_log mv' = mv_log mv @ [UpdateVolume (mv_page_desc mv' (unat i))]"
  using mv_set_field[OF assms, of off_nblocks v] mv_count[OF assms(1)] assms(2)
  by (auto simp: MetaVolume_set_nblocks_def)

lemma mv_set_generation:
  assumes "mv_ok k mv" "unat i < k"
  shows "\<exists>mv'. MetaVolume_set_generation i v mv = Some (kOk, mv') \<and> mv_ok k mv' \<and>
     mv_generation mv' = (mv_generation mv)(unat i := v) \<and> mv_nblocks mv' = mv_nblocks mv \<and>
     mv_capacity mv' = mv_capacity mv \<and> mv_path mv' = mv_path mv \<and>
     mv_log mv' = mv_log mv @ [UpdateVolume (mv_page_desc mv' (unat i))]"
  using mv_set_field[OF assms, of off_generation v] mv_count[OF assms(1)] assms(2)
  by (auto simp: MetaVolume_set_generation_def)

lemma mv_set_capacity:
  assumes "mv_ok k mv" "unat i < k"
  shows "\<exists>mv'. MetaVolume_set_capacity i v mv = Some (kOk, mv') \<and> mv_ok k mv' \<and>
     mv_capacity mv' = (mv_capacity mv)(unat i := v) \<and> mv_nblocks mv' = mv_nblocks mv \<and>
     mv_generation mv' = mv_generation mv \<and> mv_path mv' = mv_path mv \<and>
     mv_log mv' = mv_log mv @ [UpdateVolume (mv_page_desc mv' (unat i))]"
  using mv_set_field[OF assms, of off_capacity v] mv_count[OF assms(1)] assms(2)
  by (auto simp: MetaVolume_set_capacity_def)

subsection \<open>Writing a page\<close>

definition page_bytes :: "volume_desc \<Rightarrow> u8 list" where
  "page_bytes d = le_bytes 4 (vd_version d) @ le_bytes 4 (vd_id d) @ le_bytes 4 (vd_nblocks d) @
     le_bytes 4 (vd_capacity d) @ le_bytes 4 (vd_generation d) @ vd_path d @ [0]"

lemma length_page_bytes [simp]: "length (page_bytes d) = length (vd_path d) + 21"
  by (simp add: page_bytes_def)

lemma splice_at_eqI:
  "length ys = length xs \<Longrightarrow> p + length vs \<le> length xs \<Longrightarrow> take p ys = take p xs \<Longrightarrow>
   take (length vs) (drop p ys) = vs \<Longrightarrow> drop (p + length vs) ys = drop (p + length vs) xs \<Longrightarrow>
   ys = splice_at p vs xs"
  unfolding splice_at_def by (metis append_take_drop_id drop_drop add.commute)

lemma drop_splice_at:
  "p + length vs \<le> length xs \<Longrightarrow> p + length vs \<le> q \<Longrightarrow> drop q (splice_at p vs xs) = drop q xs"
  by (simp add: splice_at_def)

lemma splice_at_commute:
  assumes "p + length us \<le> q" "q + length vs \<le> length xs"
  shows "splice_at p us (splice_at q vs xs) = splice_at q vs (splice_at p us xs)"
  by (rule nth_equalityI)
    (use assms in \<open>auto simp: splice_at_def nth_append nth_take nth_drop\<close>)

lemma splice_at_join:
  "q = p + length us \<Longrightarrow> q + length vs \<le> length xs \<Longrightarrow>
   splice_at p us (splice_at q vs xs) = splice_at p (us @ vs) xs"
  using splice_at_commute[of p us q vs xs] by simp

lemma volcpy_ok:
  assumes "p + length (vd_path d) + 21 \<le> length buf"
  shows "volcpy p d buf = Some (splice_at p (page_bytes d) buf)"
proof -
  let ?c = "le_bytes 4 (vd_capacity d)" and ?g = "le_bytes 4 (vd_generation d)"
    and ?i = "le_bytes 4 (vd_id d)" and ?n = "le_bytes 4 (vd_nblocks d)"
    and ?v = "le_bytes 4 (vd_version d)" and ?s = "vd_path d"
  let ?b1 = "splice_at (p + 12) ?c buf"
  let ?b2 = "splice_at (p + 16) ?g ?b1"
  let ?b3 = "splice_at (p + 4) ?i ?b2"
  let ?b4 = "splice_at (p + 8) ?n ?b3"
  let ?b5 = "splice_at (p + 0) ?v ?b4"
  let ?b6 = "splice_at (p + 20) ?s ?b5"
  have len: "length ?b1 = length buf" "length ?b2 = length buf" "length ?b3 = length buf"
    "length ?b4 = length buf" "length ?b5 = length buf" "length ?b6 = length buf"
    using assms by simp_all
  have run: "volcpy p d buf = Some (splice_at (p + 20 + length ?s) [0] ?b6)"
    using assms by (simp add: volcpy_def store_bytes_def)
  have e12: "?b2 = splice_at (p + 12) (?c @ ?g) buf"
    using splice_at_splice_at[of "p + 12" ?c buf ?g] assms by (simp add: add.commute[of p])
  have e34: "?b4 = splice_at (p + 4) (?i @ ?n) ?b2"
    using splice_at_splice_at[of "p + 4" ?i ?b2 ?n] assms len by (simp add: add.commute[of p])
  have e4: "?b4 = splice_at (p + 4) ((?i @ ?n) @ ?c @ ?g) buf"
    unfolding e34 unfolding e12 by (rule splice_at_join) (use assms in simp_all)
  have e5: "?b5 = splice_at p (?v @ (?i @ ?n) @ ?c @ ?g) buf"
    unfolding e4 add_0_right by (rule splice_at_join) (use assms in simp_all)
  have "?b6 = splice_at p ((?v @ (?i @ ?n) @ ?c @ ?g) @ ?s) buf"
    unfolding e5 using splice_at_splice_at[of p "?v @ (?i @ ?n) @ ?c @ ?g" buf ?s] assms by simp
  then have "splice_at (p + 20 + length ?s) [0] ?b6
      = splice_at p (((?v @ (?i @ ?n) @ ?c @ ?g) @ ?s) @ [0]) buf"
    using splice_at_splice_at[of p "(?v @ (?i @ ?n) @ ?c @ ?g) @ ?s" buf "[0]"] assms
    by (simp add: add.assoc)
  then show ?thesis using run by (simp add: page_bytes_def)
qed

subsection \<open>Blocks of a volume\<close>

definition vol_block :: "volume \<Rightarrow> nat \<Rightarrow> u8 list" where
  "vol_block v i = take 4096 (drop (i * 4096) (vol_mem v))"

text \<open>A volume of at most \<open>2 ^ 20\<close> blocks (4 GiB): no offset wraps around in \<open>u32\<close>.\<close>

definition vol_ok :: "volume \<Rightarrow> bool" where
  "vol_ok v \<longleftrightarrow> unat (vol_file_size v) \<le> 2 ^ 20 \<and> unat (vol_file_size v) * 4096 \<le> length (vol_mem v) \<and>
     vol_write_pos v \<le> vol_file_size v"

lemma vol_offset:
  assumes "vol_ok v" "ix < vol_file_size v"
  shows "unat (ix * 4096) = unat ix * 4096" "unat ix * 4096 + 4096 \<le> length (vol_mem v)"
proof -
  have ix: "unat ix < unat (vol_file_size v)" "unat (vol_file_size v) \<le> 2 ^ 20"
    using assms by (simp_all add: vol_ok_def word_less_nat_alt)
  then show "unat (ix * 4096) = unat ix * 4096" by (intro unat_mult_4096) simp
  show "unat ix * 4096 + 4096 \<le> length (vol_mem v)"
    using page_fits[OF ix(1), of 0 4096] assms(1) by (simp add: vol_ok_def)
qed

lemma iovec_image_sharded:
  assumes "ib_alloc k b"
  shows "iovec_image b = ib_flat b"
proof -
  have "map (\<lambda>c. if length c \<noteq> 0 then take 1024 c else replicate 1024 0) (ib_data b) = map ib_pad (ib_data b)"
  proof (rule map_cong[OF refl])
    fix c assume "c \<in> set (ib_data b)"
    then obtain i where "i < 4" "c = ib_data b ! i" using assms by (auto simp: in_set_conv_nth ib_alloc_def)
    with ib_alloc_full[OF assms, of i] ib_alloc_nil[OF assms, of i]
    show "(if length c \<noteq> 0 then take 1024 c else replicate 1024 0) = ib_pad c"
      by (cases "i < k") (auto simp: ib_pad_def)
  qed
  then show ?thesis unfolding iovec_image_def ib_flat_alloc[OF assms] by (rule arg_cong)
qed

lemma iovec_image_inv: "ib_inv b \<Longrightarrow> iovec_image b = ib_flat b \<and> length (iovec_image b) = 4096"
  using iovec_image_sharded ib_flat_length by (auto simp: ib_inv_def)

lemma vol_store_block:
  assumes v: "vol_ok v" and w: "ix < vol_file_size v" and l: "length bs = 4096"
  defines "v' \<equiv> v\<lparr>vol_mem := splice_at (unat ix * 4096) bs (vol_mem v)\<rparr>"
  shows "store_bytes (unat (ix * 4096)) bs (vol_mem v) = Some (vol_mem v')"
    and "vol_ok v'" and "vol_block v' = (vol_block v)(unat ix := bs)"
proof -
  note off = vol_offset[OF v w]
  show "store_bytes (unat (ix * 4096)) bs (vol_mem v) = Some (vol_mem v')"
    using off l by (simp add: store_bytes_def v'_def)
  show "vol_ok v'" using v off l by (simp add: vol_ok_def v'_def)
  have other: "vol_block v' j = vol_block v j" if "j \<noteq> unat ix" for j
    using page_disjoint[OF that, of 0 4096 0 4096] off l
    by (auto simp: vol_block_def v'_def read_splice_at_before read_splice_at_after)
  have "vol_block v' (unat ix) = bs" using off l by (simp add: vol_block_def v'_def)
  with other show "vol_block v' = (vol_block v)(unat ix := bs)" by auto
qed

lemma word_Suc_le: "(x :: 'a::len word) < y \<Longrightarrow> x + 1 \<le> y \<and> unat (x + 1) = Suc (unat x)"
proof -
  assume a: "x < y"
  have "unat y < 2 ^ LENGTH('a)" by (rule unsigned_less)
  with a[unfolded word_less_nat_alt] have "unat x + 1 < 2 ^ LENGTH('a)" by linarith
  then have "unat (x + 1) = Suc (unat x)" by (simp add: unat_word_ariths)
  with a show ?thesis by (simp add: word_less_nat_alt word_le_nat_alt)
qed

lemma Volume_append_ok:
  assumes v: "vol_ok v" and w: "vol_write_pos v < vol_file_size v" and b: "ib_inv b"
  shows "\<exists>v'. Volume_append_block IoOk b v = Some ((kOk, vol_write_pos v), v') \<and> vol_ok v' \<and>
     vol_write_pos v' = vol_write_pos v + 1 \<and> vol_file_size v' = vol_file_size v \<and>
     vol_path v' = vol_path v \<and>
     vol_block v' = (vol_block v)(unat (vol_write_pos v) := ib_flat b)"
proof -
  let ?m = "v\<lparr>vol_mem := splice_at (unat (vol_write_pos v) * 4096) (iovec_image b) (vol_mem v)\<rparr>"
  let ?v = "?m\<lparr>vol_write_pos := vol_write_pos v + 1\<rparr>"
  have img: "iovec_image b = ib_flat b" "length (iovec_image b) = 4096" using iovec_image_inv[OF b] by auto
  note st = vol_store_block[OF v w img(2)]
  have "Volume_append_block IoOk b v = Some ((kOk, vol_write_pos v), ?v)"
    using w st(1) by (simp add: Volume_append_block_def Let_def)
  moreover have "vol_ok ?v" using st(2) word_Suc_le[OF w] by (simp add: vol_ok_def)
  moreover have "vol_block ?v = (vol_block v)(unat (vol_write_pos v) := ib_flat b)"
    using st(3) img(1) by (simp add: vol_block_def[abs_def])
  ultimately show ?thesis by simp
qed

lemma Volume_append_full:
  "vol_file_size v \<le> vol_write_pos v \<Longrightarrow> Volume_append_block io b v = Some ((kOverflow, 0), v)"
  by (simp add: Volume_append_block_def)

text \<open>A failed append may have overwritten bytes of the block after the last one, nothing else.\<close>

lemma Volume_append_failed:
  assumes v: "vol_ok v" and w: "vol_write_pos v < vol_file_size v" and b: "ib_inv b" and io: "io \<noteq> IoOk"
  shows "\<exists>st m. Volume_append_block io b v = Some ((st, 0), v\<lparr>vol_mem := m\<rparr>) \<and>
     (st = kFileSeekError \<or> st = kFileWriteError) \<and> length m = length (vol_mem v) \<and>
     (\<forall>j. j \<noteq> unat (vol_write_pos v) \<longrightarrow> vol_block (v\<lparr>vol_mem := m\<rparr>) j = vol_block v j) \<and>
     (io = IoSeekError \<or> io = IoWriteError 0 \<longrightarrow> m = vol_mem v)"
proof (cases io)
  case IoSeekError
  then show ?thesis using w by (intro exI[of _ kFileSeekError] exI[of _ "vol_mem v"]) (simp add: Volume_append_block_def)
next
  case (IoWriteError n)
  let ?ix = "unat (vol_write_pos v)" and ?bs = "take n (iovec_image b)"
  let ?m = "splice_at (?ix * 4096) ?bs (vol_mem v)"
  note off = vol_offset[OF v w]
  have l: "length ?bs \<le> 4096" using iovec_image_inv[OF b] by auto
  have fit: "?ix * 4096 + length ?bs \<le> length (vol_mem v)" using off l by simp
  have "Volume_append_block io b v = Some ((kFileWriteError, 0), v\<lparr>vol_mem := ?m\<rparr>)"
    using w off fit IoWriteError by (simp add: Volume_append_block_def Let_def store_bytes_def)
  moreover have "vol_block (v\<lparr>vol_mem := ?m\<rparr>) j = vol_block v j" if "j \<noteq> ?ix" for j
    using page_disjoint[OF that, of 0 4096 0 "length ?bs"] l fit
    by (auto simp: vol_block_def read_splice_at_before read_splice_at_after)
  ultimately show ?thesis using fit IoWriteError by (intro exI[of _ kFileWriteError] exI[of _ ?m]) (simp add: splice_at_def)
qed (use io in simp)

lemma length_vol_block: "vol_ok v \<Longrightarrow> ix < vol_file_size v \<Longrightarrow> length (vol_block v (unat ix)) = 4096"
  using vol_offset[of v ix] by (simp add: vol_block_def)

lemma Volume_read_ok:
  assumes v: "vol_ok v" and ix: "ix < vol_write_pos v"
  shows "\<exists>b. Volume_read_block ix v = Some (kOk, b) \<and> ib_readable b \<and> ib_pos b = 4096 \<and>
     ib_flat b = vol_block v (unat ix)"
proof -
  have f: "ix < vol_file_size v" using v ix by (simp add: vol_ok_def order.strict_trans2)
  note off = vol_offset[OF v f]
  let ?b = "IOVecBlock_new_allocated\<lparr>ib_data := (ib_data IOVecBlock_new_allocated)[0 := vol_block v (unat ix)]\<rparr>"
  have "Volume_read_block ix v = Some (kOk, ?b)"
    using ix off by (simp add: Volume_read_block_def Volume_read_block_raw_def Let_def vol_block_def
        IOVecBlock_new_allocated_def)
  moreover have "single_chunk ?b" "length (ib_data ?b) = 4" "ib_pos ?b = 4096"
    using length_vol_block[OF v f] by (simp_all add: single_chunk_def IOVecBlock_new_allocated_def)
  moreover have "ib_flat ?b = vol_block v (unat ix)"
    using \<open>single_chunk ?b\<close> by (simp add: ib_flat_def IOVecBlock_new_allocated_def)
  ultimately show ?thesis by (simp add: ib_readable_def)
qed

subsection \<open>Opening and extending the meta-volume\<close>

text \<open>A page that starts with the bytes of a descriptor decodes to it.\<close>

lemma page_field:
  assumes "take (length (page_bytes d)) (drop p buf) = page_bytes d" "off + 4 \<le> 20"
  shows "take 4 (drop (p + off) buf) = take 4 (drop off (page_bytes d))"
proof -
  have "take 4 (drop off (page_bytes d)) = take 4 (drop off (take (length (page_bytes d)) (drop p buf)))"
    using assms(1) by simp
  also have "\<dots> = take 4 (drop (p + off) buf)"
    using assms(2) by (simp add: drop_take min_def add.commute)
  finally show ?thesis by simp
qed

lemma page_decode:
  assumes pg: "take (length (page_bytes d)) (drop (i * 4096) (mv_buffer mv)) = page_bytes d"
    and path: "0 \<notin> set (vd_path d)" "length (vd_path d) \<le> 4075"
  shows "mv_page_desc mv i = d" and "0 \<in> set (take 4076 (drop (i * 4096 + 20) (mv_buffer mv)))"
proof -
  note f = page_field[OF pg]
  have fields: "mv_u32 0 mv i = vd_version d" "mv_u32 4 mv i = vd_id d" "mv_u32 8 mv i = vd_nblocks d"
    "mv_u32 12 mv i = vd_capacity d" "mv_u32 16 mv i = vd_generation d"
    using f[of 0] f[of 4] f[of 8] f[of 12] f[of 16] by (simp_all add: mv_u32_def page_bytes_def)
  have "drop 20 (take (length (page_bytes d)) (drop (i * 4096) (mv_buffer mv))) = vd_path d @ [0]"
    unfolding pg by (simp add: page_bytes_def)
  then have d20: "take (length (vd_path d) + 1) (drop (i * 4096 + 20) (mv_buffer mv)) = vd_path d @ [0]"
    by (simp add: drop_take add.commute)
  have "take (length (vd_path d) + 1) (take 4076 (drop (i * 4096 + 20) (mv_buffer mv))) = vd_path d @ [0]"
    using d20 path(2) by (simp add: min_def)
  then obtain z where z: "take 4076 (drop (i * 4096 + 20) (mv_buffer mv)) = (vd_path d @ [0]) @ z"
    by (metis append_take_drop_id)
  then have "mv_path mv i = vd_path d" using path(1) by (auto simp: mv_path_def takeWhile_append)
  with fields show "mv_page_desc mv i = d" by (simp add: mv_page_desc_def)
  show "0 \<in> set (take 4076 (drop (i * 4096 + 20) (mv_buffer mv)))" unfolding z by simp
qed

lemma mv_init_ok:
  assumes "k \<le> 2 ^ 20"
  shows "length buf = k * 4096 \<Longrightarrow> \<forall>v \<in> set vols. unat (vd_id v) < k \<and> length (vd_path v) \<le> 4075 \<Longrightarrow>
   distinct (map vd_id vols) \<Longrightarrow> set (map vd_id vols) \<inter> set seen = {} \<Longrightarrow>
   \<exists>buf'. mv_init vols seen buf = Some buf' \<and> length buf' = k * 4096 \<and>
     (\<forall>v \<in> set vols. take (length (page_bytes v)) (drop (unat (vd_id v) * 4096) buf') = page_bytes v) \<and>
     (\<forall>j m. m \<le> 4096 \<and> (\<forall>v \<in> set vols. unat (vd_id v) \<noteq> j) \<longrightarrow>
        take m (drop (j * 4096) buf') = take m (drop (j * 4096) buf))"
proof (induction vols arbitrary: seen buf)
  case (Cons v vols)
  let ?p = "unat (vd_id v) * 4096"
  let ?b = "splice_at ?p (page_bytes v) buf"
  have v: "unat (vd_id v) < k" "length (vd_path v) \<le> 4075" "vd_id v \<notin> set seen"
    "vd_id v \<notin> set (map vd_id vols)" "unat (vd_id v) < 2 ^ 20"
    using Cons.prems assms by auto
  have off: "unat (vd_id v * 4096) = ?p" by (rule unat_mult_4096[OF v(5)])
  have fit: "?p + length (page_bytes v) \<le> length buf"
    using page_fits[OF v(1), of 0 "length (page_bytes v)"] v(2) Cons.prems(1) by simp
  have run: "volcpy (unat (vd_id v * 4096)) v buf = Some ?b" using fit off by (simp add: volcpy_ok)
  have page: "take m (drop (j * 4096) ?b) = take m (drop (j * 4096) buf)"
    if "j \<noteq> unat (vd_id v)" "m \<le> 4096" for j m
    using page_disjoint[OF that(1), of 0 m 0 "length (page_bytes v)"] that(2) v(2) fit
    by (auto simp: read_splice_at_before read_splice_at_after)
  from Cons.IH[of ?b "vd_id v # seen"] Cons.prems v(4) fit obtain b' where
    b': "mv_init vols (vd_id v # seen) ?b = Some b'" "length b' = k * 4096"
    "\<forall>u \<in> set vols. take (length (page_bytes u)) (drop (unat (vd_id u) * 4096) b') = page_bytes u"
    "\<forall>j m. m \<le> 4096 \<and> (\<forall>u \<in> set vols. unat (vd_id u) \<noteq> j) \<longrightarrow>
        take m (drop (j * 4096) b') = take m (drop (j * 4096) ?b)" by auto
  have "\<forall>u \<in> set vols. unat (vd_id u) \<noteq> unat (vd_id v)"
  proof
    fix u assume "u \<in> set vols"
    then have "vd_id u \<noteq> vd_id v" using v(4) by (metis image_eqI set_map)
    then show "unat (vd_id u) \<noteq> unat (vd_id v)" by (simp add: word_unat_eq_iff)
  qed
  then have "take (length (page_bytes v)) (drop ?p b') = take (length (page_bytes v)) (drop ?p ?b)"
    using b'(4) v(2) by simp
  then have "take (length (page_bytes v)) (drop ?p b') = page_bytes v" using fit by simp
  with b' run v(3) page show ?case by auto
qed auto

lemma ids_cover:
  assumes "distinct (map vd_id vols)" "\<forall>v \<in> set vols. unat (vd_id v) < length vols" "i < length vols"
  shows "\<exists>v \<in> set vols. unat (vd_id v) = i"
proof -
  let ?I = "(\<lambda>v. unat (vd_id v)) ` set vols"
  have "inj_on unat (set (map vd_id vols))" by (simp add: inj_on_def word_unat_eq_iff)
  then have "card (unat ` set (map vd_id vols)) = length vols"
    using assms(1) by (simp add: card_image distinct_card[OF assms(1)] del: set_map)
  then have "card ?I = length vols" by (simp add: image_image)
  moreover have "?I \<subseteq> {..<length vols}" using assms(2) by auto
  ultimately have "?I = {..<length vols}" by (intro card_subset_eq) auto
  with assms(3) have "i \<in> ?I" by simp
  then show ?thesis by auto
qed

lemma metavolume_new_pages:
  assumes "distinct (map vd_id vols)" and "\<forall>v \<in> set vols. unat (vd_id v) < length vols"
    and "\<forall>v \<in> set vols. length (vd_path v) \<le> 4075 \<and> 0 \<notin> set (vd_path v)"
    and "length vols \<le> 2 ^ 20"
  shows "\<exists>mv. MetaVolume_new vols = Some mv \<and> mv_ok (length vols) mv \<and>
     (\<forall>v \<in> set vols. mv_page_desc mv (unat (vd_id v)) = v)"
proof -
  let ?k = "length vols"
  from mv_init_ok[OF assms(4), of "replicate (?k * 4096) 0" vols "[]"] assms obtain buf where
    buf: "mv_init vols [] (replicate (?k * 4096) 0) = Some buf" "length buf = ?k * 4096"
    "\<forall>v \<in> set vols. take (length (page_bytes v)) (drop (unat (vd_id v) * 4096) buf) = page_bytes v" by auto
  let ?mv = "\<lparr>mv_file_size = ?k * 4096, mv_buffer = buf, mv_log = []\<rparr>"
  have pg: "mv_page_desc ?mv (unat (vd_id v)) = v"
    "0 \<in> set (take 4076 (drop (unat (vd_id v) * 4096 + 20) buf))" if "v \<in> set vols" for v
    using page_decode[of v "unat (vd_id v)" ?mv] that buf(3) assms(3) by auto
  have ok: "mv_ok ?k ?mv" unfolding mv_ok_def
    using buf(2) assms(4) pg(2) ids_cover[OF assms(1,2)] by fastforce
  with buf(1) pg(1) show ?thesis by (auto simp: MetaVolume_new_def Let_def)
qed

text \<open>C21. Opening the meta-volume from a list of descriptors whose identifiers are the
  numbers below its length, with paths that fit a page, succeeds, and every page then decodes
  to its descriptor: what the getters return is what the registry holds.\<close>

theorem metavolume_open:
  assumes "distinct (map vd_id vols)" and "\<forall>v \<in> set vols. unat (vd_id v) < length vols"
    and "\<forall>v \<in> set vols. length (vd_path v) \<le> 4075 \<and> 0 \<notin> set (vd_path v)"
    and "length vols \<le> 2 ^ 20"
  shows "\<exists>mv. MetaVolume_new vols = Some mv \<and> MetaVolume_get_nvolumes mv = length vols \<and>
     mv_ok (length vols) mv \<and>
     (\<forall>v \<in> set vols. mv_desc (vd_id v) mv = Some v \<and>
        MetaVolume_get_nblocks (vd_id v) mv = Some (kOk, vd_nblocks v) \<and>
        MetaVolume_get_capacity (vd_id v) mv = Some (kOk, vd_capacity v) \<and>
        MetaVolume_get_generation (vd_id v) mv = Some (kOk, vd_generation v))"
proof -
  from metavolume_new_pages[OF assms] obtain mv where
    mv: "MetaVolume_new vols = Some mv" "mv_ok (length vols) mv"
    "\<forall>v \<in> set vols. mv_page_desc mv (unat (vd_id v)) = v" by blast
  have "mv_desc (vd_id v) mv = Some v \<and>
        MetaVolume_get_nblocks (vd_id v) mv = Some (kOk, vd_nblocks v) \<and>
        MetaVolume_get_capacity (vd_id v) mv = Some (kOk, vd_capacity v) \<and>
        MetaVolume_get_generation (vd_id v) mv = Some (kOk, vd_generation v)" if "v \<in> set vols" for v
  proof -
    have i: "unat (vd_id v) < length vols" and pg: "mv_page_desc mv (unat (vd_id v)) = v"
      using assms(2) mv(3) that by auto
    note eq = arg_cong[OF pg]
    have "mv_nblocks mv (unat (vd_id v)) = vd_nblocks v" "mv_capacity mv (unat (vd_id v)) = vd_capacity v"
      "mv_generation mv (unat (vd_id v)) = vd_generation v"
      using eq[of vd_nblocks] eq[of vd_capacity] eq[of vd_generation] by (simp_all add: mv_page_desc_def)
    with mv_getters[OF mv(2) i] mv_desc_ok[OF mv(2) i] pg show ?thesis by simp
  qed
  with mv mv_count[OF mv(2)] show ?thesis by (auto simp: MetaVolume_get_nvolumes_def)
qed

theorem metavolume_open_witness:
  "\<exists>mv. MetaVolume_new [\<lparr>vd_id = 0, vd_path = [97], vd_version = 101, vd_nblocks = 3, vd_capacity = 8,
       vd_generation = 0\<rparr>] = Some mv \<and>
     MetaVolume_get_nblocks 0 mv = Some (kOk, 3) \<and> MetaVolume_get_capacity 0 mv = Some (kOk, 8)"
  using metavolume_open[of "[\<lparr>vd_id = 0, vd_path = [97], vd_version = 101, vd_nblocks = 3,
    vd_capacity = 8, vd_generation = 0\<rparr>]"]
  by auto

lemma mv_set_nblocks_bytes:
  assumes "mv_ok k mv" "unat i < k"
  shows "\<exists>mv'. MetaVolume_set_nblocks i v mv = Some (kOk, mv') \<and>
     mv_buffer mv' = splice_at (unat i * 4096 + off_nblocks) (le_bytes 4 v) (mv_buffer mv)"
proof -
  have "off_nblocks \<in> {0, 4, 8, 12, 16}" by simp
  from mv_store_ok[OF assms this, of v] obtain m1 where
    m1: "mv_store (get_volref i + off_nblocks) v mv = Some m1" "mv_ok k m1" by blast
  have "mv_buffer m1 = splice_at (unat i * 4096 + off_nblocks) (le_bytes 4 v) (mv_buffer mv)"
    using m1(1) get_volref_eq[OF assms] by (auto simp: mv_store_def store_bytes_def split: if_splits)
  with m1(1) mv_update_volume_ok[OF m1(2) assms(2)] mv_count[OF assms(1)] assms(2) show ?thesis
    by (simp add: MetaVolume_set_nblocks_def)
qed

text \<open>C22. \<open>set_nblocks\<close> of a page in range writes the four bytes of the field and no other byte
  of the meta-volume: the descriptor of the page changes in its number of blocks only, keeping
  its version, identifier, path, capacity and generation, every other page keeps its whole
  descriptor, and the registry is sent the descriptor of the page as it is after the change.
  Out of range it changes nothing and reports \<open>kOutOfRange\<close>.\<close>

theorem metavolume_set_nblocks:
  assumes "mv_ok k mv"
  shows "\<exists>st mv'. MetaVolume_set_nblocks i v mv = Some (st, mv') \<and> mv_ok k mv' \<and>
     (if unat i < k
      then st = kOk \<and> MetaVolume_get_nblocks i mv' = Some (kOk, v) \<and>
        (\<forall>j. j \<noteq> i \<longrightarrow> MetaVolume_get_nblocks j mv' = MetaVolume_get_nblocks j mv) \<and>
        (\<forall>j. MetaVolume_get_generation j mv' = MetaVolume_get_generation j mv) \<and>
        (\<forall>j. MetaVolume_get_capacity j mv' = MetaVolume_get_capacity j mv) \<and>
        (\<exists>d. mv_desc i mv = Some d \<and> mv_desc i mv' = Some (d\<lparr>vd_nblocks := v\<rparr>) \<and>
           mv_log mv' = mv_log mv @ [UpdateVolume (d\<lparr>vd_nblocks := v\<rparr>)]) \<and>
        (\<forall>j. unat j < k \<and> j \<noteq> i \<longrightarrow> mv_desc j mv' = mv_desc j mv) \<and>
        mv_buffer mv' = take (unat i * 4096 + off_nblocks) (mv_buffer mv) @ le_bytes 4 v @
          drop (unat i * 4096 + off_nblocks + 4) (mv_buffer mv)
      else st = kOutOfRange \<and> mv' = mv)"
proof (cases "unat i < k")
  case True
  from mv_set_field[OF assms True, of off_nblocks v] mv_count[OF assms] True obtain mv' where
    m: "MetaVolume_set_nblocks i v mv = Some (kOk, mv')" "mv_ok k mv'"
    "mv_nblocks mv' = (mv_nblocks mv)(unat i := v)" "mv_generation mv' = mv_generation mv"
    "mv_capacity mv' = mv_capacity mv" "mv_u32 off_id mv' = mv_u32 off_id mv"
    "mv_u32 off_version mv' = mv_u32 off_version mv" "mv_path mv' = mv_path mv"
    "mv_log mv' = mv_log mv @ [UpdateVolume (mv_page_desc mv' (unat i))]"
    by (auto simp: MetaVolume_set_nblocks_def)
  have nb: "MetaVolume_get_nblocks j mv' = MetaVolume_get_nblocks j mv" if "j \<noteq> i" for j
    using that mv_getters(1)[OF m(2), of j] mv_getters(1)[OF assms, of j] mv_getters_range(1)[OF m(2), of j]
      mv_getters_range(1)[OF assms, of j] m(3) by (cases "unat j < k") (auto simp: word_unat_eq_iff)
  have gc: "MetaVolume_get_generation j mv' = MetaVolume_get_generation j mv"
    "MetaVolume_get_capacity j mv' = MetaVolume_get_capacity j mv" for j
    using mv_getters[OF m(2), of j] mv_getters[OF assms, of j] mv_getters_range[OF m(2), of j]
      mv_getters_range[OF assms, of j] m(4,5) by (cases "unat j < k"; simp)+
  have own: "mv_page_desc mv' (unat i) = (mv_page_desc mv (unat i))\<lparr>vd_nblocks := v\<rparr>"
    using m(3-8) by (simp add: mv_page_desc_def)
  have other: "mv_desc j mv' = mv_desc j mv" if "unat j < k \<and> j \<noteq> i" for j
    using that m(3-8) mv_desc_ok[OF m(2), of j] mv_desc_ok[OF assms, of j]
    by (simp add: mv_page_desc_def word_unat_eq_iff)
  have bytes: "mv_buffer mv' = take (unat i * 4096 + off_nblocks) (mv_buffer mv) @ le_bytes 4 v @
      drop (unat i * 4096 + off_nblocks + 4) (mv_buffer mv)"
    using mv_set_nblocks_bytes[OF assms True, of v] m(1) by (simp add: splice_at_def)
  have "MetaVolume_get_nblocks i mv' = Some (kOk, v)" using mv_getters(1)[OF m(2) True] m(3) by simp
  with True m(1,2,9) nb gc own other bytes mv_desc_ok[OF m(2) True] mv_desc_ok[OF assms True] show ?thesis
    by (intro exI[of _ kOk] exI[of _ mv']) simp
next
  case False
  then show ?thesis using assms mv_count[OF assms] by (simp add: MetaVolume_set_nblocks_def)
qed

theorem metavolume_set_nblocks_witness:
  "\<exists>mv st mv'. mv_ok 2 mv \<and> MetaVolume_set_nblocks 0 9 mv = Some (st, mv') \<and> st = kOk \<and>
     MetaVolume_get_nblocks 0 mv' = Some (kOk, 9) \<and> mv_desc 1 mv' = mv_desc 1 mv"
proof -
  have "mv_ok 2 \<lparr>mv_file_size = 8192, mv_buffer = replicate 8192 0, mv_log = []\<rparr>" by (simp add: mv_ok_def)
  with metavolume_set_nblocks[OF this, of 0 9] show ?thesis by auto
qed

lemma add_volume_ok:
  assumes ok: "mv_ok k mv" and k: "k < 2 ^ 20" and path: "length path \<le> 4075" "0 \<notin> set path"
  shows "\<exists>mv'. MetaVolume_add_volume i cap path mv = Some (kOk, mv') \<and> mv_ok (Suc k) mv' \<and>
     mv_page_desc mv' k = \<lparr>vd_id = i, vd_path = path, vd_version = ucast FASTSTDB_VERSION, vd_nblocks = 0,
       vd_capacity = cap, vd_generation = i\<rparr> \<and>
     (\<forall>j < k. mv_page_desc mv' j = mv_page_desc mv j) \<and>
     mv_log mv' = mv_log mv @ [AddVolume (mv_page_desc mv' k)]"
proof -
  let ?d = "\<lparr>vd_id = i, vd_path = path, vd_version = ucast FASTSTDB_VERSION, vd_nblocks = 0,
       vd_capacity = cap, vd_generation = i\<rparr> :: volume_desc"
  let ?e = "mv_buffer mv @ replicate 4096 0"
  let ?b = "splice_at (k * 4096) (page_bytes ?d) ?e"
  let ?mv = "mv\<lparr>mv_file_size := mv_file_size mv + 4096, mv_buffer := ?b, mv_log := mv_log mv @ [AddVolume ?d]\<rparr>"
  have len: "length (mv_buffer mv) = k * 4096" "mv_file_size mv = k * 4096" using ok by (auto simp: mv_ok_def)
  have fit: "k * 4096 + length (page_bytes ?d) \<le> length ?e" using len path(1) by simp
  have run: "MetaVolume_add_volume i cap path mv = Some (kOk, ?mv)"
    using volcpy_ok[of "k * 4096" ?d ?e] fit len path(1) by (simp add: MetaVolume_add_volume_def Let_def)
  have "take (length (page_bytes ?d)) (drop (k * 4096) ?b) = page_bytes ?d" using fit by simp
  from page_decode[of ?d k ?mv] this path have
    pk: "mv_page_desc ?mv k = ?d" "0 \<in> set (take 4076 (drop (k * 4096 + 20) ?b))" by auto
  have old: "take m (drop (j * 4096 + off) ?b) = take m (drop (j * 4096 + off) (mv_buffer mv))"
    if "j < k" "off + m \<le> 4096" for j off m
  proof -
    have f: "j * 4096 + off + m \<le> k * 4096" by (rule page_fits[OF that])
    then have "take m (drop (j * 4096 + off) ?b) = take m (drop (j * 4096 + off) ?e)"
      using fit by (intro read_splice_at_before) simp_all
    also have "\<dots> = take m (drop (j * 4096 + off) (mv_buffer mv))" using f len by simp
    finally show ?thesis .
  qed
  have pj: "mv_page_desc ?mv j = mv_page_desc mv j" if "j < k" for j
    using old[OF that, of 0 4] old[OF that, of 4 4] old[OF that, of 8 4] old[OF that, of 12 4]
      old[OF that, of 16 4] old[OF that, of 20 4076]
    by (simp add: mv_page_desc_def mv_u32_def mv_path_def)
  have "0 \<in> set (take 4076 (drop (j * 4096 + 20) ?b))" if "j < Suc k" for j
    using that pk(2) old[of j 20 4076] ok by (cases "j = k") (auto simp: mv_ok_def)
  then have "mv_ok (Suc k) ?mv" using len k fit by (simp add: mv_ok_def)
  with run pk(1) pj show ?thesis by auto
qed



text \<open>C20. A volume of at most \<open>2 ^ 20\<close> blocks returns what was appended: appending a
  well-formed block to a volume with free space writes its 4096 bytes as the next block,
  leaves the other blocks alone, and \<open>read_block\<close> at the returned address gives them back;
  a full volume reports \<open>kOverflow\<close> and does not change.\<close>

theorem volume_append_read:
  assumes "vol_ok v" and "ib_inv b"
  shows "if vol_write_pos v < vol_file_size v
     then \<exists>v' rb. Volume_append_block IoOk b v = Some ((kOk, vol_write_pos v), v') \<and> vol_ok v' \<and>
       Volume_read_block (vol_write_pos v) v' = Some (kOk, rb) \<and> ib_readable rb \<and>
       ib_flat rb = ib_flat b \<and>
       (\<forall>ix < vol_write_pos v. Volume_read_block ix v' = Volume_read_block ix v)
     else Volume_append_block IoOk b v = Some ((kOverflow, 0), v)"
proof (cases "vol_write_pos v < vol_file_size v")
  case True
  from Volume_append_ok[OF assms(1) True assms(2)] obtain v' where
    v': "Volume_append_block IoOk b v = Some ((kOk, vol_write_pos v), v')" "vol_ok v'"
    "vol_write_pos v' = vol_write_pos v + 1" "vol_file_size v' = vol_file_size v"
    "vol_block v' = (vol_block v)(unat (vol_write_pos v) := ib_flat b)" by blast
  note suc = word_Suc_le[OF True]
  have lt: "vol_write_pos v < vol_write_pos v'" using suc v'(3) by (simp add: word_less_nat_alt)
  from Volume_read_ok[OF v'(2) lt] v'(5) obtain rb where
    rb: "Volume_read_block (vol_write_pos v) v' = Some (kOk, rb)" "ib_readable rb" "ib_flat rb = ib_flat b"
    by auto
  have "Volume_read_block ix v' = Volume_read_block ix v" if ix: "ix < vol_write_pos v" for ix
  proof -
    have f: "ix < vol_file_size v" using ix True by simp
    have "vol_block v' (unat ix) = vol_block v (unat ix)" using v'(5) ix by (simp add: word_less_nat_alt)
    moreover have "unat (ix * 4096) = unat ix * 4096" "unat ix * 4096 + 4096 \<le> length (vol_mem v)"
      "unat ix * 4096 + 4096 \<le> length (vol_mem v')"
      using vol_offset[OF assms(1) f] vol_offset[OF v'(2), of ix] f v'(4) by auto
    moreover have "\<not> vol_write_pos v \<le> ix" "\<not> vol_write_pos v' \<le> ix" using ix lt by auto
    ultimately show ?thesis
      by (simp add: Volume_read_block_def Volume_read_block_raw_def Let_def vol_block_def)
  qed
  with True v'(1,2) rb show ?thesis by auto
next
  case False
  then show ?thesis by (simp add: Volume_append_full)
qed

theorem volume_append_read_witness:
  "let v = \<lparr>vol_file_size = 1, vol_write_pos = 0, vol_path = [], vol_mem = replicate 4096 0\<rparr>
   in vol_ok v \<and> ib_inv IOVecBlock_new \<and>
      (\<exists>v' rb. Volume_append_block IoOk IOVecBlock_new v = Some ((kOk, 0), v') \<and>
        Volume_read_block 0 v' = Some (kOk, rb) \<and> ib_flat rb = ib_flat IOVecBlock_new)"
proof -
  have "vol_ok \<lparr>vol_file_size = 1, vol_write_pos = 0, vol_path = [], vol_mem = replicate 4096 0\<rparr>"
    by (simp add: vol_ok_def)
  with volume_append_read[OF this ib_inv_new] show ?thesis by (auto simp: Let_def)
qed

text \<open>C29. Block offsets are computed in 32 bits: in a volume of more than \<open>2 ^ 20\<close> blocks,
  reading block \<open>ix + 2 ^ 20\<close> returns block \<open>ix\<close>.\<close>

theorem volume_offset_wraps:
  assumes "unat ix + 2 ^ 20 < 2 ^ 32" and "ix + 0x100000 < vol_write_pos v"
  shows "Volume_read_block_raw (ix + 0x100000) v = Volume_read_block_raw ix v"
proof -
  have "unat (ix + 0x100000) = unat ix + 2 ^ 20" using assms(1) by (simp add: unat_word_ariths)
  then have "ix < vol_write_pos v" using assms(2) by (simp add: word_less_nat_alt)
  moreover have "(0x100000 :: u32) * 4096 = 0" by code_simp
  then have "(ix + 0x100000) * 4096 = ix * 4096" by (simp only: distrib_right add_0_right)
  ultimately show ?thesis using assms(2) by (simp only: Volume_read_block_raw_def not_le[symmetric] if_False)
qed

theorem volume_offset_wraps_witness:
  "let v = \<lparr>vol_file_size = 0x100002, vol_write_pos = 0x100002, vol_path = [], vol_mem = replicate 8192 0\<rparr>
   in Volume_read_block_raw (1 + 0x100000) v = Volume_read_block_raw 1 v"
  unfolding Let_def by (rule volume_offset_wraps) simp_all

end
