(* ===== verification/FileStorage.thy ===== *)
theory FileStorage
  imports Volume
begin

text \<open>
  \<open>FileStorage\<close>, \<open>FixedSizeFileStorage\<close> and \<open>ExpandableFileStorage\<close> of
  \<^verbatim>\<open>storage/block_store.h\<close> and \<^verbatim>\<open>storage/block_store.cc\<close>: a collection of volumes behind one
  address space.  A logic address is a generation and a block number; the fixed-size storage
  reuses its volumes round robin and gives a reused volume a new generation.  The virtual
  method \<open>adjust_current_volume\<close> is an argument of the operations that call it; the content of
  the files is an argument of the operations that open them.
\<close>

subsection \<open>Logic addresses\<close>

definition extract_gen :: "logic_addr \<Rightarrow> u32" where
  "extract_gen addr = ucast (drop_bit 32 addr)"

definition extract_vol :: "logic_addr \<Rightarrow> block_addr" where
  "extract_vol addr = ucast (addr AND 0xFFFFFFFF)"

definition make_logic :: "u32 \<Rightarrow> block_addr \<Rightarrow> logic_addr" where
  "make_logic gen addr = push_bit 32 (ucast gen) OR ucast addr"

subsection \<open>FileStorage\<close>

record file_storage =
  fs_meta :: meta_volume
  fs_volumes :: "volume list"
  fs_dirty :: "nat list"
  fs_current_volume :: u32
  fs_current_gen :: u32
  fs_total_size :: nat
  fs_volume_names :: "u8 list list"

text \<open>The loop that opens the volumes; a file that cannot be mapped ends the process.\<close>

fun fs_open_volumes ::
  "(u8 list \<Rightarrow> u8 list option) \<Rightarrow> meta_volume \<Rightarrow> volume_desc list \<Rightarrow> u32 \<Rightarrow> volume list option" where
  "fs_open_volumes files meta [] ix = Some []"
| "fs_open_volumes files meta (rec # recs) ix =
     do {
       (st, nblocks) \<leftarrow> MetaVolume_get_nblocks ix meta;
       if \<not> IsOk st then None
       else do {
         uptr \<leftarrow> Volume_open_existing (vd_path rec) (files (vd_path rec)) (unat nblocks);
         vols \<leftarrow> fs_open_volumes files meta recs (ix + 1);
         Some (uptr # vols) } }"

text \<open>The loop that selects the first volume with free space.\<close>

fun fs_find_current :: "meta_volume \<Rightarrow> volume list \<Rightarrow> u32 \<Rightarrow> (u32 \<times> u32) option option" where
  "fs_find_current meta [] i = Some None"
| "fs_find_current meta (v # vs) i =
     do {
       (st, curr_gen) \<leftarrow> MetaVolume_get_generation i meta;
       if \<not> IsOk st then None
       else do {
         (st, nblocks) \<leftarrow> MetaVolume_get_nblocks i meta;
         if nblocks < Volume_get_size v then Some (Some (i, curr_gen))
         else fs_find_current meta vs (i + 1) } }"

definition FileStorage_new ::
  "(u8 list \<Rightarrow> u8 list option) \<Rightarrow> volume_desc list \<Rightarrow> file_storage option" where
  "FileStorage_new files registry =
     do {
       meta \<leftarrow> MetaVolume_new registry;
       let volumes = sort_key vd_id registry;
       vols \<leftarrow> fs_open_volumes files meta volumes 0;
       cur \<leftarrow> fs_find_current meta vols 0;
       Some \<lparr>fs_meta = meta, fs_volumes = vols, fs_dirty = replicate (length vols) 0,
             fs_current_volume = (case cur of Some (i, g) \<Rightarrow> i | None \<Rightarrow> 0),
             fs_current_gen = (case cur of Some (i, g) \<Rightarrow> g | None \<Rightarrow> 0),
             fs_total_size = sum_list (map (\<lambda>v. unat (Volume_get_size v)) vols),
             fs_volume_names = map vd_path volumes\<rparr> }"

definition handle_volume_transition ::
  "(file_storage \<Rightarrow> file_storage option) \<Rightarrow> file_storage \<Rightarrow> file_storage option" where
  "handle_volume_transition adjust_current_volume fs =
     do {
       fs \<leftarrow> adjust_current_volume fs;
       (st, gen) \<leftarrow> MetaVolume_get_generation (fs_current_volume fs) (fs_meta fs);
       let fs = fs\<lparr>fs_current_gen := gen\<rparr>;
       if \<not> IsOk st then None
       else do {
         (st, nblocks) \<leftarrow> MetaVolume_get_nblocks (fs_current_volume fs) (fs_meta fs);
         if \<not> IsOk st then None
         else if nblocks \<noteq> 0 then
           do {
             let cur = fs_current_volume fs;
             let fs = fs\<lparr>fs_current_gen := fs_current_gen fs + of_nat (length (fs_volumes fs))\<rparr>;
             (st, meta) \<leftarrow> MetaVolume_set_generation cur (fs_current_gen fs) (fs_meta fs);
             if \<not> IsOk st then None
             else do {
               (st, meta) \<leftarrow> MetaVolume_set_nblocks cur 0 meta;
               if \<not> IsOk st then None
               else do {
                 v \<leftarrow> at (fs_volumes fs) (unat cur);
                 d \<leftarrow> at (fs_dirty fs) (unat cur);
                 Some (fs\<lparr>fs_meta := meta, fs_volumes := (fs_volumes fs)[unat cur := Volume_reset v],
                          fs_dirty := (fs_dirty fs)[unat cur := d + 1]\<rparr>) } } }
         else Some fs } }"

text \<open>The end of \<open>append_block\<close>, after a volume has taken the block.\<close>

definition fs_commit_block ::
  "block_addr \<Rightarrow> iovec_block \<Rightarrow> file_storage \<Rightarrow> ((status \<times> logic_addr) \<times> iovec_block \<times> file_storage) option" where
  "fs_commit_block block_addr data fs =
     do {
       let data = IOVecBlock_set_addr (ucast block_addr) data;
       (st, meta) \<leftarrow> MetaVolume_set_nblocks (fs_current_volume fs) (block_addr + 1) (fs_meta fs);
       if \<not> IsOk st then None
       else do {
         d \<leftarrow> at (fs_dirty fs) (unat (fs_current_volume fs));
         let fs = fs\<lparr>fs_meta := meta,
                     fs_dirty := (fs_dirty fs)[unat (fs_current_volume fs) := d + 1]\<rparr>;
         Some ((st, make_logic (fs_current_gen fs) block_addr), data, fs) } }"

definition fs_append_current ::
  "io_result \<Rightarrow> iovec_block \<Rightarrow> file_storage \<Rightarrow> ((status \<times> block_addr) \<times> file_storage) option" where
  "fs_append_current io data fs =
     do {
       v \<leftarrow> at (fs_volumes fs) (unat (fs_current_volume fs));
       (r, v) \<leftarrow> Volume_append_block io data v;
       Some (r, fs\<lparr>fs_volumes := (fs_volumes fs)[unat (fs_current_volume fs) := v]\<rparr>) }"

definition FileStorage_append_block ::
  "(file_storage \<Rightarrow> file_storage option) \<Rightarrow> io_result \<Rightarrow> iovec_block \<Rightarrow> file_storage \<Rightarrow>
   ((status \<times> logic_addr) \<times> iovec_block \<times> file_storage) option" where
  "FileStorage_append_block adjust_current_volume io data fs =
     do {
       ((st, block_addr), fs) \<leftarrow> fs_append_current io data fs;
       if st = kOverflow then
         do {
           fs \<leftarrow> handle_volume_transition adjust_current_volume fs;
           ((st, block_addr), fs) \<leftarrow> fs_append_current io data fs;
           if \<not> IsOk st then Some ((st, 0), data, fs) else fs_commit_block block_addr data fs }
       else fs_commit_block block_addr data fs }"

record block_store_stats =
  bss_block_size :: nat
  bss_capacity :: nat
  bss_nblocks :: nat

definition fs_volume_stat :: "meta_volume \<Rightarrow> u32 \<Rightarrow> (nat \<times> nat) option" where
  "fs_volume_stat meta ix =
     do {
       (st1, cap) \<leftarrow> MetaVolume_get_capacity ix meta;
       (st2, nb) \<leftarrow> MetaVolume_get_nblocks ix meta;
       Some (if IsOk st1 then unat cap else 0, if IsOk st2 then unat nb else 0) }"

fun fs_sum_stats :: "meta_volume \<Rightarrow> u32 list \<Rightarrow> block_store_stats \<Rightarrow> block_store_stats option" where
  "fs_sum_stats meta [] stats = Some stats"
| "fs_sum_stats meta (ix # ixs) stats =
     do {
       (cap, nb) \<leftarrow> fs_volume_stat meta ix;
       fs_sum_stats meta ixs (stats\<lparr>bss_capacity := bss_capacity stats + cap,
                                    bss_nblocks := bss_nblocks stats + nb\<rparr>) }"

definition FileStorage_get_stats :: "file_storage \<Rightarrow> block_store_stats option" where
  "FileStorage_get_stats fs =
     fs_sum_stats (fs_meta fs) (map of_nat [0..<MetaVolume_get_nvolumes (fs_meta fs)])
       \<lparr>bss_block_size = 4096, bss_capacity = 0, bss_nblocks = 0\<rparr>"

fun fs_per_volume ::
  "meta_volume \<Rightarrow> u8 list list \<Rightarrow> nat list \<Rightarrow> (u8 list \<rightharpoonup> block_store_stats) \<Rightarrow>
   (u8 list \<rightharpoonup> block_store_stats) option" where
  "fs_per_volume meta names [] result = Some result"
| "fs_per_volume meta names (ix # ixs) result =
     do {
       (cap, nb) \<leftarrow> fs_volume_stat meta (of_nat ix);
       name \<leftarrow> at names ix;
       fs_per_volume meta names ixs
         (result(name \<mapsto> \<lparr>bss_block_size = 4096, bss_capacity = cap, bss_nblocks = nb\<rparr>)) }"

definition FileStorage_get_volume_stats ::
  "file_storage \<Rightarrow> (u8 list \<rightharpoonup> block_store_stats) option" where
  "FileStorage_get_volume_stats fs =
     fs_per_volume (fs_meta fs) (fs_volume_names fs) [0..<MetaVolume_get_nvolumes (fs_meta fs)] Map.empty"

definition FileStorage_get_top_address :: "file_storage \<Rightarrow> logic_addr option" where
  "FileStorage_get_top_address fs =
     do { v \<leftarrow> at (fs_volumes fs) (unat (fs_current_volume fs));
          Some (make_logic (fs_current_gen fs) (Volume_get_size v)) }"

subsection \<open>FixedSizeFileStorage\<close>

definition fixed_volix :: "u32 \<Rightarrow> file_storage \<Rightarrow> u32 option" where
  "fixed_volix gen fs =
     (let n = of_nat (length (fs_volumes fs)) :: u32 in if n = 0 then None else Some (gen mod n))"

definition FixedSizeFileStorage_exists :: "logic_addr \<Rightarrow> file_storage \<Rightarrow> bool option" where
  "FixedSizeFileStorage_exists addr fs =
     do {
       let gen = extract_gen addr;
       let vol = extract_vol addr;
       volix \<leftarrow> fixed_volix gen fs;
       (st, actual_gen) \<leftarrow> MetaVolume_get_generation volix (fs_meta fs);
       if \<not> IsOk st then Some False
       else do {
         (st, nblocks) \<leftarrow> MetaVolume_get_nblocks volix (fs_meta fs);
         if \<not> IsOk st then Some False
         else Some (actual_gen = gen \<and> vol < nblocks) } }"

definition FixedSizeFileStorage_read_iovec_block ::
  "logic_addr \<Rightarrow> file_storage \<Rightarrow> (status \<times> iovec_block option) option" where
  "FixedSizeFileStorage_read_iovec_block addr fs =
     do {
       let gen = extract_gen addr;
       let vol = extract_vol addr;
       volix \<leftarrow> fixed_volix gen fs;
       (st, actual_gen) \<leftarrow> MetaVolume_get_generation volix (fs_meta fs);
       if \<not> IsOk st then Some (kBadArg, None)
       else do {
         (st, nblocks) \<leftarrow> MetaVolume_get_nblocks volix (fs_meta fs);
         if \<not> IsOk st then Some (kBadArg, None)
         else if actual_gen \<noteq> gen \<or> nblocks \<le> vol then Some (kUnavailable, None)
         else do {
           v \<leftarrow> at (fs_volumes fs) (unat volix);
           (st, block) \<leftarrow> Volume_read_block vol v;
           Some (st, if IsOk st then Some block else None) } } }"

definition FixedSizeFileStorage_adjust_current_volume :: "file_storage \<Rightarrow> file_storage option" where
  "FixedSizeFileStorage_adjust_current_volume fs =
     (if length (fs_volumes fs) = 0 then None
      else Some (fs\<lparr>fs_current_volume :=
             of_nat (unat (fs_current_volume fs + 1) mod length (fs_volumes fs))\<rparr>))"

subsection \<open>ExpandableFileStorage\<close>

definition ExpandableFileStorage_exists :: "logic_addr \<Rightarrow> file_storage \<Rightarrow> bool option" where
  "ExpandableFileStorage_exists addr fs =
     do {
       let gen = extract_gen addr;
       let vol = extract_vol addr;
       (st, actual_gen) \<leftarrow> MetaVolume_get_generation gen (fs_meta fs);
       if \<not> IsOk st then Some False
       else do {
         (st, nblocks) \<leftarrow> MetaVolume_get_nblocks gen (fs_meta fs);
         if \<not> IsOk st then Some False
         else Some (actual_gen = gen \<and> vol < nblocks) } }"

definition ExpandableFileStorage_read_iovec_block ::
  "logic_addr \<Rightarrow> file_storage \<Rightarrow> (status \<times> iovec_block option) option" where
  "ExpandableFileStorage_read_iovec_block addr fs =
     do {
       let gen = extract_gen addr;
       let vol = extract_vol addr;
       (st, actual_gen) \<leftarrow> MetaVolume_get_generation gen (fs_meta fs);
       if \<not> IsOk st then Some (kBadArg, None)
       else do {
         (st, nblocks) \<leftarrow> MetaVolume_get_nblocks gen (fs_meta fs);
         if \<not> IsOk st then Some (kBadArg, None)
         else if actual_gen \<noteq> gen \<or> nblocks \<le> vol then Some (kUnavailable, None)
         else do {
           v \<leftarrow> at (fs_volumes fs) (unat gen);
           (st, block) \<leftarrow> Volume_read_block vol v;
           Some (st, if IsOk st then Some block else None) } } }"

text \<open>\<open>GetParentDir\<close> of \<^verbatim>\<open>common/file_utils.h\<close>: the prefix up to the last slash.\<close>

definition GetParentDir :: "u8 list \<Rightarrow> u8 list" where
  "GetParentDir cur_path = rev (dropWhile (\<lambda>c. c \<noteq> 47) (rev cur_path))"

definition vol_suffix :: "u8 list" where
  "vol_suffix = [46, 118, 111, 108]"

definition create_new_volume ::
  "(u8 list \<Rightarrow> u8 list option) \<Rightarrow> u8 list \<Rightarrow> u32 \<Rightarrow> file_storage \<Rightarrow> volume option" where
  "create_new_volume files db_name i fs =
     do {
       let prev_id = fs_current_volume fs - 1;
       prev \<leftarrow> at (fs_volumes fs) (unat prev_id);
       let pp = GetParentDir (Volume_get_path prev);
       let new_path = pp @ db_name @ [95] @ to_string (unat i) @ vol_suffix;
       Volume_open_existing new_path (Volume_create_new (files new_path) (ucast (Volume_get_size prev))) 0 }"

definition ExpandableFileStorage_adjust_current_volume ::
  "(u8 list \<Rightarrow> u8 list option) \<Rightarrow> u8 list \<Rightarrow> file_storage \<Rightarrow> file_storage option" where
  "ExpandableFileStorage_adjust_current_volume files db_name fs =
     (let fs = fs\<lparr>fs_current_volume := fs_current_volume fs + 1\<rparr>
      in if length (fs_volumes fs) \<le> unat (fs_current_volume fs) then
           do {
             vol \<leftarrow> create_new_volume files db_name (fs_current_volume fs) fs;
             (st, meta) \<leftarrow> MetaVolume_add_volume (fs_current_volume fs) (Volume_get_size vol)
                            (Volume_get_path vol) (fs_meta fs);
             Some (fs\<lparr>fs_dirty := fs_dirty fs @ [0],
                      fs_volume_names := fs_volume_names fs @ [Volume_get_path vol],
                      fs_total_size := fs_total_size fs + unat (Volume_get_size vol),
                      fs_meta := meta, fs_volumes := fs_volumes fs @ [vol]\<rparr>) }
         else Some fs)"

subsection \<open>Address packing\<close>

lemma and_mask32: "(x :: u64) AND 0xFFFFFFFF = take_bit 32 x"
proof -
  have "(0xFFFFFFFF :: u64) = mask 32" by (simp add: mask_eq_exp_minus_1)
  then show ?thesis by (simp add: take_bit_eq_mask)
qed

lemma extract_make [simp]: "extract_gen (make_logic g a) = g" "extract_vol (make_logic g a) = a"
  unfolding extract_gen_def extract_vol_def make_logic_def and_mask32
  by (rule bit_word_eqI, auto simp: bit_simps dest: bit_imp_le_length)+

lemma make_extract: "make_logic (extract_gen a) (extract_vol a) = a"
  unfolding extract_gen_def extract_vol_def make_logic_def and_mask32
  by (rule bit_word_eqI) (auto simp: bit_simps)

lemma addr_eq_iff: "a = make_logic g v \<longleftrightarrow> extract_gen a = g \<and> extract_vol a = v"
  using make_extract[of a] by auto

subsection \<open>The storage as a map from addresses to blocks\<close>

text \<open>\<open>slot\<close> is the volume that serves a generation: \<open>gen mod n\<close> in the fixed-size storage and
  \<open>gen\<close> in the expandable one.\<close>

definition fs_lookup :: "(u32 \<Rightarrow> nat) \<Rightarrow> file_storage \<Rightarrow> logic_addr \<Rightarrow> u8 list option" where
  "fs_lookup slot fs addr =
     (let i = slot (extract_gen addr)
      in if i < length (fs_volumes fs) \<and> mv_generation (fs_meta fs) i = extract_gen addr \<and>
            extract_vol addr < mv_nblocks (fs_meta fs) i
         then Some (vol_block (fs_volumes fs ! i) (unat (extract_vol addr))) else None)"

text \<open>The invariant: metadata and volumes agree, every generation is served by its own slot,
  the current generation is that of the current volume.\<close>

definition fs_ok :: "(u32 \<Rightarrow> nat) \<Rightarrow> file_storage \<Rightarrow> bool" where
  "fs_ok slot fs \<longleftrightarrow>
     (let n = length (fs_volumes fs)
      in 0 < n \<and> length (fs_dirty fs) = n \<and> mv_ok n (fs_meta fs) \<and>
         unat (fs_current_volume fs) < n \<and>
         fs_current_gen fs = mv_generation (fs_meta fs) (unat (fs_current_volume fs)) \<and>
         (\<forall>i < n. vol_ok (fs_volumes fs ! i) \<and> 0 < vol_file_size (fs_volumes fs ! i) \<and>
            vol_write_pos (fs_volumes fs ! i) = mv_nblocks (fs_meta fs) i \<and>
            slot (mv_generation (fs_meta fs) i) = i))"

definition fixed_slot :: "nat \<Rightarrow> u32 \<Rightarrow> nat" where
  "fixed_slot n gen = unat gen mod n"

abbreviation fixed_ok :: "file_storage \<Rightarrow> bool" where
  "fixed_ok fs \<equiv> fs_ok (fixed_slot (length (fs_volumes fs))) fs"

abbreviation fixed_lookup :: "file_storage \<Rightarrow> logic_addr \<Rightarrow> u8 list option" where
  "fixed_lookup fs \<equiv> fs_lookup (fixed_slot (length (fs_volumes fs))) fs"

abbreviation cur_ix :: "file_storage \<Rightarrow> nat" where
  "cur_ix fs \<equiv> unat (fs_current_volume fs)"

abbreviation cur_vol :: "file_storage \<Rightarrow> volume" where
  "cur_vol fs \<equiv> fs_volumes fs ! cur_ix fs"

lemma fs_ok_cur:
  assumes "fs_ok slot fs"
  shows "cur_ix fs < length (fs_volumes fs)" "vol_ok (cur_vol fs)"
    "vol_write_pos (cur_vol fs) = mv_nblocks (fs_meta fs) (cur_ix fs)"
    "fs_current_gen fs = mv_generation (fs_meta fs) (cur_ix fs)"
    "mv_ok (length (fs_volumes fs)) (fs_meta fs)" "length (fs_dirty fs) = length (fs_volumes fs)"
    "slot (fs_current_gen fs) = cur_ix fs" "0 < vol_file_size (cur_vol fs)"
  using assms by (auto simp: fs_ok_def Let_def)

subsection \<open>Appending to the current volume\<close>

lemma fs_append_room:
  assumes ok: "fs_ok slot fs" and b: "ib_inv b"
    and room: "vol_write_pos (cur_vol fs) < vol_file_size (cur_vol fs)"
  shows "\<exists>fs1 fs2 addr. fs_append_current IoOk b fs = Some ((kOk, vol_write_pos (cur_vol fs)), fs1) \<and>
     fs_commit_block (vol_write_pos (cur_vol fs)) b fs1 =
       Some ((kOk, addr), IOVecBlock_set_addr (ucast (vol_write_pos (cur_vol fs))) b, fs2) \<and>
     fs_ok slot fs2 \<and> length (fs_volumes fs2) = length (fs_volumes fs) \<and>
     extract_gen addr = fs_current_gen fs \<and>
     fs_lookup slot fs addr = None \<and> fs_lookup slot fs2 = (fs_lookup slot fs)(addr \<mapsto> ib_flat b)"
proof -
  let ?c = "cur_ix fs" and ?wp = "vol_write_pos (cur_vol fs)"
  note c = fs_ok_cur[OF ok]
  from Volume_append_ok[OF c(2) room b] obtain v' where
    v': "Volume_append_block IoOk b (cur_vol fs) = Some ((kOk, ?wp), v')" "vol_ok v'"
    "vol_write_pos v' = ?wp + 1" "vol_file_size v' = vol_file_size (cur_vol fs)"
    "vol_block v' = (vol_block (cur_vol fs))(unat ?wp := ib_flat b)" by blast
  from mv_set_nblocks[OF c(5) c(1), of "?wp + 1"] obtain m' where
    m': "MetaVolume_set_nblocks (fs_current_volume fs) (?wp + 1) (fs_meta fs) = Some (kOk, m')"
    "mv_ok (length (fs_volumes fs)) m'" "mv_nblocks m' = (mv_nblocks (fs_meta fs))(?c := ?wp + 1)"
    "mv_generation m' = mv_generation (fs_meta fs)" by blast
  let ?fs1 = "fs\<lparr>fs_volumes := (fs_volumes fs)[?c := v']\<rparr>"
  let ?fs2 = "?fs1\<lparr>fs_meta := m', fs_dirty := (fs_dirty fs)[?c := fs_dirty fs ! ?c + 1]\<rparr>"
  let ?addr = "make_logic (fs_current_gen fs) ?wp"
  have r1: "fs_append_current IoOk b fs = Some ((kOk, ?wp), ?fs1)"
    using c(1) v'(1) by (simp add: fs_append_current_def)
  have r2: "fs_commit_block ?wp b ?fs1 = Some ((kOk, ?addr), IOVecBlock_set_addr (ucast ?wp) b, ?fs2)"
    using c(1,6) m'(1) by (simp add: fs_commit_block_def Let_def)
  have ok2: "fs_ok slot ?fs2"
    using ok v'(2,3,4) m'(2-4) c(1) by (auto simp: fs_ok_def Let_def nth_list_update)
  have none: "fs_lookup slot fs ?addr = None"
    using c(3,7) by (simp add: fs_lookup_def Let_def)
  have suc: "x < ?wp + 1 \<longleftrightarrow> x < ?wp \<or> x = ?wp" for x
    using word_Suc_le[OF room] by (auto simp: word_less_nat_alt word_unat_eq_iff)
  have "fs_lookup slot ?fs2 a = ((fs_lookup slot fs)(?addr \<mapsto> ib_flat b)) a" for a
  proof (cases "slot (extract_gen a) = ?c")
    case False
    then have "a \<noteq> ?addr" using c(7) by (auto simp: addr_eq_iff)
    with False m'(3,4) show ?thesis by (simp add: fs_lookup_def Let_def)
  next
    case True
    show ?thesis
    proof (cases "extract_gen a = fs_current_gen fs")
      case False
      with True m'(4) c(4) show ?thesis by (auto simp: fs_lookup_def Let_def addr_eq_iff)
    next
      case gen: True
      have "fs_lookup slot ?fs2 a = (if extract_vol a < ?wp + 1
          then Some (vol_block v' (unat (extract_vol a))) else None)"
        using True gen m'(3,4) c(1,4) by (simp add: fs_lookup_def Let_def)
      moreover have "fs_lookup slot fs a = (if extract_vol a < ?wp
          then Some (vol_block (cur_vol fs) (unat (extract_vol a))) else None)"
        using True gen c(1,3,4) by (simp add: fs_lookup_def Let_def)
      moreover have "unat (extract_vol a) = unat ?wp \<longleftrightarrow> extract_vol a = ?wp"
        by (simp add: word_unat_eq_iff)
      ultimately show ?thesis
        using gen v'(5) suc[of "extract_vol a"] by (auto simp: addr_eq_iff)
    qed
  qed
  then have "fs_lookup slot ?fs2 = (fs_lookup slot fs)(?addr \<mapsto> ib_flat b)" ..
  with r1 r2 ok2 none show ?thesis by (intro exI[of _ ?fs1] exI[of _ ?fs2] exI[of _ ?addr]) simp
qed

lemma fs_append_full:
  assumes "fs_ok slot fs" "\<not> vol_write_pos (cur_vol fs) < vol_file_size (cur_vol fs)"
  shows "fs_append_current io b fs = Some ((kOverflow, 0), fs)"
  using assms fs_ok_cur(1)[OF assms(1)] by (simp add: fs_append_current_def Volume_append_full)

subsection \<open>Volume transitions\<close>

lemma fs_lookup_current [simp]:
  "fs_lookup slot (fs\<lparr>fs_current_gen := g\<rparr>) = fs_lookup slot fs"
  "fs_lookup slot (fs\<lparr>fs_current_volume := c\<rparr>) = fs_lookup slot fs"
  by (auto simp: fs_lookup_def Let_def)

text \<open>The transition after \<open>adjust_current_volume\<close> has moved to \<open>fs1\<close>: a volume that is not
  empty is reset under a new generation, and its blocks are no longer found.\<close>

lemma transition_ok:
  assumes adj: "adjust fs = Some fs1"
    and ok: "fs_ok slot (fs1\<lparr>fs_current_gen := mv_generation (fs_meta fs1) (cur_ix fs1)\<rparr>)"
    and g: "g = mv_generation (fs_meta fs1) (cur_ix fs1)"
    and nb: "nb = mv_nblocks (fs_meta fs1) (cur_ix fs1)"
    and slot: "nb \<noteq> 0 \<Longrightarrow> slot (g + of_nat (length (fs_volumes fs1))) = cur_ix fs1"
  shows "\<exists>fs2. handle_volume_transition adjust fs = Some fs2 \<and> fs_ok slot fs2 \<and>
     length (fs_volumes fs2) = length (fs_volumes fs1) \<and> fs_current_volume fs2 = fs_current_volume fs1 \<and>
     vol_write_pos (cur_vol fs2) < vol_file_size (cur_vol fs2) \<and>
     fs_current_gen fs2 = (if nb = 0 then g else g + of_nat (length (fs_volumes fs1))) \<and>
     fs_lookup slot fs2 = (\<lambda>a. if nb \<noteq> 0 \<and> extract_gen a = g then None else fs_lookup slot fs1 a)"
proof -
  let ?fs = "fs1\<lparr>fs_current_gen := g\<rparr>"
  let ?c = "cur_ix fs1" and ?n = "length (fs_volumes fs1)"
  have ok': "fs_ok slot ?fs" using ok g by simp
  note c = fs_ok_cur[OF ok', simplified]
  note get = mv_getters[OF c(5,1)]
  show ?thesis
  proof (cases "nb = 0")
    case True
    then have "handle_volume_transition adjust fs = Some ?fs"
      using adj get(1,3) g nb by (simp add: handle_volume_transition_def Let_def)
    moreover have "vol_write_pos (cur_vol ?fs) < vol_file_size (cur_vol ?fs)"
      using c(3,8) True nb by simp
    ultimately show ?thesis using ok' True by auto
  next
    case False
    from mv_set_generation[OF c(5,1), of "g + of_nat ?n"] obtain m1 where
      m1: "MetaVolume_set_generation (fs_current_volume fs1) (g + of_nat ?n) (fs_meta fs1) = Some (kOk, m1)"
      "mv_ok ?n m1" "mv_generation m1 = (mv_generation (fs_meta fs1))(?c := g + of_nat ?n)"
      "mv_nblocks m1 = mv_nblocks (fs_meta fs1)" by blast
    from mv_set_nblocks[OF m1(2) c(1), of 0] obtain m2 where
      m2: "MetaVolume_set_nblocks (fs_current_volume fs1) 0 m1 = Some (kOk, m2)" "mv_ok ?n m2"
      "mv_nblocks m2 = (mv_nblocks m1)(?c := 0)" "mv_generation m2 = mv_generation m1" by blast
    let ?fs2 = "fs1\<lparr>fs_current_gen := g + of_nat ?n, fs_meta := m2,
      fs_volumes := (fs_volumes fs1)[?c := Volume_reset (fs_volumes fs1 ! ?c)],
      fs_dirty := (fs_dirty fs1)[?c := fs_dirty fs1 ! ?c + 1]\<rparr>"
    have run: "handle_volume_transition adjust fs = Some ?fs2"
      using adj get(1,3) g nb False m1(1) m2(1) c(1,6)
      by (simp add: handle_volume_transition_def Let_def)
    have ok2: "fs_ok slot ?fs2"
      using ok' m1(3,4) m2(2-4) c(1,2) slot[OF False]
      by (auto simp: fs_ok_def Let_def nth_list_update Volume_reset_def vol_ok_def)
    have room: "vol_write_pos (cur_vol ?fs2) < vol_file_size (cur_vol ?fs2)"
      using c(1,8) by (simp add: Volume_reset_def)
    have "fs_lookup slot ?fs2 a = (if extract_gen a = g then None else fs_lookup slot fs1 a)" for a
    proof (cases "slot (extract_gen a) = ?c")
      case True
      then show ?thesis using m1(3,4) m2(3,4) c(4) by (simp add: fs_lookup_def Let_def)
    next
      case F: False
      then have "extract_gen a \<noteq> g" using c(7) by auto
      with F show ?thesis using m1(3,4) m2(3,4) by (simp add: fs_lookup_def Let_def)
    qed
    with run ok2 room False show ?thesis by (intro exI[of _ ?fs2]) auto
  qed
qed

lemma fs_ok_move:
  assumes "fs_ok slot fs" "unat c < length (fs_volumes fs)"
  shows "fs_ok slot (fs\<lparr>fs_current_volume := c, fs_current_gen := mv_generation (fs_meta fs) (unat c)\<rparr>)"
  using assms by (auto simp: fs_ok_def Let_def)

lemma transition_move:
  assumes adj: "adjust fs = Some (fs\<lparr>fs_current_volume := c\<rparr>)" and ok: "fs_ok slot fs"
    and c: "unat c < length (fs_volumes fs)"
    and g: "g = mv_generation (fs_meta fs) (unat c)" and nb: "nb = mv_nblocks (fs_meta fs) (unat c)"
    and slot: "nb \<noteq> 0 \<Longrightarrow> slot (g + of_nat (length (fs_volumes fs))) = unat c"
  shows "\<exists>fs2. handle_volume_transition adjust fs = Some fs2 \<and> fs_ok slot fs2 \<and>
     length (fs_volumes fs2) = length (fs_volumes fs) \<and> fs_current_volume fs2 = c \<and>
     vol_write_pos (cur_vol fs2) < vol_file_size (cur_vol fs2) \<and>
     fs_current_gen fs2 = (if nb = 0 then g else g + of_nat (length (fs_volumes fs))) \<and>
     fs_lookup slot fs2 = (\<lambda>a. if nb \<noteq> 0 \<and> extract_gen a = g then None else fs_lookup slot fs a)"
proof -
  let ?fs1 = "fs\<lparr>fs_current_volume := c\<rparr>"
  have ok1: "fs_ok slot (?fs1\<lparr>fs_current_gen := mv_generation (fs_meta ?fs1) (cur_ix ?fs1)\<rparr>)"
    using fs_ok_move[OF ok c] by simp
  have g1: "g = mv_generation (fs_meta ?fs1) (cur_ix ?fs1)" "nb = mv_nblocks (fs_meta ?fs1) (cur_ix ?fs1)"
    using g nb by simp_all
  have s1: "nb \<noteq> 0 \<Longrightarrow> slot (g + of_nat (length (fs_volumes ?fs1))) = cur_ix ?fs1" using slot by simp
  from transition_ok[of adjust fs ?fs1 slot g nb, OF adj ok1 g1 s1] obtain fs2 where
    t: "handle_volume_transition adjust fs = Some fs2" "fs_ok slot fs2"
     "length (fs_volumes fs2) = length (fs_volumes ?fs1)" "fs_current_volume fs2 = fs_current_volume ?fs1"
     "vol_write_pos (cur_vol fs2) < vol_file_size (cur_vol fs2)"
     "fs_current_gen fs2 = (if nb = 0 then g else g + of_nat (length (fs_volumes ?fs1)))"
     "fs_lookup slot fs2 = (\<lambda>a. if nb \<noteq> 0 \<and> extract_gen a = g then None else fs_lookup slot ?fs1 a)" by blast
  have "fs_current_gen fs2 = (if nb = 0 then g else g + of_nat (length (fs_volumes fs)))" using t(6) by simp
  moreover have "fs_lookup slot fs2 = (\<lambda>a. if nb \<noteq> 0 \<and> extract_gen a = g then None else fs_lookup slot fs a)"
    unfolding t(7) fs_lookup_current ..
  ultimately show ?thesis using t(1-5) by (intro exI[of _ fs2]) simp
qed

subsection \<open>The fixed-size storage\<close>

abbreviation next_ix :: "file_storage \<Rightarrow> nat" where
  "next_ix fs \<equiv> (cur_ix fs + 1) mod length (fs_volumes fs)"

lemma fs_ok_bound: "fs_ok slot fs \<Longrightarrow> length (fs_volumes fs) \<le> 2 ^ 20 \<and> 0 < length (fs_volumes fs)"
  by (auto simp: fs_ok_def Let_def mv_ok_def)

lemma fixed_adjust:
  assumes ok: "fs_ok slot fs"
  shows "FixedSizeFileStorage_adjust_current_volume fs =
       Some (fs\<lparr>fs_current_volume := of_nat (next_ix fs)\<rparr>)"
    and "unat (of_nat (next_ix fs) :: u32) = next_ix fs" and "next_ix fs < length (fs_volumes fs)"
proof -
  have n: "length (fs_volumes fs) \<le> 2 ^ 20" "0 < length (fs_volumes fs)" using fs_ok_bound[OF ok] by auto
  show lt: "next_ix fs < length (fs_volumes fs)" using n by simp
  have "cur_ix fs + 1 < 2 ^ 32" using fs_ok_cur(1)[OF ok] n by simp
  then have "unat (fs_current_volume fs + 1) = cur_ix fs + 1" by (simp add: unat_word_ariths)
  then show "FixedSizeFileStorage_adjust_current_volume fs =
      Some (fs\<lparr>fs_current_volume := of_nat (next_ix fs)\<rparr>)"
    using n by (simp add: FixedSizeFileStorage_adjust_current_volume_def)
  have "(2 :: nat) ^ 20 < 2 ^ 32" by simp
  then have "next_ix fs < 2 ^ 32" using lt n(1) by linarith
  then show "unat (of_nat (next_ix fs) :: u32) = next_ix fs" by (simp add: unat_of_nat)
qed

lemma fixed_slot_add:
  "unat g + n < 2 ^ 32 \<Longrightarrow> fixed_slot n (g + of_nat n) = fixed_slot n g"
  by (simp add: fixed_slot_def unat_word_ariths unat_of_nat)

lemma fixed_read_lookup:
  assumes ok: "fixed_ok fs"
  shows "case fixed_lookup fs addr of
      Some bs \<Rightarrow> \<exists>b. FixedSizeFileStorage_read_iovec_block addr fs = Some (kOk, Some b) \<and>
        ib_readable b \<and> ib_pos b = 4096 \<and> ib_flat b = bs
    | None \<Rightarrow> FixedSizeFileStorage_read_iovec_block addr fs = Some (kUnavailable, None)"
    and "FixedSizeFileStorage_exists addr fs = Some (fixed_lookup fs addr \<noteq> None)"
proof -
  let ?n = "length (fs_volumes fs)" and ?g = "extract_gen addr" and ?v = "extract_vol addr"
  let ?i = "fixed_slot ?n ?g"
  have n: "?n \<le> 2 ^ 20" "0 < ?n" using fs_ok_bound[OF ok] by auto
  then have un: "unat (of_nat ?n :: u32) = ?n" by (simp add: unat_of_nat)
  then have n0: "(of_nat ?n :: u32) \<noteq> 0" using n by auto
  have ui: "unat (?g mod of_nat ?n) = ?i" by (simp add: fixed_slot_def unat_mod_distrib un)
  have vx: "fixed_volix ?g fs = Some (?g mod of_nat ?n)" using n0 by (simp add: fixed_volix_def Let_def)
  have i: "?i < ?n" using n by (simp add: fixed_slot_def)
  have mv: "mv_ok ?n (fs_meta fs)" and vi: "vol_ok (fs_volumes fs ! ?i)"
    "vol_write_pos (fs_volumes fs ! ?i) = mv_nblocks (fs_meta fs) ?i"
    using ok i by (auto simp: fs_ok_def Let_def)
  note get = mv_getters[OF mv, of "?g mod of_nat ?n", unfolded ui, OF i]
  show "FixedSizeFileStorage_exists addr fs = Some (fixed_lookup fs addr \<noteq> None)"
    using vx get i by (simp add: FixedSizeFileStorage_exists_def Let_def fs_lookup_def)
  show "case fixed_lookup fs addr of
      Some bs \<Rightarrow> \<exists>b. FixedSizeFileStorage_read_iovec_block addr fs = Some (kOk, Some b) \<and>
        ib_readable b \<and> ib_pos b = 4096 \<and> ib_flat b = bs
    | None \<Rightarrow> FixedSizeFileStorage_read_iovec_block addr fs = Some (kUnavailable, None)"
  proof (cases "mv_generation (fs_meta fs) ?i = ?g \<and> ?v < mv_nblocks (fs_meta fs) ?i")
    case True
    then have "fixed_lookup fs addr = Some (vol_block (fs_volumes fs ! ?i) (unat ?v))"
      using i by (simp add: fs_lookup_def Let_def)
    moreover from Volume_read_ok[OF vi(1), of ?v] vi(2) True obtain b where
      "Volume_read_block ?v (fs_volumes fs ! ?i) = Some (kOk, b)" "ib_readable b" "ib_pos b = 4096"
      "ib_flat b = vol_block (fs_volumes fs ! ?i) (unat ?v)" by auto
    moreover have "\<not> mv_nblocks (fs_meta fs) ?i \<le> ?v" using True by (simp add: not_le)
    ultimately show ?thesis using True vx get i ui
      by (simp add: FixedSizeFileStorage_read_iovec_block_def Let_def)
  next
    case False
    then have "fixed_lookup fs addr = None" using i by (auto simp: fs_lookup_def Let_def)
    moreover have "mv_generation (fs_meta fs) ?i \<noteq> ?g \<or> mv_nblocks (fs_meta fs) ?i \<le> ?v"
      using False by auto
    ultimately show ?thesis using vx get by (auto simp: FixedSizeFileStorage_read_iovec_block_def Let_def)
  qed
qed

text \<open>The generation that an append evicts: that of the next volume, when the current one is
  full and the next one holds blocks.\<close>

definition fixed_evicted :: "file_storage \<Rightarrow> u32 set" where
  "fixed_evicted fs =
     (if vol_write_pos (cur_vol fs) < vol_file_size (cur_vol fs) \<or>
         mv_nblocks (fs_meta fs) (next_ix fs) = 0
      then {} else {mv_generation (fs_meta fs) (next_ix fs)})"

lemma fixed_append_full:
  assumes ok: "fixed_ok fs" and b: "ib_inv b"
    and full: "\<not> vol_write_pos (cur_vol fs) < vol_file_size (cur_vol fs)"
    and gen: "unat (mv_generation (fs_meta fs) (next_ix fs)) + length (fs_volumes fs) < 2 ^ 32"
  shows "\<exists>addr fs'. FileStorage_append_block FixedSizeFileStorage_adjust_current_volume IoOk b fs =
       Some ((kOk, addr), IOVecBlock_set_addr (ucast (extract_vol addr)) b, fs') \<and>
     length (fs_volumes fs') = length (fs_volumes fs) \<and> fixed_ok fs' \<and> fixed_lookup fs addr = None \<and>
     fixed_lookup fs' =
       (\<lambda>a. if extract_gen a \<in> fixed_evicted fs then None else fixed_lookup fs a)(addr \<mapsto> ib_flat b)"
proof -
  let ?n = "length (fs_volumes fs)" and ?i = "next_ix fs"
  let ?slot = "fixed_slot ?n"
  define g where "g = mv_generation (fs_meta fs) ?i"
  define nb where "nb = mv_nblocks (fs_meta fs) ?i"
  note adj = fixed_adjust[OF ok]
  have c: "unat (of_nat ?i :: u32) < ?n" unfolding adj(2) by (rule adj(3))
  have "?slot g = ?i" using ok adj(3) by (auto simp: fs_ok_def Let_def g_def)
  then have sl: "?slot (g + of_nat ?n) = unat (of_nat ?i :: u32)"
    unfolding adj(2) using fixed_slot_add[of g ?n] gen by (simp add: g_def)
  have g': "g = mv_generation (fs_meta fs) (unat (of_nat ?i :: u32))"
    "nb = mv_nblocks (fs_meta fs) (unat (of_nat ?i :: u32))"
    unfolding adj(2) by (simp_all only: g_def nb_def)
  from transition_move[where adjust = FixedSizeFileStorage_adjust_current_volume, OF adj(1) ok c g' sl]
  obtain fs2 where
    t: "handle_volume_transition FixedSizeFileStorage_adjust_current_volume fs = Some fs2"
    "fs_ok ?slot fs2" "length (fs_volumes fs2) = ?n"
    "vol_write_pos (cur_vol fs2) < vol_file_size (cur_vol fs2)"
    "fs_current_gen fs2 = (if nb = 0 then g else g + of_nat ?n)"
    "fs_lookup ?slot fs2 = (\<lambda>a. if nb \<noteq> 0 \<and> extract_gen a = g then None
       else fs_lookup ?slot fs a)" by blast
  from fs_append_room[OF t(2) b t(4)] obtain fs3 fs4 addr where
    a: "fs_append_current IoOk b fs2 = Some ((kOk, vol_write_pos (cur_vol fs2)), fs3)"
    "fs_commit_block (vol_write_pos (cur_vol fs2)) b fs3 =
       Some ((kOk, addr), IOVecBlock_set_addr (ucast (vol_write_pos (cur_vol fs2))) b, fs4)"
    "fs_ok ?slot fs4" "length (fs_volumes fs4) = ?n" "extract_gen addr = fs_current_gen fs2"
    "fs_lookup ?slot fs2 addr = None" "fs_lookup ?slot fs4 = (fs_lookup ?slot fs2)(addr \<mapsto> ib_flat b)"
    using t(3) by auto
  have ev: "extract_gen x \<in> fixed_evicted fs \<longleftrightarrow> nb \<noteq> 0 \<and> extract_gen x = g" for x
    using full by (simp add: fixed_evicted_def g_def nb_def)
  have vol: "extract_vol addr = vol_write_pos (cur_vol fs2)"
  proof -
    have "addr = make_logic (fs_current_gen fs3) (vol_write_pos (cur_vol fs2))"
      using a(2) by (auto simp: fs_commit_block_def Let_def bind_Some_conv split: if_splits)
    then show ?thesis by simp
  qed
  have "(of_nat ?n :: u32) \<noteq> 0"
  proof -
    have "?n < 2 ^ 32" "0 < ?n" using fs_ok_bound[OF ok] by auto
    then have "unat (of_nat ?n :: u32) = ?n" by (simp add: unat_of_nat)
    then show ?thesis using \<open>0 < ?n\<close> by auto
  qed
  then have "fs_lookup ?slot fs addr = None" using a(5,6) t(5,6) by (auto split: if_splits)
  moreover have "FileStorage_append_block FixedSizeFileStorage_adjust_current_volume IoOk b fs =
      Some ((kOk, addr), IOVecBlock_set_addr (ucast (extract_vol addr)) b, fs4)"
    using fs_append_full[OF ok full] t(1) a(1,2) vol by (simp add: FileStorage_append_block_def)
  ultimately show ?thesis using a(3,4,7) t(6) ev by (intro exI[of _ addr] exI[of _ fs4]) auto
qed

lemma fixed_append_ok:
  assumes "fixed_ok fs" and "ib_inv b"
    and "unat (mv_generation (fs_meta fs) (next_ix fs)) + length (fs_volumes fs) < 2 ^ 32"
  shows "\<exists>addr fs'. FileStorage_append_block FixedSizeFileStorage_adjust_current_volume IoOk b fs =
       Some ((kOk, addr), IOVecBlock_set_addr (ucast (extract_vol addr)) b, fs') \<and>
     length (fs_volumes fs') = length (fs_volumes fs) \<and> fixed_ok fs' \<and> fixed_lookup fs addr = None \<and>
     fixed_lookup fs' =
       (\<lambda>a. if extract_gen a \<in> fixed_evicted fs then None else fixed_lookup fs a)(addr \<mapsto> ib_flat b)"
proof (cases "vol_write_pos (cur_vol fs) < vol_file_size (cur_vol fs)")
  case True
  from fs_append_room[OF assms(1,2) True] obtain fs1 fs2 addr where
    a: "fs_append_current IoOk b fs = Some ((kOk, vol_write_pos (cur_vol fs)), fs1)"
    "fs_commit_block (vol_write_pos (cur_vol fs)) b fs1 =
       Some ((kOk, addr), IOVecBlock_set_addr (ucast (vol_write_pos (cur_vol fs))) b, fs2)"
    "fixed_ok fs2" "length (fs_volumes fs2) = length (fs_volumes fs)" "fixed_lookup fs addr = None"
    "fixed_lookup fs2 = (fixed_lookup fs)(addr \<mapsto> ib_flat b)" by fastforce
  have "addr = make_logic (fs_current_gen fs1) (vol_write_pos (cur_vol fs))"
    using a(2) by (auto simp: fs_commit_block_def Let_def bind_Some_conv split: if_splits)
  then have "extract_vol addr = vol_write_pos (cur_vol fs)" by simp
  with a True show ?thesis
    by (intro exI[of _ addr] exI[of _ fs2]) (auto simp: FileStorage_append_block_def fixed_evicted_def)
next
  case False
  from fixed_append_full[OF assms(1,2) False assms(3)] show ?thesis .
qed

text \<open>C14. Appending a block to the fixed-size storage always succeeds (while generations do
  not overflow) and refines the update of a map: the returned address was unused and now maps
  to the 4096 bytes of the block, the blocks of at most one generation (the evicted one)
  disappear, every other address keeps its content, and the invariant is kept.\<close>

theorem fixed_append_refines:
  assumes "fixed_ok fs" and "ib_inv b"
    and "unat (mv_generation (fs_meta fs) (next_ix fs)) + length (fs_volumes fs) < 2 ^ 32"
  shows "\<exists>addr fs'. FileStorage_append_block FixedSizeFileStorage_adjust_current_volume IoOk b fs =
       Some ((kOk, addr), IOVecBlock_set_addr (ucast (extract_vol addr)) b, fs') \<and>
     length (fs_volumes fs') = length (fs_volumes fs) \<and> fixed_ok fs' \<and> fixed_lookup fs addr = None \<and>
     fixed_lookup fs' =
       (\<lambda>a. if extract_gen a \<in> fixed_evicted fs then None else fixed_lookup fs a)(addr \<mapsto> ib_flat b)"
  by (rule fixed_append_ok[OF assms])

text \<open>A storage of one empty volume with one block.\<close>

definition demo_storage :: file_storage where
  "demo_storage = \<lparr>fs_meta = \<lparr>mv_file_size = 4096, mv_buffer = replicate 4096 0, mv_log = []\<rparr>,
     fs_volumes = [\<lparr>vol_file_size = 1, vol_write_pos = 0, vol_path = [], vol_mem = replicate 4096 0\<rparr>],
     fs_dirty = [0], fs_current_volume = 0, fs_current_gen = 0, fs_total_size = 1,
     fs_volume_names = [[]]\<rparr>"

lemma demo_views [simp]:
  "mv_u32 off_nblocks (fs_meta demo_storage) 0 = 0" "mv_u32 off_generation (fs_meta demo_storage) 0 = 0"
  by (simp_all add: demo_storage_def mv_u32_def eval_nat_numeral)

lemma demo_sel [simp]:
  "fs_volumes demo_storage = [\<lparr>vol_file_size = 1, vol_write_pos = 0, vol_path = [], vol_mem = replicate 4096 0\<rparr>]"
  "fs_dirty demo_storage = [0]" "fs_current_volume demo_storage = 0" "fs_current_gen demo_storage = 0"
  by (simp_all add: demo_storage_def)

lemma demo_meta: "mv_ok (Suc 0) (fs_meta demo_storage)"
  by (simp add: mv_ok_def demo_storage_def)

lemma demo_ok: "fixed_ok demo_storage"
  using demo_meta by (simp add: fs_ok_def Let_def fixed_slot_def vol_ok_def)

theorem fixed_append_refines_witness:
  "fixed_ok demo_storage \<and> ib_inv IOVecBlock_new \<and>
   (\<exists>addr fs'. FileStorage_append_block FixedSizeFileStorage_adjust_current_volume IoOk IOVecBlock_new
      demo_storage = Some ((kOk, addr), IOVecBlock_set_addr (ucast (extract_vol addr)) IOVecBlock_new, fs') \<and>
      fixed_lookup fs' addr = Some (ib_flat IOVecBlock_new))"
proof -
  have n: "length (fs_volumes demo_storage) = 1" by (simp add: demo_storage_def)
  have "unat (mv_generation (fs_meta demo_storage) (next_ix demo_storage)) + length (fs_volumes demo_storage) < 2 ^ 32"
    using n by simp
  from fixed_append_refines[OF demo_ok ib_inv_new this] demo_ok show ?thesis by fastforce
qed

text \<open>C15. Reading the fixed-size storage: an address that the storage holds is read with
  status \<open>kOk\<close> as a readable 4096-byte block with exactly the stored bytes, any other address
  gives \<open>kUnavailable\<close> and no block, and \<open>exists\<close> tells the two apart.\<close>

theorem fixed_read_spec:
  assumes "fixed_ok fs"
  shows "FixedSizeFileStorage_exists addr fs = Some (fixed_lookup fs addr \<noteq> None) \<and>
     (case fixed_lookup fs addr of
        Some bs \<Rightarrow> \<exists>b. FixedSizeFileStorage_read_iovec_block addr fs = Some (kOk, Some b) \<and>
          ib_readable b \<and> IOVecBlock_size b = FASTSTDB_BLOCK_SIZE \<and> ib_flat b = bs
      | None \<Rightarrow> FixedSizeFileStorage_read_iovec_block addr fs = Some (kUnavailable, None))"
  using fixed_read_lookup[OF assms, of addr] by (simp add: IOVecBlock_size_def split: option.splits)

theorem fixed_read_spec_witness:
  "fixed_ok demo_storage \<and> FixedSizeFileStorage_exists 0 demo_storage = Some False \<and>
   FixedSizeFileStorage_read_iovec_block 0 demo_storage = Some (kUnavailable, None)"
proof -
  have "fixed_lookup demo_storage 0 = None"
    by (simp add: fs_lookup_def Let_def extract_gen_def extract_vol_def fixed_slot_def)
  with fixed_read_spec[OF demo_ok, of 0] demo_ok show ?thesis by simp
qed

text \<open>C26. A failed write is reported as success: when the seek or the write to the current volume
  fails, \<open>append_block\<close> still stores 1 as the number of blocks of that volume and returns
  \<open>kOk\<close> with block 0 of the current generation, although the volume has not advanced: its write
  position is the old one, and all that can have changed are bytes of the block after the last,
  which a write that stopped half way has reached.\<close>

theorem append_swallows_write_error:
  assumes "fs_ok slot fs" and "vol_write_pos (cur_vol fs) < vol_file_size (cur_vol fs)"
    and "io \<noteq> IoOk" and "ib_inv b"
  shows "\<exists>fs' m. FileStorage_append_block adjust io b fs =
       Some ((kOk, make_logic (fs_current_gen fs) 0), IOVecBlock_set_addr 0 b, fs') \<and>
     fs_volumes fs' = (fs_volumes fs)[cur_ix fs := (cur_vol fs)\<lparr>vol_mem := m\<rparr>] \<and>
     length m = length (vol_mem (cur_vol fs)) \<and>
     (\<forall>j. j \<noteq> unat (vol_write_pos (cur_vol fs)) \<longrightarrow>
        vol_block ((cur_vol fs)\<lparr>vol_mem := m\<rparr>) j = vol_block (cur_vol fs) j) \<and>
     (io = IoSeekError \<or> io = IoWriteError 0 \<longrightarrow> fs_volumes fs' = fs_volumes fs) \<and>
     MetaVolume_get_nblocks (fs_current_volume fs) (fs_meta fs') = Some (kOk, 1)"
proof -
  note c = fs_ok_cur[OF assms(1)]
  from Volume_append_failed[OF c(2) assms(2,4,3)] obtain st m where
    st: "Volume_append_block io b (cur_vol fs) = Some ((st, 0), (cur_vol fs)\<lparr>vol_mem := m\<rparr>)" "st \<noteq> kOverflow"
    and fr: "length m = length (vol_mem (cur_vol fs))"
      "\<forall>j. j \<noteq> unat (vol_write_pos (cur_vol fs)) \<longrightarrow>
        vol_block ((cur_vol fs)\<lparr>vol_mem := m\<rparr>) j = vol_block (cur_vol fs) j"
      "io = IoSeekError \<or> io = IoWriteError 0 \<longrightarrow> m = vol_mem (cur_vol fs)" by auto
  from mv_set_nblocks[OF c(5,1), of 1] obtain mt where
    mt: "MetaVolume_set_nblocks (fs_current_volume fs) 1 (fs_meta fs) = Some (kOk, mt)"
    "mv_ok (length (fs_volumes fs)) mt" "mv_nblocks mt = (mv_nblocks (fs_meta fs))(cur_ix fs := 1)" by blast
  have "fs_append_current io b fs =
      Some ((st, 0), fs\<lparr>fs_volumes := (fs_volumes fs)[cur_ix fs := (cur_vol fs)\<lparr>vol_mem := m\<rparr>]\<rparr>)"
    using st(1) c(1) by (simp add: fs_append_current_def)
  with st(2) mt(1) c(1,6) mv_getters(1)[OF mt(2) c(1)] mt(3) fr show ?thesis
    by (simp add: FileStorage_append_block_def fs_commit_block_def Let_def) (rule exI[of _ m], simp)
qed

theorem append_swallows_write_error_witness:
  "\<exists>fs' m. FileStorage_append_block FixedSizeFileStorage_adjust_current_volume (IoWriteError 7) IOVecBlock_new
       demo_storage = Some ((kOk, make_logic 0 0), IOVecBlock_set_addr 0 IOVecBlock_new, fs') \<and>
     fs_volumes fs' = (fs_volumes demo_storage)[0 := (fs_volumes demo_storage ! 0)\<lparr>vol_mem := m\<rparr>] \<and>
     MetaVolume_get_nblocks 0 (fs_meta fs') = Some (kOk, 1)"
  using append_swallows_write_error[OF demo_ok, of "IoWriteError 7" IOVecBlock_new
      FixedSizeFileStorage_adjust_current_volume] ib_inv_new by auto

subsection \<open>The expandable storage\<close>

text \<open>Generation \<open>i\<close> is volume \<open>i\<close>; the volumes after the current one are empty.\<close>

definition expandable_ok :: "file_storage \<Rightarrow> bool" where
  "expandable_ok fs \<longleftrightarrow> fs_ok unat fs \<and>
     (\<forall>i. cur_ix fs < i \<and> i < length (fs_volumes fs) \<longrightarrow> mv_nblocks (fs_meta fs) i = 0)"

definition expandable_new_path :: "u8 list \<Rightarrow> file_storage \<Rightarrow> u8 list" where
  "expandable_new_path db_name fs =
     GetParentDir (vol_path (cur_vol fs)) @ db_name @ [95] @ to_string (length (fs_volumes fs)) @ vol_suffix"

lemma mv_page_views:
  "mv_page_desc m i = d \<Longrightarrow> mv_nblocks m i = vd_nblocks d \<and> mv_generation m i = vd_generation d"
  by (auto simp: mv_page_desc_def)

lemma created_volume:
  assumes "unat sz \<le> 2 ^ 20" and "0 < (sz :: u32)"
  shows "Volume_open_existing p (Volume_create_new None (ucast sz)) 0 =
     Some (Volume_new p (replicate (unat sz * 4096) 0) 0)"
proof -
  have "unat (ucast sz :: u64) = unat sz"
    using assms(1) by (simp add: unsigned_ucast_eq take_bit_nat_eq_self)
  then have "unat (ucast sz * 4096 :: u64) = unat sz * 4096" using assms(1) by (simp add: unat_word_ariths)
  moreover have "0 < unat sz" using assms(2) by (simp add: word_less_nat_alt)
  ultimately show ?thesis by (simp add: Volume_open_existing_def Volume_create_new_def Let_def)
qed

lemma expandable_grow:
  assumes ok: "fs_ok unat fs" and last: "Suc (cur_ix fs) = length (fs_volumes fs)"
    and n: "length (fs_volumes fs) < 2 ^ 20"
    and path: "length (expandable_new_path db fs) \<le> 4075" "0 \<notin> set (expandable_new_path db fs)"
    and fresh: "files (expandable_new_path db fs) = None"
  shows "\<exists>fs1. ExpandableFileStorage_adjust_current_volume files db fs = Some fs1 \<and>
     fs_ok unat (fs1\<lparr>fs_current_gen := mv_generation (fs_meta fs1) (cur_ix fs1)\<rparr>) \<and>
     mv_nblocks (fs_meta fs1) (cur_ix fs1) = 0 \<and> length (fs_volumes fs1) = Suc (length (fs_volumes fs)) \<and>
     cur_ix fs1 = length (fs_volumes fs) \<and> fs_lookup unat fs1 = fs_lookup unat fs"
proof -
  let ?n = "length (fs_volumes fs)" and ?p = "expandable_new_path db fs" and ?sz = "vol_file_size (cur_vol fs)"
  note c = fs_ok_cur[OF ok]
  have "cur_ix fs + 1 < 2 ^ 32" using last n by simp
  then have un: "unat (fs_current_volume fs + 1) = ?n" using last by (simp add: unat_word_ariths)
  let ?v = "Volume_new ?p (replicate (unat ?sz * 4096) 0) 0"
  have sz: "unat ?sz \<le> 2 ^ 20" "0 < ?sz" using c(2,8) by (auto simp: vol_ok_def)
  have v: "vol_file_size ?v = ?sz" "vol_write_pos ?v = 0" "vol_path ?v = ?p" "vol_ok ?v"
    using sz by (simp_all add: Volume_new_def vol_ok_def)
  from add_volume_ok[OF c(5) n path, of "fs_current_volume fs + 1" ?sz] obtain m where
    m: "MetaVolume_add_volume (fs_current_volume fs + 1) ?sz ?p (fs_meta fs) = Some (kOk, m)" "mv_ok (Suc ?n) m"
    "mv_page_desc m ?n = \<lparr>vd_id = fs_current_volume fs + 1, vd_path = ?p, vd_version = ucast FASTSTDB_VERSION,
       vd_nblocks = 0, vd_capacity = ?sz, vd_generation = fs_current_volume fs + 1\<rparr>"
    "\<forall>j < ?n. mv_page_desc m j = mv_page_desc (fs_meta fs) j" by blast
  have vn: "mv_nblocks m ?n = 0" "mv_generation m ?n = fs_current_volume fs + 1" using mv_page_views[OF m(3)] by auto
  have vj: "mv_nblocks m j = mv_nblocks (fs_meta fs) j" "mv_generation m j = mv_generation (fs_meta fs) j"
    if "j < ?n" for j using m(4) that by (auto simp: mv_page_desc_def)
  let ?fs1 = "fs\<lparr>fs_current_volume := fs_current_volume fs + 1, fs_dirty := fs_dirty fs @ [0],
    fs_volume_names := fs_volume_names fs @ [?p], fs_total_size := fs_total_size fs + unat ?sz,
    fs_meta := m, fs_volumes := fs_volumes fs @ [?v]\<rparr>"
  have "create_new_volume files db (fs_current_volume fs + 1) (fs\<lparr>fs_current_volume := fs_current_volume fs + 1\<rparr>)
      = Some ?v"
    using c(1) un fresh created_volume[OF sz] by (simp add: create_new_volume_def Let_def Volume_get_path_def
        Volume_get_size_def expandable_new_path_def)
  then have run: "ExpandableFileStorage_adjust_current_volume files db fs = Some ?fs1"
    using un m(1) v by (simp add: ExpandableFileStorage_adjust_current_volume_def Let_def
        Volume_get_path_def Volume_get_size_def)
  have "vol_ok ((fs_volumes fs @ [?v]) ! i) \<and> 0 < vol_file_size ((fs_volumes fs @ [?v]) ! i) \<and>
      vol_write_pos ((fs_volumes fs @ [?v]) ! i) = mv_nblocks m i \<and> unat (mv_generation m i) = i"
    if "i < Suc ?n" for i
    using that ok v sz vn vj un by (cases "i = ?n") (auto simp: fs_ok_def Let_def nth_append)
  then have "fs_ok unat (?fs1\<lparr>fs_current_gen := mv_generation (fs_meta ?fs1) (cur_ix ?fs1)\<rparr>)"
    using m(2) un c(6) by (simp add: fs_ok_def Let_def)
  moreover have "fs_lookup unat ?fs1 a = fs_lookup unat fs a" for a
    using vn vj by (cases "unat (extract_gen a) = ?n") (auto simp: fs_lookup_def Let_def nth_append less_Suc_eq)
  ultimately show ?thesis using run un vn by (intro exI[of _ ?fs1]) auto
qed

lemma expandable_transition:
  assumes ok: "expandable_ok fs" and n: "length (fs_volumes fs) < 2 ^ 20"
    and path: "length (expandable_new_path db fs) \<le> 4075" "0 \<notin> set (expandable_new_path db fs)"
    and fresh: "files (expandable_new_path db fs) = None"
  shows "\<exists>fs2. handle_volume_transition (ExpandableFileStorage_adjust_current_volume files db) fs = Some fs2 \<and>
     expandable_ok fs2 \<and> vol_write_pos (cur_vol fs2) < vol_file_size (cur_vol fs2) \<and>
     fs_lookup unat fs2 = fs_lookup unat fs"
proof -
  let ?adj = "ExpandableFileStorage_adjust_current_volume files db" and ?n = "length (fs_volumes fs)"
  have fok: "fs_ok unat fs" and empty: "\<And>i. cur_ix fs < i \<Longrightarrow> i < ?n \<Longrightarrow> mv_nblocks (fs_meta fs) i = 0"
    using ok by (auto simp: expandable_ok_def)
  note c = fs_ok_cur[OF fok]
  obtain fs1 where fs1: "?adj fs = Some fs1"
    "fs_ok unat (fs1\<lparr>fs_current_gen := mv_generation (fs_meta fs1) (cur_ix fs1)\<rparr>)"
    "mv_nblocks (fs_meta fs1) (cur_ix fs1) = 0" "fs_lookup unat fs1 = fs_lookup unat fs"
    "\<And>i. cur_ix fs1 < i \<Longrightarrow> i < length (fs_volumes fs1) \<Longrightarrow> mv_nblocks (fs_meta fs1) i = 0"
  proof (cases "Suc (cur_ix fs) = ?n")
    case True
    from expandable_grow[where files = files and db = db, OF fok True n path fresh] that show ?thesis by fastforce
  next
    case False
    then have lt: "Suc (cur_ix fs) < ?n" using c(1) by simp
    then have un: "unat (fs_current_volume fs + 1) = Suc (cur_ix fs)" using n by (simp add: unat_word_ariths)
    let ?fs1 = "fs\<lparr>fs_current_volume := fs_current_volume fs + 1\<rparr>"
    have "?adj fs = Some ?fs1"
      using lt un by (simp add: ExpandableFileStorage_adjust_current_volume_def Let_def)
    moreover have "fs_ok unat (?fs1\<lparr>fs_current_gen := mv_generation (fs_meta ?fs1) (cur_ix ?fs1)\<rparr>)"
      using fs_ok_move[OF fok, of "fs_current_volume fs + 1"] un lt by simp
    ultimately show ?thesis by (rule that) (use empty lt un in auto)
  qed
  define fs2 where "fs2 = fs1\<lparr>fs_current_gen := mv_generation (fs_meta fs1) (cur_ix fs1)\<rparr>"
  have c1: "unat (fs_current_volume fs1) < length (fs_volumes fs1)" "mv_ok (length (fs_volumes fs1)) (fs_meta fs1)"
    using fs_ok_cur(1,5)[OF fs1(2)] by auto
  have "handle_volume_transition ?adj fs = Some fs2"
    using fs1(1,3) mv_getters[OF c1(2,1)] by (simp add: handle_volume_transition_def Let_def fs2_def)
  moreover have "expandable_ok fs2" using fs1(2,5) by (auto simp: expandable_ok_def fs2_def)
  moreover have "vol_write_pos (cur_vol fs2) < vol_file_size (cur_vol fs2)"
    using fs_ok_cur(3,8)[OF fs1(2)] fs1(3) by (simp add: fs2_def)
  moreover have "fs_lookup unat fs2 = fs_lookup unat fs" using fs1(4) by (simp add: fs2_def)
  ultimately show ?thesis by blast
qed

lemma expandable_room:
  assumes ok: "expandable_ok fs" and b: "ib_inv b"
    and room: "vol_write_pos (cur_vol fs) < vol_file_size (cur_vol fs)"
  shows "\<exists>fs1 fs2 addr w. fs_append_current IoOk b fs = Some ((kOk, w), fs1) \<and>
     fs_commit_block w b fs1 = Some ((kOk, addr), IOVecBlock_set_addr (ucast (extract_vol addr)) b, fs2) \<and>
     expandable_ok fs2 \<and> fs_lookup unat fs addr = None \<and>
     (addr = 0 \<longrightarrow> fs_lookup unat fs = Map.empty) \<and>
     fs_lookup unat fs2 = (fs_lookup unat fs)(addr \<mapsto> ib_flat b)"
proof -
  let ?wp = "vol_write_pos (cur_vol fs)"
  have fok: "fs_ok unat fs" using ok by (simp add: expandable_ok_def)
  note c = fs_ok_cur[OF fok]
  from fs_append_room[OF fok b room] obtain fs1 fs2 addr where
    a: "fs_append_current IoOk b fs = Some ((kOk, ?wp), fs1)"
    "fs_commit_block ?wp b fs1 = Some ((kOk, addr), IOVecBlock_set_addr (ucast ?wp) b, fs2)"
    "fs_ok unat fs2" "length (fs_volumes fs2) = length (fs_volumes fs)" "fs_lookup unat fs addr = None"
    "fs_lookup unat fs2 = (fs_lookup unat fs)(addr \<mapsto> ib_flat b)" by blast
  from a(1) have f1: "fs_current_volume fs1 = fs_current_volume fs" "fs_meta fs1 = fs_meta fs"
    by (auto simp: fs_append_current_def bind_Some_conv)
  from mv_set_nblocks[OF c(5,1), of "?wp + 1"] obtain m where
    m: "MetaVolume_set_nblocks (fs_current_volume fs) (?wp + 1) (fs_meta fs) = Some (kOk, m)"
    "mv_nblocks m = (mv_nblocks (fs_meta fs))(cur_ix fs := ?wp + 1)" by blast
  from a(2) m(1) f1 have addr: "addr = make_logic (fs_current_gen fs1) ?wp" and
    f2: "fs_current_volume fs2 = fs_current_volume fs" "fs_meta fs2 = m"
    by (auto simp: fs_commit_block_def Let_def bind_Some_conv split: if_splits)
  have "expandable_ok fs2" using ok a(3,4) f2 m(2) by (auto simp: expandable_ok_def)
  moreover have "fs_lookup unat fs = Map.empty" if "addr = 0"
  proof -
    from a(1) have g: "fs_current_gen fs1 = fs_current_gen fs" by (auto simp: fs_append_current_def bind_Some_conv)
    have "extract_gen addr = fs_current_gen fs" "extract_vol addr = ?wp" unfolding addr g by simp_all
    moreover have "extract_gen 0 = 0" "extract_vol 0 = 0" by (simp_all add: extract_gen_def extract_vol_def)
    ultimately have "fs_current_gen fs = 0" "?wp = 0" using that by simp_all
    then have z: "cur_ix fs = 0" "mv_nblocks (fs_meta fs) 0 = 0" using c(3,7) by auto
    have "mv_nblocks (fs_meta fs) i = 0" if "i < length (fs_volumes fs)" for i
      using that z ok by (cases i) (auto simp: expandable_ok_def)
    then show ?thesis by (auto simp: fs_lookup_def Let_def)
  qed
  ultimately show ?thesis using a addr by auto
qed

lemma expandable_append_ok:
  assumes "expandable_ok fs" and "ib_inv b" and "length (fs_volumes fs) < 2 ^ 20"
    and "length (expandable_new_path db fs) \<le> 4075" and "0 \<notin> set (expandable_new_path db fs)"
    and "files (expandable_new_path db fs) = None"
  shows "\<exists>addr fs'.
     FileStorage_append_block (ExpandableFileStorage_adjust_current_volume files db) IoOk b fs =
       Some ((kOk, addr), IOVecBlock_set_addr (ucast (extract_vol addr)) b, fs') \<and>
     expandable_ok fs' \<and> fs_lookup unat fs addr = None \<and> (addr = 0 \<longrightarrow> fs_lookup unat fs = Map.empty) \<and>
     fs_lookup unat fs' = (fs_lookup unat fs)(addr \<mapsto> ib_flat b)"
proof (cases "vol_write_pos (cur_vol fs) < vol_file_size (cur_vol fs)")
  case True
  from expandable_room[OF assms(1,2) True] show ?thesis by (auto simp: FileStorage_append_block_def)
next
  case False
  have "fs_ok unat fs" using assms(1) by (simp add: expandable_ok_def)
  note full = fs_append_full[OF this False]
  from expandable_transition[where files = files and db = db, OF assms(1,3-6)] obtain fs2 where
    t: "handle_volume_transition (ExpandableFileStorage_adjust_current_volume files db) fs = Some fs2"
    "expandable_ok fs2" "vol_write_pos (cur_vol fs2) < vol_file_size (cur_vol fs2)"
    "fs_lookup unat fs2 = fs_lookup unat fs" by blast
  from expandable_room[OF t(2) assms(2) t(3)] full t(1,4) show ?thesis
    by (auto simp: FileStorage_append_block_def)
qed

text \<open>C16. The expandable storage never evicts: an append succeeds, adding a volume of the
  same size when the last one is full, the returned address was unused and maps to the bytes
  of the block, and every address that could be read before still gives the same block.\<close>

theorem expandable_append_refines:
  assumes "expandable_ok fs" and "ib_inv b" and "length (fs_volumes fs) < 2 ^ 20"
    and "length (expandable_new_path db fs) \<le> 4075" and "0 \<notin> set (expandable_new_path db fs)"
    and "files (expandable_new_path db fs) = None"
  shows "\<exists>addr fs'.
     FileStorage_append_block (ExpandableFileStorage_adjust_current_volume files db) IoOk b fs =
       Some ((kOk, addr), IOVecBlock_set_addr (ucast (extract_vol addr)) b, fs') \<and>
     expandable_ok fs' \<and> fs_lookup unat fs addr = None \<and>
     fs_lookup unat fs' = (fs_lookup unat fs)(addr \<mapsto> ib_flat b)"
  using expandable_append_ok[where files = files and db = db, OF assms] by blast

theorem expandable_append_refines_witness:
  "expandable_ok demo_storage \<and>
   (\<exists>addr fs'. FileStorage_append_block (ExpandableFileStorage_adjust_current_volume (\<lambda>_. None) [100]) IoOk
        IOVecBlock_new demo_storage =
      Some ((kOk, addr), IOVecBlock_set_addr (ucast (extract_vol addr)) IOVecBlock_new, fs') \<and>
      fs_lookup unat fs' addr = Some (ib_flat IOVecBlock_new))"
proof -
  have ok: "expandable_ok demo_storage"
    using demo_meta by (simp add: expandable_ok_def fs_ok_def Let_def vol_ok_def)
  have path: "expandable_new_path [100] demo_storage = [100, 95, 49, 46, 118, 111, 108]"
    by (simp add: expandable_new_path_def GetParentDir_def vol_suffix_def)
  have "length (fs_volumes demo_storage) < 2 ^ 20" "length (expandable_new_path [100] demo_storage) \<le> 4075"
    "0 \<notin> set (expandable_new_path [100] demo_storage)" by (simp_all add: path)
  from expandable_append_refines[where files = "\<lambda>_. None", OF ok ib_inv_new this refl] ok show ?thesis by fastforce
qed

subsection \<open>Opening a storage\<close>

lemma unat_Suc_small: "unat (i :: u32) + 1 < 2 ^ 32 \<Longrightarrow> unat (i + 1) = Suc (unat i)"
  by (simp add: unat_word_ariths)

lemma find_current_ok:
  assumes mv: "mv_ok n meta"
  shows "unat i + length vs = n \<Longrightarrow>
   \<exists>r. fs_find_current meta vs i = Some r \<and>
     (case r of
        Some (k, g) \<Rightarrow> unat i \<le> unat k \<and> unat k < n \<and> g = mv_generation meta (unat k) \<and>
          mv_nblocks meta (unat k) < vol_file_size (vs ! (unat k - unat i)) \<and>
          (\<forall>j. unat i \<le> j \<and> j < unat k \<longrightarrow> \<not> mv_nblocks meta j < vol_file_size (vs ! (j - unat i)))
      | None \<Rightarrow> \<forall>j. unat i \<le> j \<and> j < n \<longrightarrow> \<not> mv_nblocks meta j < vol_file_size (vs ! (j - unat i)))"
proof (induction vs arbitrary: i)
  case (Cons v vs)
  have i: "unat i < n" using Cons.prems by simp
  note get = mv_getters[OF mv i]
  show ?case
  proof (cases "mv_nblocks meta (unat i) < vol_file_size v")
    case True
    with get i show ?thesis by (auto simp: Volume_get_size_def)
  next
    case False
    have "n \<le> 2 ^ 20" using mv by (simp add: mv_ok_def)
    then have s: "unat (i + 1) = Suc (unat i)" using i by (intro unat_Suc_small) simp
    have "unat (i + 1) + length vs = n" using Cons.prems s by simp
    from Cons.IH[OF this] obtain r where
      r: "fs_find_current meta vs (i + 1) = Some r" and
      p: "case r of
        Some (k, g) \<Rightarrow> Suc (unat i) \<le> unat k \<and> unat k < n \<and> g = mv_generation meta (unat k) \<and>
          mv_nblocks meta (unat k) < vol_file_size (vs ! (unat k - Suc (unat i))) \<and>
          (\<forall>j. Suc (unat i) \<le> j \<and> j < unat k \<longrightarrow> \<not> mv_nblocks meta j < vol_file_size (vs ! (j - Suc (unat i))))
      | None \<Rightarrow> \<forall>j. Suc (unat i) \<le> j \<and> j < n \<longrightarrow> \<not> mv_nblocks meta j < vol_file_size (vs ! (j - Suc (unat i)))"
      unfolding s by blast
    have nth: "(v # vs) ! (j - unat i) = vs ! (j - Suc (unat i))" if "Suc (unat i) \<le> j" for j
    proof -
      have "j - unat i = Suc (j - Suc (unat i))" using that by simp
      then show ?thesis by simp
    qed
    have step: "\<not> mv_nblocks meta j < vol_file_size ((v # vs) ! (j - unat i))"
      if "unat i \<le> j" "Suc (unat i) \<le> j \<Longrightarrow> \<not> mv_nblocks meta j < vol_file_size (vs ! (j - Suc (unat i)))" for j
      using that nth[of j] False by (cases "j = unat i") auto
    have "fs_find_current meta (v # vs) i = Some r" using get False r by (simp add: Volume_get_size_def)
    with p step nth show ?thesis by (intro exI[of _ r]) (auto split: option.splits prod.splits)
  qed
qed auto

lemma find_current_0:
  assumes "mv_ok n meta" "length vs = n"
  shows "\<exists>r. fs_find_current meta vs 0 = Some r \<and>
     (case r of
        Some (k, g) \<Rightarrow> unat k < n \<and> g = mv_generation meta (unat k) \<and>
          mv_nblocks meta (unat k) < vol_file_size (vs ! unat k) \<and>
          (\<forall>j < unat k. \<not> mv_nblocks meta j < vol_file_size (vs ! j))
      | None \<Rightarrow> \<forall>j < n. \<not> mv_nblocks meta j < vol_file_size (vs ! j))"
proof -
  have "unat (0 :: u32) + length vs = n" using assms(2) by simp
  from find_current_ok[OF assms(1) this] show ?thesis
  proof (elim exE conjE, goal_cases)
    case (1 r)
    then show ?thesis by (intro exI[of _ r] conjI) (cases r; force simp del: not_less)+
  qed
qed

lemma open_volumes_ok:
  assumes mv: "mv_ok n meta"
  shows "unat i + length recs = n \<Longrightarrow> \<forall>r \<in> set recs. files (vd_path r) \<noteq> None \<and> files (vd_path r) \<noteq> Some [] \<Longrightarrow>
   \<exists>vols. fs_open_volumes files meta recs i = Some vols \<and> length vols = length recs \<and>
     (\<forall>j < length recs. vols ! j =
        Volume_new (vd_path (recs ! j)) (the (files (vd_path (recs ! j))))
          (unat (mv_nblocks meta (unat i + j))))"
proof (induction recs arbitrary: i)
  case (Cons r recs)
  have i: "unat i < n" using Cons.prems(1) by simp
  have "n \<le> 2 ^ 20" using mv by (simp add: mv_ok_def)
  then have s: "unat (i + 1) = Suc (unat i)" using i by (intro unat_Suc_small) simp
  from Cons.IH[of "i + 1"] Cons.prems s obtain vols where
    v: "fs_open_volumes files meta recs (i + 1) = Some vols" "length vols = length recs"
    "\<forall>j < length recs. vols ! j = Volume_new (vd_path (recs ! j)) (the (files (vd_path (recs ! j))))
          (unat (mv_nblocks meta (Suc (unat i) + j)))" by auto
  from Cons.prems(2) obtain content where ct: "files (vd_path r) = Some content" "content \<noteq> []" by auto
  let ?v = "Volume_new (vd_path r) content (unat (mv_nblocks meta (unat i)))"
  have "fs_open_volumes files meta (r # recs) i = Some (?v # vols)"
    using mv_getters(1)[OF mv i] v(1) ct by (simp add: Volume_open_existing_def)
  moreover have "(?v # vols) ! j = Volume_new (vd_path ((r # recs) ! j))
      (the (files (vd_path ((r # recs) ! j)))) (unat (mv_nblocks meta (unat i + j)))"
    if "j < length (r # recs)" for j
    using that v(3) ct by (cases j) auto
  ultimately show ?case using v(2) by auto
qed simp

lemma sorted_ids:
  assumes "distinct (map vd_id vols)" "\<forall>v \<in> set vols. unat (vd_id v) < length vols" "i < length vols"
  shows "unat (vd_id (sort_key vd_id vols ! i)) = i"
proof -
  let ?s = "sort_key vd_id vols" and ?n = "length vols"
  let ?u = "map (\<lambda>v. unat (vd_id v)) ?s"
  have "sorted (map vd_id ?s)" by (rule sorted_sort_key)
  then have "sorted (map unat (map vd_id ?s))"
    by (simp add: sorted_iff_nth_mono word_le_nat_alt del: map_map)
  then have "sorted ?u" by (simp add: comp_def)
  moreover have "distinct ?u"
  proof -
    have "distinct (map vd_id ?s)" using assms(1) by (simp add: distinct_map)
    then have "distinct (map unat (map vd_id ?s))"
      by (simp add: distinct_map inj_on_def word_unat_eq_iff)
    then show ?thesis by (simp add: comp_def)
  qed
  moreover have "set ?u = set [0..<?n]"
    using ids_cover[OF assms(1,2)] assms(2) by (auto simp: image_iff) metis
  ultimately have "?u = [0..<?n]" by (intro sorted_distinct_set_unique) simp_all
  then show ?thesis using assms(3) by (metis (no_types, lifting) add_0 length_sort nth_map nth_upt)
qed

definition fs_free :: "file_storage \<Rightarrow> nat \<Rightarrow> bool" where
  "fs_free fs i \<longleftrightarrow> mv_nblocks (fs_meta fs) i < vol_file_size (fs_volumes fs ! i)"

text \<open>A registry that describes a fixed-size storage, with the files it names.\<close>

definition registry_ok :: "(u8 list \<Rightarrow> u8 list option) \<Rightarrow> volume_desc list \<Rightarrow> bool" where
  "registry_ok files reg \<longleftrightarrow>
     0 < length reg \<and> length reg \<le> 2 ^ 20 \<and> distinct (map vd_id reg) \<and>
     (\<forall>v \<in> set reg. unat (vd_id v) < length reg \<and> length (vd_path v) \<le> 4075 \<and> 0 \<notin> set (vd_path v) \<and>
        (case files (vd_path v) of
           None \<Rightarrow> False
         | Some c \<Rightarrow> 4096 \<le> length c \<and> length c div 4096 \<le> 2 ^ 20 \<and> unat (vd_nblocks v) \<le> length c div 4096))"

lemma opened_volume_ok:
  assumes "4096 \<le> length c" "length c div 4096 \<le> 2 ^ 20" "unat nb \<le> length c div 4096"
  shows "vol_ok (Volume_new p c (unat nb))" "0 < vol_file_size (Volume_new p c (unat nb))"
    "vol_write_pos (Volume_new p c (unat nb)) = nb"
    "unat (vol_file_size (Volume_new p c (unat nb))) = length c div 4096"
proof -
  have sz: "unat (of_nat (length c div 4096) :: u32) = length c div 4096"
    using assms(2) by (simp add: unat_of_nat)
  then show "unat (vol_file_size (Volume_new p c (unat nb))) = length c div 4096"
    by (simp add: Volume_new_def)
  show "vol_write_pos (Volume_new p c (unat nb)) = nb" by (simp add: Volume_new_def)
  have "1 \<le> length c div 4096" using assms(1) div_le_mono[of 4096 "length c" 4096] by simp
  then show "0 < vol_file_size (Volume_new p c (unat nb))"
    using sz by (simp add: Volume_new_def word_less_nat_alt)
  have "length c div 4096 * 4096 \<le> length c" by simp
  then show "vol_ok (Volume_new p c (unat nb))"
    using sz assms(2,3) by (simp add: vol_ok_def Volume_new_def word_le_nat_alt)
qed

lemma storage_open:
  assumes reg: "registry_ok files reg"
  shows "\<exists>fs. FileStorage_new files reg = Some fs \<and> length (fs_volumes fs) = length reg \<and>
     mv_ok (length reg) (fs_meta fs) \<and> length (fs_dirty fs) = length reg \<and>
     (\<forall>v \<in> set reg. mv_generation (fs_meta fs) (unat (vd_id v)) = vd_generation v \<and>
        mv_nblocks (fs_meta fs) (unat (vd_id v)) = vd_nblocks v \<and>
        fs_volumes fs ! unat (vd_id v) =
          Volume_new (vd_path v) (the (files (vd_path v))) (unat (vd_nblocks v))) \<and>
     ((\<forall>i < length reg. \<not> fs_free fs i) \<and> fs_current_volume fs = 0 \<and> fs_current_gen fs = 0 \<or>
      cur_ix fs < length reg \<and> fs_current_gen fs = mv_generation (fs_meta fs) (cur_ix fs) \<and>
        fs_free fs (cur_ix fs) \<and> (\<forall>i < cur_ix fs. \<not> fs_free fs i))"
proof -
  let ?n = "length reg" and ?s = "sort_key vd_id reg"
  have ids: "distinct (map vd_id reg)" "\<forall>v \<in> set reg. unat (vd_id v) < ?n" "?n \<le> 2 ^ 20"
    "\<forall>v \<in> set reg. length (vd_path v) \<le> 4075 \<and> 0 \<notin> set (vd_path v)" "\<forall>v \<in> set reg. files (vd_path v) \<noteq> None \<and> files (vd_path v) \<noteq> Some []"
    using reg by (auto simp: registry_ok_def split: option.splits)
  from metavolume_new_pages[OF ids(1,2,4,3)] obtain mv where
    mv: "MetaVolume_new reg = Some mv" "mv_ok ?n mv" "\<forall>v \<in> set reg. mv_page_desc mv (unat (vd_id v)) = v" by blast
  have "unat (0 :: u32) + length ?s = ?n" "\<forall>r \<in> set ?s. files (vd_path r) \<noteq> None \<and> files (vd_path r) \<noteq> Some []" using ids(5) by auto
  from open_volumes_ok[OF mv(2) this] obtain vols where
    v: "fs_open_volumes files mv ?s 0 = Some vols" "length vols = ?n"
    "\<forall>j < ?n. vols ! j = Volume_new (vd_path (?s ! j)) (the (files (vd_path (?s ! j))))
       (unat (mv_nblocks mv j))" by auto
  have at_id: "?s ! unat (vd_id w) = w" if "w \<in> set reg" for w
  proof -
    have "w \<in> set ?s" using that by simp
    then obtain j where j: "j < ?n" "?s ! j = w" by (auto simp only: in_set_conv_nth length_sort)
    with sorted_ids[OF ids(1,2) j(1)] show ?thesis by simp
  qed
  from find_current_0[OF mv(2) v(2)] obtain r where r: "fs_find_current mv vols 0 = Some r" and
    rc: "case r of
        Some (k, g) \<Rightarrow> unat k < ?n \<and> g = mv_generation mv (unat k) \<and>
          mv_nblocks mv (unat k) < vol_file_size (vols ! unat k) \<and>
          (\<forall>j < unat k. \<not> mv_nblocks mv j < vol_file_size (vols ! j))
      | None \<Rightarrow> \<forall>j < ?n. \<not> mv_nblocks mv j < vol_file_size (vols ! j)" by (elim exE conjE)
  let ?fs = "\<lparr>fs_meta = mv, fs_volumes = vols, fs_dirty = replicate (length vols) 0,
      fs_current_volume = (case r of Some (i, g) \<Rightarrow> i | None \<Rightarrow> 0),
      fs_current_gen = (case r of Some (i, g) \<Rightarrow> g | None \<Rightarrow> 0),
      fs_total_size = sum_list (map (\<lambda>v. unat (Volume_get_size v)) vols), fs_volume_names = map vd_path ?s\<rparr>"
  have run: "FileStorage_new files reg = Some ?fs"
    using mv(1) v(1) r by (simp add: FileStorage_new_def Let_def)
  have pages: "mv_generation mv (unat (vd_id w)) = vd_generation w \<and>
        mv_nblocks mv (unat (vd_id w)) = vd_nblocks w \<and>
        vols ! unat (vd_id w) = Volume_new (vd_path w) (the (files (vd_path w))) (unat (vd_nblocks w))"
    if w: "w \<in> set reg" for w
  proof -
    have "mv_page_desc mv (unat (vd_id w)) = w" "unat (vd_id w) < ?n" using mv(3) ids(2) w by auto
    with mv_page_views[of mv "unat (vd_id w)" w] v(3) at_id[OF w] show ?thesis by simp
  qed
  have free: "fs_free ?fs i = (mv_nblocks mv i < vol_file_size (vols ! i))" for i by (simp add: fs_free_def)
  have cur: "(\<forall>i < ?n. \<not> fs_free ?fs i) \<and> fs_current_volume ?fs = 0 \<and> fs_current_gen ?fs = 0 \<or>
      cur_ix ?fs < ?n \<and> fs_current_gen ?fs = mv_generation (fs_meta ?fs) (cur_ix ?fs) \<and>
        fs_free ?fs (cur_ix ?fs) \<and> (\<forall>i < cur_ix ?fs. \<not> fs_free ?fs i)"
    unfolding free using rc by (cases r) auto
  have "\<forall>v \<in> set reg. mv_generation (fs_meta ?fs) (unat (vd_id v)) = vd_generation v \<and>
        mv_nblocks (fs_meta ?fs) (unat (vd_id v)) = vd_nblocks v \<and>
        fs_volumes ?fs ! unat (vd_id v) =
          Volume_new (vd_path v) (the (files (vd_path v))) (unat (vd_nblocks v))" using pages by simp
  moreover have "length (fs_volumes ?fs) = ?n" "mv_ok ?n (fs_meta ?fs)" "length (fs_dirty ?fs) = ?n"
    using mv(2) v(2) by simp_all
  ultimately show ?thesis using run cur by blast
qed

text \<open>The opened storage satisfies the invariant for every assignment of generations to
  volumes that the registry respects, once a current volume is found.\<close>

lemma storage_open_ok:
  assumes reg: "registry_ok files reg"
    and slot: "\<forall>v \<in> set reg. slot (vd_generation v) = unat (vd_id v)"
  shows "\<exists>fs. FileStorage_new files reg = Some fs \<and> length (fs_volumes fs) = length reg \<and>
     (\<forall>v \<in> set reg. mv_generation (fs_meta fs) (unat (vd_id v)) = vd_generation v \<and>
        mv_nblocks (fs_meta fs) (unat (vd_id v)) = vd_nblocks v \<and>
        vol_mem (fs_volumes fs ! unat (vd_id v)) = the (files (vd_path v)) \<and>
        fs_free fs (unat (vd_id v)) = (unat (vd_nblocks v) < length (the (files (vd_path v))) div 4096)) \<and>
     ((\<forall>i < length reg. \<not> fs_free fs i) \<and> fs_current_volume fs = 0 \<and> fs_current_gen fs = 0 \<or>
      cur_ix fs < length reg \<and> fs_current_gen fs = mv_generation (fs_meta fs) (cur_ix fs) \<and>
        fs_free fs (cur_ix fs) \<and> (\<forall>i < cur_ix fs. \<not> fs_free fs i)) \<and>
     (fs_current_gen fs = mv_generation (fs_meta fs) (cur_ix fs) \<longrightarrow> cur_ix fs < length reg \<longrightarrow> fs_ok slot fs)"
proof -
  let ?n = "length reg"
  from storage_open[OF reg] obtain fs where
    fs: "FileStorage_new files reg = Some fs" "length (fs_volumes fs) = ?n" "mv_ok ?n (fs_meta fs)"
    "length (fs_dirty fs) = ?n"
    and pg: "\<forall>v \<in> set reg. mv_generation (fs_meta fs) (unat (vd_id v)) = vd_generation v \<and>
        mv_nblocks (fs_meta fs) (unat (vd_id v)) = vd_nblocks v \<and>
        fs_volumes fs ! unat (vd_id v) =
          Volume_new (vd_path v) (the (files (vd_path v))) (unat (vd_nblocks v))"
    and cur: "(\<forall>i < ?n. \<not> fs_free fs i) \<and> fs_current_volume fs = 0 \<and> fs_current_gen fs = 0 \<or>
      cur_ix fs < ?n \<and> fs_current_gen fs = mv_generation (fs_meta fs) (cur_ix fs) \<and> fs_free fs (cur_ix fs) \<and>
        (\<forall>i < cur_ix fs. \<not> fs_free fs i)"
    by blast
  have ids: "distinct (map vd_id reg)" "\<forall>v \<in> set reg. unat (vd_id v) < ?n" "0 < ?n"
    using reg by (auto simp: registry_ok_def)
  have vol: "vol_ok (fs_volumes fs ! unat (vd_id v)) \<and> 0 < vol_file_size (fs_volumes fs ! unat (vd_id v)) \<and>
    vol_write_pos (fs_volumes fs ! unat (vd_id v)) = vd_nblocks v \<and>
    unat (vol_file_size (fs_volumes fs ! unat (vd_id v))) = length (the (files (vd_path v))) div 4096"
    if v: "v \<in> set reg" for v
  proof -
    obtain c where c: "files (vd_path v) = Some c" "4096 \<le> length c" "length c div 4096 \<le> 2 ^ 20"
      "unat (vd_nblocks v) \<le> length c div 4096"
      using reg v by (auto simp: registry_ok_def split: option.splits)
    have e: "fs_volumes fs ! unat (vd_id v) = Volume_new (vd_path v) c (unat (vd_nblocks v))"
      using pg v c(1) by simp
    show ?thesis unfolding e using opened_volume_ok[OF c(2-4), of "vd_path v"] c(1) by simp
  qed
  have each: "vol_ok (fs_volumes fs ! i) \<and> 0 < vol_file_size (fs_volumes fs ! i) \<and>
      vol_write_pos (fs_volumes fs ! i) = mv_nblocks (fs_meta fs) i \<and>
      slot (mv_generation (fs_meta fs) i) = i" if "i < ?n" for i
  proof -
    from ids_cover[OF ids(1,2) that] obtain v where v: "v \<in> set reg" "unat (vd_id v) = i" by blast
    with vol[OF v(1)] pg slot show ?thesis by auto
  qed
  have "fs_ok slot fs" if "fs_current_gen fs = mv_generation (fs_meta fs) (cur_ix fs)" "cur_ix fs < ?n"
    using fs(2-4) ids(3) that each by (simp add: fs_ok_def Let_def)
  moreover have "mv_generation (fs_meta fs) (unat (vd_id v)) = vd_generation v \<and>
        mv_nblocks (fs_meta fs) (unat (vd_id v)) = vd_nblocks v \<and>
        vol_mem (fs_volumes fs ! unat (vd_id v)) = the (files (vd_path v)) \<and>
        fs_free fs (unat (vd_id v)) = (unat (vd_nblocks v) < length (the (files (vd_path v))) div 4096)"
    if "v \<in> set reg" for v
    using pg vol[OF that] that by (simp add: fs_free_def word_less_nat_alt Volume_new_def)
  ultimately show ?thesis using fs(1,2) cur by blast
qed

text \<open>The lookup of an opened storage, from the pages and the contents of its volumes.\<close>

lemma opened_lookup:
  assumes ids: "distinct (map vd_id reg)" "\<forall>v \<in> set reg. unat (vd_id v) < length reg"
    and n: "length (fs_volumes fs) = length reg"
    and slot: "\<forall>v \<in> set reg. slot (vd_generation v) = unat (vd_id v)"
    and pg: "\<forall>v \<in> set reg. mv_generation (fs_meta fs) (unat (vd_id v)) = vd_generation v \<and>
        mv_nblocks (fs_meta fs) (unat (vd_id v)) = vd_nblocks v \<and>
        vol_mem (fs_volumes fs ! unat (vd_id v)) = the (files (vd_path v))"
  shows "fs_lookup slot fs a = Some bs \<longleftrightarrow>
     (\<exists>v \<in> set reg. extract_gen a = vd_generation v \<and> extract_vol a < vd_nblocks v \<and>
        bs = take 4096 (drop (unat (extract_vol a) * 4096) (the (files (vd_path v)))))"
proof
  assume "fs_lookup slot fs a = Some bs"
  then have l: "slot (extract_gen a) < length reg"
    "mv_generation (fs_meta fs) (slot (extract_gen a)) = extract_gen a"
    "extract_vol a < mv_nblocks (fs_meta fs) (slot (extract_gen a))"
    "bs = vol_block (fs_volumes fs ! slot (extract_gen a)) (unat (extract_vol a))"
    using n by (auto simp: fs_lookup_def Let_def split: if_splits)
  from ids_cover[OF ids l(1)] obtain v where v: "v \<in> set reg" "unat (vd_id v) = slot (extract_gen a)" by blast
  with pg have "mv_generation (fs_meta fs) (slot (extract_gen a)) = vd_generation v"
    "mv_nblocks (fs_meta fs) (slot (extract_gen a)) = vd_nblocks v"
    "vol_mem (fs_volumes fs ! slot (extract_gen a)) = the (files (vd_path v))" by metis+
  with l v(1) show "\<exists>v \<in> set reg. extract_gen a = vd_generation v \<and> extract_vol a < vd_nblocks v \<and>
        bs = take 4096 (drop (unat (extract_vol a) * 4096) (the (files (vd_path v))))"
    by (intro bexI[of _ v]) (simp_all add: vol_block_def)
next
  assume "\<exists>v \<in> set reg. extract_gen a = vd_generation v \<and> extract_vol a < vd_nblocks v \<and>
        bs = take 4096 (drop (unat (extract_vol a) * 4096) (the (files (vd_path v))))"
  then show "fs_lookup slot fs a = Some bs"
    using slot pg ids(2) n by (auto simp: fs_lookup_def Let_def vol_block_def)
qed

text \<open>C19. Reopening: a registry whose generations belong to their volumes and that leaves free
  space somewhere opens to a storage that satisfies the invariant and holds exactly the recorded
  blocks: an address is bound if and only if its generation is that of a registered volume and
  its index lies below the recorded block count, and then to the bytes of the file there.  The
  current volume is the first one, by identifier, with free space.\<close>

theorem fixed_open:
  assumes "registry_ok files reg"
    and "\<forall>v \<in> set reg. unat (vd_generation v) mod length reg = unat (vd_id v)"
    and "\<exists>v \<in> set reg. unat (vd_nblocks v) < length (the (files (vd_path v))) div FASTSTDB_BLOCK_SIZE"
  shows "\<exists>fs. FileStorage_new files reg = Some fs \<and> fixed_ok fs \<and>
     (\<forall>a bs. fixed_lookup fs a = Some bs \<longleftrightarrow>
        (\<exists>v \<in> set reg. extract_gen a = vd_generation v \<and> extract_vol a < vd_nblocks v \<and>
           bs = take FASTSTDB_BLOCK_SIZE (drop (unat (extract_vol a) * FASTSTDB_BLOCK_SIZE) (the (files (vd_path v)))))) \<and>
     (\<exists>v \<in> set reg. fs_current_volume fs = vd_id v \<and> fs_current_gen fs = vd_generation v \<and>
        unat (vd_nblocks v) < length (the (files (vd_path v))) div FASTSTDB_BLOCK_SIZE \<and>
        (\<forall>w \<in> set reg. vd_id w < vd_id v \<longrightarrow>
           length (the (files (vd_path w))) div FASTSTDB_BLOCK_SIZE \<le> unat (vd_nblocks w)))"
proof -
  let ?n = "length reg" and ?slot = "fixed_slot (length reg)"
  have slot: "\<forall>v \<in> set reg. ?slot (vd_generation v) = unat (vd_id v)" using assms(2) by (simp add: fixed_slot_def)
  from storage_open_ok[OF assms(1) slot] obtain fs where
    fs: "FileStorage_new files reg = Some fs" "length (fs_volumes fs) = ?n"
    and pg: "\<forall>v \<in> set reg. mv_generation (fs_meta fs) (unat (vd_id v)) = vd_generation v \<and>
        mv_nblocks (fs_meta fs) (unat (vd_id v)) = vd_nblocks v \<and>
        vol_mem (fs_volumes fs ! unat (vd_id v)) = the (files (vd_path v))"
    and free: "\<forall>v \<in> set reg. fs_free fs (unat (vd_id v)) = (unat (vd_nblocks v) < length (the (files (vd_path v))) div 4096)"
    and cur: "(\<forall>i < ?n. \<not> fs_free fs i) \<or>
      cur_ix fs < ?n \<and> fs_current_gen fs = mv_generation (fs_meta fs) (cur_ix fs) \<and> fs_free fs (cur_ix fs) \<and>
        (\<forall>i < cur_ix fs. \<not> fs_free fs i)"
    and ok: "fs_current_gen fs = mv_generation (fs_meta fs) (cur_ix fs) \<longrightarrow> cur_ix fs < ?n \<longrightarrow> fs_ok ?slot fs"
    by blast
  have ids: "distinct (map vd_id reg)" "\<forall>v \<in> set reg. unat (vd_id v) < ?n" using assms(1) by (auto simp: registry_ok_def)
  have "\<exists>i < ?n. fs_free fs i" using assms(3) free ids(2) by blast
  with cur have c: "cur_ix fs < ?n" "fs_current_gen fs = mv_generation (fs_meta fs) (cur_ix fs)"
    "fs_free fs (cur_ix fs)" "\<forall>i < cur_ix fs. \<not> fs_free fs i" by auto
  with ok fs(2) have "fixed_ok fs" by simp
  moreover obtain v where v: "v \<in> set reg" "unat (vd_id v) = cur_ix fs" using ids_cover[OF ids c(1)] by blast
  have "length (the (files (vd_path w))) div 4096 \<le> unat (vd_nblocks w)" if "w \<in> set reg" "vd_id w < vd_id v" for w
    using free c(4) that v(2) by (metis not_less word_less_nat_alt)
  then have "\<exists>v \<in> set reg. fs_current_volume fs = vd_id v \<and> fs_current_gen fs = vd_generation v \<and>
      unat (vd_nblocks v) < length (the (files (vd_path v))) div 4096 \<and>
      (\<forall>w \<in> set reg. vd_id w < vd_id v \<longrightarrow> length (the (files (vd_path w))) div 4096 \<le> unat (vd_nblocks w))"
    using v c(2,3) pg free by (intro bexI[of _ v]) (auto simp: word_unat_eq_iff)
  moreover have "\<forall>a bs. fixed_lookup fs a = Some bs \<longleftrightarrow>
        (\<exists>v \<in> set reg. extract_gen a = vd_generation v \<and> extract_vol a < vd_nblocks v \<and>
           bs = take 4096 (drop (unat (extract_vol a) * 4096) (the (files (vd_path v)))))"
    unfolding fs(2) by (intro allI opened_lookup[OF ids fs(2) slot pg])
  ultimately show ?thesis using fs(1) by blast
qed

definition demo_registry :: "volume_desc list" where
  "demo_registry = [\<lparr>vd_id = 0, vd_path = [97], vd_version = 101, vd_nblocks = 1, vd_capacity = 2,
     vd_generation = 0\<rparr>]"

theorem fixed_open_witness:
  "\<exists>fs. FileStorage_new (\<lambda>_. Some (replicate 8192 7)) demo_registry = Some fs \<and> fixed_ok fs \<and>
     fixed_lookup fs (make_logic 0 0) = Some (replicate 4096 7) \<and> fixed_lookup fs (make_logic 0 1) = None \<and>
     fs_current_volume fs = 0"
proof -
  define F :: "u8 list \<Rightarrow> u8 list option" where "F = (\<lambda>_. Some (replicate 8192 7))"
  have "registry_ok F demo_registry"
    "\<forall>v \<in> set demo_registry. unat (vd_generation v) mod length demo_registry = unat (vd_id v)"
    "\<exists>v \<in> set demo_registry. unat (vd_nblocks v) < length (the (F (vd_path v))) div FASTSTDB_BLOCK_SIZE"
    by (simp_all add: registry_ok_def demo_registry_def F_def)
  from fixed_open[OF this] obtain fs where
    fs: "FileStorage_new F demo_registry = Some fs" "fixed_ok fs"
    and l: "\<forall>a bs. fixed_lookup fs a = Some bs \<longleftrightarrow>
        (\<exists>v \<in> set demo_registry. extract_gen a = vd_generation v \<and> extract_vol a < vd_nblocks v \<and>
           bs = take 4096 (drop (unat (extract_vol a) * 4096) (the (F (vd_path v)))))"
    and c: "\<exists>v \<in> set demo_registry. fs_current_volume fs = vd_id v"
    by (elim exE conjE bexE) (rule that; (assumption | (rule bexI; assumption)))
  from c have c: "fs_current_volume fs = 0" by (simp add: demo_registry_def)
  have "fixed_lookup fs (make_logic 0 0) = Some (replicate 4096 7)" using l by (simp add: demo_registry_def F_def)
  moreover have "fixed_lookup fs (make_logic 0 1) \<noteq> Some bs" for bs using l by (simp add: demo_registry_def)
  then have "fixed_lookup fs (make_logic 0 1) = None" by (meson not_Some_eq)
  ultimately show ?thesis using fs c by (auto simp: F_def)
qed

lemma expandable_loses_volume:
  assumes "fs_ok unat fs" and "fs_current_volume fs = 0" and "2 \<le> length (fs_volumes fs)"
    and "\<not> vol_write_pos (cur_vol fs) < vol_file_size (cur_vol fs)"
    and "mv_nblocks (fs_meta fs) 1 \<noteq> 0" and "ib_inv b"
  shows "ExpandableFileStorage_exists (make_logic 1 0) fs = Some True \<and>
     (\<exists>addr d fs'. FileStorage_append_block (ExpandableFileStorage_adjust_current_volume files db) IoOk b fs =
          Some ((kOk, addr), d, fs') \<and>
        ExpandableFileStorage_exists addr fs' = Some False \<and>
        (\<forall>a. extract_gen a = 1 \<longrightarrow> ExpandableFileStorage_exists a fs' = Some False))"
proof -
  let ?n = "length (fs_volumes fs)" and ?adj = "ExpandableFileStorage_adjust_current_volume files db"
  let ?slot = "fixed_slot ?n"
  have n: "?n \<le> 2 ^ 20" using fs_ok_bound[OF assms(1)] by simp
  have mv: "mv_ok ?n (fs_meta fs)" by (rule fs_ok_cur(5)[OF assms(1)])
  have gen: "unat (mv_generation (fs_meta fs) i) = i" if "i < ?n" for i
    using assms(1) that by (simp add: fs_ok_def Let_def)
  have ok: "fs_ok ?slot fs" using assms(1) gen by (simp add: fs_ok_def Let_def fixed_slot_def)
  have u1: "unat (1 :: u32) = 1" by simp
  have g1: "mv_generation (fs_meta fs) 1 = 1" using gen[of 1] assms(3) by (simp add: word_unat_eq_iff)
  have adj: "?adj fs = Some (fs\<lparr>fs_current_volume := 1\<rparr>)"
    using assms(2,3) by (simp add: ExpandableFileStorage_adjust_current_volume_def Let_def)
  have un: "unat (1 + of_nat ?n :: u32) = Suc ?n" using n by (simp add: unat_word_ariths unat_of_nat)
  have sl: "?slot (1 + of_nat ?n) = unat (1 :: u32)" using assms(3) un by (simp add: fixed_slot_def mod_Suc)
  have lt: "unat (1 :: u32) < ?n" using assms(3) by simp
  from transition_move[of ?adj, OF adj ok lt, of 1 "mv_nblocks (fs_meta fs) 1"] g1 sl obtain fs2 where
    t: "handle_volume_transition ?adj fs = Some fs2" "fs_ok ?slot fs2" "length (fs_volumes fs2) = ?n"
    "vol_write_pos (cur_vol fs2) < vol_file_size (cur_vol fs2)" "fs_current_gen fs2 = 1 + of_nat ?n"
    using assms(5) by auto
  from fs_append_room[OF t(2) assms(6) t(4)] obtain fs3 fs4 addr d where
    a: "fs_append_current IoOk b fs2 = Some ((kOk, vol_write_pos (cur_vol fs2)), fs3)"
    "fs_commit_block (vol_write_pos (cur_vol fs2)) b fs3 = Some ((kOk, addr), d, fs4)"
    "fs_ok ?slot fs4" "length (fs_volumes fs4) = ?n" "extract_gen addr = 1 + of_nat ?n"
    "fs_lookup ?slot fs4 addr \<noteq> None" using t(3,5) by auto
  have run: "FileStorage_append_block ?adj IoOk b fs = Some ((kOk, addr), d, fs4)"
    using fs_append_full[OF assms(1,4)] t(1) a(1,2) by (simp add: FileStorage_append_block_def)
  have mv4: "mv_ok ?n (fs_meta fs4)" using fs_ok_cur(5)[OF a(3)] a(4) by simp
  have "mv_generation (fs_meta fs4) 1 = 1 + of_nat ?n"
    using a(5,6) sl by (auto simp: fs_lookup_def Let_def split: if_splits)
  then have "mv_generation (fs_meta fs4) 1 \<noteq> 1" using un u1 assms(3) by (metis Suc_inject not_numeral_le_zero One_nat_def)
  then have gone: "ExpandableFileStorage_exists x fs4 = Some False" if "extract_gen x = 1" for x
    using that mv_getters[OF mv4, of 1] lt by (simp add: ExpandableFileStorage_exists_def Let_def)
  have "ExpandableFileStorage_exists addr fs4 = Some False"
    using mv_getters_range[OF mv4, of "extract_gen addr"] a(5) un by (simp add: ExpandableFileStorage_exists_def Let_def)
  moreover have "ExpandableFileStorage_exists (make_logic 1 0) fs = Some True"
    using mv_getters[OF mv, of 1] lt g1 assms(5)
    by (simp add: ExpandableFileStorage_exists_def Let_def word_neq_0_conv)
  ultimately show ?thesis using run gone by blast
qed

text \<open>C27. An expandable storage of at least two volumes that is reopened when all of them are full
  starts at volume 0 and still has the blocks of generation 1.  The next append then moves to
  volume 1, which is not empty: it is reset, no address of generation 1 exists any more, and
  the address returned for the block just appended does not exist either.\<close>

theorem expandable_reopen_loses_volume:
  assumes "registry_ok files reg" and "2 \<le> length reg" and "ib_inv b"
    and "\<forall>v \<in> set reg. vd_generation v = vd_id v \<and>
           unat (vd_nblocks v) = length (the (files (vd_path v))) div FASTSTDB_BLOCK_SIZE"
  shows "\<exists>fs addr d fs'. FileStorage_new files reg = Some fs \<and> fs_current_volume fs = 0 \<and>
     ExpandableFileStorage_exists (make_logic 1 0) fs = Some True \<and>
     FileStorage_append_block (ExpandableFileStorage_adjust_current_volume files' db) IoOk b fs =
       Some ((kOk, addr), d, fs') \<and>
     ExpandableFileStorage_exists addr fs' = Some False \<and>
     (\<forall>a. extract_gen a = 1 \<longrightarrow> ExpandableFileStorage_exists a fs' = Some False)"
proof -
  let ?n = "length reg"
  have slot: "\<forall>v \<in> set reg. unat (vd_generation v) = unat (vd_id v)" using assms(4) by simp
  from storage_open_ok[where slot = unat, OF assms(1) slot] obtain fs where
    fs: "FileStorage_new files reg = Some fs" "length (fs_volumes fs) = ?n"
    and pg: "\<forall>v \<in> set reg. mv_generation (fs_meta fs) (unat (vd_id v)) = vd_generation v \<and>
        mv_nblocks (fs_meta fs) (unat (vd_id v)) = vd_nblocks v \<and>
        fs_free fs (unat (vd_id v)) = (unat (vd_nblocks v) < length (the (files (vd_path v))) div 4096)"
    and cur: "fs_current_volume fs = 0 \<and> fs_current_gen fs = 0 \<or> cur_ix fs < ?n \<and> fs_free fs (cur_ix fs)"
    and ok: "fs_current_gen fs = mv_generation (fs_meta fs) (cur_ix fs) \<longrightarrow> cur_ix fs < ?n \<longrightarrow> fs_ok unat fs"
    by blast
  have ids: "distinct (map vd_id reg)" "\<forall>v \<in> set reg. unat (vd_id v) < ?n" using assms(1) by (auto simp: registry_ok_def)
  note cover = ids_cover[OF ids]
  have full: "\<not> fs_free fs i" if "i < ?n" for i using cover[OF that] pg assms(4) by auto
  with cur have c0: "fs_current_volume fs = 0" "fs_current_gen fs = 0" by auto
  have "0 < ?n" "1 < ?n" using assms(2) by linarith+
  then obtain v0 v1 where v: "v0 \<in> set reg" "unat (vd_id v0) = 0" "v1 \<in> set reg" "unat (vd_id v1) = 1"
    using cover[of 0] cover[of 1] by blast
  have "vd_id v0 = 0" using v(2) by (simp add: unat_eq_zero)
  then have "mv_generation (fs_meta fs) 0 = 0" using pg v(1,2) assms(4) by auto
  then have fok: "fs_ok unat fs" using ok c0 assms(2) by auto
  have nf: "\<not> vol_write_pos (cur_vol fs) < vol_file_size (cur_vol fs)"
    using full[OF \<open>0 < ?n\<close>] fs_ok_cur(3)[OF fok] c0 by (simp add: fs_free_def)
  obtain c where c: "files (vd_path v1) = Some c" "4096 \<le> length c"
    using assms(1) v(3) by (auto simp: registry_ok_def split: option.splits)
  have "1 \<le> length c div 4096" using c(2) div_le_mono[of 4096 "length c" 4096] by simp
  then have "unat (vd_nblocks v1) \<noteq> 0" using assms(4) v(3) c(1) by auto
  then have "mv_nblocks (fs_meta fs) 1 \<noteq> 0" using pg v(3,4) by auto
  from expandable_loses_volume[OF fok c0(1) _ nf this assms(3), of files' db] assms(2) fs c0(1) show ?thesis by auto
qed

theorem expandable_reopen_loses_volume_witness:
  "let files = (\<lambda>_. Some (replicate 4096 0));
       reg = [\<lparr>vd_id = 0, vd_path = [97], vd_version = 101, vd_nblocks = 1, vd_capacity = 1, vd_generation = 0\<rparr>,
              \<lparr>vd_id = 1, vd_path = [98], vd_version = 101, vd_nblocks = 1, vd_capacity = 1, vd_generation = 1\<rparr>]
   in \<exists>fs addr d fs'. FileStorage_new files reg = Some fs \<and>
     ExpandableFileStorage_exists (make_logic 1 0) fs = Some True \<and>
     FileStorage_append_block (ExpandableFileStorage_adjust_current_volume files []) IoOk IOVecBlock_new fs =
       Some ((kOk, addr), d, fs') \<and>
     ExpandableFileStorage_exists addr fs' = Some False \<and>
     ExpandableFileStorage_exists (make_logic 1 0) fs' = Some False"
proof -
  let ?files = "\<lambda>_ :: u8 list. Some (replicate 4096 (0 :: u8))"
  let ?reg = "[\<lparr>vd_id = 0, vd_path = [97], vd_version = 101, vd_nblocks = 1, vd_capacity = 1, vd_generation = 0\<rparr>,
    \<lparr>vd_id = 1, vd_path = [98], vd_version = 101, vd_nblocks = 1, vd_capacity = 1, vd_generation = 1\<rparr>] :: volume_desc list"
  have r: "registry_ok ?files ?reg" by (simp add: registry_ok_def)
  have v: "\<forall>v \<in> set ?reg. vd_generation v = vd_id v \<and>
           unat (vd_nblocks v) = length (the (?files (vd_path v))) div FASTSTDB_BLOCK_SIZE" by simp
  have "2 \<le> length ?reg" by simp
  from expandable_reopen_loses_volume[OF r this ib_inv_new v, of ?files "[]"] obtain fs addr d fs' where
    w: "FileStorage_new ?files ?reg = Some fs" "ExpandableFileStorage_exists (make_logic 1 0) fs = Some True"
     "FileStorage_append_block (ExpandableFileStorage_adjust_current_volume ?files []) IoOk IOVecBlock_new fs =
       Some ((kOk, addr), d, fs')" "ExpandableFileStorage_exists addr fs' = Some False"
     "ExpandableFileStorage_exists (make_logic 1 0) fs' = Some False" by (metis extract_make(1))
  then show ?thesis unfolding Let_def by blast
qed

end
