(* ===== verification/Crc32c.thy ===== *)
theory Crc32c
  imports Bytes
begin

text \<open>
  The checksum of \<^verbatim>\<open>common/crc32c.cc\<close>: the table driven software version (one byte and eight
  bytes at a time), the hardware version (the \<open>crc32b\<close> and \<open>crc32q\<close> instructions, three lanes
  in parallel that are joined by multiplying with a matrix over the field of two elements), and
  the proof that both compute the bit-by-bit CRC-32C.
\<close>

subsection \<open>Software version\<close>

definition POLY :: u32 where
  "POLY = 0x82f63b78"

text \<open>The statement \<open>crc = (crc & 1) ? (crc >> 1) ^ POLY : crc >> 1\<close>.\<close>

definition crc_bit :: "u32 \<Rightarrow> u32" where
  "crc_bit crc = (if crc AND 1 \<noteq> 0 then drop_bit 1 crc XOR POLY else drop_bit 1 crc)"

text \<open>The two loops of \<open>crc32c_init_sw\<close>.  Indices are masked to a byte, so every look-up of
  the tables is in range.\<close>

definition crc32c_row0 :: "u32 list" where
  "crc32c_row0 = map (\<lambda>n. (crc_bit ^^ 8) (of_nat n)) [0..<256]"

definition crc32c_next :: "u32 \<Rightarrow> u32" where
  "crc32c_next crc = crc32c_row0 ! unat (crc AND 0xff) XOR drop_bit 8 crc"

definition crc32c_table :: "u32 list list" where
  "crc32c_table = map (\<lambda>k. map (\<lambda>n. (crc32c_next ^^ k) (crc32c_row0 ! n)) [0..<256]) [0..<8]"

definition crc_tab :: "nat \<Rightarrow> u64 \<Rightarrow> u64" where
  "crc_tab k ix = ucast (crc32c_table ! k ! unat ix)"

definition sw_byte :: "u64 \<Rightarrow> u8 \<Rightarrow> u64" where
  "sw_byte crc b = crc_tab 0 ((crc XOR ucast b) AND 0xff) XOR drop_bit 8 crc"

definition sw_word :: "u64 \<Rightarrow> u64 \<Rightarrow> u64" where
  "sw_word crc w =
     (let crc = crc XOR w
      in crc_tab 7 (crc AND 0xff) XOR
         crc_tab 6 (drop_bit 8 crc AND 0xff) XOR
         crc_tab 5 (drop_bit 16 crc AND 0xff) XOR
         crc_tab 4 (drop_bit 24 crc AND 0xff) XOR
         crc_tab 3 (drop_bit 32 crc AND 0xff) XOR
         crc_tab 2 (drop_bit 40 crc AND 0xff) XOR
         crc_tab 1 (drop_bit 48 crc AND 0xff) XOR
         crc_tab 0 (drop_bit 56 crc))"

text \<open>The loop up to an eight-byte boundary; \<open>addr\<close> is the address of the first byte.\<close>

fun sw_align :: "nat \<Rightarrow> u8 list \<Rightarrow> u64 \<Rightarrow> u8 list \<times> u64" where
  "sw_align addr [] crc = ([], crc)"
| "sw_align addr (b # bs) crc =
     (if addr mod 8 \<noteq> 0 then sw_align (addr + 1) bs (sw_byte crc b) else (b # bs, crc))"

function sw_words :: "u8 list \<Rightarrow> u64 \<Rightarrow> u8 list \<times> u64" where
  "sw_words bs crc =
     (if 8 \<le> length bs then sw_words (drop 8 bs) (sw_word crc (le_val (take 8 bs))) else (bs, crc))"
  by auto
termination by (relation "measure (\<lambda>(bs, crc). length bs)") auto

declare sw_words.simps [simp del]

definition crc32c_sw :: "nat \<Rightarrow> u32 \<Rightarrow> u8 list \<Rightarrow> u32" where
  "crc32c_sw addr crci buf =
     (let crc = ucast (crci XOR 0xffffffff);
          (bs, crc) = sw_align addr buf crc;
          (bs, crc) = sw_words bs crc
      in ucast (foldl sw_byte crc bs) XOR 0xffffffff)"

subsection \<open>Hardware version\<close>

text \<open>\<open>crc32b\<close> and \<open>crc32q\<close> accumulate one and eight bytes into the low half of the register
  and clear the high half.\<close>

definition crc_byte :: "u32 \<Rightarrow> u8 \<Rightarrow> u32" where
  "crc_byte c b = (crc_bit ^^ 8) (c XOR ucast b)"

definition crc32b :: "u64 \<Rightarrow> u8 \<Rightarrow> u64" where
  "crc32b r b = ucast (crc_byte (ucast r) b)"

definition crc32q :: "u64 \<Rightarrow> u8 list \<Rightarrow> u64" where
  "crc32q r bs = ucast (foldl crc_byte (ucast r) (take 8 bs))"

fun gf2_matrix_times :: "u32 list \<Rightarrow> u32 \<Rightarrow> u32 \<Rightarrow> u32 option" where
  "gf2_matrix_times [] vec s = (if vec = 0 then Some s else None)"
| "gf2_matrix_times (m # mat) vec s =
     (if vec = 0 then Some s
      else gf2_matrix_times mat (drop_bit 1 vec) (if vec AND 1 \<noteq> 0 then s XOR m else s))"

definition gf2_matrix_square :: "u32 list \<Rightarrow> u32 list option" where
  "gf2_matrix_square mat = those (map (\<lambda>n. gf2_matrix_times mat (mat ! n) 0) [0..<32])"

definition zeros_odd :: "u32 list" where
  "zeros_odd = POLY # map (\<lambda>n. push_bit n 1) [0..<31]"

function zeros_loop :: "u32 list \<Rightarrow> nat \<Rightarrow> u32 list option" where
  "zeros_loop odd_op len =
     do {
       even_op \<leftarrow> gf2_matrix_square odd_op;
       let len = len div 2;
       if len = 0 then Some even_op
       else do {
         odd_op \<leftarrow> gf2_matrix_square even_op;
         let len = len div 2;
         if len \<noteq> 0 then zeros_loop odd_op len else Some odd_op } }"
  by auto
termination by (relation "measure (\<lambda>(odd_op, len). len)") auto

declare zeros_loop.simps [simp del]

definition crc32c_zeros_op :: "nat \<Rightarrow> u32 list option" where
  "crc32c_zeros_op len =
     do {
       even_op \<leftarrow> gf2_matrix_square zeros_odd;
       odd_op \<leftarrow> gf2_matrix_square even_op;
       zeros_loop odd_op len }"

definition crc32c_zeros :: "nat \<Rightarrow> u32 list list option" where
  "crc32c_zeros len =
     do {
       op \<leftarrow> crc32c_zeros_op len;
       those (map (\<lambda>k. those (map (\<lambda>n. gf2_matrix_times op (push_bit (8 * k) (of_nat n)) 0) [0..<256]))
                [0..<4]) }"

definition crc32c_shift :: "u32 list list \<Rightarrow> u32 \<Rightarrow> u32" where
  "crc32c_shift zeros crc =
     zeros ! 0 ! unat (crc AND 0xff) XOR zeros ! 1 ! unat (drop_bit 8 crc AND 0xff) XOR
     zeros ! 2 ! unat (drop_bit 16 crc AND 0xff) XOR zeros ! 3 ! unat (drop_bit 24 crc)"

fun hw_align :: "nat \<Rightarrow> u8 list \<Rightarrow> u64 \<Rightarrow> u8 list \<times> u64" where
  "hw_align addr [] crc = ([], crc)"
| "hw_align addr (b # bs) crc =
     (if addr mod 8 \<noteq> 0 then hw_align (addr + 1) bs (crc32b crc b) else (b # bs, crc))"

text \<open>The inner loop of one round, \<open>n\<close> steps of eight bytes in each of the three lanes.\<close>

primrec hw_lanes :: "nat \<Rightarrow> nat \<Rightarrow> u8 list \<Rightarrow> u64 \<Rightarrow> u64 \<Rightarrow> u64 \<Rightarrow> u64 \<times> u64 \<times> u64" where
  "hw_lanes L 0 bs c0 c1 c2 = (c0, c1, c2)"
| "hw_lanes L (Suc n) bs c0 c1 c2 =
     hw_lanes L n (drop 8 bs) (crc32q c0 bs) (crc32q c1 (drop L bs)) (crc32q c2 (drop (2 * L) bs))"

text \<open>The rounds over \<open>3 * L\<close> bytes, with the tables that shift by \<open>L\<close> zero bytes.\<close>

function hw_rounds :: "nat \<Rightarrow> u32 list list \<Rightarrow> u8 list \<Rightarrow> u64 \<Rightarrow> u8 list \<times> u64" where
  "hw_rounds L zeros bs crc0 =
     (if 0 < L \<and> L * 3 \<le> length bs then
        let (crc0, crc1, crc2) = hw_lanes L (L div 8) bs crc0 0 0;
            crc0 = ucast (crc32c_shift zeros (ucast crc0)) XOR crc1;
            crc0 = ucast (crc32c_shift zeros (ucast crc0)) XOR crc2
        in hw_rounds L zeros (drop (L * 3) bs) crc0
      else (bs, crc0))"
  by auto
termination by (relation "measure (\<lambda>(L, zeros, bs, crc). length bs)") auto

declare hw_rounds.simps [simp del]

function hw_words :: "u8 list \<Rightarrow> u64 \<Rightarrow> u8 list \<times> u64" where
  "hw_words bs crc = (if 8 \<le> length bs then hw_words (drop 8 bs) (crc32q crc bs) else (bs, crc))"
  by auto
termination by (relation "measure (\<lambda>(bs, crc). length bs)") auto

declare hw_words.simps [simp del]

definition crc32c_hw :: "nat \<Rightarrow> u32 \<Rightarrow> u8 list \<Rightarrow> u32 option" where
  "crc32c_hw addr crc buf =
     do {
       crc32c_long \<leftarrow> crc32c_zeros 8192;
       crc32c_short \<leftarrow> crc32c_zeros 256;
       let (bs, crc0) = hw_align addr buf (ucast (crc XOR 0xffffffff));
       let (bs, crc0) = hw_rounds 8192 crc32c_long bs crc0;
       let (bs, crc0) = hw_rounds 256 crc32c_short bs crc0;
       let (bs, crc0) = hw_words bs crc0;
       Some (ucast (foldl crc32b crc0 bs) XOR 0xffffffff) }"

datatype CRC32C_hint = DETECT | FORCE_SW | FORCE_HW

text \<open>The chosen implementation, applied; \<open>available\<close> is the answer of \<open>cpuid\<close>.\<close>

definition chose_crc32c_implementation ::
  "CRC32C_hint \<Rightarrow> bool \<Rightarrow> nat \<Rightarrow> u32 \<Rightarrow> u8 list \<Rightarrow> u32 option" where
  "chose_crc32c_implementation hint available =
     (case hint of
        FORCE_HW \<Rightarrow> crc32c_hw
      | FORCE_SW \<Rightarrow> (\<lambda>addr crc buf. Some (crc32c_sw addr crc buf))
      | DETECT \<Rightarrow> if available then crc32c_hw else (\<lambda>addr crc buf. Some (crc32c_sw addr crc buf)))"

subsection \<open>The checksum as a linear map\<close>

definition crc32c_ref :: "u32 \<Rightarrow> u8 list \<Rightarrow> u32" where
  "crc32c_ref crci bs = foldl crc_byte (crci XOR 0xffffffff) bs XOR 0xffffffff"

definition gf2_linear :: "(u32 \<Rightarrow> u32) \<Rightarrow> bool" where
  "gf2_linear f \<longleftrightarrow> (\<forall>a b. f (a XOR b) = f a XOR f b)"

text \<open>The operator that appends \<open>n\<close> zero bytes.\<close>

definition crc_zero_bytes :: "nat \<Rightarrow> u32 \<Rightarrow> u32" where
  "crc_zero_bytes n = crc_bit ^^ (8 * n)"

lemma linear_xor: "gf2_linear f \<Longrightarrow> f (a XOR b) = f a XOR f b"
  by (simp add: gf2_linear_def)

lemma linear_0: "gf2_linear f \<Longrightarrow> f 0 = 0"
  using linear_xor[of f 0 0] by simp

lemma linear_funpow: "gf2_linear f \<Longrightarrow> gf2_linear (f ^^ n)"
  by (induction n) (auto simp: gf2_linear_def)

lemma crc_bit_alt: "crc_bit c = drop_bit 1 c XOR (if bit c 0 then POLY else 0)"
  by (simp add: crc_bit_def and_one_eq bit_0 odd_iff_mod_2_eq_one even_iff_mod_2_eq_zero)

lemma crc_bit_linear: "gf2_linear crc_bit"
  unfolding gf2_linear_def crc_bit_alt
  by (intro allI bit_word_eqI) (auto simp: bit_simps)

lemma zero_bytes_linear: "gf2_linear (crc_zero_bytes n)"
  unfolding crc_zero_bytes_def by (rule linear_funpow[OF crc_bit_linear])

lemmas zero_bytes_xor = linear_xor[OF zero_bytes_linear]

lemma zero_bytes_add: "crc_zero_bytes (m + n) c = crc_zero_bytes m (crc_zero_bytes n c)"
  by (simp add: crc_zero_bytes_def distrib_left funpow_add)

lemma zero_bytes_0 [simp]: "crc_zero_bytes 0 c = c"
  by (simp add: crc_zero_bytes_def)

lemma crc_byte_zero_bytes: "crc_byte c b = crc_zero_bytes 1 (c XOR ucast b)"
  by (simp add: crc_byte_def crc_zero_bytes_def)

lemma crc_bit_push:
  assumes "\<And>i. 32 - n \<le> i \<Longrightarrow> \<not> bit y i" and "n \<le> 32"
  shows "(crc_bit ^^ n) (push_bit n y) = y"
  using assms
proof (induction n)
  case (Suc n)
  have "crc_bit (push_bit (Suc n) y) = push_bit n y"
    unfolding crc_bit_alt
  proof (rule bit_word_eqI)
    fix i assume "i < LENGTH(32)"
    with Suc.prems(1)[of "i - n"] show
      "bit (drop_bit 1 (push_bit (Suc n) y) XOR (if bit (push_bit (Suc n) y) 0 then POLY else 0)) i =
       bit (push_bit n y) i"
      by (cases "i = 31") (auto simp: bit_simps simp del: push_bit_Suc)
  qed
  then have "(crc_bit ^^ Suc n) (push_bit (Suc n) y) = (crc_bit ^^ n) (push_bit n y)"
    unfolding funpow_Suc_right comp_def by simp
  also have "\<dots> = y" by (rule Suc.IH) (use Suc.prems in auto)
  finally show ?case .
qed simp

lemma and_ff: "x AND 0xff = take_bit 8 (x :: 'a::len word)"
  by (simp add: take_bit_eq_mask mask_eq_exp_minus_1)

lemma zero_bytes_push_byte:
  assumes "k \<le> 3"
  shows "crc_zero_bytes k (push_bit (8 * k) (x AND 0xff)) = x AND 0xff"
  unfolding crc_zero_bytes_def
proof (rule crc_bit_push)
  fix i assume "32 - 8 * k \<le> i"
  then have "8 \<le> i" using assms by simp
  then show "\<not> bit (x AND 0xff) i" by (simp add: and_ff bit_simps)
qed (use assms in simp)

subsection \<open>The tables\<close>

lemma zero_byte_split: "crc_zero_bytes 1 c = crc_zero_bytes 1 (c AND 0xff) XOR drop_bit 8 c"
proof -
  have "c = (c AND 0xff) XOR push_bit 8 (drop_bit 8 c)"
    unfolding and_ff by (rule bit_word_eqI) (auto simp: bit_simps)
  moreover have "crc_zero_bytes 1 (push_bit 8 (drop_bit 8 c)) = drop_bit 8 c"
    unfolding crc_zero_bytes_def mult_1_right
    by (rule crc_bit_push) (auto simp: bit_simps dest: bit_imp_le_length)
  ultimately show ?thesis using zero_bytes_xor[of 1 "c AND 0xff" "push_bit 8 (drop_bit 8 c)"] by simp
qed

lemma row0_nth: "n < 256 \<Longrightarrow> crc32c_row0 ! n = crc_zero_bytes 1 (of_nat n)"
  by (simp add: crc32c_row0_def crc_zero_bytes_def del: upt_rec_numeral)

lemma unat_low_byte: "unat (c AND 0xff :: 'a::len word) < 256"
  by (simp add: and_ff unsigned_take_bit_eq take_bit_nat_less_exp[of 8, simplified])

lemma crc32c_next_eq: "crc32c_next = crc_zero_bytes 1"
proof
  fix c
  have "crc32c_row0 ! unat (c AND 0xff) = crc_zero_bytes 1 (c AND 0xff)"
    by (simp add: row0_nth unat_low_byte)
  then show "crc32c_next c = crc_zero_bytes 1 c" unfolding crc32c_next_def zero_byte_split[of c] by simp
qed

lemma zero_bytes_funpow: "(crc_zero_bytes 1 ^^ k) c = crc_zero_bytes k c"
proof (induction k)
  case (Suc k)
  from zero_bytes_add[of 1 k c] Suc show ?case by simp
qed simp

lemma crc_tab_eq:
  assumes "k < 8" and "unat ix < 256"
  shows "crc_tab k ix = ucast (crc_zero_bytes (Suc k) (ucast ix))"
proof -
  have "crc32c_table ! k ! unat ix = (crc32c_next ^^ k) (crc_zero_bytes 1 (of_nat (unat ix)))"
    using assms by (simp add: crc32c_table_def row0_nth del: upt_rec_numeral)
  also have "\<dots> = crc_zero_bytes (Suc k) (ucast ix)"
    using zero_bytes_add[of k 1 "of_nat (unat ix)"] unfolding crc32c_next_eq zero_bytes_funpow
    by simp
  finally show ?thesis by (simp add: crc_tab_def)
qed

subsection \<open>The software version is the bit-by-bit checksum\<close>

lemma foldl_crc_split:
  "foldl crc_byte c bs = crc_zero_bytes (length bs) c XOR foldl crc_byte 0 bs"
proof (induction bs arbitrary: c rule: rev_induct)
  case (snoc b bs)
  have "foldl crc_byte c (bs @ [b]) =
      crc_zero_bytes 1 (crc_zero_bytes (length bs) c XOR (foldl crc_byte 0 bs XOR ucast b))"
    by (simp only: foldl_append foldl_Cons foldl_Nil snoc[of c] crc_byte_zero_bytes[of "_ XOR _"] xor.assoc)
  also have "\<dots> = crc_zero_bytes (1 + length bs) c XOR crc_zero_bytes 1 (foldl crc_byte 0 bs XOR ucast b)"
    unfolding zero_bytes_xor[of 1 "crc_zero_bytes (length bs) c"] zero_bytes_add ..
  finally show ?case by (simp add: crc_byte_zero_bytes[of "foldl crc_byte 0 bs" b])
qed simp

lemma foldl_crc_Cons:
  "foldl crc_byte 0 (b # bs) = crc_zero_bytes (Suc (length bs)) (ucast b) XOR foldl crc_byte 0 bs"
  using foldl_crc_split[of "crc_byte 0 b" bs] zero_bytes_add[of "length bs" 1 "ucast b"]
  by (simp add: crc_byte_zero_bytes)

lemma foldl_crc_append:
  "foldl crc_byte c (xs @ ys) = crc_zero_bytes (length ys) (foldl crc_byte c xs) XOR foldl crc_byte 0 ys"
  using foldl_crc_split[of "foldl crc_byte c xs" ys] by simp

lemma sw_byte_eq: "sw_byte (ucast c) b = ucast (crc_byte c b)"
proof -
  let ?ix = "(ucast c XOR ucast b :: u64) AND 0xff"
  have ix: "(ucast ?ix :: u32) = (c XOR ucast b) AND 0xff"
    unfolding and_ff by (rule bit_word_eqI) (auto simp: bit_simps)
  have d: "drop_bit 8 (c XOR ucast b) = drop_bit 8 c"
    by (rule bit_word_eqI) (auto simp: bit_simps dest: bit_imp_le_length)
  have "crc_byte c b = crc_zero_bytes (Suc 0) (ucast ?ix) XOR drop_bit 8 c"
    unfolding crc_byte_zero_bytes zero_byte_split[of "c XOR ucast b"] d ix by simp
  moreover have "sw_byte (ucast c) b = ucast (crc_zero_bytes (Suc 0) (ucast ?ix)) XOR drop_bit 8 (ucast c)"
    unfolding sw_byte_def by (subst crc_tab_eq) (simp_all add: unat_low_byte)
  moreover have "drop_bit 8 (ucast c :: u64) = ucast (drop_bit 8 c)"
    by (rule bit_word_eqI) (auto simp: bit_simps dest: bit_imp_le_length)
  ultimately show ?thesis by (simp add: unsigned_xor_eq)
qed

lemma foldl_sw_byte: "foldl sw_byte (ucast c) bs = ucast (foldl crc_byte c bs)"
  by (induction bs arbitrary: c) (simp_all add: sw_byte_eq)

text \<open>The bytes of a checksum move down one table per byte.\<close>

lemma zero_bytes_bytes:
  "crc_zero_bytes (n + 4) c =
     crc_zero_bytes (n + 4) (c AND 0xff) XOR (crc_zero_bytes (n + 3) (drop_bit 8 c AND 0xff) XOR
     (crc_zero_bytes (n + 2) (drop_bit 16 c AND 0xff) XOR crc_zero_bytes (n + 1) (drop_bit 24 c AND 0xff)))"
proof -
  let ?p = "\<lambda>j x. push_bit (8 * j) (x AND 0xff) :: u32"
  have c: "c = ?p 0 c XOR (?p 1 (drop_bit 8 c) XOR (?p 2 (drop_bit 16 c) XOR ?p 3 (drop_bit 24 c)))"
    unfolding and_ff by (rule bit_word_eqI) (auto simp: bit_simps)
  have p: "crc_zero_bytes (n + 4) (?p j x) = crc_zero_bytes (n + k) (x AND 0xff)"
    if "j \<le> 3" "k + j = 4" for j k x
  proof -
    have "n + 4 = (n + k) + j" using that(2) by simp
    then have "crc_zero_bytes (n + 4) (?p j x) = crc_zero_bytes (n + k) (crc_zero_bytes j (?p j x))"
      using zero_bytes_add[of "n + k" j "?p j x"] by (rule subst[OF sym])
    then show ?thesis unfolding zero_bytes_push_byte[OF that(1)] .
  qed
  have "crc_zero_bytes (n + 4) c = crc_zero_bytes (n + 4) (?p 0 c) XOR (crc_zero_bytes (n + 4) (?p 1 (drop_bit 8 c))
      XOR (crc_zero_bytes (n + 4) (?p 2 (drop_bit 16 c)) XOR crc_zero_bytes (n + 4) (?p 3 (drop_bit 24 c))))"
    by (subst c) (simp only: zero_bytes_xor)
  moreover have "crc_zero_bytes (n + 4) (?p 0 c) = crc_zero_bytes (n + 4) (c AND 0xff)" by (rule p) simp_all
  moreover have "crc_zero_bytes (n + 4) (?p 1 (drop_bit 8 c)) = crc_zero_bytes (n + 3) (drop_bit 8 c AND 0xff)"
    by (rule p) simp_all
  moreover have "crc_zero_bytes (n + 4) (?p 2 (drop_bit 16 c)) = crc_zero_bytes (n + 2) (drop_bit 16 c AND 0xff)"
    by (rule p) simp_all
  moreover have "crc_zero_bytes (n + 4) (?p 3 (drop_bit 24 c)) = crc_zero_bytes (n + 1) (drop_bit 24 c AND 0xff)"
    by (rule p) simp_all
  ultimately show ?thesis by (simp only:)
qed

text \<open>Eight bytes at once: the checksum is XORed into the low half of the word.\<close>

lemma bit_le_val:
  "8 * length bs \<le> LENGTH('a) \<Longrightarrow>
   bit (le_val bs :: 'a::len word) i \<longleftrightarrow> i div 8 < length bs \<and> bit (bs ! (i div 8)) (i mod 8)"
proof (induction bs arbitrary: i)
  case (Cons b bs)
  show ?case
  proof (cases "i < 8")
    case True
    with Cons.prems show ?thesis by (auto simp: bit_simps)
  next
    case False
    then have "i div 8 = Suc ((i - 8) div 8)" "(i - 8) mod 8 = i mod 8"
      using le_div_geq[of 8 i] le_mod_geq[of 8 i] by simp_all
    moreover have "bit (le_val (b # bs) :: 'a word) i \<longleftrightarrow> i < LENGTH('a) \<and> bit (le_val bs :: 'a word) (i - 8)"
      using False by (auto simp: bit_simps dest: bit_imp_le_length)
    ultimately show ?thesis using Cons by auto
  qed
qed simp

lemma le_val_byte:
  assumes "k < length bs" and "8 * length bs \<le> LENGTH('a)"
  shows "drop_bit (8 * k) (le_val bs :: 'a::len word) AND 0xff = ucast (bs ! k)"
proof (rule bit_word_eqI)
  fix n assume n: "n < LENGTH('a)"
  show "bit (drop_bit (8 * k) (le_val bs :: 'a word) AND 0xff) n = bit (ucast (bs ! k) :: 'a word) n"
  proof (cases "n < 8")
    case True
    then have "(8 * k + n) div 8 = k" "(8 * k + n) mod 8 = n" by simp_all
    with True n assms show ?thesis by (auto simp: and_ff bit_simps bit_le_val)
  qed (auto simp: and_ff bit_simps dest: bit_imp_le_length)
qed

lemma tab_byte:
  fixes b :: u8
  assumes "k < 8" and "m = k + 1" and w: "drop_bit i w AND 0xff = ucast b"
  shows "crc_tab k (drop_bit i (ucast c XOR w) AND 0xff) =
     ucast (crc_zero_bytes m (drop_bit i c AND 0xff)) XOR ucast (crc_zero_bytes m (ucast b))"
proof -
  have "(ucast (drop_bit i (ucast c XOR w :: u64) AND 0xff) :: u32) =
      (drop_bit i c AND 0xff) XOR ucast (drop_bit i w AND 0xff)"
    unfolding and_ff by (rule bit_word_eqI) (auto simp: bit_simps dest: bit_imp_le_length)
  also have "(ucast (drop_bit i w AND 0xff) :: u32) = ucast b"
    unfolding w by (rule bit_word_eqI) (auto simp: bit_simps dest: bit_imp_le_length)
  finally have "crc_tab k (drop_bit i (ucast c XOR w) AND 0xff) =
      ucast (crc_zero_bytes (Suc k) ((drop_bit i c AND 0xff) XOR ucast b))"
    using crc_tab_eq[OF assms(1) unat_low_byte, of "drop_bit i (ucast c XOR w)"] by (simp only:)
  then show ?thesis unfolding zero_bytes_xor unsigned_xor_eq assms(2) by simp
qed

lemma tab_byte_high:
  fixes b :: u8 and c :: u32
  assumes "k < 8" and "m = k + 1" and w: "drop_bit i w AND 0xff = ucast b" and "32 \<le> i"
  shows "crc_tab k (drop_bit i (ucast c XOR w) AND 0xff) = ucast (crc_zero_bytes m (ucast b))"
proof -
  have "drop_bit i c = 0" using assms(4) by (intro bit_word_eqI) (auto simp: bit_simps dest: bit_imp_le_length)
  with tab_byte[OF assms(1-3), of c] show ?thesis by (simp add: linear_0[OF zero_bytes_linear])
qed

lemma foldl_crc_8:
  "foldl crc_byte 0 [b0, b1, b2, b3, b4, b5, b6, b7] =
     crc_zero_bytes 8 (ucast b0) XOR (crc_zero_bytes 7 (ucast b1) XOR (crc_zero_bytes 6 (ucast b2) XOR
     (crc_zero_bytes 5 (ucast b3) XOR (crc_zero_bytes 4 (ucast b4) XOR (crc_zero_bytes 3 (ucast b5) XOR
     (crc_zero_bytes 2 (ucast b6) XOR crc_zero_bytes 1 (ucast b7)))))))"
  unfolding foldl_crc_Cons by (simp add: eval_nat_numeral)

lemma sw_word_bytes:
  "sw_word (ucast c) (le_val [b0, b1, b2, b3, b4, b5, b6, b7]) =
     ucast (foldl crc_byte c [b0, b1, b2, b3, b4, b5, b6, b7])"
proof -
  let ?bs = "[b0, b1, b2, b3, b4, b5, b6, b7]" and ?x = "ucast c XOR le_val [b0, b1, b2, b3, b4, b5, b6, b7] :: u64"
  note b = le_val_byte[of _ ?bs, where 'a = 64]
  have bytes: "drop_bit 0 (le_val ?bs) AND 0xff = (ucast b0 :: u64)" "drop_bit 8 (le_val ?bs) AND 0xff = (ucast b1 :: u64)"
    "drop_bit 16 (le_val ?bs) AND 0xff = (ucast b2 :: u64)" "drop_bit 24 (le_val ?bs) AND 0xff = (ucast b3 :: u64)"
    "drop_bit 32 (le_val ?bs) AND 0xff = (ucast b4 :: u64)" "drop_bit 40 (le_val ?bs) AND 0xff = (ucast b5 :: u64)"
    "drop_bit 48 (le_val ?bs) AND 0xff = (ucast b6 :: u64)" "drop_bit 56 (le_val ?bs) AND 0xff = (ucast b7 :: u64)"
    using b[of 0] b[of 1] b[of 2] b[of 3] b[of 4] b[of 5] b[of 6] b[of 7] by (simp_all del: le_val.simps)
  have top: "drop_bit 56 ?x = drop_bit 56 ?x AND 0xff"
    unfolding and_ff by (rule bit_word_eqI) (auto simp: bit_simps dest: bit_imp_le_length)
  have t7: "crc_tab 7 (drop_bit 0 ?x AND 0xff) = ucast (crc_zero_bytes 8 (drop_bit 0 c AND 0xff)) XOR ucast (crc_zero_bytes 8 (ucast b0))"
    by (rule tab_byte[OF _ _ bytes(1)]) simp_all
  have t6: "crc_tab 6 (drop_bit 8 ?x AND 0xff) = ucast (crc_zero_bytes 7 (drop_bit 8 c AND 0xff)) XOR ucast (crc_zero_bytes 7 (ucast b1))"
    by (rule tab_byte[OF _ _ bytes(2)]) simp_all
  have t5: "crc_tab 5 (drop_bit 16 ?x AND 0xff) = ucast (crc_zero_bytes 6 (drop_bit 16 c AND 0xff)) XOR ucast (crc_zero_bytes 6 (ucast b2))"
    by (rule tab_byte[OF _ _ bytes(3)]) simp_all
  have t4: "crc_tab 4 (drop_bit 24 ?x AND 0xff) = ucast (crc_zero_bytes 5 (drop_bit 24 c AND 0xff)) XOR ucast (crc_zero_bytes 5 (ucast b3))"
    by (rule tab_byte[OF _ _ bytes(4)]) simp_all
  have t3: "crc_tab 3 (drop_bit 32 ?x AND 0xff) = ucast (crc_zero_bytes 4 (ucast b4))"
    by (rule tab_byte_high[OF _ _ bytes(5)]) simp_all
  have t2: "crc_tab 2 (drop_bit 40 ?x AND 0xff) = ucast (crc_zero_bytes 3 (ucast b5))"
    by (rule tab_byte_high[OF _ _ bytes(6)]) simp_all
  have t1: "crc_tab 1 (drop_bit 48 ?x AND 0xff) = ucast (crc_zero_bytes 2 (ucast b6))"
    by (rule tab_byte_high[OF _ _ bytes(7)]) simp_all
  have t0: "crc_tab 0 (drop_bit 56 ?x AND 0xff) = ucast (crc_zero_bytes 1 (ucast b7))"
    by (rule tab_byte_high[OF _ _ bytes(8)]) simp_all
  have "sw_word (ucast c) (le_val ?bs) =
      ucast (crc_zero_bytes 8 c XOR foldl crc_byte 0 ?bs)"
    unfolding sw_word_def Let_def zero_bytes_bytes[of 4 c, simplified] foldl_crc_8
    by (subst top, unfold t7[unfolded drop_bit_0 id_apply] t6 t5 t4 t3 t2 t1 t0) (simp only: unsigned_xor_eq xor.assoc xor.left_commute xor.commute)
  moreover have "length ?bs = 8" by simp
  ultimately show ?thesis using foldl_crc_split[of c ?bs] by (simp only:)
qed

lemma sw_word_eq:
  assumes "length bs = 8"
  shows "sw_word (ucast c) (le_val bs) = ucast (foldl crc_byte c bs)"
proof -
  from assms obtain b0 b1 b2 b3 b4 b5 b6 b7 where "bs = [b0, b1, b2, b3, b4, b5, b6, b7]"
    by (auto simp: eval_nat_numeral length_Suc_conv)
  then show ?thesis using sw_word_bytes by blast
qed

lemma sw_align_eq:
  "\<exists>xs ys. buf = xs @ ys \<and> sw_align addr buf (ucast c) = (ys, ucast (foldl crc_byte c xs))"
proof (induction buf arbitrary: addr c)
  case (Cons b bs)
  from Cons[of "addr + 1" "crc_byte c b"] obtain xs ys where
    "bs = xs @ ys" "sw_align (addr + 1) bs (ucast (crc_byte c b)) = (ys, ucast (foldl crc_byte (crc_byte c b) xs))"
    by blast
  then have "b # bs = (b # xs) @ ys \<and>
      sw_align (addr + 1) bs (sw_byte (ucast c) b) = (ys, ucast (foldl crc_byte c (b # xs)))"
    by (simp add: sw_byte_eq)
  then show ?case by (cases "addr mod 8 = 0") (fastforce intro: exI[of _ "[]"])+
qed simp

lemma sw_words_eq:
  "\<exists>xs ys. buf = xs @ ys \<and> sw_words buf (ucast c) = (ys, ucast (foldl crc_byte c xs))"
proof (induction "length buf" arbitrary: buf c rule: less_induct)
  case less
  show ?case
  proof (cases "8 \<le> length buf")
    case True
    then have "length (drop 8 buf) < length buf" by simp
    from less[OF this, of "foldl crc_byte c (take 8 buf)"] obtain xs ys where
      "drop 8 buf = xs @ ys"
      "sw_words (drop 8 buf) (ucast (foldl crc_byte c (take 8 buf))) =
         (ys, ucast (foldl crc_byte (foldl crc_byte c (take 8 buf)) xs))" by blast
    moreover have "sw_words buf (ucast c) = sw_words (drop 8 buf) (ucast (foldl crc_byte c (take 8 buf)))"
      using True sw_word_eq[of "take 8 buf" c] by (simp add: sw_words.simps[of buf])
    ultimately have "buf = (take 8 buf @ xs) @ ys \<and>
        sw_words buf (ucast c) = (ys, ucast (foldl crc_byte c (take 8 buf @ xs)))"
      by (metis append.assoc append_take_drop_id foldl_append)
    then show ?thesis by blast
  next
    case False
    then have "buf = [] @ buf \<and> sw_words buf (ucast c) = (buf, ucast (foldl crc_byte c []))"
      by (simp add: sw_words.simps[of buf])
    then show ?thesis by blast
  qed
qed

lemma crc32c_sw_ref: "crc32c_sw addr crci buf = crc32c_ref crci buf"
proof -
  from sw_align_eq[of buf addr "crci XOR 0xffffffff"] obtain xs ys where
    1: "buf = xs @ ys" "sw_align addr buf (ucast (crci XOR 0xffffffff)) =
       (ys, ucast (foldl crc_byte (crci XOR 0xffffffff) xs))" by blast
  from sw_words_eq[of ys "foldl crc_byte (crci XOR 0xffffffff) xs"] obtain us vs where
    2: "ys = us @ vs" "sw_words ys (ucast (foldl crc_byte (crci XOR 0xffffffff) xs)) =
       (vs, ucast (foldl crc_byte (foldl crc_byte (crci XOR 0xffffffff) xs) us))" by blast
  have 3: "(ucast (foldl sw_byte (ucast d) zs) :: u32) = foldl crc_byte d zs" for d zs
    unfolding foldl_sw_byte by (rule bit_word_eqI) (auto simp: bit_simps)
  show ?thesis unfolding crc32c_sw_def crc32c_ref_def Let_def 1(2) prod.case 2(2) 3
    by (simp add: 1(1) 2(1))
qed

subsection \<open>Matrices over the field of two elements\<close>

definition mat_of :: "(u32 \<Rightarrow> u32) \<Rightarrow> u32 list" where
  "mat_of f = map (\<lambda>i. f (push_bit i 1)) [0..<32]"

lemma push_split: "push_bit k v = push_bit k (v AND 1) XOR push_bit (Suc k) (drop_bit 1 v)" for v :: u32
proof (rule bit_word_eqI)
  fix i assume "i < LENGTH(32)"
  show "bit (push_bit k v) i = bit (push_bit k (v AND 1) XOR push_bit (Suc k) (drop_bit 1 v)) i"
    by (cases i k rule: linorder_cases) (auto simp: bit_simps Suc_diff_Suc simp del: push_bit_Suc)
qed

lemma matrix_times_from:
  assumes "gf2_linear f" and "k \<le> 32" and "\<And>i. 32 - k \<le> i \<Longrightarrow> \<not> bit v i"
  shows "gf2_matrix_times (map (\<lambda>i. f (push_bit i 1)) [k..<32]) v s = Some (s XOR f (push_bit k v))"
  using assms(2,3)
proof (induction "32 - k" arbitrary: k v s)
  case 0
  then have "v = 0" by (intro bit_word_eqI) auto
  with 0 linear_0[OF assms(1)] show ?case by simp
next
  case (Suc n)
  then have k: "k < 32" by simp
  then have u: "[k..<32] = k # [Suc k..<32]" by (simp add: upt_conv_Cons)
  have d: "\<not> bit (drop_bit 1 v) i" if "32 - Suc k \<le> i" for i
    using Suc.prems(2)[of "Suc i"] that by (simp add: bit_simps)
  have IH: "gf2_matrix_times (map (\<lambda>i. f (push_bit i 1)) [Suc k..<32]) (drop_bit 1 v)
      (if v AND 1 \<noteq> 0 then s XOR f (push_bit k 1) else s) =
      Some ((if v AND 1 \<noteq> 0 then s XOR f (push_bit k 1) else s) XOR f (push_bit (Suc k) (drop_bit 1 v)))"
    by (rule Suc.hyps(1)) (use Suc.hyps(2) k d in auto)
  have "f (push_bit k v) = f (push_bit k (v AND 1)) XOR f (push_bit (Suc k) (drop_bit 1 v))"
    by (subst push_split) (rule linear_xor[OF assms(1)])
  moreover have "f (push_bit k (v AND 1)) = (if v AND 1 \<noteq> 0 then f (push_bit k 1) else 0)"
  proof (cases "v AND 1 = 0")
    case True
    then show ?thesis using linear_0[OF assms(1)] by (simp only: push_bit_of_0 simp_thms if_False)
  next
    case False
    then have "v AND 1 = 1" by (simp add: and_one_eq odd_iff_mod_2_eq_one)
    then show ?thesis by (simp only: one_neq_zero simp_thms if_True)
  qed
  ultimately have split: "f (push_bit k v) =
      (if v AND 1 \<noteq> 0 then f (push_bit k 1) else 0) XOR f (push_bit (Suc k) (drop_bit 1 v))"
    by (simp only:)
  show ?case
  proof (cases "v = 0")
    case True
    with linear_0[OF assms(1)] show ?thesis by (simp add: u)
  next
    case False
    have "(if c then s XOR a else s) XOR b = s XOR ((if c then a else 0) XOR b)" for c and a b :: u32
      by (simp add: xor.assoc)
    then show ?thesis unfolding u list.map gf2_matrix_times.simps if_not_P[OF False] IH split by (rule arg_cong)
  qed
qed

lemma matrix_times:
  assumes "gf2_linear f"
  shows "gf2_matrix_times (mat_of f) v 0 = Some (f v)"
proof -
  have "\<not> bit v i" if "32 - 0 \<le> i" for i using that bit_imp_le_length[of v i] by auto
  from matrix_times_from[OF assms le0 this, of 0] show ?thesis
    by (simp only: mat_of_def push_bit_0_id id_apply xor_self_eq xor.left_neutral)
qed

lemma those_map: "(\<And>x. x \<in> set xs \<Longrightarrow> f x = Some (g x)) \<Longrightarrow> those (map f xs) = Some (map g xs)"
  by (induction xs) auto

lemma matrix_square: "gf2_linear f \<Longrightarrow> gf2_matrix_square (mat_of f) = Some (mat_of (f \<circ> f))"
  unfolding gf2_matrix_square_def mat_of_def[of "f \<circ> f"]
proof (rule those_map)
  fix n assume "gf2_linear f" and n: "n \<in> set [0..<32]"
  have "mat_of f ! n = f (push_bit n 1)" using n by (simp add: mat_of_def del: upt_rec_numeral)
  with matrix_times[OF \<open>gf2_linear f\<close>] show
    "gf2_matrix_times (mat_of f) (mat_of f ! n) 0 = Some ((f \<circ> f) (push_bit n 1))" by (simp only: comp_apply)
qed

lemma zeros_odd_eq: "zeros_odd = mat_of crc_bit"
proof -
  have u: "[0..<32] = 0 # map Suc [0..<31]" by (simp add: upt_conv_Cons map_Suc_upt del: upt_rec_numeral)
  have "crc_bit 1 = POLY" by (simp add: crc_bit_alt)
  moreover have "crc_bit (push_bit (Suc n) 1) = push_bit n 1" if "n < 31" for n
    unfolding crc_bit_alt using that
    by (intro bit_word_eqI) (auto simp: bit_simps simp del: push_bit_Suc)
  ultimately show ?thesis unfolding zeros_odd_def mat_of_def u
    by (simp del: upt_rec_numeral push_bit_Suc)
qed

lemma zeros_loop_eq:
  "zeros_loop (mat_of (crc_bit ^^ k)) (2 ^ p) = Some (mat_of (crc_bit ^^ (k * 2 ^ Suc p)))"
proof (induction p arbitrary: k rule: less_induct)
  case (less p)
  note sq = matrix_square[OF linear_funpow[OF crc_bit_linear]]
  have dbl: "crc_bit ^^ m \<circ> crc_bit ^^ m = crc_bit ^^ (2 * m)" for m by (simp add: mult_2 funpow_add)
  consider "p = 0" | "p = 1" | q where "p = Suc (Suc q)" by (metis One_nat_def not0_implies_Suc)
  then show ?case
  proof cases
    case 3
    with less[of q "2 * (2 * k)"] show ?thesis
      by (subst zeros_loop.simps) (simp add: sq dbl Let_def mult.assoc mult.left_commute)
  qed (subst zeros_loop.simps, simp add: sq dbl Let_def mult.commute)+
qed

lemma zeros_op_eq: "crc32c_zeros_op (2 ^ p) = Some (mat_of (crc_zero_bytes (2 ^ p)))"
proof -
  have "gf2_matrix_square (mat_of crc_bit) = Some (mat_of (crc_bit ^^ 2))"
    using matrix_square[OF crc_bit_linear] by (simp add: eval_nat_numeral comp_def)
  moreover have "gf2_matrix_square (mat_of (crc_bit ^^ 2)) = Some (mat_of (crc_bit ^^ 4))"
    using matrix_square[OF linear_funpow[OF crc_bit_linear, of 2]] by (simp add: funpow_add[symmetric])
  ultimately show ?thesis using zeros_loop_eq[of 4 p]
    by (simp add: crc32c_zeros_op_def zeros_odd_eq crc_zero_bytes_def)
qed

lemma zeros_eq:
  "crc32c_zeros (2 ^ p) =
     Some (map (\<lambda>k. map (\<lambda>n. crc_zero_bytes (2 ^ p) (push_bit (8 * k) (of_nat n))) [0..<256]) [0..<4])"
proof -
  have "those (map (\<lambda>n. gf2_matrix_times (mat_of (crc_zero_bytes (2 ^ p))) (push_bit (8 * k) (of_nat n)) 0) [0..<256])
      = Some (map (\<lambda>n. crc_zero_bytes (2 ^ p) (push_bit (8 * k) (of_nat n))) [0..<256])" for k
    by (rule those_map) (rule matrix_times[OF zero_bytes_linear])
  then show ?thesis unfolding crc32c_zeros_def zeros_op_eq
    by (simp del: upt_rec_numeral) (rule those_map, simp del: upt_rec_numeral)
qed

lemma shift_eq:
  assumes "crc32c_zeros (2 ^ p) = Some zeros"
  shows "crc32c_shift zeros c = crc_zero_bytes (2 ^ p) c"
proof -
  let ?Z = "crc_zero_bytes (2 ^ p)"
  have z: "zeros ! k ! unat (x AND 0xff) = ?Z (push_bit (8 * k) (x AND 0xff))" if "k < 4" for k x
  proof -
    have "(of_nat (unat (x AND 0xff)) :: u32) = x AND 0xff" by simp
    with that assms[unfolded zeros_eq option.inject, symmetric] unat_low_byte[of x] show ?thesis
      by (simp add: nth_map del: upt_rec_numeral)
  qed
  have top: "drop_bit 24 c = drop_bit 24 c AND 0xff"
    unfolding and_ff by (rule bit_word_eqI) (auto simp: bit_simps dest: bit_imp_le_length)
  have c: "c = (push_bit (8 * 0) (c AND 0xff) XOR push_bit (8 * 1) (drop_bit 8 c AND 0xff)) XOR
      push_bit (8 * 2) (drop_bit 16 c AND 0xff) XOR push_bit (8 * 3) (drop_bit 24 c AND 0xff)"
    unfolding and_ff by (rule bit_word_eqI) (auto simp: bit_simps)
  have "?Z c = (?Z (push_bit (8 * 0) (c AND 0xff)) XOR ?Z (push_bit (8 * 1) (drop_bit 8 c AND 0xff))) XOR
      ?Z (push_bit (8 * 2) (drop_bit 16 c AND 0xff)) XOR ?Z (push_bit (8 * 3) (drop_bit 24 c AND 0xff))"
    by (subst c) (simp only: zero_bytes_xor)
  moreover have "crc32c_shift zeros c = ?Z (push_bit (8 * 0) (c AND 0xff)) XOR
      ?Z (push_bit (8 * 1) (drop_bit 8 c AND 0xff)) XOR
      ?Z (push_bit (8 * 2) (drop_bit 16 c AND 0xff)) XOR ?Z (push_bit (8 * 3) (drop_bit 24 c AND 0xff))"
    unfolding crc32c_shift_def
    by (subst top, subst z, simp, subst z, simp, subst z, simp, subst z, simp) (rule refl)
  ultimately show ?thesis by (simp only: xor.assoc)
qed

subsection \<open>The hardware version is the bit-by-bit checksum\<close>

lemma ucast_ucast_u32 [simp]: "(ucast (ucast (c :: u32) :: u64) :: u32) = c"
  by (rule bit_word_eqI) (auto simp: bit_simps)

lemma hw_lanes_eq:
  "hw_lanes L n bs (ucast d0) (ucast d1) (ucast d2) =
     (ucast (foldl crc_byte d0 (take (8 * n) bs)), ucast (foldl crc_byte d1 (take (8 * n) (drop L bs))),
      ucast (foldl crc_byte d2 (take (8 * n) (drop (2 * L) bs))))"
proof (induction n arbitrary: bs d0 d1 d2)
  case (Suc n)
  have t: "take (8 * Suc n) xs = take 8 xs @ take (8 * n) (drop 8 xs)" for xs :: "u8 list"
    by (simp add: take_add)
  show ?case unfolding hw_lanes.simps crc32q_def ucast_ucast_u32 Suc t
    by (simp add: add.commute)
qed simp

lemma hw_align_eq:
  "\<exists>xs ys. buf = xs @ ys \<and> hw_align addr buf (ucast c) = (ys, ucast (foldl crc_byte c xs))"
proof (induction buf arbitrary: addr c)
  case (Cons b bs)
  from Cons[of "addr + 1" "crc_byte c b"] obtain xs ys where
    "bs = xs @ ys" "hw_align (addr + 1) bs (ucast (crc_byte c b)) = (ys, ucast (foldl crc_byte (crc_byte c b) xs))"
    by blast
  then have "b # bs = (b # xs) @ ys \<and>
      hw_align (addr + 1) bs (crc32b (ucast c) b) = (ys, ucast (foldl crc_byte c (b # xs)))"
    by (simp add: crc32b_def)
  then show ?case by (cases "addr mod 8 = 0") (fastforce intro: exI[of _ "[]"])+
qed simp

lemma hw_words_eq:
  "\<exists>xs ys. buf = xs @ ys \<and> hw_words buf (ucast c) = (ys, ucast (foldl crc_byte c xs))"
proof (induction "length buf" arbitrary: buf c rule: less_induct)
  case less
  show ?case
  proof (cases "8 \<le> length buf")
    case True
    then have "length (drop 8 buf) < length buf" by simp
    from less[OF this, of "foldl crc_byte c (take 8 buf)"] obtain xs ys where
      "drop 8 buf = xs @ ys"
      "hw_words (drop 8 buf) (ucast (foldl crc_byte c (take 8 buf))) =
         (ys, ucast (foldl crc_byte (foldl crc_byte c (take 8 buf)) xs))" by blast
    moreover have "hw_words buf (ucast c) = hw_words (drop 8 buf) (ucast (foldl crc_byte c (take 8 buf)))"
      using True by (simp add: hw_words.simps[of buf] crc32q_def)
    ultimately have "buf = (take 8 buf @ xs) @ ys \<and>
        hw_words buf (ucast c) = (ys, ucast (foldl crc_byte c (take 8 buf @ xs)))"
      by (metis append.assoc append_take_drop_id foldl_append)
    then show ?thesis by blast
  next
    case False
    then have "buf = [] @ buf \<and> hw_words buf (ucast c) = (buf, ucast (foldl crc_byte c []))"
      by (simp add: hw_words.simps[of buf])
    then show ?thesis by blast
  qed
qed

text \<open>One round: the three lanes joined by the shift tables are the checksum of \<open>3 * L\<close> bytes.\<close>

lemma hw_round_eq:
  assumes z: "crc32c_zeros (2 ^ p) = Some zeros" and L: "L = 2 ^ p" "3 \<le> p" and len: "L * 3 \<le> length buf"
    and lanes: "hw_lanes L (L div 8) buf (ucast c) 0 0 = (r0, r1, r2)"
  shows "ucast (crc32c_shift zeros (ucast (ucast (crc32c_shift zeros (ucast r0)) XOR r1))) XOR r2 =
     (ucast (foldl crc_byte c (take (L * 3) buf)) :: u64)"
proof -
  define A B C where "A = take L buf" and "B = take L (drop L buf)" and "C = take L (drop (2 * L) buf)"
  have "(2 :: nat) ^ p = 8 * 2 ^ (p - 3)" using L(2) power_add[of "2 :: nat" 3 "p - 3"] by simp
  then have d: "8 * (L div 8) = L" using L(1) by simp
  have r: "r0 = ucast (foldl crc_byte c A)" "r1 = ucast (foldl crc_byte 0 B)" "r2 = ucast (foldl crc_byte 0 C)"
    using lanes hw_lanes_eq[of L "L div 8" buf c 0 0] unfolding d A_def B_def C_def by simp_all
  have l: "length B = L" "length C = L" using len by (simp_all add: B_def C_def)
  have "take (L * 3) buf = A @ B @ C"
  proof -
    have e: "L * 3 = L + (L + L)" "2 * L = L + L" by simp_all
    show ?thesis unfolding A_def B_def C_def e take_add drop_drop ..
  qed
  then have "foldl crc_byte c (take (L * 3) buf) =
      crc_zero_bytes L (crc_zero_bytes L (foldl crc_byte c A) XOR foldl crc_byte 0 B) XOR foldl crc_byte 0 C"
    using foldl_crc_append[of c "A @ B" C] foldl_crc_append[of c A B] l by simp
  then show ?thesis unfolding r L(1) shift_eq[OF z] by (simp add: unsigned_xor_eq[symmetric])
qed

lemma hw_rounds_eq:
  assumes z: "crc32c_zeros (2 ^ p) = Some zeros" and L: "L = 2 ^ p" "3 \<le> p"
  shows "\<exists>xs ys. buf = xs @ ys \<and> hw_rounds L zeros buf (ucast c) = (ys, ucast (foldl crc_byte c xs))"
proof (induction "length buf" arbitrary: buf c rule: less_induct)
  case less
  have pos: "0 < L" using L(1) by simp
  show ?case
  proof (cases "L * 3 \<le> length buf")
    case True
    let ?d = "foldl crc_byte c (take (L * 3) buf)"
    obtain r0 r1 r2 where lanes: "hw_lanes L (L div 8) buf (ucast c) 0 0 = (r0, r1, r2)" by (metis prod_cases3)
    have "length (drop (L * 3) buf) < length buf" using True pos by simp
    from less[OF this, of ?d] obtain xs ys where
      "drop (L * 3) buf = xs @ ys"
      "hw_rounds L zeros (drop (L * 3) buf) (ucast ?d) = (ys, ucast (foldl crc_byte ?d xs))" by blast
    moreover have "hw_rounds L zeros buf (ucast c) = hw_rounds L zeros (drop (L * 3) buf) (ucast ?d)"
      using True pos lanes hw_round_eq[OF z L True lanes] by (simp add: hw_rounds.simps[of L zeros buf])
    ultimately have "buf = (take (L * 3) buf @ xs) @ ys \<and>
        hw_rounds L zeros buf (ucast c) = (ys, ucast (foldl crc_byte c (take (L * 3) buf @ xs)))"
      by (metis append.assoc append_take_drop_id foldl_append)
    then show ?thesis by blast
  next
    case False
    then have "buf = [] @ buf \<and> hw_rounds L zeros buf (ucast c) = (buf, ucast (foldl crc_byte c []))"
      by (simp add: hw_rounds.simps[of L zeros buf])
    then show ?thesis by blast
  qed
qed

lemma foldl_crc32b: "foldl crc32b (ucast c) bs = ucast (foldl crc_byte c bs)"
  by (induction bs arbitrary: c) (simp_all add: crc32b_def)

lemma crc32c_hw_ref: "crc32c_hw addr crci buf = Some (crc32c_ref crci buf)"
proof -
  have "crc32c_zeros (2 ^ 13) \<noteq> None" "crc32c_zeros (2 ^ 8) \<noteq> None" unfolding zeros_eq by simp_all
  then obtain zl zs where z: "crc32c_zeros (2 ^ 13) = Some zl" "crc32c_zeros (2 ^ 8) = Some zs" by blast
  let ?c = "crci XOR 0xffffffff"
  obtain x1 y1 where 1: "buf = x1 @ y1" "hw_align addr buf (ucast ?c) = (y1, ucast (foldl crc_byte ?c x1))"
    using hw_align_eq by blast
  let ?c1 = "foldl crc_byte ?c x1"
  obtain x2 y2 where 2: "y1 = x2 @ y2" "hw_rounds 8192 zl y1 (ucast ?c1) = (y2, ucast (foldl crc_byte ?c1 x2))"
    using hw_rounds_eq[OF z(1), of 8192 y1 ?c1] by auto
  let ?c2 = "foldl crc_byte ?c1 x2"
  obtain x3 y3 where 3: "y2 = x3 @ y3" "hw_rounds 256 zs y2 (ucast ?c2) = (y3, ucast (foldl crc_byte ?c2 x3))"
    using hw_rounds_eq[OF z(2), of 256 y2 ?c2] by auto
  let ?c3 = "foldl crc_byte ?c2 x3"
  obtain x4 y4 where 4: "y3 = x4 @ y4" "hw_words y3 (ucast ?c3) = (y4, ucast (foldl crc_byte ?c3 x4))"
    using hw_words_eq by blast
  have z': "crc32c_zeros 8192 = Some zl" "crc32c_zeros 256 = Some zs" using z by simp_all
  have "crc32c_hw addr crci buf = Some (foldl crc_byte (foldl crc_byte ?c3 x4) y4 XOR 0xffffffff)"
    unfolding crc32c_hw_def z' 1(2) Let_def bind.bind_lunit prod.case 2(2) 3(2) 4(2) foldl_crc32b by simp
  then show ?thesis by (simp add: crc32c_ref_def 1(1) 2(1) 3(1) 4(1))
qed

subsection \<open>Properties of the checksum\<close>

lemma chose_crc32c_ref:
  "chose_crc32c_implementation hint available addr crc buf = Some (crc32c_ref crc buf)"
  by (cases hint) (simp_all add: chose_crc32c_implementation_def crc32c_sw_ref crc32c_hw_ref)

text \<open>C31. Every implementation that \<open>chose_crc32c_implementation\<close> can return computes the same
  function, the bit-by-bit CRC-32C, whatever the alignment of the buffer, its length and the
  initial value: the eight-bytes-at-a-time tables and the three-lane hardware loops agree.\<close>

theorem crc32c_implementations_agree:
  "chose_crc32c_implementation hint available addr crc buf = Some (crc32c_ref crc buf)"
  by (rule chose_crc32c_ref)

lemma crc32c_ref_append: "crc32c_ref c (xs @ ys) = crc32c_ref (crc32c_ref c xs) ys"
  by (simp add: crc32c_ref_def xor.assoc)

lemma xor_cancel_right: "x XOR c = y XOR c \<longleftrightarrow> x = (y :: u32)"
proof
  assume "x XOR c = y XOR c"
  then have "(x XOR c) XOR c = (y XOR c) XOR c" by (rule arg_cong)
  then show "x = y" by (simp add: xor.assoc)
qed simp

lemma xor_cancel_left: "c XOR x = c XOR y \<longleftrightarrow> x = (y :: u32)"
  unfolding xor.commute[of c] by (rule xor_cancel_right)

lemma zero_bytes_inj: "crc_zero_bytes n a = crc_zero_bytes n b \<longleftrightarrow> a = b"
proof -
  have k: "d = 0" if "crc_bit d = 0" for d
  proof (rule bit_word_eqI)
    fix i assume i: "i < LENGTH(32)"
    have top: "bit POLY 31" by (simp add: POLY_def)
    have b: "\<not> bit (drop_bit 1 d XOR (if bit d 0 then POLY else 0)) j" for j
      using that unfolding crc_bit_alt by simp
    have "\<not> bit d 32" using bit_imp_le_length[of d 32] by auto
    then have e: "\<not> bit d 0" using b[of 31] top by (simp add: bit_simps split: if_splits)
    show "bit d i = bit 0 i"
    proof (cases i)
      case (Suc j)
      then show ?thesis using b[of j] e by (simp add: bit_simps)
    qed (use e in simp)
  qed
  have i: "inj crc_bit"
  proof (rule injI)
    fix x y assume "crc_bit x = crc_bit y"
    then have "crc_bit (x XOR y) = 0" by (simp add: linear_xor[OF crc_bit_linear])
    then have "x XOR y = 0" by (rule k)
    then have "x XOR y = y XOR y" by simp
    then show "x = y" by (simp only: xor_cancel_right)
  qed
  have "inj (crc_zero_bytes n)" unfolding crc_zero_bytes_def by (rule inj_fn[OF i])
  then show ?thesis by (simp add: inj_eq)
qed

lemma foldl_crc_4:
  assumes "length bs = 4"
  shows "foldl crc_byte 0 bs = crc_zero_bytes 4 (le_val bs)"
proof -
  from assms obtain b0 b1 b2 b3 where bs: "bs = [b0, b1, b2, b3]"
    by (auto simp: eval_nat_numeral length_Suc_conv)
  note b = le_val_byte[of _ bs, where 'a = 32, unfolded assms]
  have bytes: "le_val bs AND 0xff = (ucast b0 :: u32)" "drop_bit 8 (le_val bs) AND 0xff = (ucast b1 :: u32)"
    "drop_bit 16 (le_val bs) AND 0xff = (ucast b2 :: u32)" "drop_bit 24 (le_val bs) AND 0xff = (ucast b3 :: u32)"
    using b[of 0] b[of 1] b[of 2] b[of 3] by (simp_all add: bs del: le_val.simps)
  have "foldl crc_byte 0 bs = crc_zero_bytes 4 (ucast b0) XOR (crc_zero_bytes 3 (ucast b1) XOR
      (crc_zero_bytes 2 (ucast b2) XOR crc_zero_bytes 1 (ucast b3)))"
    unfolding bs foldl_crc_Cons by (simp add: eval_nat_numeral)
  then show ?thesis using zero_bytes_bytes[of 0 "le_val bs"] unfolding bytes by (simp only: add_0)
qed

lemma ucast_u8_inj: "(ucast x :: u32) = ucast (y :: u8) \<Longrightarrow> x = y"
proof -
  assume "(ucast x :: u32) = ucast y"
  then have "(ucast (ucast x :: u32) :: u8) = ucast (ucast y :: u32)" by (rule arg_cong)
  moreover have "(ucast (ucast z :: u32) :: u8) = z" for z :: u8
    by (rule bit_word_eqI) (auto simp: bit_simps)
  ultimately show "x = y" by simp
qed

lemma crc32c_ref_detects_burst:
  assumes "length a = 4" and "length b = 4" and "a \<noteq> b"
  shows "crc32c_ref crc (xs @ a @ ys) \<noteq> crc32c_ref crc (xs @ b @ ys)"
proof
  assume "crc32c_ref crc (xs @ a @ ys) = crc32c_ref crc (xs @ b @ ys)"
  then have "foldl crc_byte (crc XOR 0xffffffff) (xs @ a @ ys) = foldl crc_byte (crc XOR 0xffffffff) (xs @ b @ ys)"
    by (simp only: crc32c_ref_def xor_cancel_right)
  then have "foldl crc_byte (crc XOR 0xffffffff) ((xs @ a) @ ys) = foldl crc_byte (crc XOR 0xffffffff) ((xs @ b) @ ys)"
    by simp
  then have "crc_zero_bytes (length ys) (foldl crc_byte (crc XOR 0xffffffff) (xs @ a)) =
      crc_zero_bytes (length ys) (foldl crc_byte (crc XOR 0xffffffff) (xs @ b))"
    by (simp only: foldl_crc_append[of _ _ ys] xor_cancel_right)
  then have "foldl crc_byte (crc XOR 0xffffffff) (xs @ a) = foldl crc_byte (crc XOR 0xffffffff) (xs @ b)"
    by (simp only: zero_bytes_inj)
  then have "foldl crc_byte 0 a = foldl crc_byte 0 b"
    by (simp only: foldl_crc_append[of _ xs] assms(1,2) xor_cancel_left)
  then have "(le_val a :: u32) = le_val b"
    by (simp only: foldl_crc_4[OF assms(1)] foldl_crc_4[OF assms(2)] zero_bytes_inj)
  then have "a ! k = b ! k" if "k < 4" for k
  proof -
    have "(ucast (a ! k) :: u32) = ucast (b ! k)"
      using le_val_byte[of k a, where 'a = 32] le_val_byte[of k b, where 'a = 32] that assms
        \<open>le_val a = le_val b\<close> by simp
    then show ?thesis by (rule ucast_u8_inj)
  qed
  with assms show False by (simp add: list_eq_iff_nth_eq)
qed

text \<open>C33. Error detection: two buffers that differ only inside four consecutive bytes never
  have the same checksum, so a block damaged in such a burst is rejected when it is read.\<close>

theorem crc32c_detects_burst:
  assumes "length a = 4" and "length b = 4" and "a \<noteq> b"
  shows "chose_crc32c_implementation hint available addr crc (xs @ a @ ys) \<noteq>
     chose_crc32c_implementation hint' available' addr' crc (xs @ b @ ys)"
  using crc32c_ref_detects_burst[OF assms] by (simp add: chose_crc32c_ref)

theorem crc32c_detects_burst_witness:
  "chose_crc32c_implementation FORCE_SW False 0 0 ([1] @ [2, 3, 4, 5] @ [6]) \<noteq>
   chose_crc32c_implementation DETECT True 8 0 ([1] @ [2, 3, 4, 7] @ [6])"
  by (rule crc32c_detects_burst) simp_all

end
