(* ===== verification/BlockStore.thy ===== *)
theory BlockStore
  imports FileStorage Crc32c
begin

text \<open>
  The rest of \<^verbatim>\<open>storage/block_store.cc\<close>: the checksums, the memory resident store, the block
  cache, and the interface \<open>BlockStore\<close> that the tree code is written against, as a record of
  operations with a locale of laws that every store of the program is shown to satisfy.
\<close>

subsection \<open>Checksums\<close>

text \<open>\<open>hw\<close> is the answer of the processor detection and \<open>al c\<close> the address of a memory region;
  neither influences the result.\<close>

definition bs_crc32c :: "bool \<Rightarrow> nat \<Rightarrow> u8 list \<Rightarrow> u32 option" where
  "bs_crc32c hw addr data = chose_crc32c_implementation DETECT hw addr 0 data"

definition FileStorage_checksum :: "bool \<Rightarrow> (u8 list \<Rightarrow> nat) \<Rightarrow> u8 list \<Rightarrow> u32 option" where
  "FileStorage_checksum hw al data = bs_crc32c hw (al data) data"

fun checksum_loop ::
  "bool \<Rightarrow> (u8 list \<Rightarrow> nat) \<Rightarrow> u8 list list \<Rightarrow> nat \<Rightarrow> nat \<Rightarrow> u32 \<Rightarrow> u32 option" where
  "checksum_loop hw al [] offset n crc = Some crc"
| "checksum_loop hw al (c # cs) offset n crc =
     (if length c < offset \<or> length c = 0 \<or> n = 0 then Some crc
      else
        let sz = min (length c - offset) n
        in do {
          crc \<leftarrow> chose_crc32c_implementation DETECT hw (al c + offset) crc (take sz (drop offset c));
          checksum_loop hw al cs 0 (n - sz) crc })"

definition FileStorage_checksum_iovec ::
  "bool \<Rightarrow> (u8 list \<Rightarrow> nat) \<Rightarrow> iovec_block \<Rightarrow> nat \<Rightarrow> nat \<Rightarrow> u32 option" where
  "FileStorage_checksum_iovec hw al block offset n = checksum_loop hw al (ib_data block) offset n 0"

definition MemStore_checksum :: "bool \<Rightarrow> (u8 list \<Rightarrow> nat) \<Rightarrow> u8 list \<Rightarrow> u32 option" where
  "MemStore_checksum hw al data = bs_crc32c hw (al data) data"

definition MemStore_checksum_iovec ::
  "bool \<Rightarrow> (u8 list \<Rightarrow> nat) \<Rightarrow> iovec_block \<Rightarrow> nat \<Rightarrow> nat \<Rightarrow> u32 option" where
  "MemStore_checksum_iovec hw al block offset n = checksum_loop hw al (ib_data block) offset n 0"

subsection \<open>MemStore\<close>

text \<open>The callbacks only observe addresses and are left out.\<close>

record mem_store =
  ms_buffer :: "u8 list"
  ms_write_pos :: u32
  ms_removed_pos :: u32

definition MEMSTORE_BASE :: logic_addr where
  "MEMSTORE_BASE = 619"

definition MemStore_new :: mem_store where
  "MemStore_new = \<lparr>ms_buffer = [], ms_write_pos = 0, ms_removed_pos = 0\<rparr>"

definition MemStore_remove :: "u64 \<Rightarrow> mem_store \<Rightarrow> logic_addr \<times> mem_store" where
  "MemStore_remove n s =
     (let s = s\<lparr>ms_removed_pos := ucast n\<rparr>;
          s = (if length (ms_buffer s) < unat (ms_removed_pos s)
               then
                 let m = unat (ms_removed_pos s * 4096)
                 in s\<lparr>ms_buffer := take m (ms_buffer s) @ replicate (m - length (ms_buffer s)) 0,
                      ms_write_pos := ucast n\<rparr>
               else s)
      in (n + MEMSTORE_BASE, s))"

text \<open>The block that a store returns: one chunk of 4096 bytes.\<close>

definition disk_block :: "u8 list \<Rightarrow> iovec_block" where
  "disk_block bs = IOVecBlock_new_allocated\<lparr>ib_data := (ib_data IOVecBlock_new_allocated)[0 := bs]\<rparr>"

definition MemStore_read_iovec_block :: "logic_addr \<Rightarrow> mem_store \<Rightarrow> (status \<times> iovec_block option) option" where
  "MemStore_read_iovec_block addr s =
     (let addr = addr - MEMSTORE_BASE;
          offset = (ucast (4096 * addr) :: u32)
      in if length (ms_buffer s) < unat (offset + 4096) then Some (kBadArg, None)
         else if addr < ucast (ms_removed_pos s) then Some (kUnavailable, None)
         else if length (ms_buffer s) < unat offset + FASTSTDB_BLOCK_SIZE then None
         else Some (kOk, Some (disk_block (take FASTSTDB_BLOCK_SIZE (drop (unat offset) (ms_buffer s))))))"

definition MemStore_append_block ::
  "iovec_block \<Rightarrow> mem_store \<Rightarrow> ((status \<times> logic_addr) \<times> iovec_block \<times> mem_store) option" where
  "MemStore_append_block data s =
     (let addr = ucast (ms_write_pos s + 619 :: u32);
          s = s\<lparr>ms_buffer := ms_buffer s @ iovec_image data, ms_write_pos := ms_write_pos s + 1\<rparr>
      in Some ((kOk, addr), IOVecBlock_set_addr addr data, s))"

definition MemStore_exists :: "logic_addr \<Rightarrow> mem_store \<Rightarrow> bool" where
  "MemStore_exists addr s =
     (let addr = addr - MEMSTORE_BASE
      in ucast (ms_removed_pos s) \<le> addr \<and> addr < ucast (ms_write_pos s))"

definition MemStore_get_stats :: "mem_store \<Rightarrow> block_store_stats" where
  "MemStore_get_stats s =
     \<lparr>bss_block_size = 4096, bss_capacity = 1024 * 4096, bss_nblocks = unat (ms_write_pos s)\<rparr>"

definition MemStore_get_write_pos :: "mem_store \<Rightarrow> u32" where
  "MemStore_get_write_pos s = ms_write_pos s"

definition MemStore_reset_write_pos :: "u32 \<Rightarrow> mem_store \<Rightarrow> u32 \<times> mem_store" where
  "MemStore_reset_write_pos pos s = (ms_write_pos s, s\<lparr>ms_write_pos := pos\<rparr>)"

definition MemStore_get_top_address :: "mem_store \<Rightarrow> logic_addr" where
  "MemStore_get_top_address s = MEMSTORE_BASE + ucast (ms_write_pos s)"

subsection \<open>BlockCache\<close>

definition bc_hash32 :: "u32 \<Rightarrow> nat \<Rightarrow> u64 \<Rightarrow> u64 option" where
  "bc_hash32 value bits seed =
     (if bits = 0 \<or> 64 < bits then None
      else Some (drop_bit (64 - bits) ((2 ^ 32 - 1) * ucast value + seed)))"

definition bc_hash :: "u64 \<Rightarrow> nat \<Rightarrow> u64 option" where
  "bc_hash value bits =
     do {
       a \<leftarrow> bc_hash32 (ucast (value AND 0xFFFFFFFF)) bits 277;
       b \<leftarrow> bc_hash32 (ucast (drop_bit 32 value)) bits 337;
       Some (a XOR b) }"

record block_cache =
  bc_cells :: "iovec_block option list"
  bc_bits :: nat

text \<open>The number of cells \<open>1 << Nbits\<close> is computed in \<open>int\<close>, where 31 bits or more do not fit.\<close>

definition BlockCache_new :: "nat \<Rightarrow> block_cache option" where
  "BlockCache_new Nbits =
     (if Nbits < 31 then Some \<lparr>bc_cells = replicate (2 ^ Nbits) None, bc_bits = Nbits\<rparr> else None)"

definition BlockCache_probe :: "logic_addr \<Rightarrow> block_cache \<Rightarrow> nat option" where
  "BlockCache_probe addr c =
     do {
       h \<leftarrow> bc_hash addr (bc_bits c);
       b \<leftarrow> at (bc_cells c) (unat h);
       Some (case b of Some b \<Rightarrow> if IOVecBlock_get_addr b = addr then 2 else 1 | None \<Rightarrow> 0) }"

text \<open>\<open>h1\<close> and \<open>h2\<close> are the two draws of the random number generator, \<open>uses\<close> the number of
  owners of the block of a cell.\<close>

definition bc_evict :: "nat \<Rightarrow> nat \<Rightarrow> (nat \<Rightarrow> nat) \<Rightarrow> block_cache \<Rightarrow> block_cache option" where
  "bc_evict h1 h2 uses c =
     do {
       p1 \<leftarrow> at (bc_cells c) h1;
       p2 \<leftarrow> at (bc_cells c) h2;
       Some (case (p1, p2) of
           (Some b1, Some b2) \<Rightarrow>
             let victim = (if uses h1 > uses h2 then h2
                           else if uses h1 < uses h2 then h1
                           else if IOVecBlock_get_addr b1 < IOVecBlock_get_addr b2 then h1 else h2)
             in c\<lparr>bc_cells := (bc_cells c)[victim := None]\<rparr>
         | _ \<Rightarrow> c) }"

definition BlockCache_insert ::
  "nat \<Rightarrow> nat \<Rightarrow> (nat \<Rightarrow> nat) \<Rightarrow> iovec_block \<Rightarrow> block_cache \<Rightarrow> block_cache option" where
  "BlockCache_insert h1 h2 uses block c =
     do {
       let addr = IOVecBlock_get_addr block;
       pr \<leftarrow> BlockCache_probe addr c;
       if pr = 2 then Some c
       else do {
         c \<leftarrow> (if pr = 0 then bc_evict h1 h2 uses c else Some c);
         h \<leftarrow> bc_hash addr (bc_bits c);
         if unat h < length (bc_cells c) then Some (c\<lparr>bc_cells := (bc_cells c)[unat h := Some block]\<rparr>)
         else None } }"

definition BlockCache_loockup :: "logic_addr \<Rightarrow> block_cache \<Rightarrow> iovec_block option option" where
  "BlockCache_loockup addr c =
     do {
       it \<leftarrow> bc_hash addr (bc_bits c);
       p \<leftarrow> at (bc_cells c) (unat it);
       b \<leftarrow> p;
       Some (if IOVecBlock_get_addr b \<noteq> addr then None else Some b) }"

subsection \<open>The interface of a block store\<close>

record 's bstore =
  bs_read :: "logic_addr \<Rightarrow> 's \<Rightarrow> (status \<times> iovec_block option) option"
  bs_append :: "iovec_block \<Rightarrow> 's \<Rightarrow> ((status \<times> logic_addr) \<times> iovec_block \<times> 's) option"
  bs_exists :: "logic_addr \<Rightarrow> 's \<Rightarrow> bool option"
  bs_checksum :: "u8 list \<Rightarrow> u32 option"
  bs_checksum_iovec :: "iovec_block \<Rightarrow> nat \<Rightarrow> nat \<Rightarrow> u32 option"

text \<open>What a client relies on.  \<open>room n s\<close>: the store is well formed and takes \<open>n\<close> more blocks;
  \<open>look s a\<close>: the bytes that the store holds at address \<open>a\<close>.  A store may drop old blocks when
  it appends (retention), but it never changes or invents one.\<close>

locale block_store =
  fixes B :: "'s bstore" and room :: "nat \<Rightarrow> 's \<Rightarrow> bool" and look :: "'s \<Rightarrow> logic_addr \<Rightarrow> u8 list option"
  assumes append_ok: "room (Suc n) s \<Longrightarrow> ib_inv b \<Longrightarrow>
      \<exists>addr x s'. bs_append B b s = Some ((kOk, addr), IOVecBlock_set_addr x b, s') \<and> room n s' \<and>
        addr \<noteq> EMPTY_ADDR \<and> look s addr = None \<and>
        look s' addr = Some (ib_flat b) \<and> (\<forall>a bs. a \<noteq> addr \<longrightarrow> look s' a = Some bs \<longrightarrow> look s a = Some bs)"
    and read_ok: "room n s \<Longrightarrow> look s a = Some bs \<Longrightarrow> bs_read B a s = Some (kOk, Some (disk_block bs))"
    and read_length: "room n s \<Longrightarrow> look s a = Some bs \<Longrightarrow> length bs = FASTSTDB_BLOCK_SIZE"
    and exists_ok: "room n s \<Longrightarrow> bs_exists B a s = Some (look s a \<noteq> None)"
    and checksum_ok: "bs_checksum B data = Some (crc32c_ref 0 data)"
    and checksum_iovec_ok: "ib_alloc k b \<Longrightarrow> off \<le> COMPONENT_SIZE \<Longrightarrow> off + len \<le> k * COMPONENT_SIZE \<Longrightarrow>
      bs_checksum_iovec B b off len = Some (crc32c_ref 0 (take len (drop off (ib_flat b))))"
    and room_mono: "room (Suc n) s \<Longrightarrow> room n s"

text \<open>A store that never drops a block, and that uses address 0 for its first block only.\<close>

locale durable_store = block_store +
  assumes append_keeps: "room (Suc n) s \<Longrightarrow> ib_inv b \<Longrightarrow> bs_append B b s = Some (r, b', s') \<Longrightarrow>
      look s a = Some bs \<Longrightarrow> look s' a = Some bs"
    and append_zero: "room (Suc n) s \<Longrightarrow> ib_inv b \<Longrightarrow> bs_append B b s = Some ((st, 0), b', s') \<Longrightarrow>
      look s = Map.empty"
begin

lemma append_look:
  assumes "room (Suc n) s" and "ib_inv b"
  shows "\<exists>addr x s'. bs_append B b s = Some ((kOk, addr), IOVecBlock_set_addr x b, s') \<and> room n s' \<and>
     addr \<noteq> EMPTY_ADDR \<and> (addr = 0 \<longrightarrow> look s = Map.empty) \<and> look s addr = None \<and>
     look s' = (look s)(addr \<mapsto> ib_flat b)"
proof -
  from append_ok[OF assms] obtain addr x s' where
    a: "bs_append B b s = Some ((kOk, addr), IOVecBlock_set_addr x b, s')" "room n s'" "addr \<noteq> EMPTY_ADDR"
    "look s addr = None" "look s' addr = Some (ib_flat b)"
    "\<forall>a bs. a \<noteq> addr \<longrightarrow> look s' a = Some bs \<longrightarrow> look s a = Some bs" by blast
  have "look s' a = ((look s)(addr \<mapsto> ib_flat b)) a" for a
  proof (cases "a = addr")
    case False
    then show ?thesis using a(6) append_keeps[OF assms a(1), of a] by (cases "look s a"; cases "look s' a") auto
  qed (use a(5) in simp)
  moreover have "addr = 0 \<longrightarrow> look s = Map.empty" using append_zero[OF assms] a(1) by blast
  ultimately show ?thesis using a by blast
qed

end

subsection \<open>The checksum of a block is that of its bytes\<close>

lemma crc32c_ref_Nil [simp]: "crc32c_ref c [] = c"
  by (simp add: crc32c_ref_def xor.assoc)

lemma checksum_loop_eq:
  "cs \<noteq> [] \<longrightarrow> offset \<le> length (hd cs) \<Longrightarrow> checksum_loop hw al cs offset n crc =
     Some (crc32c_ref crc (take n (drop offset (concat (takeWhile (\<lambda>c. c \<noteq> []) cs)))))"
proof (induction cs arbitrary: offset n crc)
  case (Cons c cs)
  let ?R = "concat (takeWhile (\<lambda>c. c \<noteq> []) cs)" and ?sz = "min (length c - offset) n"
  show ?case
  proof (cases "c = [] \<or> n = 0")
    case False
    have "take ?sz (drop offset c) = take n (drop offset c)" by (cases "length c - offset \<le> n") simp_all
    moreover have "n - ?sz = n - (length c - offset)" by simp
    moreover have "take n (drop offset (c @ ?R)) = take n (drop offset c) @ take (n - (length c - offset)) ?R"
      using Cons.prems by simp
    ultimately show ?thesis using False Cons.prems Cons.IH[of 0]
      by (simp add: Let_def chose_crc32c_ref crc32c_ref_append)
  qed auto
qed simp

lemma takeWhile_alloc:
  assumes "ib_alloc k b"
  shows "concat (takeWhile (\<lambda>c. c \<noteq> []) (ib_data b)) = take (k * 1024) (ib_flat b)"
proof -
  have l: "length (ib_data b) = 4" "k \<le> 4" and i: "\<And>i. i < 4 \<Longrightarrow> length (ib_data b ! i) = (if i < k then 1024 else 0)"
    using assms by (auto simp: ib_alloc_def)
  have ne: "ib_data b ! i \<noteq> [] \<longleftrightarrow> i < k" if "i < 4" for i
    using i[OF that] by (cases "ib_data b ! i") (auto split: if_splits)
  have tw: "takeWhile (\<lambda>c. c \<noteq> []) (ib_data b) = take k (ib_data b)"
    by (rule takeWhile_eq_take_P_nth) (use l ne in auto)
  have m: "map ib_pad (take k (ib_data b)) = take k (ib_data b)"
  proof (rule map_idI)
    fix c assume "c \<in> set (take k (ib_data b))"
    then obtain i where "i < k" "c = ib_data b ! i" by (auto simp: in_set_conv_nth)
    then show "ib_pad c = c" using l ne[of i] by (simp add: ib_pad_def)
  qed
  have "ib_flat b = concat (take k (map ib_pad (ib_data b))) @ concat (drop k (map ib_pad (ib_data b)))"
    unfolding ib_flat_alloc[OF assms] concat_append[symmetric] append_take_drop_id ..
  moreover have "length (concat (take k (map ib_pad (ib_data b)))) = k * 1024"
  proof -
    have "\<forall>x \<in> set (take k (map ib_pad (ib_data b))). length x = 1024"
      using ib_pads[OF assms] by (blast dest: in_set_takeD)
    from concat_pieces_length[OF this] l show ?thesis by simp
  qed
  ultimately show ?thesis unfolding tw by (simp add: take_map m)
qed

lemma checksum_alloc:
  assumes "ib_alloc k b" and "off \<le> 1024" and "off + len \<le> k * 1024"
  shows "checksum_loop hw al (ib_data b) off len 0 = Some (crc32c_ref 0 (take len (drop off (ib_flat b))))"
proof -
  have "ib_data b \<noteq> []" using assms(1) by (auto simp: ib_alloc_def)
  have "off \<le> length (hd (ib_data b))" if "0 < k"
    using that ib_alloc_full[OF assms(1), of 0] assms(2) \<open>ib_data b \<noteq> []\<close> by (simp add: hd_conv_nth)
  moreover have "off = 0" if "k = 0" using that assms(3) by simp
  ultimately have "checksum_loop hw al (ib_data b) off len 0 =
      Some (crc32c_ref 0 (take len (drop off (take (k * 1024) (ib_flat b)))))"
    using checksum_loop_eq[of "ib_data b" off] takeWhile_alloc[OF assms(1)] by (cases k) auto
  moreover have "take len (drop off (take (k * 1024) (ib_flat b))) = take len (drop off (ib_flat b))"
    using assms(3) by (simp add: drop_take min_def)
  ultimately show ?thesis by simp
qed

subsection \<open>MemStore is a durable store\<close>

definition ms_page :: "mem_store \<Rightarrow> nat \<Rightarrow> u8 list" where
  "ms_page s i = take FASTSTDB_BLOCK_SIZE (drop (FASTSTDB_BLOCK_SIZE * i) (ms_buffer s))"

definition ms_look :: "mem_store \<Rightarrow> logic_addr \<Rightarrow> u8 list option" where
  "ms_look s a =
     (let i = unat (a - MEMSTORE_BASE)
      in if unat (ms_removed_pos s) \<le> i \<and> i < unat (ms_write_pos s) then Some (ms_page s i) else None)"

definition ms_room :: "nat \<Rightarrow> mem_store \<Rightarrow> bool" where
  "ms_room n s \<longleftrightarrow> length (ms_buffer s) = FASTSTDB_BLOCK_SIZE * unat (ms_write_pos s) \<and>
     ms_removed_pos s \<le> ms_write_pos s \<and> unat (ms_write_pos s) + n < 2 ^ 20"

definition MemStoreB :: "bool \<Rightarrow> (u8 list \<Rightarrow> nat) \<Rightarrow> mem_store bstore" where
  "MemStoreB hw al = \<lparr>bs_read = MemStore_read_iovec_block, bs_append = MemStore_append_block,
     bs_exists = (\<lambda>a s. Some (MemStore_exists a s)), bs_checksum = MemStore_checksum hw al,
     bs_checksum_iovec = MemStore_checksum_iovec hw al\<rparr>"

lemma unat_ucast_u64 [simp]: "unat (ucast (x :: u32) :: u64) = unat x"
proof -
  have "unat x < 2 ^ LENGTH(32)" by (rule unsigned_less)
  then have "unat x < 2 ^ 64" by simp
  then show ?thesis by (simp add: unsigned_ucast_eq take_bit_nat_eq_self)
qed

lemma ms_append_addr:
  assumes "ms_room (Suc n) s"
  shows "(ucast (ms_write_pos s + 619 :: u32) :: u64) = ucast (ms_write_pos s) + MEMSTORE_BASE"
    "unat (ms_write_pos s + 1) = Suc (unat (ms_write_pos s))"
proof -
  have w: "unat (ms_write_pos s) + 619 < 2 ^ 32" using assms by (simp add: ms_room_def)
  then have "unat (ms_write_pos s + 619) = unat (ms_write_pos s) + 619"
    by (simp add: unat_word_ariths)
  with w show "(ucast (ms_write_pos s + 619 :: u32) :: u64) = ucast (ms_write_pos s) + MEMSTORE_BASE"
    by (simp add: word_unat_eq_iff unat_word_ariths MEMSTORE_BASE_def)
  show "unat (ms_write_pos s + 1) = Suc (unat (ms_write_pos s))"
    using w by (simp add: unat_word_ariths)
qed

lemma ms_append_ok:
  assumes room: "ms_room (Suc n) s" and b: "ib_inv b"
  defines "addr \<equiv> ucast (ms_write_pos s) + MEMSTORE_BASE"
  shows "\<exists>s'. MemStore_append_block b s = Some ((kOk, addr), IOVecBlock_set_addr addr b, s') \<and>
     ms_room n s' \<and> ms_look s addr = None \<and> ms_look s' = (ms_look s)(addr \<mapsto> ib_flat b)"
proof -
  note w = ms_append_addr[OF room]
  let ?w = "unat (ms_write_pos s)"
  let ?s = "s\<lparr>ms_buffer := ms_buffer s @ iovec_image b, ms_write_pos := ms_write_pos s + 1\<rparr>"
  have img: "iovec_image b = ib_flat b" "length (ib_flat b) = 4096" using iovec_image_inv[OF b] by auto
  have len: "length (ms_buffer s) = 4096 * ?w" "unat (ms_removed_pos s) \<le> ?w"
    using room by (auto simp: ms_room_def word_le_nat_alt)
  have a: "unat (addr - MEMSTORE_BASE) = ?w" by (simp add: addr_def)
  have other: "unat (x - MEMSTORE_BASE) \<noteq> ?w" if "x \<noteq> addr" for x
    using that a by (metis diff_eq_eq diff_add_cancel word_unat_eq_iff)
  have page: "ms_page ?s i = (if i = ?w then ib_flat b else ms_page s i)" if "i \<le> ?w" for i
    using that len img by (cases "i = ?w") (simp_all add: ms_page_def)
  have "ms_look ?s = (ms_look s)(addr \<mapsto> ib_flat b)"
  proof
    fix x
    show "ms_look ?s x = ((ms_look s)(addr \<mapsto> ib_flat b)) x"
      using len a other[of x] page[of "unat (x - MEMSTORE_BASE)"] w(2)
      by (cases "x = addr") (auto simp: ms_look_def Let_def)
  qed
  moreover have "ms_room n ?s" using room img len w(2) by (auto simp: ms_room_def word_le_nat_alt)
  moreover have "ms_look s addr = None" using a by (simp add: ms_look_def Let_def)
  ultimately show ?thesis using w(1) by (auto simp: MemStore_append_block_def Let_def addr_def)
qed

lemma ms_read_ok:
  assumes room: "ms_room n s" and look: "ms_look s a = Some bs"
  shows "MemStore_read_iovec_block a s = Some (kOk, Some (disk_block bs))" "length bs = 4096"
proof -
  let ?i = "unat (a - MEMSTORE_BASE)" and ?w = "unat (ms_write_pos s)"
  have i: "unat (ms_removed_pos s) \<le> ?i" "?i < ?w" "bs = ms_page s ?i"
    using look by (auto simp: ms_look_def Let_def split: if_splits)
  have len: "length (ms_buffer s) = 4096 * ?w" "?w < 2 ^ 20" using room by (auto simp: ms_room_def)
  have "unat (ucast (4096 * j) :: u32) = 4096 * unat j" if "unat j < 2 ^ 20" for j :: u64
    using that by (simp add: unsigned_ucast_eq unat_word_ariths take_bit_eq_mod)
  from this[of "a - MEMSTORE_BASE"] have off: "unat (ucast (4096 * (a - MEMSTORE_BASE)) :: u32) = 4096 * ?i"
    using i(2) len(2) by simp
  moreover have "unat (x + 4096) = unat x + 4096" if "unat x + 4096 < 2 ^ 32" for x :: u32
    using that by (simp add: unat_word_ariths)
  from this[of "ucast (4096 * (a - MEMSTORE_BASE))"]
  have "unat ((ucast (4096 * (a - MEMSTORE_BASE)) :: u32) + 4096) = 4096 * ?i + 4096"
    unfolding off using i(2) len(2) by simp
  moreover have "\<not> a - MEMSTORE_BASE < ucast (ms_removed_pos s)"
    using i(1) by (simp add: word_less_nat_alt)
  ultimately show "MemStore_read_iovec_block a s = Some (kOk, Some (disk_block bs))"
    using i(2,3) len(1) by (simp add: MemStore_read_iovec_block_def Let_def ms_page_def)
  show "length bs = 4096" using i(2,3) len(1) by (simp add: ms_page_def)
qed

lemma ms_exists_ok: "MemStore_exists a s \<longleftrightarrow> ms_look s a \<noteq> None"
  by (simp add: MemStore_exists_def ms_look_def Let_def word_le_nat_alt word_less_nat_alt)

lemma ms_addr_bounds:
  assumes "ms_room n s"
  shows "0 < unat (ucast (ms_write_pos s) + MEMSTORE_BASE)" "unat (ucast (ms_write_pos s) + MEMSTORE_BASE) < 2 ^ 21"
  using assms by (simp_all add: ms_room_def MEMSTORE_BASE_def unat_word_ariths)

interpretation memstore: durable_store "MemStoreB hw al" ms_room ms_look for hw al
proof
  fix n s b assume room: "ms_room (Suc n) s" and b: "ib_inv b"
  let ?a = "ucast (ms_write_pos s) + MEMSTORE_BASE"
  from ms_append_ok[OF room b] obtain s' where
    s': "MemStore_append_block b s = Some ((kOk, ?a), IOVecBlock_set_addr ?a b, s')" "ms_room n s'"
    "ms_look s ?a = None" "ms_look s' = (ms_look s)(?a \<mapsto> ib_flat b)" by blast
  have "?a \<noteq> EMPTY_ADDR" using ms_addr_bounds[OF room] by (auto simp: EMPTY_ADDR_def)
  with s' show "\<exists>addr x s'. bs_append (MemStoreB hw al) b s = Some ((kOk, addr), IOVecBlock_set_addr x b, s') \<and>
      ms_room n s' \<and> addr \<noteq> EMPTY_ADDR \<and> ms_look s addr = None \<and>
      ms_look s' addr = Some (ib_flat b) \<and> (\<forall>a bs. a \<noteq> addr \<longrightarrow> ms_look s' a = Some bs \<longrightarrow> ms_look s a = Some bs)"
    by (intro exI[of _ ?a] exI[of _ s']) (simp add: MemStoreB_def)
next
  fix n s b r b' s' a bs
  assume "ms_room (Suc n) s" "ib_inv b" "bs_append (MemStoreB hw al) b s = Some (r, b', s')" "ms_look s a = Some bs"
  then show "ms_look s' a = Some bs" using ms_append_ok[of n s b] by (auto simp: MemStoreB_def)
next
  fix n s b st b' s'
  assume r: "ms_room (Suc n) s" "ib_inv b" "bs_append (MemStoreB hw al) b s = Some ((st, 0), b', s')"
  then have "ucast (ms_write_pos s) + MEMSTORE_BASE = 0" using ms_append_ok[of n s b] by (auto simp: MemStoreB_def)
  then show "ms_look s = Map.empty" using ms_addr_bounds(1)[OF r(1)] by simp
next
  fix k b off len
  assume "ib_alloc k b" "off \<le> 1024" "off + len \<le> k * 1024"
  then show "bs_checksum_iovec (MemStoreB hw al) b off len = Some (crc32c_ref 0 (take len (drop off (ib_flat b))))"
    by (simp add: MemStoreB_def MemStore_checksum_iovec_def checksum_alloc)
qed (auto simp: MemStoreB_def ms_read_ok ms_exists_ok MemStore_checksum_def bs_crc32c_def chose_crc32c_ref ms_room_def)

subsection \<open>The file storages are block stores\<close>

lemma Volume_read_exact:
  assumes v: "vol_ok v" and ix: "ix < vol_write_pos v"
  shows "Volume_read_block ix v = Some (kOk, disk_block (vol_block v (unat ix)))"
proof -
  have f: "ix < vol_file_size v" using v ix by (simp add: vol_ok_def order.strict_trans2)
  from vol_offset[OF v f] ix show ?thesis
    by (simp add: Volume_read_block_def Volume_read_block_raw_def Let_def vol_block_def
        IOVecBlock_new_allocated_def disk_block_def)
qed

lemma fs_lookup_SomeD:
  assumes "fs_ok slot fs" and "fs_lookup slot fs a = Some bs"
  defines "i \<equiv> slot (extract_gen a)"
  shows "i < length (fs_volumes fs)" "mv_generation (fs_meta fs) i = extract_gen a"
    "vol_ok (fs_volumes fs ! i)" "vol_write_pos (fs_volumes fs ! i) = mv_nblocks (fs_meta fs) i"
    "extract_vol a < mv_nblocks (fs_meta fs) i" "bs = vol_block (fs_volumes fs ! i) (unat (extract_vol a))"
    "mv_ok (length (fs_volumes fs)) (fs_meta fs)"
  using assms by (auto simp: fs_lookup_def fs_ok_def Let_def split: if_splits)

lemma fs_lookup_bounds:
  assumes "fs_ok slot fs" and "fs_lookup slot fs a = Some bs"
  shows "length bs = 4096" "a \<noteq> EMPTY_ADDR"
proof -
  note l = fs_lookup_SomeD[OF assms]
  have f: "extract_vol a < vol_file_size (fs_volumes fs ! slot (extract_gen a))"
    using l(3,4,5) by (simp add: vol_ok_def order.strict_trans2)
  show "length bs = 4096" using length_vol_block[OF l(3) f] l(6) by simp
  have "unat (extract_vol a) < 2 ^ 20"
    using f l(3) by (simp add: vol_ok_def word_less_nat_alt order.strict_trans2)
  moreover have "unat (extract_vol EMPTY_ADDR) = 2 ^ 32 - 1"
    by (simp add: extract_vol_def EMPTY_ADDR_def)
  ultimately show "a \<noteq> EMPTY_ADDR" by auto
qed

lemma fixed_read_exact:
  assumes ok: "fixed_ok fs" and a: "fixed_lookup fs a = Some bs"
  shows "FixedSizeFileStorage_read_iovec_block a fs = Some (kOk, Some (disk_block bs))"
proof -
  let ?n = "length (fs_volumes fs)" and ?g = "extract_gen a"
  note l = fs_lookup_SomeD[OF ok a]
  have n: "?n \<le> 2 ^ 20" "0 < ?n" using fs_ok_bound[OF ok] by auto
  then have un: "unat (of_nat ?n :: u32) = ?n" by (simp add: unat_of_nat)
  then have "(of_nat ?n :: u32) \<noteq> 0" using n by auto
  then have vx: "fixed_volix ?g fs = Some (?g mod of_nat ?n)" by (simp add: fixed_volix_def Let_def)
  have ui: "unat (?g mod of_nat ?n) = fixed_slot ?n ?g" by (simp add: fixed_slot_def unat_mod_distrib un)
  note get = mv_getters[OF l(7), of "?g mod of_nat ?n", unfolded ui, OF l(1)]
  have "\<not> mv_nblocks (fs_meta fs) (fixed_slot ?n ?g) \<le> extract_vol a" using l(5) by (simp add: not_le)
  moreover have "Volume_read_block (extract_vol a) (fs_volumes fs ! fixed_slot ?n ?g) = Some (kOk, disk_block bs)"
    using Volume_read_exact[OF l(3)] l(4,5,6) by simp
  ultimately show ?thesis using vx get l(1,2) ui
    by (simp add: FixedSizeFileStorage_read_iovec_block_def Let_def)
qed

lemma expandable_read_exact:
  assumes ok: "fs_ok unat fs" and a: "fs_lookup unat fs a = Some bs"
  shows "ExpandableFileStorage_read_iovec_block a fs = Some (kOk, Some (disk_block bs))"
proof -
  note l = fs_lookup_SomeD[OF ok a]
  note get = mv_getters[OF l(7,1)]
  have "\<not> mv_nblocks (fs_meta fs) (unat (extract_gen a)) \<le> extract_vol a" using l(5) by (simp add: not_le)
  moreover have "Volume_read_block (extract_vol a) (fs_volumes fs ! unat (extract_gen a)) = Some (kOk, disk_block bs)"
    using Volume_read_exact[OF l(3)] l(4,5,6) by simp
  ultimately show ?thesis using get l(1,2)
    by (simp add: ExpandableFileStorage_read_iovec_block_def Let_def)
qed

lemma expandable_exists_ok:
  assumes ok: "fs_ok unat fs"
  shows "ExpandableFileStorage_exists a fs = Some (fs_lookup unat fs a \<noteq> None)"
proof (cases "unat (extract_gen a) < length (fs_volumes fs)")
  case True
  have "mv_ok (length (fs_volumes fs)) (fs_meta fs)" using fs_ok_cur(5)[OF ok] .
  from mv_getters[OF this True] True show ?thesis
    by (simp add: ExpandableFileStorage_exists_def Let_def fs_lookup_def)
next
  case False
  have "mv_ok (length (fs_volumes fs)) (fs_meta fs)" using fs_ok_cur(5)[OF ok] .
  from mv_count[OF this] False show ?thesis
    by (simp add: ExpandableFileStorage_exists_def Let_def fs_lookup_def MetaVolume_get_generation_def)
qed

definition FixedB :: "bool \<Rightarrow> (u8 list \<Rightarrow> nat) \<Rightarrow> file_storage bstore" where
  "FixedB hw al = \<lparr>bs_read = FixedSizeFileStorage_read_iovec_block,
     bs_append = FileStorage_append_block FixedSizeFileStorage_adjust_current_volume IoOk,
     bs_exists = FixedSizeFileStorage_exists, bs_checksum = FileStorage_checksum hw al,
     bs_checksum_iovec = FileStorage_checksum_iovec hw al\<rparr>"

definition ExpandableB ::
  "bool \<Rightarrow> (u8 list \<Rightarrow> nat) \<Rightarrow> (u8 list \<Rightarrow> u8 list option) \<Rightarrow> u8 list \<Rightarrow> file_storage bstore" where
  "ExpandableB hw al files db = \<lparr>bs_read = ExpandableFileStorage_read_iovec_block,
     bs_append = FileStorage_append_block (ExpandableFileStorage_adjust_current_volume files db) IoOk,
     bs_exists = ExpandableFileStorage_exists, bs_checksum = FileStorage_checksum hw al,
     bs_checksum_iovec = FileStorage_checksum_iovec hw al\<rparr>"

text \<open>The conditions of an append, now and after each of the next \<open>n\<close> appends: generations do
  not overflow, and a volume can be added.\<close>

primrec fixed_room :: "nat \<Rightarrow> file_storage \<Rightarrow> bool" where
  "fixed_room 0 fs = fixed_ok fs"
| "fixed_room (Suc n) fs \<longleftrightarrow> fixed_ok fs \<and>
     unat (mv_generation (fs_meta fs) (next_ix fs)) + length (fs_volumes fs) < 2 ^ 32 \<and>
     (\<forall>b r b' fs'. ib_inv b \<longrightarrow>
        FileStorage_append_block FixedSizeFileStorage_adjust_current_volume IoOk b fs = Some (r, b', fs') \<longrightarrow>
        fixed_room n fs')"

primrec expandable_has_room ::
  "(u8 list \<Rightarrow> u8 list option) \<Rightarrow> u8 list \<Rightarrow> nat \<Rightarrow> file_storage \<Rightarrow> bool" where
  "expandable_has_room files db 0 fs = expandable_ok fs"
| "expandable_has_room files db (Suc n) fs \<longleftrightarrow> expandable_ok fs \<and> length (fs_volumes fs) < 2 ^ 20 \<and>
     length (expandable_new_path db fs) \<le> 4075 \<and> 0 \<notin> set (expandable_new_path db fs) \<and>
     files (expandable_new_path db fs) = None \<and>
     (\<forall>b r b' fs'. ib_inv b \<longrightarrow>
        FileStorage_append_block (ExpandableFileStorage_adjust_current_volume files db) IoOk b fs = Some (r, b', fs') \<longrightarrow>
        expandable_has_room files db n fs')"

lemma fixed_room_ok: "fixed_room n fs \<Longrightarrow> fixed_ok fs"
  by (cases n) auto

lemma fixed_room_mono: "fixed_room (Suc n) fs \<Longrightarrow> fixed_room n fs"
proof (induction n arbitrary: fs)
  case (Suc n)
  then show ?case by (simp only: fixed_room.simps) blast
qed (simp only: fixed_room.simps)

lemma expandable_has_room_ok: "expandable_has_room files db n fs \<Longrightarrow> expandable_ok fs \<and> fs_ok unat fs"
  by (cases n) (auto simp: expandable_ok_def)

lemma expandable_has_room_mono: "expandable_has_room files db (Suc n) fs \<Longrightarrow> expandable_has_room files db n fs"
proof (induction n arbitrary: fs)
  case (Suc n)
  then show ?case by (simp only: expandable_has_room.simps) blast
qed (simp only: expandable_has_room.simps)

lemma file_checksums:
  "FileStorage_checksum hw al data = Some (crc32c_ref 0 data)"
  "ib_alloc k b \<Longrightarrow> off \<le> 1024 \<Longrightarrow> off + len \<le> k * 1024 \<Longrightarrow>
   FileStorage_checksum_iovec hw al b off len = Some (crc32c_ref 0 (take len (drop off (ib_flat b))))"
  by (simp_all add: FileStorage_checksum_def bs_crc32c_def chose_crc32c_ref FileStorage_checksum_iovec_def
      checksum_alloc)

interpretation fixedstore: block_store "FixedB hw al" fixed_room "\<lambda>fs. fixed_lookup fs" for hw al
proof
  fix n fs b assume room: "fixed_room (Suc n) fs" and b: "ib_inv b"
  then have c: "fixed_ok fs" "unat (mv_generation (fs_meta fs) (next_ix fs)) + length (fs_volumes fs) < 2 ^ 32"
    by auto
  from fixed_append_ok[OF c(1) b c(2)] obtain addr fs' where
    a: "FileStorage_append_block FixedSizeFileStorage_adjust_current_volume IoOk b fs =
       Some ((kOk, addr), IOVecBlock_set_addr (ucast (extract_vol addr)) b, fs')"
    "fixed_ok fs'" "fixed_lookup fs addr = None"
    "fixed_lookup fs' =
       (\<lambda>a. if extract_gen a \<in> fixed_evicted fs then None else fixed_lookup fs a)(addr \<mapsto> ib_flat b)" by blast
  have "fixed_room n fs'" using room b a(1) by auto
  moreover have "addr \<noteq> EMPTY_ADDR" using fs_lookup_bounds(2)[OF a(2), of addr] a(4) by simp
  ultimately show "\<exists>addr x s'. bs_append (FixedB hw al) b fs = Some ((kOk, addr), IOVecBlock_set_addr x b, s') \<and>
      fixed_room n s' \<and> addr \<noteq> EMPTY_ADDR \<and> fixed_lookup fs addr = None \<and>
      fixed_lookup s' addr = Some (ib_flat b) \<and>
      (\<forall>a bs. a \<noteq> addr \<longrightarrow> fixed_lookup s' a = Some bs \<longrightarrow> fixed_lookup fs a = Some bs)"
    using a(1,3,4) by (intro exI[of _ addr] exI[of _ "ucast (extract_vol addr)"] exI[of _ fs'])
      (auto simp: FixedB_def split: if_splits)
next
  fix n fs a show "fixed_room n fs \<Longrightarrow> bs_exists (FixedB hw al) a fs = Some (fixed_lookup fs a \<noteq> None)"
    using fixed_read_lookup(2)[OF fixed_room_ok] by (simp add: FixedB_def)
qed (auto simp: FixedB_def file_checksums fixed_read_exact[OF fixed_room_ok] fs_lookup_bounds(1)[OF fixed_room_ok]
    simp del: fixed_room.simps dest: fixed_room_mono)

interpretation expandablestore:
  durable_store "ExpandableB hw al files db" "expandable_has_room files db" "fs_lookup unat" for hw al files db
proof
  fix n fs b assume room: "expandable_has_room files db (Suc n) fs" and b: "ib_inv b"
  then have c: "expandable_ok fs" "length (fs_volumes fs) < 2 ^ 20" "length (expandable_new_path db fs) \<le> 4075"
    "0 \<notin> set (expandable_new_path db fs)" "files (expandable_new_path db fs) = None" by auto
  from expandable_append_ok[where files = files and db = db, OF c(1) b c(2-5)] obtain addr fs' where
    a: "FileStorage_append_block (ExpandableFileStorage_adjust_current_volume files db) IoOk b fs =
       Some ((kOk, addr), IOVecBlock_set_addr (ucast (extract_vol addr)) b, fs')"
    "expandable_ok fs'" "fs_lookup unat fs addr = None" "addr = 0 \<longrightarrow> fs_lookup unat fs = Map.empty"
    "fs_lookup unat fs' = (fs_lookup unat fs)(addr \<mapsto> ib_flat b)" by blast
  have "expandable_has_room files db n fs'" using room b a(1) by auto
  moreover have "addr \<noteq> EMPTY_ADDR"
    using fs_lookup_bounds(2)[of unat fs' addr] a(2,5) by (simp add: expandable_ok_def)
  ultimately show "\<exists>addr x s'. bs_append (ExpandableB hw al files db) b fs =
        Some ((kOk, addr), IOVecBlock_set_addr x b, s') \<and>
      expandable_has_room files db n s' \<and> addr \<noteq> EMPTY_ADDR \<and> fs_lookup unat fs addr = None \<and>
      fs_lookup unat s' addr = Some (ib_flat b) \<and>
      (\<forall>a bs. a \<noteq> addr \<longrightarrow> fs_lookup unat s' a = Some bs \<longrightarrow> fs_lookup unat fs a = Some bs)"
    using a(1,3,5) by (intro exI[of _ addr] exI[of _ "ucast (extract_vol addr)"] exI[of _ fs'])
      (auto simp: ExpandableB_def)
  fix r b' s' x bs
  assume "bs_append (ExpandableB hw al files db) b fs = Some (r, b', s')" "fs_lookup unat fs x = Some bs"
  then show "fs_lookup unat s' x = Some bs" using a(1,3,5) by (auto simp: ExpandableB_def)
next
  fix n fs b st b' s'
  assume room: "expandable_has_room files db (Suc n) fs" and b: "ib_inv b"
    and ap: "bs_append (ExpandableB hw al files db) b fs = Some ((st, 0), b', s')"
  from room have c: "expandable_ok fs" "length (fs_volumes fs) < 2 ^ 20" "length (expandable_new_path db fs) \<le> 4075"
    "0 \<notin> set (expandable_new_path db fs)" "files (expandable_new_path db fs) = None" by auto
  from expandable_append_ok[where files = files and db = db, OF c(1) b c(2-5)] ap
  show "fs_lookup unat fs = Map.empty" by (auto simp: ExpandableB_def)
next
  fix n fs a bs
  assume "expandable_has_room files db n fs" "fs_lookup unat fs a = Some bs"
  then show "bs_read (ExpandableB hw al files db) a fs = Some (kOk, Some (disk_block bs))"
    "length bs = 4096"
    using expandable_has_room_ok[of files db n fs] expandable_read_exact[of fs a bs] fs_lookup_bounds(1)[of unat fs a bs]
    by (simp_all add: ExpandableB_def)
next
  fix n fs a assume "expandable_has_room files db n fs"
  then show "bs_exists (ExpandableB hw al files db) a fs = Some (fs_lookup unat fs a \<noteq> None)"
    using expandable_has_room_ok[of files db n fs] expandable_exists_ok[of fs a] by (simp add: ExpandableB_def)
qed (auto simp: ExpandableB_def file_checksums simp del: expandable_has_room.simps dest: expandable_has_room_mono)

subsection \<open>Properties\<close>

text \<open>C34. MemStore round trip: an append into a store with room returns a fresh address, reading
  it gives one chunk with exactly the bytes of the block, and every address that existed before
  reads as before.\<close>

theorem memstore_append_read:
  assumes "ms_room (Suc n) s" and "ib_inv b"
  shows "\<exists>addr b' s'. MemStore_append_block b s = Some ((kOk, addr), b', s') \<and> ms_room n s' \<and>
     \<not> MemStore_exists addr s \<and> MemStore_exists addr s' \<and>
     MemStore_read_iovec_block addr s' = Some (kOk, Some (disk_block (ib_flat b))) \<and>
     (\<forall>a. MemStore_exists a s \<longrightarrow>
        MemStore_exists a s' \<and> MemStore_read_iovec_block a s' = MemStore_read_iovec_block a s)"
proof -
  let ?a = "ucast (ms_write_pos s) + MEMSTORE_BASE"
  from ms_append_ok[OF assms] obtain s' where
    s': "MemStore_append_block b s = Some ((kOk, ?a), IOVecBlock_set_addr ?a b, s')" "ms_room n s'"
    "ms_look s ?a = None" "ms_look s' = (ms_look s)(?a \<mapsto> ib_flat b)" by blast
  have "MemStore_exists a s' \<and> MemStore_read_iovec_block a s' = MemStore_read_iovec_block a s"
    if "MemStore_exists a s" for a
  proof -
    from that obtain bs where bs: "ms_look s a = Some bs" by (auto simp: ms_exists_ok)
    with s'(3,4) have "ms_look s' a = Some bs" by auto
    with ms_read_ok(1)[OF s'(2)] ms_read_ok(1)[OF assms(1) bs] show ?thesis by (simp add: ms_exists_ok)
  qed
  with s' ms_read_ok(1)[OF s'(2), of ?a] show ?thesis by (simp add: ms_exists_ok)
qed

theorem memstore_append_read_witness:
  "ms_room 1 MemStore_new \<and> ib_inv IOVecBlock_new \<and>
   (\<exists>addr b' s'. MemStore_append_block IOVecBlock_new MemStore_new = Some ((kOk, addr), b', s') \<and>
      MemStore_read_iovec_block addr s' = Some (kOk, Some (disk_block (ib_flat IOVecBlock_new))))"
proof -
  have "ms_room (Suc 0) MemStore_new" by (simp add: ms_room_def MemStore_new_def)
  from memstore_append_read[OF this ib_inv_new] this show ?thesis by auto
qed

text \<open>C32. The checksum of a range of a sharded block, computed component by component before the
  block is written, is the checksum of the same range of the single chunk that a store returns,
  whichever CRC implementation either side uses.\<close>

theorem block_checksum_survives_storage:
  assumes "ib_alloc k b" and "off \<le> COMPONENT_SIZE" and "off + len \<le> k * COMPONENT_SIZE"
  shows "FileStorage_checksum_iovec hw al b off len =
     FileStorage_checksum hw' al' (take len (drop off (ib_data (disk_block (ib_flat b)) ! 0)))"
  using file_checksums(2)[OF assms, of hw al] file_checksums(1)
  by (simp add: disk_block_def IOVecBlock_new_allocated_def)

theorem block_checksum_survives_storage_witness:
  "let b = \<lparr>ib_data = [replicate 1024 7, [], [], []], ib_pos = 1024, ib_addr = 0\<rparr>
   in FileStorage_checksum_iovec True (\<lambda>_. 3) b 110 900 =
      FileStorage_checksum False (\<lambda>_. 8) (take 900 (drop 110 (ib_data (disk_block (ib_flat b)) ! 0)))"
proof -
  have "ib_alloc 1 \<lparr>ib_data = [replicate 1024 7, [], [], []], ib_pos = 1024, ib_addr = 0\<rparr>"
    by (auto simp: ib_alloc_def nth_Cons')
  from block_checksum_survives_storage[OF this, of 110 900 True "\<lambda>_. 3" False "\<lambda>_. 8"] show ?thesis by simp
qed

lemma bc_hash_range:
  assumes "0 < bits" and "bits < 64"
  shows "\<exists>h. bc_hash v bits = Some h \<and> unat h < 2 ^ bits"
proof -
  have d: "\<not> bit x (64 - bits + i)" if "\<not> i < bits" for x :: u64 and i
    using assms that bit_imp_le_length[of x "64 - bits + i"] by auto
  have r: "unat (drop_bit (64 - bits) x XOR drop_bit (64 - bits) y) < 2 ^ bits" for x y :: u64
  proof -
    let ?z = "drop_bit (64 - bits) x XOR drop_bit (64 - bits) y"
    have "take_bit bits ?z = ?z"
    proof (rule bit_word_eqI)
      fix i show "bit (take_bit bits ?z) i = bit ?z i"
        using d[of i x] d[of i y] by (cases "i < bits") (simp_all add: bit_simps)
    qed
    then have "unat ?z = unat (take_bit bits ?z)" by (rule arg_cong[OF sym])
    also have "\<dots> = take_bit bits (unat ?z)" by (rule unsigned_take_bit_eq)
    finally show ?thesis using take_bit_nat_less_exp[of bits "unat ?z"] by linarith
  qed
  have "\<not> (bits = 0 \<or> 64 < bits)" using assms by simp
  show ?thesis unfolding bc_hash_def bc_hash32_def if_not_P[OF \<open>\<not> (bits = 0 \<or> 64 < bits)\<close>] bind.bind_lunit
    by (rule exI, rule conjI, rule refl, rule r)
qed

text \<open>C35. BlockCache: while the random draws stay below the number of cells, inserting a block
  succeeds, and looking its address up afterwards gives a block with that address.\<close>

theorem blockcache_insert_lookup:
  assumes "0 < bc_bits c" and "bc_bits c < 64" and "length (bc_cells c) = 2 ^ bc_bits c"
    and "h1 < 2 ^ bc_bits c" and "h2 < 2 ^ bc_bits c"
  shows "\<exists>c' b'. BlockCache_insert h1 h2 uses b c = Some c' \<and> length (bc_cells c') = 2 ^ bc_bits c' \<and>
     BlockCache_loockup (IOVecBlock_get_addr b) c' = Some (Some b') \<and>
     IOVecBlock_get_addr b' = IOVecBlock_get_addr b"
proof -
  let ?a = "IOVecBlock_get_addr b"
  from bc_hash_range[OF assms(1,2)] obtain h where h: "bc_hash ?a (bc_bits c) = Some h" "unat h < 2 ^ bc_bits c"
    by blast
  have "at (bc_cells c) h1 \<noteq> None" "at (bc_cells c) h2 \<noteq> None" using assms(3-5) by (simp_all add: at_def)
  then obtain p1 p2 where p: "at (bc_cells c) h1 = Some p1" "at (bc_cells c) h2 = Some p2" by blast
  have "\<exists>c1. bc_evict h1 h2 uses c = Some c1 \<and> length (bc_cells c1) = length (bc_cells c) \<and> bc_bits c1 = bc_bits c"
    using p by (cases p1; cases p2) (simp_all add: bc_evict_def Let_def)
  then obtain c1 where c1: "bc_evict h1 h2 uses c = Some c1" "length (bc_cells c1) = length (bc_cells c)"
    "bc_bits c1 = bc_bits c" by blast
  show ?thesis
    using h p c1 assms(3)
    by (cases "bc_cells c ! unat h")
      (auto simp: BlockCache_insert_def BlockCache_probe_def BlockCache_loockup_def at_def Let_def)
qed

theorem blockcache_insert_lookup_witness:
  "\<exists>c c' b'. BlockCache_new 1 = Some c \<and> BlockCache_insert 0 1 (\<lambda>_. 1) IOVecBlock_new c = Some c' \<and>
     BlockCache_loockup EMPTY_ADDR c' = Some (Some b')"
  using blockcache_insert_lookup[of "the (BlockCache_new 1)" 0 1 "\<lambda>_. 1" IOVecBlock_new]
  by (auto simp: BlockCache_new_def IOVecBlock_new_def IOVecBlock_get_addr_def)

text \<open>The eviction fails exactly for a draw that is no index, and keeps the number of cells.\<close>

lemma bc_evict_None: "bc_evict h1 h2 uses c = None \<longleftrightarrow> \<not> (h1 < length (bc_cells c) \<and> h2 < length (bc_cells c))"
  by (cases "h1 < length (bc_cells c)"; cases "h2 < length (bc_cells c)") (simp_all add: bc_evict_def at_def)

lemma bc_evict_shape:
  assumes "bc_evict h1 h2 uses c = Some c1"
  shows "length (bc_cells c1) = length (bc_cells c)" "bc_bits c1 = bc_bits c"
proof -
  obtain p1 p2 where "at (bc_cells c) h1 = Some p1" "at (bc_cells c) h2 = Some p2"
    using assms by (cases "at (bc_cells c) h1"; cases "at (bc_cells c) h2") (simp_all add: bc_evict_def)
  with assms show "length (bc_cells c1) = length (bc_cells c)" "bc_bits c1 = bc_bits c"
    by (cases p1; cases p2; simp add: bc_evict_def Let_def; use assms in force)+
qed

text \<open>C36. BlockCache failures, in any cache whose cells match its number of bits: looking up an
  address dereferences a null pointer exactly when the cell of the address is free; inserting a
  block throws exactly when the cell of its address is free and one of the two draws equals the
  number of cells, the one value of the inclusive distribution that is no index.\<close>

theorem blockcache_failures:
  assumes "0 < bc_bits c" and "bc_bits c < 64" and "length (bc_cells c) = 2 ^ bc_bits c"
    and "h1 \<le> 2 ^ bc_bits c" and "h2 \<le> 2 ^ bc_bits c"
  shows "\<exists>h. bc_hash (IOVecBlock_get_addr b) (bc_bits c) = Some h \<and> unat h < length (bc_cells c) \<and>
     (BlockCache_loockup (IOVecBlock_get_addr b) c = None \<longleftrightarrow> bc_cells c ! unat h = None) \<and>
     (BlockCache_insert h1 h2 uses b c = None \<longleftrightarrow>
        bc_cells c ! unat h = None \<and> (h1 = 2 ^ bc_bits c \<or> h2 = 2 ^ bc_bits c))"
proof -
  from bc_hash_range[OF assms(1,2), of "IOVecBlock_get_addr b"] obtain h where
    h: "bc_hash (IOVecBlock_get_addr b) (bc_bits c) = Some h" "unat h < 2 ^ bc_bits c" by blast
  have at_h: "at (bc_cells c) (unat h) = Some (bc_cells c ! unat h)" using h(2) assms(3) by (simp add: at_def)
  have draws: "bc_evict h1 h2 uses c = None \<longleftrightarrow> h1 = 2 ^ bc_bits c \<or> h2 = 2 ^ bc_bits c"
    unfolding bc_evict_None assms(3) using assms(4,5) by linarith
  have "BlockCache_loockup (IOVecBlock_get_addr b) c = None \<longleftrightarrow> bc_cells c ! unat h = None"
    using h(1) at_h by (cases "bc_cells c ! unat h") (simp_all add: BlockCache_loockup_def)
  moreover have "BlockCache_insert h1 h2 uses b c = None \<longleftrightarrow>
      bc_cells c ! unat h = None \<and> (h1 = 2 ^ bc_bits c \<or> h2 = 2 ^ bc_bits c)"
  proof (cases "bc_cells c ! unat h")
    case (Some b')
    then show ?thesis using h at_h assms(3) by (simp add: BlockCache_insert_def BlockCache_probe_def Let_def)
  next
    case None
    have "BlockCache_insert h1 h2 uses b c = None \<longleftrightarrow> bc_evict h1 h2 uses c = None"
    proof (cases "bc_evict h1 h2 uses c")
      case (Some c1)
      from bc_evict_shape[OF Some] Some None h at_h assms(3) show ?thesis
        by (simp add: BlockCache_insert_def BlockCache_probe_def Let_def)
    qed (use None h at_h in \<open>simp add: BlockCache_insert_def BlockCache_probe_def Let_def\<close>)
    with None draws show ?thesis by simp
  qed
  moreover have "unat h < length (bc_cells c)" using h(2) assms(3) by simp
  ultimately show ?thesis using h(1) by (intro exI[of _ h] conjI)
qed

theorem blockcache_failures_witness:
  "\<exists>c h. BlockCache_new 4 = Some c \<and> bc_hash EMPTY_ADDR 4 = Some h \<and> bc_cells c ! unat h = None \<and>
     BlockCache_loockup EMPTY_ADDR c = None \<and> BlockCache_insert 16 3 (\<lambda>_. 1) IOVecBlock_new c = None"
proof -
  let ?c = "\<lparr>bc_cells = replicate 16 None, bc_bits = 4\<rparr>"
  have a: "IOVecBlock_get_addr IOVecBlock_new = EMPTY_ADDR" by (simp add: IOVecBlock_new_def IOVecBlock_get_addr_def)
  have "0 < bc_bits ?c" "bc_bits ?c < 64" "length (bc_cells ?c) = 2 ^ bc_bits ?c" "16 \<le> (2 :: nat) ^ bc_bits ?c"
    "3 \<le> (2 :: nat) ^ bc_bits ?c" by simp_all
  from blockcache_failures[OF this, of IOVecBlock_new "\<lambda>_. 1"] obtain h where
    h: "bc_hash EMPTY_ADDR (bc_bits ?c) = Some h" "unat h < length (bc_cells ?c)"
    "BlockCache_loockup EMPTY_ADDR ?c = None \<longleftrightarrow> bc_cells ?c ! unat h = None"
    "BlockCache_insert 16 3 (\<lambda>_. 1) IOVecBlock_new ?c = None \<longleftrightarrow>
       bc_cells ?c ! unat h = None \<and> ((16 :: nat) = 2 ^ bc_bits ?c \<or> (3 :: nat) = 2 ^ bc_bits ?c)"
    unfolding a by (elim exE conjE)
  have "bc_cells ?c ! unat h = None" using h(2) by simp
  moreover have "BlockCache_new 4 = Some ?c" by (simp add: BlockCache_new_def)
  moreover have "(16 :: nat) = 2 ^ bc_bits ?c" by simp
  ultimately show ?thesis using h(1,3,4) by (intro exI[of _ ?c] exI[of _ h] conjI) (blast | simp only: block_cache.simps)+
qed

end
