(* ===== verification/Doubles.thy ===== *)
theory Doubles
  imports Prelude
begin

text \<open>
  The arithmetic on \<open>double\<close> that the program uses, on 64-bit patterns: the IEEE 754 comparison
  and addition in round-to-nearest mode.  A finite double is an integer multiple of
  \<open>2 ^ -1074\<close>, so sums are formed exactly over the integers and then rounded.  All NaN results
  are one quiet NaN; the payload is not specified by the language.
\<close>

subsection \<open>Decoding\<close>

definition dbl_neg :: "double_bits \<Rightarrow> bool" where
  "dbl_neg x \<longleftrightarrow> bit x 63"

definition dbl_mag :: "double_bits \<Rightarrow> nat" where
  "dbl_mag x = unat (take_bit 63 x)"

definition dbl_inf :: nat where
  "dbl_inf = 2047 * 2 ^ 52"

definition dbl_is_nan :: "double_bits \<Rightarrow> bool" where
  "dbl_is_nan x \<longleftrightarrow> dbl_inf < dbl_mag x"

definition dbl_is_inf :: "double_bits \<Rightarrow> bool" where
  "dbl_is_inf x \<longleftrightarrow> dbl_mag x = dbl_inf"

definition dbl_make :: "bool \<Rightarrow> nat \<Rightarrow> double_bits" where
  "dbl_make neg mag = (if neg then 2 ^ 63 + of_nat mag else of_nat mag)"

definition dbl_nan :: double_bits where
  "dbl_nan = 0x7FF8000000000000"

text \<open>\<open>std::numeric_limits<double>::max()\<close> and \<open>lowest()\<close>.\<close>

definition dbl_max :: double_bits where
  "dbl_max = 0x7FEFFFFFFFFFFFFF"

definition dbl_lowest :: double_bits where
  "dbl_lowest = 0xFFEFFFFFFFFFFFFF"

subsection \<open>Comparison\<close>

text \<open>The magnitude patterns are ordered like the magnitudes; both zeros have key 0.\<close>

definition dbl_key :: "double_bits \<Rightarrow> int" where
  "dbl_key x = (if dbl_neg x then - int (dbl_mag x) else int (dbl_mag x))"

definition dbl_lt :: "double_bits \<Rightarrow> double_bits \<Rightarrow> bool" where
  "dbl_lt x y \<longleftrightarrow> \<not> dbl_is_nan x \<and> \<not> dbl_is_nan y \<and> dbl_key x < dbl_key y"

definition dbl_le :: "double_bits \<Rightarrow> double_bits \<Rightarrow> bool" where
  "dbl_le x y \<longleftrightarrow> \<not> dbl_is_nan x \<and> \<not> dbl_is_nan y \<and> dbl_key x \<le> dbl_key y"

definition dbl_eq :: "double_bits \<Rightarrow> double_bits \<Rightarrow> bool" where
  "dbl_eq x y \<longleftrightarrow> \<not> dbl_is_nan x \<and> \<not> dbl_is_nan y \<and> dbl_key x = dbl_key y"

lemma dbl_lt_irrefl [simp]: "\<not> dbl_lt x x"
  by (simp add: dbl_lt_def)

lemma dbl_lt_trans: "dbl_lt x y \<Longrightarrow> dbl_lt y z \<Longrightarrow> dbl_lt x z"
  by (auto simp: dbl_lt_def)

lemma dbl_lt_asym: "dbl_lt x y \<Longrightarrow> \<not> dbl_lt y x"
  by (auto simp: dbl_lt_def)

lemma dbl_not_lt: "\<not> dbl_is_nan x \<Longrightarrow> \<not> dbl_is_nan y \<Longrightarrow> \<not> dbl_lt x y \<longleftrightarrow> dbl_le y x"
  by (auto simp: dbl_lt_def dbl_le_def)

lemma dbl_lt_le_trans: "dbl_le x y \<Longrightarrow> dbl_lt y z \<Longrightarrow> dbl_lt x z"
  by (auto simp: dbl_lt_def dbl_le_def)

subsection \<open>Addition\<close>

text \<open>The value of a finite double in units of \<open>2 ^ -1074\<close>.\<close>

definition dbl_units :: "double_bits \<Rightarrow> int" where
  "dbl_units x =
     (let e = dbl_mag x div 2 ^ 52; f = dbl_mag x mod 2 ^ 52;
          u = (if e = 0 then f else (2 ^ 52 + f) * 2 ^ (e - 1))
      in if dbl_neg x then - int u else int u)"

text \<open>Number of binary digits.\<close>

function bit_length :: "nat \<Rightarrow> nat" where
  "bit_length n = (if n = 0 then 0 else Suc (bit_length (n div 2)))"
  by auto
termination by (relation "measure id") auto

declare bit_length.simps [simp del]

text \<open>Rounding a magnitude in units to the nearest double, ties to even; a carry of the
  significand moves into the exponent, an exponent that is too large is infinity.\<close>

definition dbl_round :: "nat \<Rightarrow> nat" where
  "dbl_round m =
     (if m < 2 ^ 53 then m
      else
        let k = bit_length m - 53; q = m div 2 ^ k; r = m mod 2 ^ k; half = 2 ^ (k - 1);
            q = (if half < r \<or> half = r \<and> odd q then q + 1 else q)
        in min dbl_inf (k * 2 ^ 52 + q))"

definition dbl_add :: "double_bits \<Rightarrow> double_bits \<Rightarrow> double_bits" where
  "dbl_add x y =
     (if dbl_is_nan x \<or> dbl_is_nan y then dbl_nan
      else if dbl_is_inf x then (if dbl_is_inf y \<and> dbl_neg x \<noteq> dbl_neg y then dbl_nan else x)
      else if dbl_is_inf y then y
      else
        let z = dbl_units x + dbl_units y
        in if z = 0 then dbl_make (dbl_neg x \<and> dbl_neg y) 0
           else dbl_make (z < 0) (dbl_round (nat \<bar>z\<bar>)))"

lemma dbl_eqI:
  assumes "dbl_neg x = dbl_neg y" and "dbl_mag x = dbl_mag y"
  shows "x = y"
proof (rule bit_word_eqI)
  fix n assume "n < LENGTH(64)"
  moreover from assms(2) have "take_bit 63 x = take_bit 63 y" by (simp add: dbl_mag_def word_unat_eq_iff)
  then have "bit (take_bit 63 x) n = bit (take_bit 63 y) n" by simp
  ultimately show "bit x n = bit y n" using assms(1) by (cases "n = 63") (auto simp: bit_simps dbl_neg_def)
qed

lemma dbl_add_commute: "dbl_add x y = dbl_add y x"
  by (auto simp: dbl_add_def Let_def add.commute dbl_is_inf_def intro: dbl_eqI)

end
