(* ===== verification/SubtreeRefs.thy ===== *)
theory SubtreeRefs
  imports LeafBlock BlockStore Doubles
begin

text \<open>
  \<open>SubtreeRef\<close> of \<^verbatim>\<open>storage/nbtree_def.h\<close>: the packed 110-byte structure that starts every
  block of the tree and that inner nodes hold for each child, its object representation, the
  access to it through \<open>get_header\<close> of a block, and the checked reads of blocks at the top of
  \<^verbatim>\<open>storage/nbtree.cc\<close>.  A block store is a parameter, the record \<open>bstore\<close> of its operations.
\<close>

subsection \<open>The structure and its object representation\<close>

definition LEAF :: u16 where
  "LEAF = 0"

definition INNER :: u16 where
  "INNER = 1"

definition NBTREE_FANOUT :: nat where
  "NBTREE_FANOUT = 32"

definition NBTREE_MAX_FANOUT_INDEX :: nat where
  "NBTREE_MAX_FANOUT_INDEX = 31"

record subtree_ref =
  sr_count :: u64
  sr_id :: param_id
  sr_begin :: timestamp
  sr_end :: timestamp
  sr_addr :: logic_addr
  sr_min :: double_bits
  sr_min_time :: timestamp
  sr_max :: double_bits
  sr_max_time :: timestamp
  sr_sum :: double_bits
  sr_first :: double_bits
  sr_last :: double_bits
  sr_type :: u16
  sr_level :: u16
  sr_payload_size :: u16
  sr_version :: u16
  sr_fanout_index :: u16
  sr_checksum :: u32

definition INIT_SUBTREE_REF :: subtree_ref where
  "INIT_SUBTREE_REF = \<lparr>sr_count = 0, sr_id = 0, sr_begin = 0, sr_end = 0, sr_addr = EMPTY_ADDR,
     sr_min = dbl_max, sr_min_time = 0xFFFFFFFFFFFFFFFF, sr_max = dbl_lowest, sr_max_time = 0,
     sr_sum = 0, sr_first = 0, sr_last = 0, sr_type = LEAF, sr_level = 0, sr_payload_size = 0,
     sr_version = FASTSTDB_VERSION, sr_fanout_index = 0, sr_checksum = 0\<rparr>"

text \<open>\<open>sizeof(SubtreeRef)\<close>: twelve words of eight bytes, five of two, one of four.\<close>

abbreviation (input) SUBTREE_REF_SIZE :: nat where
  "SUBTREE_REF_SIZE \<equiv> 110"

definition pack_ref :: "subtree_ref \<Rightarrow> u8 list" where
  "pack_ref r = concat (map (le_bytes 8)
       [sr_count r, sr_id r, sr_begin r, sr_end r, sr_addr r, sr_min r, sr_min_time r, sr_max r,
        sr_max_time r, sr_sum r, sr_first r, sr_last r]) @
     concat (map (le_bytes 2) [sr_type r, sr_level r, sr_payload_size r, sr_version r, sr_fanout_index r]) @
     le_bytes 4 (sr_checksum r)"

definition unpack_ref :: "u8 list \<Rightarrow> subtree_ref" where
  "unpack_ref bs =
     (let q = (\<lambda>i. le_val (take 8 (drop (8 * i) bs))); h = (\<lambda>i. le_val (take 2 (drop (96 + 2 * i) bs)))
      in \<lparr>sr_count = q 0, sr_id = q 1, sr_begin = q 2, sr_end = q 3, sr_addr = q 4, sr_min = q 5,
          sr_min_time = q 6, sr_max = q 7, sr_max_time = q 8, sr_sum = q 9, sr_first = q 10,
          sr_last = q 11, sr_type = h 0, sr_level = h 1, sr_payload_size = h 2, sr_version = h 3,
          sr_fanout_index = h 4, sr_checksum = le_val (take 4 (drop 106 bs))\<rparr>)"

lemma length_pack_ref [simp]: "length (pack_ref r) = 110"
  by (simp add: pack_ref_def)

lemma unpack_pack_append: "unpack_ref (pack_ref r @ z) = r"
  by (simp add: unpack_ref_def pack_ref_def Let_def)

lemma unpack_pack [simp]: "unpack_ref (pack_ref r) = r"
  using unpack_pack_append[of r "[]"] by simp

lemma pack_ref_inj [simp]: "pack_ref r = pack_ref r' \<longleftrightarrow> r = r'"
  by (metis unpack_pack)

subsection \<open>The header of a block\<close>

text \<open>\<open>get_header<SubtreeRef>\<close> and \<open>get_cheader<SubtreeRef>\<close> read the first component in place.
  The non-constant \<open>get_header\<close> returns a pointer whose fields the leaf and the superblock
  assign; \<open>IOVecBlock_set_header\<close> is the effect of such assignments on the block, once the
  fields of the structure have their new values.\<close>

definition IOVecBlock_get_header :: "iovec_block \<Rightarrow> subtree_ref option" where
  "IOVecBlock_get_header b =
     do { c \<leftarrow> IOVecBlock_get_data 0 b;
          if SUBTREE_REF_SIZE \<le> length c then Some (unpack_ref (take SUBTREE_REF_SIZE c)) else None }"

definition IOVecBlock_set_header :: "subtree_ref \<Rightarrow> iovec_block \<Rightarrow> iovec_block option" where
  "IOVecBlock_set_header r b = ib_store 0 0 (pack_ref r) b"

lemma header_of_bytes:
  assumes "ib_readable b" and "ib_bytes b = pack_ref r @ z"
  shows "IOVecBlock_get_header b = Some r"
proof -
  have p: "110 \<le> ib_pos b" using ib_bytes_length[OF assms(1)] assms(2) by simp
  have "take 110 (drop 0 (ib_data b ! 0)) = take 110 (drop 0 (ib_bytes b))"
    by (rule ib_header_prefix[OF assms(1)]) (use p in simp_all)
  then have t: "take 110 (ib_data b ! 0) = pack_ref r" using assms(2) by simp
  then have "110 \<le> length (ib_data b ! 0)" using length_pack_ref[of r] by (metis length_take min_def nle_le)
  moreover have "length (ib_data b) = 4" using assms(1) by (auto simp: ib_readable_def ib_inv_def ib_alloc_def)
  ultimately show ?thesis using t by (simp add: IOVecBlock_get_header_def IOVecBlock_get_data_def)
qed

lemma set_header_ok:
  assumes "ib_inv b" and "ib_bytes b = h @ z" and "length h = 110"
  shows "\<exists>b'. IOVecBlock_set_header r b = Some b' \<and> ib_inv b' \<and> ib_bytes b' = pack_ref r @ z \<and>
     ib_flat b' = pack_ref r @ drop 110 (ib_flat b) \<and> ib_pos b' = ib_pos b \<and> ib_addr b' = ib_addr b"
proof -
  from assms(1) obtain k where k: "ib_alloc k b" "ib_pos b \<le> k * 1024" by (auto simp: ib_inv_def)
  have len: "ib_pos b = 110 + length z"
    using ib_bytes_length[OF ib_inv_readable[OF assms(1)]] assms(2,3) by simp
  then have k0: "0 < k" using k(2) by (cases k) auto
  from ib_store_ok[OF k(1) k0, of 0 "pack_ref r"] obtain b' where
    b': "ib_store 0 0 (pack_ref r) b = Some b'" "ib_alloc k b'"
    "ib_flat b' = splice_at 0 (pack_ref r) (ib_flat b)" "ib_pos b' = ib_pos b" "ib_addr b' = ib_addr b" by auto
  have f: "ib_flat b' = pack_ref r @ drop 110 (ib_flat b)" using b'(3) by (simp add: splice_at_def)
  moreover have "drop 110 (take (ib_pos b) (ib_flat b)) = z" using assms(2,3) by (simp add: ib_bytes_def[symmetric])
  then have "take (ib_pos b - 110) (drop 110 (ib_flat b)) = z" by (simp add: drop_take)
  ultimately have "ib_bytes b' = pack_ref r @ z" using b'(4) len by (simp add: ib_bytes_def)
  moreover have "ib_inv b'" using b'(2,4) k(2) by (auto simp: ib_inv_def)
  ultimately show ?thesis using b'(1,4,5) f by (auto simp: IOVecBlock_set_header_def)
qed

subsection \<open>Checked reads\<close>

definition header_crc_ok :: "'s bstore \<Rightarrow> iovec_block \<Rightarrow> bool option" where
  "header_crc_ok B block =
     do { data \<leftarrow> IOVecBlock_get_data 0 block;
          subtree \<leftarrow> IOVecBlock_get_header block;
          let n = unat (sr_payload_size subtree);
          if length data < SUBTREE_REF_SIZE + n then None
          else do {
            crc \<leftarrow> bs_checksum B (take n (drop SUBTREE_REF_SIZE data));
            Some (crc = sr_checksum subtree) } }"

definition read_and_check :: "'s bstore \<Rightarrow> logic_addr \<Rightarrow> 's \<Rightarrow> (status \<times> iovec_block option) option" where
  "read_and_check B addr s =
     do { (st, block) \<leftarrow> bs_read B addr s;
          if \<not> IsOk st then Some (st, block)
          else do {
            b \<leftarrow> block;
            n \<leftarrow> IOVecBlock_get_size 0 b;
            if n = FASTSTDB_BLOCK_SIZE then do {
              good \<leftarrow> header_crc_ok B b;
              Some (if good then st else kBadData, block) }
            else Some (st, block) } }"

definition read_iovec_block_from_bstore :: "'s bstore \<Rightarrow> logic_addr \<Rightarrow> 's \<Rightarrow> iovec_block option" where
  "read_iovec_block_from_bstore B addr s =
     do { (st, block) \<leftarrow> bs_read B addr s;
          if \<not> IsOk st then None
          else do {
            b \<leftarrow> block;
            n \<leftarrow> IOVecBlock_get_size 0 b;
            if n = FASTSTDB_BLOCK_SIZE then do {
              good \<leftarrow> header_crc_ok B b;
              if good then Some b else None }
            else Some b } }"

text \<open>What a reference to a node and the header of the node have in common.\<close>

definition ref_core :: "subtree_ref \<Rightarrow> subtree_ref" where
  "ref_core r = r\<lparr>sr_addr := EMPTY_ADDR, sr_payload_size := 0, sr_checksum := 0\<rparr>"

text \<open>A block image with a good checksum.\<close>

definition node_image :: "subtree_ref \<Rightarrow> u8 list \<Rightarrow> u8 list \<Rightarrow> bool" where
  "node_image r payload bs \<longleftrightarrow> length bs = FASTSTDB_BLOCK_SIZE \<and>
     (\<exists>z. bs = pack_ref r @ payload @ z) \<and>
     unat (sr_payload_size r) \<le> length payload \<and>
     sr_checksum r = crc32c_ref 0 (take (unat (sr_payload_size r)) payload)"

lemma disk_block_simps [simp]:
  "ib_data (disk_block bs) ! 0 = bs" "length (ib_data (disk_block bs)) = 4" "ib_pos (disk_block bs) = 4096"
  by (simp_all add: disk_block_def IOVecBlock_new_allocated_def)

lemma disk_block_readable:
  assumes "length bs = 4096"
  shows "ib_readable (disk_block bs)" "ib_bytes (disk_block bs) = bs" "ib_flat (disk_block bs) = bs"
  using assms by (simp_all add: ib_readable_def single_chunk_def ib_bytes_def ib_flat_def)

context block_store
begin

lemma image_header:
  assumes "node_image r p bs"
  shows "IOVecBlock_get_header (disk_block bs) = Some r" "header_crc_ok B (disk_block bs) = Some True"
proof -
  from assms obtain z where z: "bs = pack_ref r @ p @ z" "length bs = 4096" by (auto simp: node_image_def)
  show h: "IOVecBlock_get_header (disk_block bs) = Some r"
    using header_of_bytes[OF disk_block_readable(1)[OF z(2)]] disk_block_readable(2)[OF z(2)] z(1) by blast
  have "110 + unat (sr_payload_size r) \<le> length bs" using assms z(1) by (simp add: node_image_def)
  moreover have "take (unat (sr_payload_size r)) (drop 110 bs) = take (unat (sr_payload_size r)) p"
    using assms z(1) by (simp add: node_image_def)
  ultimately show "header_crc_ok B (disk_block bs) = Some True"
    using assms by (simp add: header_crc_ok_def h IOVecBlock_get_data_def checksum_ok node_image_def Let_def)
qed

lemma read_image:
  assumes "room n s" and "look s a = Some bs" and "node_image r p bs"
  shows "read_and_check B a s = Some (kOk, Some (disk_block bs))"
    "read_iovec_block_from_bstore B a s = Some (disk_block bs)"
  using read_ok[OF assms(1,2)] image_header(2)[OF assms(3)]
  by (simp_all add: read_and_check_def read_iovec_block_from_bstore_def IsOk_def IOVecBlock_get_size_def
      assms(3)[unfolded node_image_def])

end

end
