(* ===== verification/NBLeaf.thy ===== *)
theory NBLeaf
  imports SubtreeRefs
begin

text \<open>
  \<open>IOVecLeaf\<close> of \<^verbatim>\<open>storage/nbtree.cc\<close>: a leaf of the tree, a block that starts with a
  \<open>SubtreeRef\<close> and continues with the compressed samples.  The aggregates in the header are
  maintained by \<open>append\<close>; \<open>commit\<close> seals the block with its checksum and hands it to the block
  store.  The lemmas follow a leaf from its creation through appends and the commit to the
  image on disk and back.
\<close>

subsection \<open>State\<close>

text \<open>A leaf that is being filled owns its block through the writer; a leaf that was read from
  the store has a default-constructed writer, whose stream has no block.\<close>

datatype leaf_body = Writing "iov_writer block_writer" | Loaded iovec_block

record iovec_leaf =
  lf_prev :: logic_addr
  lf_body :: leaf_body
  lf_fanout_index :: u16

fun body_block :: "leaf_body \<Rightarrow> iovec_block" where
  "body_block (Writing w) = iw_block (bw_stream w)"
| "body_block (Loaded b) = b"

fun body_set_block :: "iovec_block \<Rightarrow> leaf_body \<Rightarrow> leaf_body" where
  "body_set_block b (Writing w) = Writing (w\<lparr>bw_stream := (bw_stream w)\<lparr>iw_block := b\<rparr>\<rparr>)"
| "body_set_block b (Loaded _) = Loaded b"

abbreviation lf_block :: "iovec_leaf \<Rightarrow> iovec_block" where
  "lf_block l \<equiv> body_block (lf_body l)"

definition lf_set_block :: "iovec_block \<Rightarrow> iovec_leaf \<Rightarrow> iovec_leaf" where
  "lf_set_block b l = l\<lparr>lf_body := body_set_block b (lf_body l)\<rparr>"

subsection \<open>Operations\<close>

text \<open>The header that the constructor writes; the checksum field keeps the bytes it finds.\<close>

definition leaf_init_header :: "param_id \<Rightarrow> logic_addr \<Rightarrow> u16 \<Rightarrow> subtree_ref \<Rightarrow> subtree_ref" where
  "leaf_init_header id' prev fanout_index h =
     h\<lparr>sr_addr := prev, sr_level := 0, sr_type := LEAF, sr_id := id', sr_version := FASTSTDB_VERSION,
       sr_payload_size := 0, sr_fanout_index := fanout_index, sr_begin := 0xFFFFFFFFFFFFFFFF,
       sr_end := 0, sr_count := 0, sr_min := dbl_max, sr_max := dbl_lowest, sr_sum := 0,
       sr_min_time := 0xFFFFFFFFFFFFFFFF, sr_max_time := 0, sr_first := 0, sr_last := 0\<rparr>"

definition IOVecLeaf_new :: "param_id \<Rightarrow> logic_addr \<Rightarrow> u16 \<Rightarrow> iovec_leaf option" where
  "IOVecLeaf_new id' prev fanout_index =
     do {
       w \<leftarrow> IOVecBlockWriter_open IOVecBlock_new 0;
       case iw_allocate SUBTREE_REF_SIZE (bw_stream w) of
         (None, s) \<Rightarrow> None
       | (Some p, s) \<Rightarrow> do {
           h \<leftarrow> IOVecBlock_get_header (iw_block s);
           b \<leftarrow> IOVecBlock_set_header (leaf_init_header id' prev fanout_index h) (iw_block s);
           w \<leftarrow> IOVecBlockWriter_init IOVecW id' (w\<lparr>bw_stream := s\<lparr>iw_block := b\<rparr>\<rparr>);
           Some \<lparr>lf_prev = prev, lf_body = Writing w, lf_fanout_index = fanout_index\<rparr> } }"

definition IOVecLeaf_of_block :: "iovec_block \<Rightarrow> iovec_leaf option" where
  "IOVecLeaf_of_block block =
     do { subtree \<leftarrow> IOVecBlock_get_header block;
          Some \<lparr>lf_prev = sr_addr subtree, lf_body = Loaded block,
                lf_fanout_index = sr_fanout_index subtree\<rparr> }"

definition IOVecLeaf_load :: "'s bstore \<Rightarrow> logic_addr \<Rightarrow> 's \<Rightarrow> iovec_leaf option" where
  "IOVecLeaf_load B addr s = do { b \<leftarrow> read_iovec_block_from_bstore B addr s; IOVecLeaf_of_block b }"

text \<open>The constructor with \<open>CloneTag\<close>: a copy of the block, in which the writer starts at the
  write position of the copy and re-inserts the elements.\<close>

definition leaf_clone_block :: "iovec_block \<Rightarrow> iovec_block" where
  "leaf_clone_block block = IOVecBlock_copy_from block IOVecBlock_new"

primrec leaf_reinsert ::
  "nat \<Rightarrow> iov_reader block_reader \<Rightarrow> iov_writer block_writer \<Rightarrow> iov_writer block_writer option" where
  "leaf_reinsert 0 r w = Some w"
| "leaf_reinsert (Suc n) r w =
     do { ((st, ts, v), r) \<leftarrow> IOVecBlockReader_next IOVecR r;
          if \<not> IsOk st then None
          else do {
            (st, w) \<leftarrow> IOVecBlockWriter_put IOVecW ts v w;
            if \<not> IsOk st then None else leaf_reinsert n r w } }"

definition IOVecLeaf_clone :: "iovec_block \<Rightarrow> iovec_leaf option" where
  "IOVecLeaf_clone block =
     do {
       w \<leftarrow> IOVecBlockWriter_open (leaf_clone_block block) 0;
       h \<leftarrow> IOVecBlock_get_header block;
       w \<leftarrow> IOVecBlockWriter_init IOVecW (sr_id h) w;
       r \<leftarrow> IOVecBlockReader_open block SUBTREE_REF_SIZE;
       sz \<leftarrow> IOVecBlockReader_nelements r;
       w \<leftarrow> leaf_reinsert sz r w;
       subtree \<leftarrow> IOVecBlock_get_header (iw_block (bw_stream w));
       Some \<lparr>lf_prev = sr_addr subtree, lf_body = Writing w, lf_fanout_index = sr_fanout_index subtree\<rparr> }"

definition IOVecLeaf_get_leafmeta :: "iovec_leaf \<Rightarrow> subtree_ref option" where
  "IOVecLeaf_get_leafmeta l = IOVecBlock_get_header (lf_block l)"

fun body_write_index :: "leaf_body \<Rightarrow> nat option" where
  "body_write_index (Writing w) = IOVecBlockWriter_get_write_index IOVecW w"
| "body_write_index (Loaded b) = Some 0"

fun body_tail_elements :: "leaf_body \<Rightarrow> (timestamp \<times> double_bits) list" where
  "body_tail_elements (Writing w) = (case IOVecBlockWriter_read_tail_elements w of (ts, vs) \<Rightarrow> zip ts vs)"
| "body_tail_elements (Loaded b) = []"

definition IOVecLeaf_get_uncommitted_size :: "iovec_leaf \<Rightarrow> nat option" where
  "IOVecLeaf_get_uncommitted_size l = body_write_index (lf_body l)"

definition IOVecLeaf_bytes_used :: "iovec_leaf \<Rightarrow> nat" where
  "IOVecLeaf_bytes_used l = sum_list (map length (ib_data (lf_block l)))"

definition IOVecLeaf_nelements :: "iovec_leaf \<Rightarrow> u64 option" where
  "IOVecLeaf_nelements l = map_option sr_count (IOVecLeaf_get_leafmeta l)"

definition IOVecLeaf_get_fanout :: "iovec_leaf \<Rightarrow> u16" where
  "IOVecLeaf_get_fanout l = lf_fanout_index l"

definition IOVecLeaf_get_id :: "iovec_leaf \<Rightarrow> param_id option" where
  "IOVecLeaf_get_id l = map_option sr_id (IOVecLeaf_get_leafmeta l)"

definition IOVecLeaf_get_timestamps :: "iovec_leaf \<Rightarrow> (timestamp \<times> timestamp) option" where
  "IOVecLeaf_get_timestamps l = map_option (\<lambda>h. (sr_begin h, sr_end h)) (IOVecLeaf_get_leafmeta l)"

definition leaf_update_header :: "(subtree_ref \<Rightarrow> subtree_ref) \<Rightarrow> iovec_leaf \<Rightarrow> iovec_leaf option" where
  "leaf_update_header f l =
     do { h \<leftarrow> IOVecBlock_get_header (lf_block l);
          b \<leftarrow> IOVecBlock_set_header (f h) (lf_block l);
          Some (lf_set_block b l) }"

definition IOVecLeaf_set_prev_addr :: "logic_addr \<Rightarrow> iovec_leaf \<Rightarrow> iovec_leaf option" where
  "IOVecLeaf_set_prev_addr addr l = leaf_update_header (\<lambda>h. h\<lparr>sr_addr := addr\<rparr>) (l\<lparr>lf_prev := addr\<rparr>)"

definition IOVecLeaf_set_node_fanout :: "u16 \<Rightarrow> iovec_leaf \<Rightarrow> iovec_leaf option" where
  "IOVecLeaf_set_node_fanout fanout l =
     (if unat fanout \<le> NBTREE_FANOUT
      then leaf_update_header (\<lambda>h. h\<lparr>sr_fanout_index := fanout\<rparr>) (l\<lparr>lf_fanout_index := fanout\<rparr>)
      else None)"

definition IOVecLeaf_get_addr :: "iovec_leaf \<Rightarrow> logic_addr" where
  "IOVecLeaf_get_addr l = IOVecBlock_get_addr (lf_block l)"

definition IOVecLeaf_get_prev_addr :: "iovec_leaf \<Rightarrow> logic_addr" where
  "IOVecLeaf_get_prev_addr l = lf_prev l"

text \<open>The two output vectors of \<open>read_all\<close> are pushed to in lockstep: they are one list of
  pairs.\<close>

primrec leaf_read_loop ::
  "nat \<Rightarrow> iov_reader block_reader \<Rightarrow> (status \<times> (timestamp \<times> double_bits) list) option" where
  "leaf_read_loop 0 r = Some (kOk, [])"
| "leaf_read_loop (Suc n) r =
     do { ((st, ts, v), r) \<leftarrow> IOVecBlockReader_next IOVecR r;
          if \<not> IsOk st then Some (st, [])
          else do { (st, xs) \<leftarrow> leaf_read_loop n r; Some (st, (ts, v) # xs) } }"

definition IOVecLeaf_read_all :: "iovec_leaf \<Rightarrow> (status \<times> (timestamp \<times> double_bits) list) option" where
  "IOVecLeaf_read_all l =
     do {
       windex \<leftarrow> body_write_index (lf_body l);
       r \<leftarrow> IOVecBlockReader_open (lf_block l) SUBTREE_REF_SIZE;
       sz \<leftarrow> IOVecBlockReader_nelements r;
       (st, xs) \<leftarrow> leaf_read_loop sz r;
       if \<not> IsOk st then Some (st, xs)
       else Some (kOk, xs @ (if windex \<noteq> 0 then body_tail_elements (lf_body l) else [])) }"

definition leaf_add_stats :: "timestamp \<Rightarrow> double_bits \<Rightarrow> subtree_ref \<Rightarrow> subtree_ref" where
  "leaf_add_stats ts value h =
     (let h = h\<lparr>sr_end := ts, sr_last := value\<rparr>;
          h = (if sr_count h = 0 then h\<lparr>sr_begin := ts, sr_first := value\<rparr> else h);
          h = h\<lparr>sr_count := sr_count h + 1\<rparr>;
          h = h\<lparr>sr_sum := dbl_add (sr_sum h) value\<rparr>;
          h = (if dbl_lt (sr_max h) value then h\<lparr>sr_max := value, sr_max_time := ts\<rparr> else h)
      in if dbl_lt value (sr_min h) then h\<lparr>sr_min := value, sr_min_time := ts\<rparr> else h)"

definition IOVecLeaf_append ::
  "timestamp \<Rightarrow> double_bits \<Rightarrow> iovec_leaf \<Rightarrow> (status \<times> iovec_leaf) option" where
  "IOVecLeaf_append ts value l =
     (case lf_body l of
        Loaded b \<Rightarrow> None
      | Writing w \<Rightarrow> do {
          (st, w) \<leftarrow> IOVecBlockWriter_put IOVecW ts value w;
          let l = l\<lparr>lf_body := Writing w\<rparr>;
          if IsOk st
          then do { l \<leftarrow> leaf_update_header (leaf_add_stats ts value) l; Some (st, l) }
          else Some (st, l) })"

definition leaf_seal_header :: "u16 \<Rightarrow> logic_addr \<Rightarrow> u16 \<Rightarrow> subtree_ref \<Rightarrow> subtree_ref" where
  "leaf_seal_header n prev fanout_index h =
     (let h = h\<lparr>sr_payload_size := n\<rparr>;
          h = (if prev \<noteq> EMPTY_ADDR \<and> 0 < fanout_index then h\<lparr>sr_addr := prev\<rparr>
               else h\<lparr>sr_addr := EMPTY_ADDR\<rparr>)
      in h\<lparr>sr_version := FASTSTDB_VERSION, sr_level := 0, sr_type := LEAF,
           sr_fanout_index := fanout_index\<rparr>)"

definition IOVecLeaf_commit ::
  "'s bstore \<Rightarrow> iovec_leaf \<Rightarrow> 's \<Rightarrow> ((status \<times> logic_addr) \<times> iovec_leaf \<times> 's) option" where
  "IOVecLeaf_commit B l s =
     do {
       n \<leftarrow> IOVecLeaf_nelements l;
       if n = 0 then None
       else case lf_body l of
         Loaded b \<Rightarrow> None
       | Writing w \<Rightarrow> do {
           (sz, w) \<leftarrow> IOVecBlockWriter_commit IOVecW w;
           let payload = (of_nat sz :: u16) - of_nat SUBTREE_REF_SIZE;
           if payload = 0 then None
           else do {
             l \<leftarrow> leaf_update_header (leaf_seal_header payload (lf_prev l) (lf_fanout_index l))
                    (l\<lparr>lf_body := Writing w\<rparr>);
             crc \<leftarrow> bs_checksum_iovec B (lf_block l) SUBTREE_REF_SIZE (unat payload);
             l \<leftarrow> leaf_update_header (\<lambda>h. h\<lparr>sr_checksum := crc\<rparr>) l;
             (r, b, s) \<leftarrow> bs_append B (lf_block l) s;
             Some (r, lf_set_block b l, s) } } }"

definition init_subtree_from_leaf :: "iovec_leaf \<Rightarrow> subtree_ref \<Rightarrow> (status \<times> subtree_ref) option" where
  "init_subtree_from_leaf leaf out =
     do {
       n \<leftarrow> IOVecLeaf_nelements leaf;
       if n = 0 then Some (kBadArg, out)
       else do {
         meta \<leftarrow> IOVecLeaf_get_leafmeta leaf;
         Some (kOk, meta\<lparr>sr_payload_size := 0, sr_checksum := 0, sr_addr := EMPTY_ADDR, sr_type := LEAF\<rparr>) } }"

subsection \<open>A leaf being filled\<close>

lemma body_set_block_block [simp]: "body_block (body_set_block b l) = b"
  by (cases l) simp_all

lemma view_readable:
  assumes "ivw_view cap pre sid main buf tail junk w"
  shows "ib_inv (iw_block (bw_stream w))"
    "\<exists>z. ib_bytes (iw_block (bw_stream w)) = pre @ z"
  using assms by (auto simp: bw_view_def iw_inv_def iw_bytes_def)

lemma iw_space_pos:
  "ib_pos b = ib_pos (iw_block s) \<Longrightarrow> ws_space_left IOVecW (s\<lparr>iw_block := b\<rparr>) = ws_space_left IOVecW s"
  by (simp add: IOVecW_def iw_space_left_def IOVecBlock_space_left_def)

lemma view_set_header:
  assumes v: "ivw_view cap (pack_ref h) sid main buf tail junk w"
  shows "\<exists>b. IOVecBlock_set_header h' (iw_block (bw_stream w)) = Some b \<and>
     ivw_view cap (pack_ref h') sid main buf tail junk (w\<lparr>bw_stream := (bw_stream w)\<lparr>iw_block := b\<rparr>\<rparr>) \<and>
     ib_pos b = ib_pos (iw_block (bw_stream w)) \<and> ib_addr b = ib_addr (iw_block (bw_stream w))"
proof -
  from v obtain p bs where
    p: "DfcmPredictor_new 128 = Some p"
    "chunks_bytes main 0 p = Some (bs, ddw_prev (bw_ts_stream w), fw_predictor (bw_val_stream w))"
    "iw_bytes (bw_stream w) = pack_ref h @ hdr_bytes (length main) (length tail) sid @ bs @ tail_bytes tail @ junk"
    by (auto simp: bw_view_def)
  from set_header_ok[OF view_readable(1)[OF v] p(3)[unfolded iw_bytes_def], of h'] obtain b where
    b: "IOVecBlock_set_header h' (iw_block (bw_stream w)) = Some b" "ib_inv b"
    "ib_bytes b = pack_ref h' @ hdr_bytes (length main) (length tail) sid @ bs @ tail_bytes tail @ junk"
    "ib_pos b = ib_pos (iw_block (bw_stream w))" "ib_addr b = ib_addr (iw_block (bw_stream w))" by auto
  have len: "length (ib_bytes b) = length (iw_bytes (bw_stream w))" using p(3) b(3) by simp
  show ?thesis
    using v b p len iw_space_pos[OF b(4)]
    by (auto simp: bw_view_def iw_inv_def iw_bytes_def)
qed

definition leaf_stats :: "subtree_ref \<Rightarrow> (timestamp \<times> double_bits) list \<Rightarrow> subtree_ref" where
  "leaf_stats h xs = foldl (\<lambda>h (ts, v). leaf_add_stats ts v h) h xs"

definition leaf_header0 :: "param_id \<Rightarrow> logic_addr \<Rightarrow> u16 \<Rightarrow> subtree_ref" where
  "leaf_header0 sid prev fan = leaf_init_header sid prev fan (unpack_ref (replicate 110 0))"

definition leaf_view ::
  "param_id \<Rightarrow> logic_addr \<Rightarrow> u16 \<Rightarrow> (timestamp \<times> double_bits) list \<Rightarrow> iovec_leaf \<Rightarrow> bool" where
  "leaf_view sid prev fan xs l \<longleftrightarrow> lf_prev l = prev \<and> lf_fanout_index l = fan \<and>
     (\<exists>w main buf tail junk. lf_body l = Writing w \<and> concat main @ buf @ tail = xs \<and>
        ivw_view 4096 (pack_ref (leaf_stats (leaf_header0 sid prev fan) xs)) sid main buf tail junk w)"

definition leaf_full :: "iovec_leaf \<Rightarrow> bool" where
  "leaf_full l \<longleftrightarrow> ws_space_left IOVecW (case lf_body l of Writing w \<Rightarrow> bw_stream w) < 16"

lemma leaf_view_header:
  assumes "leaf_view sid prev fan xs l"
  shows "IOVecBlock_get_header (lf_block l) = Some (leaf_stats (leaf_header0 sid prev fan) xs)"
proof -
  from assms obtain w main buf tail junk where
    w: "lf_body l = Writing w"
    "ivw_view 4096 (pack_ref (leaf_stats (leaf_header0 sid prev fan) xs)) sid main buf tail junk w"
    by (auto simp: leaf_view_def)
  from view_readable[OF w(2)] w(1) show ?thesis by (auto intro: header_of_bytes ib_inv_readable)
qed

text \<open>Closed forms of the aggregates.\<close>

lemma leaf_add_stats_simps [simp]:
  "sr_id (leaf_add_stats ts v h) = sr_id h" "sr_addr (leaf_add_stats ts v h) = sr_addr h"
  "sr_type (leaf_add_stats ts v h) = sr_type h" "sr_level (leaf_add_stats ts v h) = sr_level h"
  "sr_version (leaf_add_stats ts v h) = sr_version h"
  "sr_fanout_index (leaf_add_stats ts v h) = sr_fanout_index h"
  "sr_payload_size (leaf_add_stats ts v h) = sr_payload_size h"
  "sr_checksum (leaf_add_stats ts v h) = sr_checksum h"
  "sr_count (leaf_add_stats ts v h) = sr_count h + 1"
  "sr_end (leaf_add_stats ts v h) = ts" "sr_last (leaf_add_stats ts v h) = v"
  "sr_sum (leaf_add_stats ts v h) = dbl_add (sr_sum h) v"
  "sr_begin (leaf_add_stats ts v h) = (if sr_count h = 0 then ts else sr_begin h)"
  "sr_first (leaf_add_stats ts v h) = (if sr_count h = 0 then v else sr_first h)"
  "sr_max (leaf_add_stats ts v h) = (if dbl_lt (sr_max h) v then v else sr_max h)"
  "sr_min (leaf_add_stats ts v h) = (if dbl_lt v (sr_min h) then v else sr_min h)"
  "sr_max_time (leaf_add_stats ts v h) = (if dbl_lt (sr_max h) v then ts else sr_max_time h)"
  "sr_min_time (leaf_add_stats ts v h) = (if dbl_lt v (sr_min h) then ts else sr_min_time h)"
  by (simp_all add: leaf_add_stats_def Let_def)

lemma leaf_stats_Nil [simp]: "leaf_stats h [] = h"
  by (simp add: leaf_stats_def)

lemma leaf_stats_snoc [simp]: "leaf_stats h (xs @ [tv]) = leaf_add_stats (fst tv) (snd tv) (leaf_stats h xs)"
  by (simp add: leaf_stats_def split_beta)

lemma leaf_stats_keeps [simp]:
  "sr_id (leaf_stats h xs) = sr_id h" "sr_addr (leaf_stats h xs) = sr_addr h"
  "sr_type (leaf_stats h xs) = sr_type h" "sr_level (leaf_stats h xs) = sr_level h"
  "sr_version (leaf_stats h xs) = sr_version h" "sr_fanout_index (leaf_stats h xs) = sr_fanout_index h"
  "sr_checksum (leaf_stats h xs) = sr_checksum h" "sr_payload_size (leaf_stats h xs) = sr_payload_size h"
  by (induction xs rule: rev_induct) simp_all

lemma leaf_stats_count: "sr_count (leaf_stats h xs) = sr_count h + of_nat (length xs)"
  by (induction xs rule: rev_induct) simp_all

lemma leaf_header0_simps [simp]:
  "sr_id (leaf_header0 sid prev fan) = sid" "sr_addr (leaf_header0 sid prev fan) = prev"
  "sr_type (leaf_header0 sid prev fan) = LEAF" "sr_level (leaf_header0 sid prev fan) = 0"
  "sr_version (leaf_header0 sid prev fan) = FASTSTDB_VERSION"
  "sr_fanout_index (leaf_header0 sid prev fan) = fan" "sr_count (leaf_header0 sid prev fan) = 0"
  "sr_min (leaf_header0 sid prev fan) = dbl_max" "sr_max (leaf_header0 sid prev fan) = dbl_lowest"
  "sr_sum (leaf_header0 sid prev fan) = 0"
  by (simp_all add: leaf_header0_def leaf_init_header_def)

subsection \<open>Creation and appends\<close>

lemma block_writer_new_stream:
  "IOVecBlockWriter_new s = Some w \<Longrightarrow> IOVecBlockWriter_new s' = Some (w\<lparr>bw_stream := s'\<rparr>)"
  by (auto simp: IOVecBlockWriter_new_def bind_eq_Some_conv)

lemma leaf_alloc_new:
  "iw_allocate SUBTREE_REF_SIZE (IOVecVByteStreamWriter_new IOVecBlock_new) =
     (Some 0, (IOVecVByteStreamWriter_new IOVecBlock_new)\<lparr>iw_block :=
        \<lparr>ib_data = [replicate 1024 0, [], [], []], ib_pos = 110, ib_addr = EMPTY_ADDR\<rparr>\<rparr>)"
  by (simp add: iw_allocate_def IOVecBlock_allocate_def IOVecVByteStreamWriter_new_def IOVecBlock_new_def
      ib_ensure_def Let_def)

lemma leaf_new_ok: "\<exists>l. IOVecLeaf_new sid prev fan = Some l \<and> leaf_view sid prev fan [] l \<and> \<not> leaf_full l"
proof -
  let ?b0 = "\<lparr>ib_data = [replicate 1024 0, [], [], []], ib_pos = 110, ib_addr = EMPTY_ADDR\<rparr> :: iovec_block"
  let ?s = "IOVecVByteStreamWriter_new IOVecBlock_new" and ?h = "leaf_header0 sid prev fan"
  have inv: "ib_inv ?b0" unfolding ib_inv_def by (rule exI[of _ 1]) (auto simp: ib_alloc_def nth_Cons')
  have bytes: "ib_bytes ?b0 = replicate 110 0 @ []"
    by (simp add: ib_bytes_def ib_flat_def single_chunk_def ib_pad_def)
  from set_header_ok[OF inv bytes, of ?h] obtain b where
    b: "IOVecBlock_set_header ?h ?b0 = Some b" "ib_inv b" "ib_bytes b = pack_ref ?h" "ib_pos b = 110"
    "ib_addr b = EMPTY_ADDR" by auto
  have h0: "IOVecBlock_get_header ?b0 = Some (unpack_ref (replicate 110 0))"
    by (simp add: IOVecBlock_get_header_def IOVecBlock_get_data_def)
  let ?s1 = "?s\<lparr>iw_block := b\<rparr>"
  have s1: "iw_inv ?s1" "iw_bytes ?s1 = pack_ref ?h" using b
    by (simp_all add: iw_inv_def iw_bytes_def IOVecVByteStreamWriter_new_def)
  have sp: "ws_space_left IOVecW ?s1 = 3986" using iw_space[of ?s1] b(2,4) by simp
  from ivw.init_ok[OF s1, of sid] sp obtain w0 w1 where
    w: "IOVecBlockWriter_new ?s1 = Some w0" "IOVecBlockWriter_init IOVecW sid w0 = Some w1"
    "ivw_view 4096 (pack_ref ?h) sid [] [] [] [] w1" "ws_space_left IOVecW (bw_stream w1) = 3972" by auto
  have w': "IOVecBlockWriter_new ?s = Some (w0\<lparr>bw_stream := ?s\<rparr>)" "w0\<lparr>bw_stream := ?s1\<rparr> = w0"
    using block_writer_new_stream[OF w(1), of ?s] block_writer_new_stream[OF w(1), of ?s1] w(1) by simp_all
  have "IOVecLeaf_new sid prev fan = Some \<lparr>lf_prev = prev, lf_body = Writing w1, lf_fanout_index = fan\<rparr>"
    using w(2) w' b(1) h0
    by (simp add: IOVecLeaf_new_def IOVecBlockWriter_open_def Let_def leaf_alloc_new leaf_header0_def)
  moreover have "leaf_view sid prev fan [] \<lparr>lf_prev = prev, lf_body = Writing w1, lf_fanout_index = fan\<rparr>"
    unfolding leaf_view_def using w(3) by (intro conjI exI[of _ w1] exI[of _ "[]"]) simp_all
  ultimately show ?thesis using w(4) by (auto simp: leaf_full_def)
qed

lemma leaf_append_ok:
  assumes v: "leaf_view sid prev fan xs l"
  shows "\<exists>st l'. IOVecLeaf_append ts x l = Some (st, l') \<and>
     (if leaf_full l then st = kOverflow \<and> leaf_view sid prev fan xs l' \<and> leaf_full l'
      else st = kOk \<and> leaf_view sid prev fan (xs @ [(ts, x)]) l')"
proof -
  let ?h = "leaf_stats (leaf_header0 sid prev fan) xs"
  from v obtain w main buf tail junk where
    w: "lf_prev l = prev" "lf_fanout_index l = fan" "lf_body l = Writing w" "concat main @ buf @ tail = xs"
    "ivw_view 4096 (pack_ref ?h) sid main buf tail junk w" by (auto simp: leaf_view_def)
  from ivw.put_cases[OF w(5), of ts x] obtain st w' m' b' t' j' where
    p: "IOVecBlockWriter_put IOVecW ts x w = Some (st, w')" "ivw_view 4096 (pack_ref ?h) sid m' b' t' j' w'"
    "if ws_space_left IOVecW (bw_stream w) < 16
      then st = kOverflow \<and> concat m' @ b' @ t' = concat main @ buf @ tail \<and>
        ws_space_left IOVecW (bw_stream w') < 16
      else st = kOk \<and> concat m' @ b' @ t' = concat main @ buf @ tail @ [(ts, x)]" by blast
  show ?thesis
  proof (cases "leaf_full l")
    case True
    then have "leaf_view sid prev fan xs (l\<lparr>lf_body := Writing w'\<rparr>)" "leaf_full (l\<lparr>lf_body := Writing w'\<rparr>)" "st = kOverflow"
      using w p(2,3) by (auto simp: leaf_full_def leaf_view_def)
    with True w(3) p(1) show ?thesis by (simp add: IOVecLeaf_append_def IsOk_def)
  next
    case False
    then have st: "st = kOk" "concat m' @ b' @ t' = xs @ [(ts, x)]"
      using w(3,4) p(3) by (auto simp: leaf_full_def)
    from view_set_header[OF p(2), of "leaf_add_stats ts x ?h"] obtain b where
      b: "IOVecBlock_set_header (leaf_add_stats ts x ?h) (iw_block (bw_stream w')) = Some b"
      "ivw_view 4096 (pack_ref (leaf_add_stats ts x ?h)) sid m' b' t' j'
        (w'\<lparr>bw_stream := (bw_stream w')\<lparr>iw_block := b\<rparr>\<rparr>)" by blast
    have "IOVecBlock_get_header (iw_block (bw_stream w')) = Some ?h"
      using view_readable[OF p(2)] by (auto intro: header_of_bytes ib_inv_readable)
    then have "IOVecLeaf_append ts x l =
        Some (kOk, l\<lparr>lf_body := Writing (w'\<lparr>bw_stream := (bw_stream w')\<lparr>iw_block := b\<rparr>\<rparr>)\<rparr>)"
      using w(3) p(1) st(1) b(1)
      by (simp add: IOVecLeaf_append_def IsOk_def leaf_update_header_def lf_set_block_def)
    moreover have "leaf_view sid prev fan (xs @ [(ts, x)])
        (l\<lparr>lf_body := Writing (w'\<lparr>bw_stream := (bw_stream w')\<lparr>iw_block := b\<rparr>\<rparr>)\<rparr>)"
      using w(1,2) b(2) st(2) by (auto simp: leaf_view_def)
    ultimately show ?thesis using False by simp
  qed
qed

lemma leaf_full_length:
  assumes "leaf_view sid prev fan xs l" and "leaf_full l"
  shows "225 \<le> length xs"
proof -
  let ?h = "leaf_stats (leaf_header0 sid prev fan) xs"
  from assms(1) obtain w main buf tail junk where
    w: "lf_body l = Writing w" "concat main @ buf @ tail = xs"
    "ivw_view 4096 (pack_ref ?h) sid main buf tail junk w" by (auto simp: leaf_view_def)
  from ivw.full_block_bound[OF w(3)] assms(2) w(1,2) show ?thesis by (simp add: leaf_full_def)
qed

lemma leaf_length_bound:
  assumes "leaf_view sid prev fan xs l"
  shows "length xs \<le> 2 ^ 21"
proof -
  let ?h = "leaf_stats (leaf_header0 sid prev fan) xs"
  from assms(1) obtain w main buf tail junk where
    w: "concat main @ buf @ tail = xs" "ivw_view 4096 (pack_ref ?h) sid main buf tail junk w"
    by (auto simp: leaf_view_def)
  have "length main \<le> 65535" "length (buf @ tail) \<le> 65535" using ivw.view_counts[OF w(2)] by auto
  moreover have "length (concat main) = 16 * length main"
    using w(2) concat_pieces_length[of main 16] by (simp add: bw_view_def mult.commute)
  ultimately show ?thesis using w(1) by (simp flip: w(1))
qed

lemma u64_of_nat_0: "n < 2 ^ 64 \<Longrightarrow> (of_nat n = (0 :: u64)) = (n = 0)"
proof -
  assume "n < 2 ^ 64"
  then have "unat (of_nat n :: u64) = n" by (simp add: unat_of_nat take_bit_nat_eq_self)
  with unsigned_eq_0_iff[of "of_nat n :: u64", where 'a = nat] show ?thesis by simp
qed

lemma leaf_nelements_view:
  assumes "leaf_view sid prev fan xs l"
  shows "IOVecLeaf_nelements l = Some (of_nat (length xs))" "(of_nat (length xs) = (0 :: u64)) = (xs = [])"
proof -
  show "IOVecLeaf_nelements l = Some (of_nat (length xs))"
    by (simp add: IOVecLeaf_nelements_def IOVecLeaf_get_leafmeta_def leaf_view_header[OF assms] leaf_stats_count)
  have "length xs < 2 ^ 64" using leaf_length_bound[OF assms] by simp
  then show "(of_nat (length xs) = (0 :: u64)) = (xs = [])" 
    using u64_of_nat_0[of "length xs"] by simp
qed

subsection \<open>Reading a leaf\<close>

lemma leaf_read_loop_ok:
  "read_n (IOVecBlockReader_next IOVecR) (length xs) r = Some (map ok_item xs, r') \<Longrightarrow>
   leaf_read_loop (length xs) r = Some (kOk, xs)"
proof (induction xs arbitrary: r)
  case (Cons x xs)
  then obtain r1 where "IOVecBlockReader_next IOVecR r = Some (ok_item x, r1)"
    "read_n (IOVecBlockReader_next IOVecR) (length xs) r1 = Some (map ok_item xs, r')"
    by (auto simp: bind_eq_Some_conv)
  with Cons.IH show ?case by (simp add: ok_item_def IsOk_def split_beta)
qed simp

text \<open>The codec layout of a leaf behind its 110-byte header.\<close>

definition leaf_layout :: "param_id \<Rightarrow> (timestamp \<times> double_bits) list \<Rightarrow> u8 list \<Rightarrow> bool" where
  "leaf_layout sid xs z \<longleftrightarrow> (\<exists>main tvs p bs q junk. xs = concat main @ tvs \<and>
     z = hdr_bytes (length main) (length tvs) sid @ bs @ tail_bytes tvs @ junk \<and>
     length main \<le> 65535 \<and> length tvs \<le> 65535 \<and> (\<forall>c \<in> set main. length c = 16) \<and>
     DfcmPredictor_new 128 = Some p \<and> chunks_bytes main 0 p = Some (bs, q))"

lemma leaf_layout_extend: "leaf_layout sid xs z \<Longrightarrow> leaf_layout sid xs (z @ y)"
  unfolding leaf_layout_def by fastforce

lemma leaf_read_ok:
  assumes "ib_readable b" and "ib_bytes b = h @ z" and "length h = 110" and "leaf_layout sid xs z"
  shows "\<exists>r. IOVecBlockReader_open b SUBTREE_REF_SIZE = Some r \<and>
     IOVecBlockReader_nelements r = Some (length xs) \<and> leaf_read_loop (length xs) r = Some (kOk, xs)"
proof -
  from assms(4) obtain main tvs p bs q junk where
    l: "xs = concat main @ tvs" "z = hdr_bytes (length main) (length tvs) sid @ bs @ tail_bytes tvs @ junk"
    "length main \<le> 65535" "length tvs \<le> 65535" "\<forall>c \<in> set main. length c = 16"
    "DfcmPredictor_new 128 = Some p" "chunks_bytes main 0 p = Some (bs, q)"
    by (auto simp: leaf_layout_def)
  from leaf_read_layout[OF assms(1) assms(2)[unfolded l(2)] assms(3) _ l(3-7)] obtain r r' where
    "IOVecBlockReader_open b 110 = Some r"
    "read_n (IOVecBlockReader_next IOVecR) (length xs) r = Some (map ok_item xs, r')"
    "IOVecBlockReader_nelements r = Some (length xs)" unfolding l(1) by auto
  with leaf_read_loop_ok show ?thesis by blast
qed

lemma view_layout:
  assumes "ivw_view cap pre sid main buf tail junk w" and "cap \<le> 3 * 65535"
  shows "\<exists>z. iw_bytes (bw_stream w) = pre @ z \<and> leaf_layout sid (concat main @ tail) z"
proof -
  from assms(1) obtain p bs q where
    p: "DfcmPredictor_new 128 = Some p" "chunks_bytes main 0 p = Some (bs, q)"
    "iw_bytes (bw_stream w) = pre @ hdr_bytes (length main) (length tail) sid @ bs @ tail_bytes tail @ junk"
    "\<forall>c \<in> set main. length c = 16" by (auto simp: bw_view_def)
  with ivw.view_counts[OF assms] show ?thesis unfolding leaf_layout_def by fastforce
qed

lemma view_write_index:
  assumes v: "ivw_view cap pre sid main buf tail junk w"
  shows "IOVecBlockWriter_get_write_index IOVecW w =
    Some (unat (of_nat (length tail) :: u16) + 16 * length main + length buf)"
proof -
  from v obtain bs where b: "iw_inv (bw_stream w)"
    "iw_bytes (bw_stream w) = pre @ hdr_bytes (length main) (length tail) sid @ bs"
    by (auto simp: bw_view_def)
  have l: "ws_load16 IOVecW (length pre + 4) (bw_stream w) = Some (of_nat (length tail))"
    by (rule ivw.load_ntail[OF b]) (use v in \<open>simp add: bw_view_def\<close>)
  have "\<not> ws_empty IOVecW (bw_stream w)"
    using b ib_bytes_length[OF ib_inv_readable, of "iw_block (bw_stream w)"]
    by (auto simp: IOVecW_def iw_empty_def IOVecBlock_size_def iw_inv_def iw_bytes_def)
  with v l show ?thesis by (simp add: IOVecBlockWriter_get_write_index_def bw_view_def)
qed

lemma view_tail_elements:
  assumes "ivw_view cap pre sid main buf tail junk w"
  shows "body_tail_elements (Writing w) = buf"
  using assms by (simp add: bw_view_def IOVecBlockWriter_read_tail_elements_def Let_def take_zip)

lemma leaf_read_all_view:
  assumes "leaf_view sid prev fan xs l"
  shows "IOVecLeaf_read_all l = Some (kOk, xs)"
proof -
  let ?h = "leaf_stats (leaf_header0 sid prev fan) xs"
  from assms(1) obtain w main buf tail junk where
    w: "lf_body l = Writing w" "concat main @ buf @ tail = xs"
    "ivw_view 4096 (pack_ref ?h) sid main buf tail junk w" by (auto simp: leaf_view_def)
  from view_layout[OF w(3)] obtain z where
    z: "iw_bytes (bw_stream w) = pack_ref ?h @ z" "leaf_layout sid (concat main @ tail) z" by auto
  from leaf_read_ok[OF ib_inv_readable[OF view_readable(1)[OF w(3)]] z(1)[unfolded iw_bytes_def] _ z(2)]
  obtain r where r: "IOVecBlockReader_open (iw_block (bw_stream w)) 110 = Some r"
    "IOVecBlockReader_nelements r = Some (length (concat main @ tail))"
    "leaf_read_loop (length (concat main @ tail)) r = Some (kOk, concat main @ tail)" by auto
  have bt: "buf = [] \<or> tail = []" using w(3) by (auto simp: bw_view_def)
  from r view_write_index[OF w(3)] view_tail_elements[OF w(3)] w(1,2) bt show ?thesis
    by (auto simp: IOVecLeaf_read_all_def IsOk_def)
qed

subsection \<open>Commit and the image on disk\<close>

text \<open>The reference to a committed leaf that its parent holds, up to the address.\<close>

definition leaf_ref :: "param_id \<Rightarrow> u16 \<Rightarrow> (timestamp \<times> double_bits) list \<Rightarrow> subtree_ref" where
  "leaf_ref sid fan xs =
     (leaf_stats (leaf_header0 sid EMPTY_ADDR fan) xs)\<lparr>sr_payload_size := 0, sr_checksum := 0\<rparr>"

definition leaf_image ::
  "param_id \<Rightarrow> logic_addr \<Rightarrow> u16 \<Rightarrow> (timestamp \<times> double_bits) list \<Rightarrow> u8 list \<Rightarrow> bool" where
  "leaf_image sid prev fan xs bs \<longleftrightarrow> (\<exists>r z. node_image r z bs \<and> leaf_layout sid xs z \<and>
     sr_addr r = prev \<and> ref_core r = leaf_ref sid fan xs)"

lemma leaf_add_stats_set_addr: "(leaf_add_stats ts v h)\<lparr>sr_addr := a\<rparr> = leaf_add_stats ts v (h\<lparr>sr_addr := a\<rparr>)"
  by (simp add: leaf_add_stats_def Let_def)

lemma leaf_stats_set_addr: "(leaf_stats h xs)\<lparr>sr_addr := a\<rparr> = leaf_stats (h\<lparr>sr_addr := a\<rparr>) xs"
  by (induction xs rule: rev_induct) (simp_all add: leaf_add_stats_set_addr)

lemma leaf_ref_core: "ref_core (leaf_stats (leaf_header0 sid prev fan) xs) = leaf_ref sid fan xs"
proof -
  have "(leaf_header0 sid prev fan)\<lparr>sr_addr := EMPTY_ADDR\<rparr> = leaf_header0 sid EMPTY_ADDR fan"
    by (simp add: leaf_header0_def leaf_init_header_def)
  then show ?thesis by (simp add: ref_core_def leaf_ref_def leaf_stats_set_addr)
qed

lemma leaf_seal_simps [simp]:
  "sr_payload_size (leaf_seal_header n prev fan h) = n" "sr_count (leaf_seal_header n prev fan h) = sr_count h"
  "sr_type (leaf_seal_header n prev fan h) = LEAF"
  by (simp_all add: leaf_seal_header_def Let_def)

lemma leaf_seal_core:
  assumes "sr_version h = FASTSTDB_VERSION" and "sr_level h = 0" and "sr_type h = LEAF" and "sr_fanout_index h = fan"
  shows "ref_core ((leaf_seal_header n prev fan h)\<lparr>sr_checksum := c\<rparr>) = ref_core h"
  using assms by (cases h) (simp add: ref_core_def leaf_seal_header_def Let_def)

lemma update_header_writing:
  assumes v: "ib_inv b" "ib_bytes b = pack_ref h @ z" and l: "lf_block l = b"
  shows "\<exists>b'. leaf_update_header f l = Some (lf_set_block b' l) \<and> ib_inv b' \<and> ib_bytes b' = pack_ref (f h) @ z \<and>
     ib_flat b' = pack_ref (f h) @ drop 110 (ib_flat b) \<and> ib_pos b' = ib_pos b"
proof -
  have "IOVecBlock_get_header b = Some h" by (rule header_of_bytes[OF ib_inv_readable[OF v(1)] v(2)])
  with set_header_ok[OF v, of "f h"] l show ?thesis by (auto simp: leaf_update_header_def)
qed

lemma lf_set_block_simps [simp]:
  "lf_block (lf_set_block b l) = b" "lf_prev (lf_set_block b l) = lf_prev l"
  "lf_fanout_index (lf_set_block b l) = lf_fanout_index l"
  by (simp_all add: lf_set_block_def)

lemma leaf_commit_writer:
  assumes "leaf_view sid prev fan xs l"
  shows "\<exists>w n w' z. lf_body l = Writing w \<and> IOVecBlockWriter_commit IOVecW w = Some (n, w') \<and>
     ib_inv (iw_block (bw_stream w')) \<and> ib_pos (iw_block (bw_stream w')) = n \<and> 124 \<le> n \<and> n \<le> 4096 \<and>
     ib_bytes (iw_block (bw_stream w')) = pack_ref (leaf_stats (leaf_header0 sid prev fan) xs) @ z \<and>
     leaf_layout sid xs z"
proof -
  let ?h = "leaf_stats (leaf_header0 sid prev fan) xs"
  from assms(1) obtain w main buf tail junk where
    w: "lf_body l = Writing w" "concat main @ buf @ tail = xs"
    "ivw_view 4096 (pack_ref ?h) sid main buf tail junk w" by (auto simp: leaf_view_def)
  have cap: "(4096 :: nat) \<le> 3 * 65535" by simp
  from ivw.commit_ok_view[OF w(3) cap] obtain n w' p bs q where
    c: "IOVecBlockWriter_commit IOVecW w = Some (n, w')" "DfcmPredictor_new 128 = Some p"
    "chunks_bytes main 0 p = Some (bs, q)" "iw_inv (bw_stream w')" "n = length (iw_bytes (bw_stream w'))"
    "iw_bytes (bw_stream w') =
       pack_ref ?h @ hdr_bytes (length main) (length (buf @ tail)) sid @ bs @ tail_bytes (buf @ tail) @ junk"
    by auto
  have inv: "ib_inv (iw_block (bw_stream w'))" using c(4) by (simp add: iw_inv_def)
  then have pos: "ib_pos (iw_block (bw_stream w')) = n" using c(5) ib_bytes_length[OF ib_inv_readable]
    by (simp add: iw_bytes_def)
  have lay: "leaf_layout sid xs (hdr_bytes (length main) (length (buf @ tail)) sid @ bs @ tail_bytes (buf @ tail) @ junk)"
    unfolding leaf_layout_def using ivw.view_counts[OF w(3) cap] w(2,3) c(2,3)
    by (intro exI[of _ main] exI[of _ "buf @ tail"] exI[of _ p] exI[of _ bs] exI[of _ q] exI[of _ junk])
      (simp add: bw_view_def)
  have "124 \<le> n" using c(5,6) by simp
  with w(1) c(1,6) inv pos lay ib_inv_pos[OF inv] show ?thesis by (fastforce simp: iw_bytes_def)
qed

text \<open>The link that a committed node keeps to the previous node of its level.\<close>

definition node_link :: "logic_addr \<Rightarrow> u16 \<Rightarrow> logic_addr" where
  "node_link prev fan = (if prev \<noteq> EMPTY_ADDR \<and> 0 < fan then prev else EMPTY_ADDR)"

lemma payload_u16:
  assumes "124 \<le> n" and "n \<le> 4096"
  shows "unat ((of_nat n :: u16) - 110) = n - 110" "(of_nat n :: u16) - 110 \<noteq> 0"
proof -
  have n: "unat (of_nat n :: u16) = n" using assms by (simp add: unat_of_nat take_bit_nat_eq_self)
  then have "(110 :: u16) \<le> of_nat n" using assms by (simp add: word_le_nat_alt)
  then show u: "unat ((of_nat n :: u16) - 110) = n - 110" using n by (simp add: unat_sub)
  from u assms(1) have "unat ((of_nat n :: u16) - 110) \<noteq> 0" by simp
  then show "(of_nat n :: u16) - 110 \<noteq> 0" by (rule contrapos_nn) (simp only: unsigned_0)
qed

context block_store
begin

lemma leaf_commit_seal:
  assumes v: "leaf_view sid prev fan xs l" and ne: "xs \<noteq> []"
  shows "\<exists>b l1. ib_inv b \<and> leaf_image sid (node_link prev fan) fan xs (ib_flat b) \<and>
     (\<forall>b'. ib_data b' = ib_data b \<longrightarrow> init_subtree_from_leaf (lf_set_block b' l1) out = Some (kOk, leaf_ref sid fan xs)) \<and>
     (\<forall>s. IOVecLeaf_commit B l s = do { (r, b', s) \<leftarrow> bs_append B b s; Some (r, lf_set_block b' l1, s) })"
proof -
  let ?h = "leaf_stats (leaf_header0 sid prev fan) xs"
  from leaf_commit_writer[OF v] obtain w n w' z where
    w: "lf_body l = Writing w" "IOVecBlockWriter_commit IOVecW w = Some (n, w')"
    "ib_inv (iw_block (bw_stream w'))" "ib_pos (iw_block (bw_stream w')) = n" "124 \<le> n" "n \<le> 4096"
    "ib_bytes (iw_block (bw_stream w')) = pack_ref ?h @ z" "leaf_layout sid xs z" by blast
  have fan: "lf_prev l = prev" "lf_fanout_index l = fan" using v by (simp_all add: leaf_view_def)
  let ?pay = "(of_nat n :: u16) - 110" and ?l0 = "l\<lparr>lf_body := Writing w'\<rparr>"
  let ?h1 = "leaf_seal_header ?pay prev fan ?h"
  have "lf_block ?l0 = iw_block (bw_stream w')" by simp
  from update_header_writing[OF w(3,7) this, of "leaf_seal_header ?pay prev fan"] obtain b1 where
    b1: "leaf_update_header (leaf_seal_header ?pay prev fan) ?l0 = Some (lf_set_block b1 ?l0)" "ib_inv b1"
    "ib_bytes b1 = pack_ref ?h1 @ z" "ib_pos b1 = n" using w(4) by auto
  let ?crc = "crc32c_ref 0 (take (n - 110) (drop 110 (ib_flat b1)))"
  from b1(2) obtain k where k: "ib_alloc k b1" "ib_pos b1 \<le> k * 1024" by (auto simp: ib_inv_def)
  have crc: "bs_checksum_iovec B b1 110 (n - 110) = Some ?crc"
    by (rule checksum_iovec_ok[OF k(1)]) (use k(2) b1(4) w(5) in simp_all)
  from update_header_writing[OF b1(2,3), of "lf_set_block b1 ?l0" "\<lambda>h. h\<lparr>sr_checksum := ?crc\<rparr>"] obtain b2 where
    b2: "leaf_update_header (\<lambda>h. h\<lparr>sr_checksum := ?crc\<rparr>) (lf_set_block b1 ?l0) = Some (lf_set_block b2 (lf_set_block b1 ?l0))"
    "ib_inv b2" "ib_bytes b2 = pack_ref (?h1\<lparr>sr_checksum := ?crc\<rparr>) @ z"
    "ib_flat b2 = pack_ref (?h1\<lparr>sr_checksum := ?crc\<rparr>) @ drop 110 (ib_flat b1)" by auto
  let ?h2 = "?h1\<lparr>sr_checksum := ?crc\<rparr>" and ?l1 = "lf_set_block b1 ?l0"
  have com: "IOVecLeaf_commit B l s = do { (r, b', s) \<leftarrow> bs_append B b2 s; Some (r, lf_set_block b' (lf_set_block b2 ?l1), s) }" for s
    using leaf_nelements_view[OF v] ne w(1,2) payload_u16[OF w(5,6)] b1(1) crc b2(1) fan
    by (simp add: IOVecLeaf_commit_def Let_def)
  have core: "ref_core ?h2 = leaf_ref sid fan xs" by (simp add: leaf_seal_core leaf_ref_core)
  have "take n (ib_flat b1) = pack_ref ?h1 @ z" using b1(3,4) by (simp add: ib_bytes_def)
  then have "ib_flat b1 = (pack_ref ?h1 @ z) @ drop n (ib_flat b1)" using append_take_drop_id[of n "ib_flat b1"] by simp
  then have "drop 110 (ib_flat b1) = drop 110 ((pack_ref ?h1 @ z) @ drop n (ib_flat b1))" by (rule arg_cong)
  then have "drop 110 (ib_flat b1) = z @ drop n (ib_flat b1)" by simp
  then have "leaf_layout sid xs (drop 110 (ib_flat b1))" using leaf_layout_extend[OF w(8)] by simp
  moreover have "node_image ?h2 (drop 110 (ib_flat b1)) (ib_flat b2)"
    using b2(4) payload_u16(1)[OF w(5,6)] diff_le_mono[OF w(6), of 110] ib_inv_flat_length[OF b2(2)]
      ib_inv_flat_length[OF b1(2)] by (simp add: node_image_def)
  moreover have "sr_addr ?h2 = node_link prev fan" by (simp add: leaf_seal_header_def node_link_def Let_def)
  ultimately have img: "leaf_image sid (node_link prev fan) fan xs (ib_flat b2)" using core
    unfolding leaf_image_def by blast
  have "init_subtree_from_leaf (lf_set_block b' (lf_set_block b2 ?l1)) out = Some (kOk, leaf_ref sid fan xs)"
    if "ib_data b' = ib_data b2" for b'
  proof -
    have "IOVecBlock_get_header b' = Some ?h2"
      using header_of_bytes[OF ib_inv_readable[OF b2(2)] b2(3)] that
      by (simp add: IOVecBlock_get_header_def IOVecBlock_get_data_def)
    moreover have "sr_count ?h2 \<noteq> 0" using leaf_nelements_view(2)[OF v] ne
      by (simp add: leaf_stats_count)
    moreover have "?h2\<lparr>sr_payload_size := 0, sr_checksum := 0, sr_addr := EMPTY_ADDR, sr_type := LEAF\<rparr> = ref_core ?h2"
      by (simp add: ref_core_def leaf_seal_header_def Let_def)
    ultimately show ?thesis using core
      by (simp add: init_subtree_from_leaf_def IOVecLeaf_nelements_def IOVecLeaf_get_leafmeta_def)
  qed
  with b2(2) img com show ?thesis by blast
qed

lemma leaf_image_load:
  assumes "leaf_image sid prev fan xs bs" and "room n s" and "look s a = Some bs"
  shows "\<exists>l r. read_and_check B a s = Some (kOk, Some (disk_block bs)) \<and> IOVecLeaf_load B a s = Some l \<and>
     IOVecLeaf_of_block (disk_block bs) = Some l \<and>
     IOVecLeaf_get_leafmeta l = Some r \<and> ref_core r = leaf_ref sid fan xs \<and> lf_prev l = prev \<and>
     sr_addr r = prev \<and> IOVecLeaf_get_fanout l = fan \<and> IOVecLeaf_read_all l = Some (kOk, xs)"
proof -
  from assms(1) obtain r z where
    r: "node_image r z bs" "leaf_layout sid xs z" "sr_addr r = prev" "ref_core r = leaf_ref sid fan xs"
    by (auto simp: leaf_image_def)
  from r(1) obtain y where y: "length bs = 4096" "bs = pack_ref r @ z @ y" by (auto simp: node_image_def)
  from leaf_read_ok[OF disk_block_readable(1)[OF y(1)] _ _ leaf_layout_extend[OF r(2), of y], of "pack_ref r"]
  obtain rd where rd: "IOVecBlockReader_open (disk_block bs) 110 = Some rd"
    "IOVecBlockReader_nelements rd = Some (length xs)" "leaf_read_loop (length xs) rd = Some (kOk, xs)"
    using disk_block_readable(2)[OF y(1)] y(2) by auto
  have "sr_fanout_index r = sr_fanout_index (ref_core r)" by (simp add: ref_core_def)
  then have "sr_fanout_index r = fan" unfolding r(4) by (simp add: leaf_ref_def)
  with rd r(3,4) image_header(1)[OF r(1)] read_image[OF assms(2,3) r(1)] show ?thesis
    by (simp add: IOVecLeaf_load_def IOVecLeaf_of_block_def IOVecLeaf_get_leafmeta_def IOVecLeaf_read_all_def
        IOVecLeaf_get_fanout_def IsOk_def)
qed

end

context durable_store
begin

lemma leaf_commit_ok:
  assumes "leaf_view sid prev fan xs l" and "xs \<noteq> []" and "room (Suc n) s"
  shows "\<exists>addr l' s' bs. IOVecLeaf_commit B l s = Some ((kOk, addr), l', s') \<and> room n s' \<and>
     addr \<noteq> EMPTY_ADDR \<and> (addr = 0 \<longrightarrow> look s = Map.empty) \<and> look s addr = None \<and>
     look s' = (look s)(addr \<mapsto> bs) \<and> leaf_image sid (node_link prev fan) fan xs bs \<and>
     init_subtree_from_leaf l' out = Some (kOk, leaf_ref sid fan xs)"
proof -
  from leaf_commit_seal[OF assms(1,2)] obtain b l1 where
    b: "ib_inv b" "leaf_image sid (node_link prev fan) fan xs (ib_flat b)"
    "\<And>b'. ib_data b' = ib_data b \<Longrightarrow> init_subtree_from_leaf (lf_set_block b' l1) out = Some (kOk, leaf_ref sid fan xs)"
    "IOVecLeaf_commit B l s = do { (r, b', s) \<leftarrow> bs_append B b s; Some (r, lf_set_block b' l1, s) }" by blast
  from append_look[OF assms(3) b(1)] obtain addr x s' where
    a: "bs_append B b s = Some ((kOk, addr), IOVecBlock_set_addr x b, s')" "room n s'"
    "addr \<noteq> EMPTY_ADDR" "addr = 0 \<longrightarrow> look s = Map.empty" "look s addr = None"
    "look s' = (look s)(addr \<mapsto> ib_flat b)" by blast
  have "init_subtree_from_leaf (lf_set_block (IOVecBlock_set_addr x b) l1) out = Some (kOk, leaf_ref sid fan xs)"
    by (rule b(3)) (simp add: IOVecBlock_set_addr_def)
  with a b(2,4) show ?thesis by auto
qed

end

subsection \<open>Properties\<close>

text \<open>A client that appends elements until the leaf overflows; the number accepted.\<close>

primrec leaf_append_list ::
  "(timestamp \<times> double_bits) list \<Rightarrow> iovec_leaf \<Rightarrow> (nat \<times> iovec_leaf) option" where
  "leaf_append_list [] l = Some (0, l)"
| "leaf_append_list (tv # tvs) l =
     do { (st, l) \<leftarrow> IOVecLeaf_append (fst tv) (snd tv) l;
          if \<not> IsOk st then Some (0, l)
          else do { (n, l) \<leftarrow> leaf_append_list tvs l; Some (n + 1, l) } }"

lemma leaf_append_list_ok:
  "leaf_view sid prev fan xs l \<Longrightarrow>
   \<exists>n l'. leaf_append_list ys l = Some (n, l') \<and> n \<le> length ys \<and> leaf_view sid prev fan (xs @ take n ys) l' \<and>
     (n < length ys \<longrightarrow> leaf_full l')"
proof (induction ys arbitrary: xs l)
  case (Cons y ys)
  from leaf_append_ok[OF Cons.prems, of "fst y" "snd y"] obtain st l1 where
    l1: "IOVecLeaf_append (fst y) (snd y) l = Some (st, l1)"
    "if leaf_full l then st = kOverflow \<and> leaf_view sid prev fan xs l1 \<and> leaf_full l1
     else st = kOk \<and> leaf_view sid prev fan (xs @ [y]) l1" unfolding prod.collapse by blast
  show ?case
  proof (cases "leaf_full l")
    case True
    with l1 show ?thesis by (simp add: IsOk_def)
  next
    case False
    with l1(2) have "leaf_view sid prev fan (xs @ [y]) l1" "st = kOk" by simp_all
    from Cons.IH[OF this(1)] obtain n l' where "leaf_append_list ys l1 = Some (n, l')" "n \<le> length ys"
      "leaf_view sid prev fan (xs @ y # take n ys) l'" "n < length ys \<longrightarrow> leaf_full l'" by auto
    with l1(1) \<open>st = kOk\<close> show ?thesis by (simp add: IsOk_def)
  qed
qed simp

text \<open>C37. A leaf survives the store: filling a fresh leaf with elements accepts all of them or at
  least 225; committing it to a MemStore with room succeeds, and the leaf loaded from the
  returned address passes its checksum, reads back exactly the accepted elements, and carries
  the link to the previous leaf and the fan-out index.\<close>

theorem leaf_store_roundtrip:
  assumes "ms_room (Suc n) s" and "xs \<noteq> []"
  shows "\<exists>l0 k l addr l1 s' l2. IOVecLeaf_new sid prev fan = Some l0 \<and>
     leaf_append_list xs l0 = Some (k, l) \<and> (k = length xs \<or> 225 \<le> k) \<and> k \<le> length xs \<and>
     IOVecLeaf_read_all l = Some (kOk, take k xs) \<and>
     IOVecLeaf_commit (MemStoreB hw al) l s = Some ((kOk, addr), l1, s') \<and>
     IOVecLeaf_load (MemStoreB hw al) addr s' = Some l2 \<and>
     IOVecLeaf_read_all l2 = Some (kOk, take k xs) \<and> IOVecLeaf_get_fanout l2 = fan \<and>
     IOVecLeaf_get_prev_addr l2 = (if prev \<noteq> EMPTY_ADDR \<and> 0 < fan then prev else EMPTY_ADDR)"
proof -
  from leaf_new_ok obtain l0 where l0: "IOVecLeaf_new sid prev fan = Some l0" "leaf_view sid prev fan [] l0"
    "\<not> leaf_full l0" by blast
  from leaf_append_list_ok[OF l0(2), of xs] obtain k l where
    l: "leaf_append_list xs l0 = Some (k, l)" "k \<le> length xs" "leaf_view sid prev fan (take k xs) l"
    "k < length xs \<longrightarrow> leaf_full l" by auto
  have k: "k = length xs \<or> 225 \<le> k" using leaf_full_length[OF l(3)] l(2,4) by (cases "k < length xs") auto
  then have ne: "take k xs \<noteq> []" using assms(2) by auto
  from memstore.leaf_commit_ok[OF l(3) ne assms(1), of hw al undefined] obtain addr l1 s' bs where
    c: "IOVecLeaf_commit (MemStoreB hw al) l s = Some ((kOk, addr), l1, s')" "ms_room n s'"
    "ms_look s' = (ms_look s)(addr \<mapsto> bs)" "leaf_image sid (node_link prev fan) fan (take k xs) bs" by blast
  from memstore.leaf_image_load[OF c(4,2), of addr hw al] c(3) obtain l2 where
    "IOVecLeaf_load (MemStoreB hw al) addr s' = Some l2" "IOVecLeaf_read_all l2 = Some (kOk, take k xs)"
    "IOVecLeaf_get_fanout l2 = fan" "lf_prev l2 = node_link prev fan" by auto
  with l0(1) l(1,2) k c(1) leaf_read_all_view[OF l(3)] show ?thesis
    by (simp add: IOVecLeaf_get_prev_addr_def node_link_def)
qed

theorem leaf_store_roundtrip_witness:
  "\<exists>l0 k l addr l1 s' l2. IOVecLeaf_new 42 7 3 = Some l0 \<and>
     leaf_append_list [(1, 10), (2, 20)] l0 = Some (k, l) \<and>
     IOVecLeaf_commit (MemStoreB True (\<lambda>_. 0)) l MemStore_new = Some ((kOk, addr), l1, s') \<and>
     IOVecLeaf_load (MemStoreB True (\<lambda>_. 0)) addr s' = Some l2 \<and>
     IOVecLeaf_read_all l2 = Some (kOk, [(1, 10), (2, 20)])"
proof -
  have "ms_room (Suc 0) MemStore_new" by (simp add: ms_room_def MemStore_new_def)
  from leaf_store_roundtrip[OF this, of "[(1, 10), (2, 20)]" 42 7 3 True "\<lambda>_. 0"] obtain l0 k l addr l1 s' l2 where
    w: "IOVecLeaf_new 42 7 3 = Some l0" "leaf_append_list [(1, 10), (2, 20)] l0 = Some (k, l)"
    "k = 2 \<or> 225 \<le> k" "k \<le> 2"
    "IOVecLeaf_commit (MemStoreB True (\<lambda>_. 0)) l MemStore_new = Some ((kOk, addr), l1, s')"
    "IOVecLeaf_load (MemStoreB True (\<lambda>_. 0)) addr s' = Some l2"
    "IOVecLeaf_read_all l2 = Some (kOk, take k [(1, 10), (2, 20)])" by auto
  have "k = 2" using w(3,4) by auto
  with w show ?thesis by auto
qed

lemma leaf_stats_min:
  "(\<forall>v \<in> set (map snd xs). \<not> dbl_lt v (sr_min (leaf_stats h xs))) \<and>
   (sr_min (leaf_stats h xs) = sr_min h \<or> (sr_min_time (leaf_stats h xs), sr_min (leaf_stats h xs)) \<in> set xs)"
proof (induction xs rule: rev_induct)
  case (snoc x xs)
  show ?case
  proof (cases "dbl_lt (snd x) (sr_min (leaf_stats h xs))")
    case True
    then have "\<not> dbl_lt v (snd x)" if "\<not> dbl_lt v (sr_min (leaf_stats h xs))" for v
      using that dbl_lt_trans by blast
    with True snoc show ?thesis by simp
  qed (use snoc in auto)
qed simp

lemma leaf_stats_max:
  "(\<forall>v \<in> set (map snd xs). \<not> dbl_lt (sr_max (leaf_stats h xs)) v) \<and>
   (sr_max (leaf_stats h xs) = sr_max h \<or> (sr_max_time (leaf_stats h xs), sr_max (leaf_stats h xs)) \<in> set xs)"
proof (induction xs rule: rev_induct)
  case (snoc x xs)
  show ?case
  proof (cases "dbl_lt (sr_max (leaf_stats h xs)) (snd x)")
    case True
    then have "\<not> dbl_lt (snd x) v" if "\<not> dbl_lt (sr_max (leaf_stats h xs)) v" for v
      using that dbl_lt_trans by blast
    with True snoc show ?thesis by simp
  qed (use snoc in auto)
qed simp

lemma leaf_stats_ends:
  "xs \<noteq> [] \<Longrightarrow> length xs < 2 ^ 64 \<Longrightarrow> sr_count h = 0 \<Longrightarrow>
   sr_begin (leaf_stats h xs) = fst (hd xs) \<and> sr_first (leaf_stats h xs) = snd (hd xs) \<and>
   sr_end (leaf_stats h xs) = fst (last xs) \<and> sr_last (leaf_stats h xs) = snd (last xs)"
proof (induction xs rule: rev_induct)
  case (snoc x xs)
  have "of_nat (length xs) = (0 :: u64) \<longleftrightarrow> xs = []" using u64_of_nat_0[of "length xs"] snoc.prems(2) by simp
  then show ?case using snoc leaf_stats_snoc[of h "[]" x] by (cases "xs = []") (simp_all add: leaf_stats_count)
qed simp

lemma leaf_stats_sum: "sr_sum (leaf_stats h xs) = foldl dbl_add (sr_sum h) (map snd xs)"
  by (induction xs rule: rev_induct) simp_all

text \<open>C38. The header of a leaf summarises it: after any number of accepted appends the header has
  the count, the time range, the first and last value and the running sum of the elements; no
  element lies below the minimum or above the maximum; and each of them is the value of an
  element, with its timestamp, unless it still has its initial value.\<close>

theorem leaf_header_summary:
  assumes "IOVecLeaf_new sid prev fan = Some l0" and "leaf_append_list ys l0 = Some (k, l)" and "take k ys = xs"
    and "xs \<noteq> []"
  shows "\<exists>h. IOVecLeaf_get_leafmeta l = Some h \<and> sr_count h = of_nat (length xs) \<and> sr_id h = sid \<and>
     sr_begin h = fst (hd xs) \<and> sr_end h = fst (last xs) \<and> sr_first h = snd (hd xs) \<and> sr_last h = snd (last xs) \<and>
     sr_sum h = foldl dbl_add 0 (map snd xs) \<and>
     (\<forall>v \<in> set (map snd xs). \<not> dbl_lt v (sr_min h) \<and> \<not> dbl_lt (sr_max h) v) \<and>
     (sr_min h = dbl_max \<or> (sr_min_time h, sr_min h) \<in> set xs) \<and>
     (sr_max h = dbl_lowest \<or> (sr_max_time h, sr_max h) \<in> set xs)"
proof -
  from leaf_new_ok[of sid prev fan] assms(1) have "leaf_view sid prev fan [] l0" by auto
  from leaf_append_list_ok[OF this, of ys] assms(2,3) have v: "leaf_view sid prev fan xs l" by auto
  let ?h = "leaf_stats (leaf_header0 sid prev fan) xs"
  have "IOVecLeaf_get_leafmeta l = Some ?h" using leaf_view_header[OF v] by (simp add: IOVecLeaf_get_leafmeta_def)
  with leaf_stats_min[of xs "leaf_header0 sid prev fan"] leaf_stats_max[of xs "leaf_header0 sid prev fan"]
    leaf_stats_ends[OF assms(4), of "leaf_header0 sid prev fan"]
    leaf_length_bound[OF v] show ?thesis
    by (intro exI[of _ ?h]) (simp add: leaf_stats_count leaf_stats_sum)
qed

theorem leaf_header_summary_witness:
  "\<exists>l0 k l h. IOVecLeaf_new 42 7 3 = Some l0 \<and> leaf_append_list [(5, 1), (9, 4)] l0 = Some (k, l) \<and> k = 2 \<and>
     IOVecLeaf_get_leafmeta l = Some h \<and> sr_count h = 2 \<and> sr_begin h = 5 \<and> sr_end h = 9"
proof -
  from leaf_new_ok obtain l0 where l0: "IOVecLeaf_new 42 7 3 = Some l0" "leaf_view 42 7 3 [] l0" by blast
  from leaf_append_list_ok[OF l0(2), of "[(5, 1), (9, 4)]"] obtain k l where
    l: "leaf_append_list [(5, 1), (9, 4)] l0 = Some (k, l)" "k \<le> 2"
    "leaf_view 42 7 3 (take k [(5, 1), (9, 4)]) l" "k < 2 \<longrightarrow> leaf_full l" by auto
  have k: "k = 2" using leaf_full_length[OF l(3)] l(2,4) by (cases "k < 2") auto
  from leaf_header_summary[OF l0(1) l(1), of "[(5, 1), (9, 4)]"] k l0(1) l(1) show ?thesis by auto
qed

end
