(* ===== verification/NBSuper.thy ===== *)
theory NBSuper
  imports SubtreeRefs
begin

text \<open>
  \<open>IOVecSuperblock\<close> of \<^verbatim>\<open>storage/nbtree.cc\<close>: an inner node of the tree, a block with a
  \<open>SubtreeRef\<close> header followed by up to 32 references to children, and
  \<open>init_subtree_from_subtree\<close>, which summarises the children for the parent.  The lemmas
  follow a node from its creation through appends and the commit to the image on disk and
  back.
\<close>

subsection \<open>State\<close>

text \<open>The write position counts references; it only grows while it is below the fan-out.\<close>

record iovec_superblock =
  sb_block :: iovec_block
  sb_id :: param_id
  sb_write_pos :: nat
  sb_fanout_index :: u16
  sb_level :: u16
  sb_prev :: logic_addr
  sb_immutable :: bool

subsection \<open>Operations\<close>

definition zero_ref :: subtree_ref where
  "zero_ref = unpack_ref (replicate SUBTREE_REF_SIZE 0)"

definition IOVecSuperblock_new :: "param_id \<Rightarrow> logic_addr \<Rightarrow> u16 \<Rightarrow> u16 \<Rightarrow> iovec_superblock option" where
  "IOVecSuperblock_new id' prev fanout lvl =
     do {
       (n, b) \<leftarrow> IOVecBlock_append_chunk (pack_ref (zero_ref\<lparr>sr_type := INNER\<rparr>)) IOVecBlock_new;
       if prev = 0 then None
       else Some \<lparr>sb_block = b, sb_id = id', sb_write_pos = 0, sb_fanout_index = fanout, sb_level = lvl,
                  sb_prev = prev, sb_immutable = False\<rparr> }"

definition IOVecSuperblock_of_block :: "iovec_block \<Rightarrow> iovec_superblock option" where
  "IOVecSuperblock_of_block block =
     do {
       ref \<leftarrow> IOVecBlock_get_header block;
       if sr_type ref \<noteq> INNER \<or> sr_addr ref = 0 then None
       else Some \<lparr>sb_block = block, sb_id = sr_id ref, sb_write_pos = unat (sr_payload_size ref),
                  sb_fanout_index = sr_fanout_index ref, sb_level = sr_level ref, sb_prev = sr_addr ref,
                  sb_immutable = True\<rparr> }"

definition IOVecSuperblock_load :: "'s bstore \<Rightarrow> logic_addr \<Rightarrow> 's \<Rightarrow> iovec_superblock option" where
  "IOVecSuperblock_load B addr s =
     do { b \<leftarrow> read_iovec_block_from_bstore B addr s; IOVecSuperblock_of_block b }"

text \<open>The copy-on-write constructor.\<close>

definition IOVecSuperblock_copy ::
  "'s bstore \<Rightarrow> logic_addr \<Rightarrow> bool \<Rightarrow> 's \<Rightarrow> iovec_superblock option" where
  "IOVecSuperblock_copy B addr remove_last s =
     do {
       block \<leftarrow> read_iovec_block_from_bstore B addr s;
       ref \<leftarrow> IOVecBlock_get_header block;
       if sr_type ref \<noteq> INNER then None
       else do {
         let write_pos = unat (sr_payload_size ref);
         let write_pos = (if remove_last \<and> write_pos \<noteq> 0 then write_pos - 1 else write_pos);
         if sr_addr ref = 0 then None
         else do {
           b \<leftarrow> IOVecBlock_set_write_pos_and_shrink ((write_pos + 1) * SUBTREE_REF_SIZE)
                  (IOVecBlock_copy_from block IOVecBlock_new);
           Some \<lparr>sb_block = b, sb_id = sr_id ref, sb_write_pos = write_pos,
                 sb_fanout_index = sr_fanout_index ref, sb_level = sr_level ref, sb_prev = sr_addr ref,
                 sb_immutable = False\<rparr> } } }"

definition IOVecSuperblock_get_sblockmeta :: "iovec_superblock \<Rightarrow> subtree_ref option" where
  "IOVecSuperblock_get_sblockmeta n = IOVecBlock_get_header (sb_block n)"

definition IOVecSuperblock_nelements :: "iovec_superblock \<Rightarrow> nat" where
  "IOVecSuperblock_nelements n = sb_write_pos n"

definition IOVecSuperblock_get_level :: "iovec_superblock \<Rightarrow> u16" where
  "IOVecSuperblock_get_level n = sb_level n"

definition IOVecSuperblock_get_fanout :: "iovec_superblock \<Rightarrow> u16" where
  "IOVecSuperblock_get_fanout n = sb_fanout_index n"

definition IOVecSuperblock_get_id :: "iovec_superblock \<Rightarrow> param_id" where
  "IOVecSuperblock_get_id n = sb_id n"

definition IOVecSuperblock_get_prev_addr :: "iovec_superblock \<Rightarrow> logic_addr" where
  "IOVecSuperblock_get_prev_addr n = sb_prev n"

definition IOVecSuperblock_get_addr :: "iovec_superblock \<Rightarrow> logic_addr" where
  "IOVecSuperblock_get_addr n = IOVecBlock_get_addr (sb_block n)"

definition sb_update_header :: "(subtree_ref \<Rightarrow> subtree_ref) \<Rightarrow> iovec_superblock \<Rightarrow> iovec_superblock option" where
  "sb_update_header f n =
     do { h \<leftarrow> IOVecBlock_get_header (sb_block n);
          b \<leftarrow> IOVecBlock_set_header (f h) (sb_block n);
          Some (n\<lparr>sb_block := b\<rparr>) }"

definition IOVecSuperblock_set_prev_addr :: "logic_addr \<Rightarrow> iovec_superblock \<Rightarrow> iovec_superblock option" where
  "IOVecSuperblock_set_prev_addr addr n =
     (if addr = 0 then None else sb_update_header (\<lambda>h. h\<lparr>sr_addr := addr\<rparr>) (n\<lparr>sb_prev := addr\<rparr>))"

definition IOVecSuperblock_set_node_fanout :: "u16 \<Rightarrow> iovec_superblock \<Rightarrow> iovec_superblock option" where
  "IOVecSuperblock_set_node_fanout newfanout n =
     (if unat newfanout \<le> NBTREE_FANOUT
      then sb_update_header (\<lambda>h. h\<lparr>sr_fanout_index := newfanout\<rparr>) (n\<lparr>sb_fanout_index := newfanout\<rparr>)
      else None)"

definition IOVecSuperblock_is_full :: "iovec_superblock \<Rightarrow> bool" where
  "IOVecSuperblock_is_full n \<longleftrightarrow> NBTREE_FANOUT \<le> sb_write_pos n"

definition IOVecSuperblock_append :: "subtree_ref \<Rightarrow> iovec_superblock \<Rightarrow> (status \<times> iovec_superblock) option" where
  "IOVecSuperblock_append p n =
     (if IOVecSuperblock_is_full n then Some (kOverflow, n)
      else if sb_immutable n then Some (kBadData, n)
      else do {
        (bytes_written, b) \<leftarrow> IOVecBlock_append_chunk (pack_ref p) (sb_block n);
        if bytes_written = 0 then Some (kNoMemory, n\<lparr>sb_block := b\<rparr>)
        else do {
          n \<leftarrow> sb_update_header
                 (\<lambda>h. (if sb_write_pos n = 0 then h\<lparr>sr_begin := sr_begin p\<rparr> else h)\<lparr>sr_end := sr_end p\<rparr>)
                 (n\<lparr>sb_block := b\<rparr>);
          Some (kOk, n\<lparr>sb_write_pos := sb_write_pos n + 1\<rparr>) } })"

text \<open>The loop of \<open>read_all\<close> over the indices \<open>ix \<dots> ix + n - 1\<close>.\<close>

primrec sb_read_loop :: "nat \<Rightarrow> nat \<Rightarrow> iovec_block \<Rightarrow> (status \<times> subtree_ref list) option" where
  "sb_read_loop 0 ix b = Some (kOk, [])"
| "sb_read_loop (Suc n) ix b =
     do {
       (res, item) \<leftarrow> IOVecBlock_read_chunk (SUBTREE_REF_SIZE * (ix + 1)) SUBTREE_REF_SIZE b;
       if res = 0 then Some (kBadData, [])
       else do { (st, refs) \<leftarrow> sb_read_loop n (ix + 1) b; Some (st, unpack_ref item # refs) } }"

definition IOVecSuperblock_read_all :: "iovec_superblock \<Rightarrow> (status \<times> subtree_ref list) option" where
  "IOVecSuperblock_read_all n = sb_read_loop (sb_write_pos n) 0 (sb_block n)"

definition IOVecSuperblock_top :: "iovec_superblock \<Rightarrow> subtree_ref option option" where
  "IOVecSuperblock_top n =
     (if sb_write_pos n = 0 then Some None
      else do {
        (res, item) \<leftarrow> IOVecBlock_read_chunk (SUBTREE_REF_SIZE * sb_write_pos n) SUBTREE_REF_SIZE (sb_block n);
        Some (if res = 0 then None else Some (unpack_ref item)) })"

definition IOVecSuperblock_top_addr :: "iovec_superblock \<Rightarrow> logic_addr option option" where
  "IOVecSuperblock_top_addr n = map_option (map_option sr_addr) (IOVecSuperblock_top n)"

definition IOVecSuperblock_get_timestamps :: "iovec_superblock \<Rightarrow> (timestamp \<times> timestamp) option" where
  "IOVecSuperblock_get_timestamps n =
     map_option (\<lambda>h. (sr_begin h, sr_end h)) (IOVecBlock_get_header (sb_block n))"

text \<open>The loop of \<open>init_subtree_from_subtree\<close> keeps count and sum in the output and the extrema
  with their times in locals.\<close>

type_synonym extrema = "double_bits \<times> timestamp \<times> double_bits \<times> timestamp"

definition sb_fold_step :: "subtree_ref \<times> extrema \<Rightarrow> subtree_ref \<Rightarrow> subtree_ref \<times> extrema" where
  "sb_fold_step acc sref =
     (case acc of (backref, mn, mints, mx, maxts) \<Rightarrow>
        let backref = backref\<lparr>sr_count := sr_count backref + sr_count sref,
                              sr_sum := dbl_add (sr_sum backref) (sr_sum sref)\<rparr>;
            (mn, mints) = (if dbl_lt (sr_min sref) mn then (sr_min sref, sr_min_time sref) else (mn, mints));
            (mx, maxts) = (if dbl_lt mx (sr_max sref) then (sr_max sref, sr_max_time sref) else (mx, maxts))
        in (backref, mn, mints, mx, maxts))"

definition sb_summary :: "subtree_ref list \<Rightarrow> iovec_superblock \<Rightarrow> subtree_ref \<Rightarrow> subtree_ref" where
  "sb_summary refs node backref =
     (let backref = backref\<lparr>sr_begin := sr_begin (hd refs), sr_end := sr_end (last refs),
                            sr_first := sr_first (hd refs), sr_last := sr_last (last refs),
                            sr_count := 0, sr_sum := 0\<rparr>;
          (backref, mn, mints, mx, maxts) = foldl sb_fold_step (backref, dbl_max, 0, dbl_lowest, 0) refs
      in backref\<lparr>sr_min := mn, sr_max := mx, sr_min_time := mints, sr_max_time := maxts,
                 sr_id := IOVecSuperblock_get_id node, sr_level := IOVecSuperblock_get_level node,
                 sr_type := INNER, sr_version := FASTSTDB_VERSION,
                 sr_fanout_index := IOVecSuperblock_get_fanout node, sr_payload_size := 0\<rparr>)"

definition init_subtree_from_subtree ::
  "iovec_superblock \<Rightarrow> subtree_ref \<Rightarrow> (status \<times> subtree_ref) option" where
  "init_subtree_from_subtree node backref =
     do {
       (st, refs) \<leftarrow> IOVecSuperblock_read_all node;
       if \<not> IsOk st then Some (st, backref)
       else if refs = [] then None
       else Some (kOk, sb_summary refs node backref) }"

definition sb_seal_header :: "iovec_superblock \<Rightarrow> subtree_ref \<Rightarrow> subtree_ref" where
  "sb_seal_header n backref =
     backref\<lparr>sr_addr := sb_prev n, sr_payload_size := of_nat (sb_write_pos n),
             sr_fanout_index := sb_fanout_index n, sr_id := sb_id n, sr_level := sb_level n,
             sr_type := INNER, sr_version := FASTSTDB_VERSION\<rparr>"

definition IOVecSuperblock_commit ::
  "'s bstore \<Rightarrow> iovec_superblock \<Rightarrow> 's \<Rightarrow> ((status \<times> logic_addr) \<times> iovec_superblock \<times> 's) option" where
  "IOVecSuperblock_commit B n s =
     (if IOVecSuperblock_nelements n = 0 then None
      else if sb_immutable n then Some ((kBadData, EMPTY_ADDR), n, s)
      else do {
        backref \<leftarrow> IOVecBlock_get_header (sb_block n);
        (st, backref) \<leftarrow> init_subtree_from_subtree n backref;
        if \<not> IsOk st then Some ((st, EMPTY_ADDR), n, s)
        else do {
          let backref = sb_seal_header n backref;
          if \<not> unat (sr_payload_size backref) + SUBTREE_REF_SIZE < FASTSTDB_BLOCK_SIZE then None
          else do {
            n \<leftarrow> sb_update_header (\<lambda>_. backref) n;
            data \<leftarrow> IOVecBlock_get_data 0 (sb_block n);
            crc \<leftarrow> bs_checksum B (take (unat (sr_payload_size backref)) (drop SUBTREE_REF_SIZE data));
            n \<leftarrow> sb_update_header (\<lambda>h. h\<lparr>sr_checksum := crc\<rparr>) n;
            (r, b, s) \<leftarrow> bs_append B (sb_block n) s;
            Some (r, n\<lparr>sb_block := b\<rparr>, s) } } })"

subsection \<open>Reading the references\<close>

definition pack_refs :: "subtree_ref list \<Rightarrow> u8 list" where
  "pack_refs refs = concat (map pack_ref refs)"

lemma pack_refs_simps [simp]:
  "pack_refs [] = []" "pack_refs (r # refs) = pack_ref r @ pack_refs refs"
  "pack_refs (refs @ refs') = pack_refs refs @ pack_refs refs'"
  by (simp_all add: pack_refs_def)

lemma length_pack_refs [simp]: "length (pack_refs refs) = 110 * length refs"
  by (induction refs) auto

definition chunk_readable :: "nat \<Rightarrow> iovec_block \<Rightarrow> bool" where
  "chunk_readable m b \<longleftrightarrow> (\<forall>off n. n \<le> 1024 \<longrightarrow> off + n \<le> m \<longrightarrow>
     IOVecBlock_read_chunk off n b = Some (n, take n (drop off (ib_flat b))))"

lemma chunk_readable_alloc: "ib_alloc k b \<Longrightarrow> m div 1024 < k \<Longrightarrow> chunk_readable m b"
  unfolding chunk_readable_def
proof (intro allI impI)
  fix off n assume "ib_alloc k b" "m div 1024 < k" "n \<le> 1024" "off + n \<le> m"
  then show "IOVecBlock_read_chunk off n b = Some (n, take n (drop off (ib_flat b)))"
    using div_le_mono[of "off + n" m 1024] by (intro IOVecBlock_read_chunk_ok) auto
qed

lemma chunk_readable_disk: "length bs = 4096 \<Longrightarrow> chunk_readable 4096 (disk_block bs)"
  by (simp add: chunk_readable_def IOVecBlock_read_chunk_def single_chunk_def disk_block_readable(3))

lemma sb_read_loop_ok:
  "chunk_readable m b \<Longrightarrow> ib_flat b = h @ pack_refs refs @ z \<Longrightarrow> length h = 110 * (ix + 1) \<Longrightarrow>
   110 * (ix + 1 + length refs) \<le> m \<Longrightarrow> sb_read_loop (length refs) ix b = Some (kOk, refs)"
proof (induction refs arbitrary: h ix)
  case (Cons r refs)
  have "IOVecBlock_read_chunk (110 * (ix + 1)) 110 b = Some (110, take 110 (drop (110 * (ix + 1)) (ib_flat b)))"
    using Cons.prems(1,4) by (simp add: chunk_readable_def)
  also have "take 110 (drop (110 * (ix + 1)) (ib_flat b)) = pack_ref r"
    unfolding Cons.prems(2) Cons.prems(3)[symmetric] by simp
  finally have "IOVecBlock_read_chunk (110 * (ix + 1)) 110 b = Some (110, pack_ref r)" .
  moreover have "sb_read_loop (length refs) (ix + 1) b = Some (kOk, refs)"
    by (rule Cons.IH[of "h @ pack_ref r"]) (use Cons.prems in simp_all)
  ultimately show ?case by simp
qed simp

subsection \<open>A node being filled\<close>

definition sb_view ::
  "param_id \<Rightarrow> logic_addr \<Rightarrow> u16 \<Rightarrow> u16 \<Rightarrow> subtree_ref list \<Rightarrow> iovec_superblock \<Rightarrow> bool" where
  "sb_view sid prev fan lvl refs n \<longleftrightarrow> sb_id n = sid \<and> sb_prev n = prev \<and> sb_fanout_index n = fan \<and>
     sb_level n = lvl \<and> \<not> sb_immutable n \<and> sb_write_pos n = length refs \<and> length refs \<le> 32 \<and>
     (\<exists>k h. ib_alloc k (sb_block n) \<and> ib_pos (sb_block n) div 1024 < k \<and>
        ib_bytes (sb_block n) = pack_ref h @ pack_refs refs)"

lemma alloc_inv: "ib_alloc k b \<Longrightarrow> ib_pos b div 1024 < k \<Longrightarrow> ib_inv b"
proof -
  assume a: "ib_alloc k b" "ib_pos b div 1024 < k"
  then have "ib_pos b \<le> k * 1024" by (metis div_less_iff_less_mult less_imp_le zero_less_numeral)
  with a(1) show ?thesis by (auto simp: ib_inv_def)
qed

lemma ib_flat_bytes: "ib_bytes b = xs \<Longrightarrow> \<exists>z. ib_flat b = xs @ z"
  unfolding ib_bytes_def by (metis append_take_drop_id)

lemma set_header_alloc:
  assumes "ib_alloc k b" and "ib_pos b div 1024 < k" and "ib_bytes b = h @ z" and "length h = 110"
  shows "\<exists>b'. IOVecBlock_set_header r b = Some b' \<and> ib_alloc k b' \<and> ib_pos b' = ib_pos b \<and>
     ib_bytes b' = pack_ref r @ z \<and> ib_flat b' = pack_ref r @ drop 110 (ib_flat b)"
proof -
  from set_header_ok[OF alloc_inv[OF assms(1,2)] assms(3,4), of r] obtain b' where
    b': "IOVecBlock_set_header r b = Some b'" "ib_bytes b' = pack_ref r @ z"
    "ib_flat b' = pack_ref r @ drop 110 (ib_flat b)" "ib_pos b' = ib_pos b" by blast
  have "0 < k" using assms(2) by simp
  from ib_store_ok[OF assms(1) this, of 0 "pack_ref r"] b'(1) have "ib_alloc k b'"
    by (auto simp: IOVecBlock_set_header_def)
  with b' show ?thesis by blast
qed

lemma sb_update_header_ok:
  assumes "ib_alloc k (sb_block n)" and "ib_pos (sb_block n) div 1024 < k" and "ib_bytes (sb_block n) = pack_ref h @ z"
  shows "\<exists>b'. sb_update_header f n = Some (n\<lparr>sb_block := b'\<rparr>) \<and> ib_alloc k b' \<and> ib_pos b' = ib_pos (sb_block n) \<and>
     ib_bytes b' = pack_ref (f h) @ z \<and> ib_flat b' = pack_ref (f h) @ drop 110 (ib_flat (sb_block n))"
proof -
  have "IOVecBlock_get_header (sb_block n) = Some h"
    by (rule header_of_bytes[OF ib_inv_readable[OF alloc_inv[OF assms(1,2)]] assms(3)])
  with set_header_alloc[OF assms, of "f h"] show ?thesis by (auto simp: sb_update_header_def)
qed

lemma append_chunk_pack:
  assumes "ib_inv b" and "ib_pos b + 110 < 4096"
  shows "\<exists>b' k. IOVecBlock_append_chunk (pack_ref p) b = Some (ib_pos b + 110, b') \<and> ib_alloc k b' \<and>
     ib_pos b' div 1024 < k \<and> ib_bytes b' = ib_bytes b @ pack_ref p \<and> ib_pos b' = ib_pos b + 110"
  using IOVecBlock_append_chunk_ok[OF assms(1), of "pack_ref p"] assms(2) ib_wrote_bytes[OF assms(1)]
  by (fastforce simp: ib_wrote_def)

lemma sb_new_ok:
  assumes "prev \<noteq> 0"
  shows "\<exists>n. IOVecSuperblock_new sid prev fan lvl = Some n \<and> sb_view sid prev fan lvl [] n"
proof -
  have "ib_pos IOVecBlock_new = 0" "ib_bytes IOVecBlock_new = []" by (simp_all add: IOVecBlock_new_def ib_bytes_def)
  with append_chunk_pack[OF ib_inv_new, of "zero_ref\<lparr>sr_type := INNER\<rparr>"] obtain b k where
    "IOVecBlock_append_chunk (pack_ref (zero_ref\<lparr>sr_type := INNER\<rparr>)) IOVecBlock_new = Some (110, b)"
    "ib_alloc k b" "ib_pos b div 1024 < k" "ib_bytes b = pack_ref (zero_ref\<lparr>sr_type := INNER\<rparr>)" by auto
  with assms show ?thesis by (auto simp: IOVecSuperblock_new_def sb_view_def)
qed

lemma sb_append_ok:
  assumes v: "sb_view sid prev fan lvl refs n" and len: "length refs < 32"
  shows "\<exists>n'. IOVecSuperblock_append p n = Some (kOk, n') \<and> sb_view sid prev fan lvl (refs @ [p]) n'"
proof -
  from v obtain k h where k: "ib_alloc k (sb_block n)" "ib_pos (sb_block n) div 1024 < k"
    "ib_bytes (sb_block n) = pack_ref h @ pack_refs refs" by (auto simp: sb_view_def)
  have inv: "ib_inv (sb_block n)" by (rule alloc_inv[OF k(1,2)])
  have pos: "ib_pos (sb_block n) = 110 * (length refs + 1)"
    using ib_bytes_length[OF ib_inv_readable[OF inv]] k(3) by simp
  from append_chunk_pack[OF inv, of p] pos len obtain b k' where
    b: "IOVecBlock_append_chunk (pack_ref p) (sb_block n) = Some (ib_pos (sb_block n) + 110, b)"
    "ib_alloc k' b" "ib_pos b div 1024 < k'" "ib_bytes b = pack_ref h @ pack_refs refs @ pack_ref p"
    using k(3) by auto
  let ?f = "\<lambda>h. (if sb_write_pos n = 0 then h\<lparr>sr_begin := sr_begin p\<rparr> else h)\<lparr>sr_end := sr_end p\<rparr>"
  from sb_update_header_ok[of k' "n\<lparr>sb_block := b\<rparr>" h "pack_refs refs @ pack_ref p" ?f] b(2-4) obtain b' where
    b': "sb_update_header ?f (n\<lparr>sb_block := b\<rparr>) = Some (n\<lparr>sb_block := b'\<rparr>)" "ib_alloc k' b'" "ib_pos b' = ib_pos b"
    "ib_bytes b' = pack_ref (?f h) @ pack_refs refs @ pack_ref p" by auto
  have "IOVecSuperblock_append p n = Some (kOk, n\<lparr>sb_block := b', sb_write_pos := length refs + 1\<rparr>)"
    using v len b(1) b'(1)
    by (simp add: IOVecSuperblock_append_def IOVecSuperblock_is_full_def NBTREE_FANOUT_def sb_view_def)
  moreover have "sb_view sid prev fan lvl (refs @ [p]) (n\<lparr>sb_block := b', sb_write_pos := length refs + 1\<rparr>)"
    using v len b(3) b' by (auto simp: sb_view_def)
  ultimately show ?thesis by blast
qed

lemma sb_append_full:
  "sb_view sid prev fan lvl refs n \<Longrightarrow> length refs = 32 \<Longrightarrow> IOVecSuperblock_append p n = Some (kOverflow, n)"
  by (simp add: IOVecSuperblock_append_def IOVecSuperblock_is_full_def NBTREE_FANOUT_def sb_view_def)

lemma sb_read_all_view:
  assumes v: "sb_view sid prev fan lvl refs n"
  shows "IOVecSuperblock_read_all n = Some (kOk, refs)"
proof -
  from v obtain k h where k: "ib_alloc k (sb_block n)" "ib_pos (sb_block n) div 1024 < k"
    "ib_bytes (sb_block n) = pack_ref h @ pack_refs refs" by (auto simp: sb_view_def)
  have pos: "ib_pos (sb_block n) = 110 * (length refs + 1)"
    using ib_bytes_length[OF ib_inv_readable[OF alloc_inv[OF k(1,2)]]] k(3) by simp
  from ib_flat_bytes[OF k(3)] obtain z where "ib_flat (sb_block n) = pack_ref h @ pack_refs refs @ z" by auto
  from sb_read_loop_ok[OF chunk_readable_alloc[OF k(1,2)] this, of 0] pos v show ?thesis
    by (simp add: IOVecSuperblock_read_all_def sb_view_def)
qed

subsection \<open>The summary of the children\<close>

definition min_step :: "double_bits \<times> timestamp \<Rightarrow> subtree_ref \<Rightarrow> double_bits \<times> timestamp" where
  "min_step m r = (if dbl_lt (sr_min r) (fst m) then (sr_min r, sr_min_time r) else m)"

definition max_step :: "double_bits \<times> timestamp \<Rightarrow> subtree_ref \<Rightarrow> double_bits \<times> timestamp" where
  "max_step m r = (if dbl_lt (fst m) (sr_max r) then (sr_max r, sr_max_time r) else m)"

definition sb_ref :: "param_id \<Rightarrow> u16 \<Rightarrow> u16 \<Rightarrow> subtree_ref list \<Rightarrow> subtree_ref" where
  "sb_ref sid fan lvl refs =
     (let mn = foldl min_step (dbl_max, 0) refs; mx = foldl max_step (dbl_lowest, 0) refs
      in \<lparr>sr_count = sum_list (map sr_count refs), sr_id = sid, sr_begin = sr_begin (hd refs),
          sr_end = sr_end (last refs), sr_addr = EMPTY_ADDR, sr_min = fst mn, sr_min_time = snd mn,
          sr_max = fst mx, sr_max_time = snd mx, sr_sum = foldl dbl_add 0 (map sr_sum refs),
          sr_first = sr_first (hd refs), sr_last = sr_last (last refs), sr_type = INNER, sr_level = lvl,
          sr_payload_size = 0, sr_version = FASTSTDB_VERSION, sr_fanout_index = fan, sr_checksum = 0\<rparr>)"

lemma sb_fold_step_eq:
  "sb_fold_step (b, mn, tn, mx) r =
     (b\<lparr>sr_count := sr_count b + sr_count r, sr_sum := dbl_add (sr_sum b) (sr_sum r)\<rparr>,
      fst (min_step (mn, tn) r), snd (min_step (mn, tn) r), max_step mx r)"
  by (cases mx) (simp add: sb_fold_step_def min_step_def max_step_def)

lemma sb_fold_closed:
  "foldl sb_fold_step (b, mn, tn, mx) refs =
     (b\<lparr>sr_count := sr_count b + sum_list (map sr_count refs), sr_sum := foldl dbl_add (sr_sum b) (map sr_sum refs)\<rparr>,
      fst (foldl min_step (mn, tn) refs), snd (foldl min_step (mn, tn) refs), foldl max_step mx refs)"
  by (induction refs arbitrary: b mn tn mx) (simp_all add: sb_fold_step_eq add.assoc)

lemma sb_summary_core: "ref_core (sb_summary refs n b) = sb_ref (sb_id n) (sb_fanout_index n) (sb_level n) refs"
  by (cases b) (simp add: sb_summary_def sb_fold_closed sb_ref_def ref_core_def Let_def split_beta
      IOVecSuperblock_get_id_def IOVecSuperblock_get_level_def IOVecSuperblock_get_fanout_def)

lemma sb_summary_rest:
  "sr_checksum (sb_summary refs n b) = sr_checksum b" "sr_addr (sb_summary refs n b) = sr_addr b"
  "sr_payload_size (sb_summary refs n b) = 0"
  by (simp_all add: sb_summary_def sb_fold_closed Let_def split_beta)

lemma sb_summary_init:
  "sb_summary refs n INIT_SUBTREE_REF = sb_ref (sb_id n) (sb_fanout_index n) (sb_level n) refs"
proof -
  have "ref_core (sb_summary refs n INIT_SUBTREE_REF) = sb_summary refs n INIT_SUBTREE_REF"
    by (simp add: ref_core_def sb_summary_rest INIT_SUBTREE_REF_def)
  then show ?thesis by (simp add: sb_summary_core)
qed

lemma sb_seal_core:
  "ref_core ((sb_seal_header n (sb_summary refs n b))\<lparr>sr_checksum := c\<rparr>) =
     sb_ref (sb_id n) (sb_fanout_index n) (sb_level n) refs"
  by (cases b) (simp add: sb_seal_header_def sb_summary_def sb_fold_closed sb_ref_def ref_core_def Let_def split_beta
      IOVecSuperblock_get_id_def IOVecSuperblock_get_level_def IOVecSuperblock_get_fanout_def)

lemma init_subtree_ok:
  assumes "sb_view sid prev fan lvl refs n" and "refs \<noteq> []"
  shows "init_subtree_from_subtree n b = Some (kOk, sb_summary refs n b)"
  using sb_read_all_view[OF assms(1)] assms(2) by (simp add: init_subtree_from_subtree_def IsOk_def)

subsection \<open>Commit and the image on disk\<close>

definition sb_image ::
  "param_id \<Rightarrow> logic_addr \<Rightarrow> u16 \<Rightarrow> u16 \<Rightarrow> subtree_ref list \<Rightarrow> u8 list \<Rightarrow> bool" where
  "sb_image sid prev fan lvl refs bs \<longleftrightarrow> refs \<noteq> [] \<and> length refs \<le> 32 \<and>
     (\<exists>r z. node_image r (pack_refs refs @ z) bs \<and> sr_addr r = prev \<and>
        unat (sr_payload_size r) = length refs \<and> ref_core r = sb_ref sid fan lvl refs)"

lemma sb_seal_simps [simp]:
  "sr_payload_size (sb_seal_header n h) = of_nat (sb_write_pos n)" "sr_addr (sb_seal_header n h) = sb_prev n"
  by (simp_all add: sb_seal_header_def)

context block_store
begin

lemma sb_commit_seal:
  assumes v: "sb_view sid prev fan lvl refs n" and ne: "refs \<noteq> []"
  shows "\<exists>b. ib_inv b \<and> sb_image sid prev fan lvl refs (ib_flat b) \<and>
     (\<forall>x. init_subtree_from_subtree (n\<lparr>sb_block := IOVecBlock_set_addr x b\<rparr>) INIT_SUBTREE_REF =
        Some (kOk, sb_ref sid fan lvl refs)) \<and>
     (\<forall>s. IOVecSuperblock_commit B n s = do { (r, b', s) \<leftarrow> bs_append B b s; Some (r, n\<lparr>sb_block := b'\<rparr>, s) })"
proof -
  from v obtain k h where k: "ib_alloc k (sb_block n)" "ib_pos (sb_block n) div 1024 < k"
    "ib_bytes (sb_block n) = pack_ref h @ pack_refs refs" by (auto simp: sb_view_def)
  have n: "sb_write_pos n = length refs" "length refs \<le> 32" "sb_id n = sid" "sb_prev n = prev"
    "sb_fanout_index n = fan" "sb_level n = lvl" "\<not> sb_immutable n" using v by (auto simp: sb_view_def)
  have u: "unat (of_nat (length refs) :: u16) = length refs"
    using n(2) by (simp add: unat_of_nat take_bit_nat_eq_self)
  have hdr: "IOVecBlock_get_header (sb_block n) = Some h"
    by (rule header_of_bytes[OF ib_inv_readable[OF alloc_inv[OF k(1,2)]] k(3)])
  let ?h1 = "sb_seal_header n (sb_summary refs n h)"
  from sb_update_header_ok[OF k, of "\<lambda>_. ?h1"] obtain b1 where
    b1: "sb_update_header (\<lambda>_. ?h1) n = Some (n\<lparr>sb_block := b1\<rparr>)" "ib_alloc k b1" "ib_pos b1 = ib_pos (sb_block n)"
    "ib_bytes b1 = pack_ref ?h1 @ pack_refs refs" by blast
  have k0: "0 < k" using k(2) by simp
  obtain z where z: "ib_flat b1 = pack_ref ?h1 @ pack_refs refs @ z" using ib_flat_bytes[OF b1(4)] by auto
  have fl: "take (length refs) (drop 110 (ib_data b1 ! 0)) = take (length refs) (drop 110 (ib_flat b1))"
    using ib_flat_drop[OF b1(2) k0, of 110] ib_alloc_full[OF b1(2) k0] n(2) by simp
  let ?crc = "crc32c_ref 0 (take (length refs) (pack_refs refs))"
  have crc: "bs_checksum B (take (length refs) (drop 110 (ib_data b1 ! 0))) = Some ?crc"
    unfolding fl z by (simp add: checksum_ok)
  from sb_update_header_ok[of k "n\<lparr>sb_block := b1\<rparr>" ?h1 "pack_refs refs" "\<lambda>h. h\<lparr>sr_checksum := ?crc\<rparr>"]
  obtain b2 where
    b2: "sb_update_header (\<lambda>h. h\<lparr>sr_checksum := ?crc\<rparr>) (n\<lparr>sb_block := b1\<rparr>) = Some (n\<lparr>sb_block := b2\<rparr>)" "ib_alloc k b2"
    "ib_pos b2 = ib_pos b1" "ib_bytes b2 = pack_ref (?h1\<lparr>sr_checksum := ?crc\<rparr>) @ pack_refs refs"
    "ib_flat b2 = pack_ref (?h1\<lparr>sr_checksum := ?crc\<rparr>) @ pack_refs refs @ z" using b1(2-4) k(2) z by auto
  have inv: "ib_inv b2" using alloc_inv[OF b2(2)] b2(3) b1(3) k(2) by simp
  have d0: "IOVecBlock_get_data 0 b1 = Some (ib_data b1 ! 0)"
    using b1(2) by (simp add: IOVecBlock_get_data_def ib_alloc_def)
  have com: "IOVecSuperblock_commit B n s = do { (r, b', s) \<leftarrow> bs_append B b2 s; Some (r, n\<lparr>sb_block := b'\<rparr>, s) }" for s
    using n ne u hdr init_subtree_ok[OF v ne] b1(1) b2(1) crc d0
    by (simp add: IOVecSuperblock_commit_def IOVecSuperblock_nelements_def IsOk_def Let_def)
  have "node_image (?h1\<lparr>sr_checksum := ?crc\<rparr>) (pack_refs refs @ z) (ib_flat b2)"
    using b2(5) n(1) u ib_inv_flat_length[OF inv] by (simp add: node_image_def)
  then have img: "sb_image sid prev fan lvl refs (ib_flat b2)"
    using ne n u sb_seal_core[where n = n and refs = refs and b = h and c = ?crc] unfolding sb_image_def by fastforce
  have "init_subtree_from_subtree (n\<lparr>sb_block := IOVecBlock_set_addr x b2\<rparr>) INIT_SUBTREE_REF =
      Some (kOk, sb_ref sid fan lvl refs)" for x
  proof -
    have "sb_view sid prev fan lvl refs (n\<lparr>sb_block := IOVecBlock_set_addr x b2\<rparr>)"
      using n b2(2-4) b1(3) k(2)
      by (auto simp: sb_view_def ib_alloc_def ib_bytes_def ib_flat_def single_chunk_def IOVecBlock_set_addr_def)
    from init_subtree_ok[OF this ne, of INIT_SUBTREE_REF] show ?thesis using n by (simp add: sb_summary_init)
  qed
  with inv img com show ?thesis by blast
qed

lemma sb_image_load:
  assumes "sb_image sid prev fan lvl refs bs" and "room n s" and "look s a = Some bs" and "prev \<noteq> 0"
  shows "\<exists>nd. read_and_check B a s = Some (kOk, Some (disk_block bs)) \<and> IOVecSuperblock_load B a s = Some nd \<and>
     IOVecSuperblock_of_block (disk_block bs) = Some nd \<and>
     IOVecSuperblock_read_all nd = Some (kOk, refs) \<and> sb_prev nd = prev \<and> sb_fanout_index nd = fan \<and>
     sb_level nd = lvl \<and> sb_id nd = sid"
proof -
  from assms(1) obtain r z where
    r: "node_image r (pack_refs refs @ z) bs" "sr_addr r = prev" "unat (sr_payload_size r) = length refs"
    "ref_core r = sb_ref sid fan lvl refs" by (auto simp: sb_image_def)
  have lr: "length refs \<le> 32" using assms(1) by (simp add: sb_image_def)
  from r(1) obtain y where y: "length bs = 4096" "bs = pack_ref r @ pack_refs refs @ z @ y" by (auto simp: node_image_def)
  have "sr_type (ref_core r) = INNER" "sr_id (ref_core r) = sid" "sr_level (ref_core r) = lvl"
    "sr_fanout_index (ref_core r) = fan" unfolding r(4) by (simp_all add: sb_ref_def Let_def)
  then have f: "sr_type r = INNER" "sr_id r = sid" "sr_level r = lvl" "sr_fanout_index r = fan"
    by (simp_all add: ref_core_def)
  have "ib_flat (disk_block bs) = pack_ref r @ pack_refs refs @ z @ y"
    using disk_block_readable(3)[OF y(1)] y(2) by simp
  from sb_read_loop_ok[OF chunk_readable_disk[OF y(1)] this, of 0] lr
  have "sb_read_loop (length refs) 0 (disk_block bs) = Some (kOk, refs)" by simp
  with f r(2,3) image_header(1)[OF r(1)] read_image[OF assms(2,3) r(1)] assms(4) show ?thesis
    by (simp add: IOVecSuperblock_load_def IOVecSuperblock_of_block_def IOVecSuperblock_read_all_def)
qed

lemma sb_copy_ok:
  assumes img: "sb_image sid prev fan lvl refs bs" and "room n s" and "look s a = Some bs" and "prev \<noteq> 0"
  shows "\<exists>nd. IOVecSuperblock_copy B a False s = Some nd \<and> sb_view sid prev fan lvl refs nd"
proof -
  from img obtain r z where
    r: "node_image r (pack_refs refs @ z) bs" "sr_addr r = prev" "unat (sr_payload_size r) = length refs"
    "ref_core r = sb_ref sid fan lvl refs" by (auto simp: sb_image_def)
  have lr: "length refs \<le> 32" using img by (simp add: sb_image_def)
  from r(1) obtain y where y: "length bs = 4096" "bs = pack_ref r @ pack_refs refs @ z @ y" by (auto simp: node_image_def)
  have f: "sr_type r = INNER" "sr_id r = sid" "sr_level r = lvl" "sr_fanout_index r = fan"
    using arg_cong[OF r(4), of sr_type] arg_cong[OF r(4), of sr_id] arg_cong[OF r(4), of sr_level]
      arg_cong[OF r(4), of sr_fanout_index] by (simp_all add: sb_ref_def Let_def ref_core_def)
  have sc: "single_chunk (disk_block bs)" using y(1) by (simp add: single_chunk_def)
  let ?b = "IOVecBlock_copy_from (disk_block bs) IOVecBlock_new" and ?tp = "(length refs + 1) * 110"
  note c = copy_from_single[OF sc, of IOVecBlock_new]
  have tp: "?tp < 4096" using lr by simp
  from shrink_ok[OF c(1) _ tp] tp obtain b where
    b: "IOVecBlock_set_write_pos_and_shrink ?tp ?b = Some b" "ib_alloc (min 4 (Suc (?tp div 1024))) b" "ib_pos b = ?tp"
    "\<forall>i < 4. i \<le> ?tp div 1024 \<longrightarrow> ib_data b ! i = ib_data ?b ! i" by auto
  have "?tp div 1024 < 4" using tp by simp
  then have k: "ib_alloc (Suc (?tp div 1024)) b" "ib_pos b div 1024 < Suc (?tp div 1024)" using b(2,3) by simp_all
  have "take ?tp (ib_flat b) = take ?tp (ib_flat ?b)"
  proof (rule nth_equalityI)
    show "length (take ?tp (ib_flat b)) = length (take ?tp (ib_flat ?b))"
      using ib_flat_length[OF b(2)] ib_flat_length[OF c(1)] by simp
    fix i assume "i < length (take ?tp (ib_flat b))"
    then have i: "i < ?tp" by simp
    then have "i div 1024 \<le> ?tp div 1024" "i div 1024 < 4" using tp by (auto intro: div_le_mono)
    with b(4) i tp show "take ?tp (ib_flat b) ! i = take ?tp (ib_flat ?b) ! i"
      using ib_flat_nth[OF k(1), of i] ib_flat_nth[OF c(1), of i] by simp
  qed
  moreover have "ib_flat ?b = bs" using c(2) disk_block_readable(3)[OF y(1)] by simp
  ultimately have "ib_bytes b = pack_ref r @ pack_refs refs"
    unfolding ib_bytes_def b(3) using y(2) length_pack_ref[of r] length_pack_refs[of refs] by simp
  moreover have "IOVecSuperblock_copy B a False s = Some \<lparr>sb_block = b, sb_id = sid, sb_write_pos = length refs,
      sb_fanout_index = fan, sb_level = lvl, sb_prev = prev, sb_immutable = False\<rparr>"
    using b(1) f r(2,3) image_header(1)[OF r(1)] read_image[OF assms(2,3) r(1)] assms(4)
    by (simp add: IOVecSuperblock_copy_def)
  ultimately show ?thesis using k lr by (auto simp: sb_view_def)
qed

end

context durable_store
begin

lemma sb_commit_ok:
  assumes "sb_view sid prev fan lvl refs n" and "refs \<noteq> []" and "room (Suc m) s"
  shows "\<exists>addr n' s' bs. IOVecSuperblock_commit B n s = Some ((kOk, addr), n', s') \<and> room m s' \<and>
     addr \<noteq> EMPTY_ADDR \<and> (addr = 0 \<longrightarrow> look s = Map.empty) \<and> look s addr = None \<and>
     look s' = (look s)(addr \<mapsto> bs) \<and> sb_image sid prev fan lvl refs bs \<and>
     init_subtree_from_subtree n' INIT_SUBTREE_REF = Some (kOk, sb_ref sid fan lvl refs)"
proof -
  from sb_commit_seal[OF assms(1,2)] obtain b where
    b: "ib_inv b" "sb_image sid prev fan lvl refs (ib_flat b)"
    "\<And>x. init_subtree_from_subtree (n\<lparr>sb_block := IOVecBlock_set_addr x b\<rparr>) INIT_SUBTREE_REF = Some (kOk, sb_ref sid fan lvl refs)"
    "IOVecSuperblock_commit B n s = do { (r, b', s) \<leftarrow> bs_append B b s; Some (r, n\<lparr>sb_block := b'\<rparr>, s) }" by blast
  from append_look[OF assms(3) b(1)] obtain addr x s' where
    "bs_append B b s = Some ((kOk, addr), IOVecBlock_set_addr x b, s')" "room m s'"
    "addr \<noteq> EMPTY_ADDR" "addr = 0 \<longrightarrow> look s = Map.empty" "look s addr = None"
    "look s' = (look s)(addr \<mapsto> ib_flat b)" by blast
  with b(2-4) show ?thesis by auto
qed

end

end
