(* ===== verification/NBExtents.thy ===== *)
theory NBExtents
  imports NBLeaf NBSuper
begin

text \<open>
  The write path of the tree, \<^verbatim>\<open>storage/nbtree.cc\<close>: \<open>NBTreeLeafExtent\<close>, \<open>NBTreeSBlockExtent\<close> and
  the parts of \<open>NBTreeExtentsList\<close> that append and close.  The extents are the rightmost path of
  the tree, one node in memory per level: a full node is committed to the block store and a
  reference to it goes to the next level, which may be full in turn.  An extent reaches the list
  through a back pointer; in the model it is named by its index, and the \<open>append\<close> of the list
  that it calls is an argument, tied by the recursion of \<open>NBTreeExtentsList_append_ref\<close>.
\<close>

subsection \<open>State\<close>

record leaf_extent =
  le_id :: param_id
  le_last :: logic_addr
  le_leaf :: iovec_leaf
  le_fanout_index :: u16

record sblock_extent =
  se_curr :: iovec_superblock
  se_id :: param_id
  se_last :: logic_addr
  se_fanout_index :: u16
  se_level :: u16
  se_killed :: bool

datatype extent = LeafExt leaf_extent | SBlockExt sblock_extent

datatype extent_status = ExtOK | ExtNEW | ExtKILLED_BY_RETENTION

text \<open>\<open>write_count_\<close> counts the writes of one process.\<close>

record nbtree =
  nt_extents :: "extent list"
  nt_id :: param_id
  nt_last :: timestamp
  nt_rescue :: "logic_addr list"
  nt_initialized :: bool
  nt_write_count :: nat

datatype append_result = OK | OK_FLUSH_NEEDED | FAIL_LATE_WRITE | FAIL_BAD_ID | FAIL_BAD_VALUE

type_synonym 's tree_state = "nbtree \<times> 's"

definition nt_set_extent :: "nat \<Rightarrow> extent \<Rightarrow> nbtree \<Rightarrow> nbtree" where
  "nt_set_extent ix e t = t\<lparr>nt_extents := (nt_extents t)[ix := e]\<rparr>"

text \<open>The end of both \<open>commit\<close> methods: the position of the next node among its siblings.\<close>

definition next_sibling :: "u16 \<Rightarrow> logic_addr \<Rightarrow> u16 \<times> logic_addr" where
  "next_sibling fanout_index addr =
     (let f = fanout_index + 1 in if unat f = NBTREE_FANOUT then (0, EMPTY_ADDR) else (f, addr))"

subsection \<open>NBTreeLeafExtent\<close>

definition NBTreeLeafExtent_reset_leaf :: "leaf_extent \<Rightarrow> leaf_extent option" where
  "NBTreeLeafExtent_reset_leaf e =
     do { l \<leftarrow> IOVecLeaf_new (le_id e) (le_last e) (le_fanout_index e); Some (e\<lparr>le_leaf := l\<rparr>) }"

definition NBTreeLeafExtent_new :: "'s bstore \<Rightarrow> param_id \<Rightarrow> logic_addr \<Rightarrow> 's \<Rightarrow> leaf_extent option" where
  "NBTreeLeafExtent_new B id' prev s =
     do {
       (prev, fanout_index) \<leftarrow>
         (if prev \<noteq> EMPTY_ADDR then do {
            (st, block) \<leftarrow> read_and_check B prev s;
            if st = kUnavailable then Some (EMPTY_ADDR, 0)
            else if \<not> IsOk st then None
            else do {
              b \<leftarrow> block;
              psubtree \<leftarrow> IOVecBlock_get_header b;
              let f = sr_fanout_index psubtree + 1;
              Some (if unat f = NBTREE_FANOUT then (EMPTY_ADDR, 0) else (prev, f)) } }
          else Some (prev, 0));
       l \<leftarrow> IOVecLeaf_new id' prev fanout_index;
       Some \<lparr>le_id = id', le_last = prev, le_leaf = l, le_fanout_index = fanout_index\<rparr> }"

definition NBTreeLeafExtent_status :: "leaf_extent \<Rightarrow> extent_status option" where
  "NBTreeLeafExtent_status e =
     do { n \<leftarrow> IOVecLeaf_nelements (le_leaf e); Some (if n = 0 then ExtNEW else ExtOK) }"

definition NBTreeLeafExtent_is_dirty :: "leaf_extent \<Rightarrow> bool option" where
  "NBTreeLeafExtent_is_dirty e = do { n \<leftarrow> IOVecLeaf_nelements (le_leaf e); Some (n \<noteq> 0) }"

definition NBTreeLeafExtent_update_prev_addr :: "logic_addr \<Rightarrow> leaf_extent \<Rightarrow> (status \<times> leaf_extent) option" where
  "NBTreeLeafExtent_update_prev_addr addr e =
     (if IOVecLeaf_get_addr (le_leaf e) = EMPTY_ADDR
      then do { l \<leftarrow> IOVecLeaf_set_prev_addr addr (le_leaf e); Some (kOk, e\<lparr>le_leaf := l\<rparr>) }
      else Some (kOk, e))"

definition NBTreeLeafExtent_update_fanout_index :: "u16 \<Rightarrow> leaf_extent \<Rightarrow> (status \<times> leaf_extent) option" where
  "NBTreeLeafExtent_update_fanout_index fanout_index e =
     (if IOVecLeaf_get_addr (le_leaf e) = EMPTY_ADDR
      then do {
        l \<leftarrow> IOVecLeaf_set_node_fanout fanout_index (le_leaf e);
        Some (kOk, e\<lparr>le_leaf := l, le_fanout_index := fanout_index\<rparr>) }
      else Some (kOk, e))"

definition NBTreeLeafExtent_get_prev_subtreeref ::
  "'s bstore \<Rightarrow> subtree_ref \<Rightarrow> leaf_extent \<Rightarrow> 's \<Rightarrow> (status \<times> subtree_ref) option" where
  "NBTreeLeafExtent_get_prev_subtreeref B payload e s =
     do {
       (st, block) \<leftarrow> read_and_check B (le_last e) s;
       if \<not> IsOk st then Some (st, payload)
       else do {
         b \<leftarrow> block;
         leaf \<leftarrow> IOVecLeaf_of_block b;
         (st, payload) \<leftarrow> init_subtree_from_leaf leaf payload;
         Some (st, payload\<lparr>sr_addr := le_last e\<rparr>) } }"

definition NBTreeLeafExtent_get_current_fanout_index :: "leaf_extent \<Rightarrow> u16" where
  "NBTreeLeafExtent_get_current_fanout_index e = IOVecLeaf_get_fanout (le_leaf e)"

text \<open>\<open>commit\<close>; the leaf extent is at index 0 of the list.\<close>

definition NBTreeLeafExtent_commit ::
  "'s bstore \<Rightarrow> (subtree_ref \<Rightarrow> 's tree_state \<Rightarrow> (bool \<times> 's tree_state) option) \<Rightarrow> bool \<Rightarrow>
   's tree_state \<Rightarrow> ((bool \<times> logic_addr) \<times> 's tree_state) option" where
  "NBTreeLeafExtent_commit B app final ts =
     (case ts of (t, s) \<Rightarrow> case nt_extents t of
        LeafExt e # _ \<Rightarrow> do {
          ((st, addr), l, s) \<leftarrow> IOVecLeaf_commit B (le_leaf e) s;
          if \<not> IsOk st then None
          else do {
            (st, payload) \<leftarrow> init_subtree_from_leaf l INIT_SUBTREE_REF;
            if \<not> IsOk st then None
            else do {
              let payload = payload\<lparr>sr_addr := addr\<rparr>;
              let next_level = unat (sr_level payload) + 1;
              (parent_saved, t, s) \<leftarrow>
                (if \<not> final \<or> next_level < length (nt_rescue t)
                 then app payload (nt_set_extent 0 (LeafExt (e\<lparr>le_leaf := l\<rparr>)) t, s)
                 else Some (False, nt_set_extent 0 (LeafExt (e\<lparr>le_leaf := l\<rparr>)) t, s));
              let (f, prev) = next_sibling (le_fanout_index e) addr;
              e \<leftarrow> NBTreeLeafExtent_reset_leaf (e\<lparr>le_fanout_index := f, le_last := prev\<rparr>);
              Some ((parent_saved, addr), nt_set_extent 0 (LeafExt e) t, s) } } }
      | _ \<Rightarrow> None)"

text \<open>\<open>append\<close> calls itself after the commit; the first argument bounds the depth of the stack.\<close>

primrec NBTreeLeafExtent_append ::
  "nat \<Rightarrow> 's bstore \<Rightarrow> (subtree_ref \<Rightarrow> 's tree_state \<Rightarrow> (bool \<times> 's tree_state) option) \<Rightarrow> timestamp \<Rightarrow>
   double_bits \<Rightarrow> 's tree_state \<Rightarrow> ((bool \<times> logic_addr) \<times> 's tree_state) option" where
  "NBTreeLeafExtent_append 0 B app ts value st = None"
| "NBTreeLeafExtent_append (Suc depth) B app ts value st =
     (case st of (t, s) \<Rightarrow> case nt_extents t of
        LeafExt e # _ \<Rightarrow> do {
          (status, l) \<leftarrow> IOVecLeaf_append ts value (le_leaf e);
          let t = nt_set_extent 0 (LeafExt (e\<lparr>le_leaf := l\<rparr>)) t;
          if status = kOverflow then do {
            (r, st) \<leftarrow> NBTreeLeafExtent_commit B app False (t, s);
            (_, st) \<leftarrow> NBTreeLeafExtent_append depth B app ts value st;
            Some (r, st) }
          else Some ((False, EMPTY_ADDR), t, s) }
      | _ \<Rightarrow> None)"

subsection \<open>NBTreeSBlockExtent\<close>

definition NBTreeSBlockExtent_new ::
  "'s bstore \<Rightarrow> param_id \<Rightarrow> logic_addr \<Rightarrow> u16 \<Rightarrow> 's \<Rightarrow> sblock_extent option" where
  "NBTreeSBlockExtent_new B id' addr level s =
     do {
       (addr, killed, fanout_index, prev) \<leftarrow>
         (if addr \<noteq> EMPTY_ADDR then do {
            (st, block) \<leftarrow> read_and_check B addr s;
            if st = kUnavailable then Some (EMPTY_ADDR, True, 0, EMPTY_ADDR)
            else if \<not> IsOk st then None
            else do {
              b \<leftarrow> block;
              psubtree \<leftarrow> IOVecBlock_get_header b;
              let f = sr_fanout_index psubtree + 1;
              Some (addr, False, if unat f = NBTREE_FANOUT then 0 else f, sr_addr psubtree) } }
          else Some (addr, False, 0, EMPTY_ADDR));
       curr' \<leftarrow> (if addr \<noteq> EMPTY_ADDR then IOVecSuperblock_copy B addr False s
                else IOVecSuperblock_new id' EMPTY_ADDR 0 level);
       Some \<lparr>se_curr = curr', se_id = id', se_last = prev, se_fanout_index = fanout_index, se_level = level,
             se_killed = killed\<rparr> }"

definition NBTreeSBlockExtent_status :: "sblock_extent \<Rightarrow> extent_status" where
  "NBTreeSBlockExtent_status e =
     (if se_killed e then ExtKILLED_BY_RETENTION
      else if IOVecSuperblock_nelements (se_curr e) = 0 then ExtNEW else ExtOK)"

definition NBTreeSBlockExtent_is_dirty :: "sblock_extent \<Rightarrow> bool" where
  "NBTreeSBlockExtent_is_dirty e \<longleftrightarrow> IOVecSuperblock_nelements (se_curr e) \<noteq> 0"

definition NBTreeSBlockExtent_update_prev_addr ::
  "logic_addr \<Rightarrow> sblock_extent \<Rightarrow> (status \<times> sblock_extent) option" where
  "NBTreeSBlockExtent_update_prev_addr addr e =
     (if IOVecSuperblock_get_addr (se_curr e) = EMPTY_ADDR
      then do { n \<leftarrow> IOVecSuperblock_set_prev_addr addr (se_curr e); Some (kOk, e\<lparr>se_curr := n\<rparr>) }
      else Some (kEAccess, e))"

definition NBTreeSBlockExtent_update_fanout_index ::
  "u16 \<Rightarrow> sblock_extent \<Rightarrow> (status \<times> sblock_extent) option" where
  "NBTreeSBlockExtent_update_fanout_index fanout_index e =
     (if IOVecSuperblock_get_addr (se_curr e) = EMPTY_ADDR
      then do {
        n \<leftarrow> IOVecSuperblock_set_node_fanout fanout_index (se_curr e);
        Some (kOk, e\<lparr>se_curr := n, se_fanout_index := fanout_index\<rparr>) }
      else Some (kEAccess, e))"

definition NBTreeSBlockExtent_reset_subtree :: "sblock_extent \<Rightarrow> sblock_extent option" where
  "NBTreeSBlockExtent_reset_subtree e =
     do { n \<leftarrow> IOVecSuperblock_new (se_id e) (se_last e) (se_fanout_index e) (se_level e);
          Some (e\<lparr>se_curr := n\<rparr>) }"

definition NBTreeSBlockExtent_get_prev_addr :: "sblock_extent \<Rightarrow> logic_addr" where
  "NBTreeSBlockExtent_get_prev_addr e = IOVecSuperblock_get_prev_addr (se_curr e)"

definition NBTreeSBlockExtent_commit ::
  "'s bstore \<Rightarrow> (subtree_ref \<Rightarrow> 's tree_state \<Rightarrow> (bool \<times> 's tree_state) option) \<Rightarrow> bool \<Rightarrow> nat \<Rightarrow>
   's tree_state \<Rightarrow> ((bool \<times> logic_addr) \<times> 's tree_state) option" where
  "NBTreeSBlockExtent_commit B app final ix ts =
     (case ts of (t, s) \<Rightarrow> case at (nt_extents t) ix of
        Some (SBlockExt e) \<Rightarrow> do {
          ((st, addr), n, s) \<leftarrow> IOVecSuperblock_commit B (se_curr e) s;
          if \<not> IsOk st then None
          else do {
            (st, payload) \<leftarrow> init_subtree_from_subtree n INIT_SUBTREE_REF;
            if \<not> IsOk st then None
            else do {
              let payload = payload\<lparr>sr_addr := addr\<rparr>;
              let next_level = unat (sr_level payload) + 1;
              (parent_saved, t, s) \<leftarrow>
                (if \<not> final \<or> next_level < length (nt_rescue t)
                 then app payload (nt_set_extent ix (SBlockExt (e\<lparr>se_curr := n\<rparr>)) t, s)
                 else Some (False, nt_set_extent ix (SBlockExt (e\<lparr>se_curr := n\<rparr>)) t, s));
              let (f, prev) = next_sibling (se_fanout_index e) addr;
              e \<leftarrow> NBTreeSBlockExtent_reset_subtree (e\<lparr>se_fanout_index := f, se_last := prev\<rparr>);
              Some ((parent_saved, addr), nt_set_extent ix (SBlockExt e) t, s) } } }
      | _ \<Rightarrow> None)"

primrec NBTreeSBlockExtent_append ::
  "nat \<Rightarrow> 's bstore \<Rightarrow> (subtree_ref \<Rightarrow> 's tree_state \<Rightarrow> (bool \<times> 's tree_state) option) \<Rightarrow> nat \<Rightarrow>
   subtree_ref \<Rightarrow> 's tree_state \<Rightarrow> ((bool \<times> logic_addr) \<times> 's tree_state) option" where
  "NBTreeSBlockExtent_append 0 B app ix pl st = None"
| "NBTreeSBlockExtent_append (Suc depth) B app ix pl st =
     (case st of (t, s) \<Rightarrow> case at (nt_extents t) ix of
        Some (SBlockExt e) \<Rightarrow> do {
          (status, n) \<leftarrow> IOVecSuperblock_append pl (se_curr e);
          let t = nt_set_extent ix (SBlockExt (e\<lparr>se_curr := n\<rparr>)) t;
          if status = kOverflow then do {
            (r, st) \<leftarrow> NBTreeSBlockExtent_commit B app False ix (t, s);
            (_, st) \<leftarrow> NBTreeSBlockExtent_append depth B app ix pl st;
            Some (r, st) }
          else Some ((False, EMPTY_ADDR), t, s) }
      | _ \<Rightarrow> None)"

subsection \<open>NBTreeExtentsList\<close>

definition NBTreeExtentsList_new :: "param_id \<Rightarrow> logic_addr list \<Rightarrow> nbtree option" where
  "NBTreeExtentsList_new id' addresses =
     (if 65535 \<le> length addresses then None
      else Some \<lparr>nt_extents = [], nt_id = id', nt_last = 0, nt_rescue = addresses, nt_initialized = False,
                 nt_write_count = 0\<rparr>)"

text \<open>The virtual call \<open>root->append(pl)\<close>; a leaf extent logs an error and returns a
  value-initialised tuple.\<close>

definition extent_append_ref ::
  "'s bstore \<Rightarrow> (subtree_ref \<Rightarrow> 's tree_state \<Rightarrow> (bool \<times> 's tree_state) option) \<Rightarrow> nat \<Rightarrow>
   subtree_ref \<Rightarrow> 's tree_state \<Rightarrow> ((bool \<times> logic_addr) \<times> 's tree_state) option" where
  "extent_append_ref B app ix pl st =
     (case at (nt_extents (fst st)) ix of
        Some (LeafExt e) \<Rightarrow> Some ((False, 0), st)
      | Some (SBlockExt e) \<Rightarrow> NBTreeSBlockExtent_append 2 B app ix pl st
      | None \<Rightarrow> None)"

definition set_rescue :: "nat \<Rightarrow> logic_addr \<Rightarrow> nbtree \<Rightarrow> nbtree option" where
  "set_rescue lvl addr t =
     (if lvl < length (nt_rescue t) then Some (t\<lparr>nt_rescue := (nt_rescue t)[lvl := addr]\<rparr>)
      else if length (nt_rescue t) = lvl then Some (t\<lparr>nt_rescue := nt_rescue t @ [addr]\<rparr>)
      else None)"

text \<open>\<open>append(SubtreeRef const&)\<close>; the fuel bounds the number of levels that one call visits.\<close>

primrec NBTreeExtentsList_append_ref ::
  "nat \<Rightarrow> 's bstore \<Rightarrow> subtree_ref \<Rightarrow> 's tree_state \<Rightarrow> (bool \<times> 's tree_state) option" where
  "NBTreeExtentsList_append_ref 0 B pl st = None"
| "NBTreeExtentsList_append_ref (Suc fuel) B pl st =
     (case st of (t, s) \<Rightarrow>
        let lvl = unat (sr_level pl + 1) in
        do {
          t \<leftarrow> (if lvl < length (nt_extents t) then Some t
                else if length (nt_extents t) = lvl then do {
                  p \<leftarrow> NBTreeSBlockExtent_new B (nt_id t) EMPTY_ADDR (sr_level pl + 1) s;
                  Some (t\<lparr>nt_extents := nt_extents t @ [SBlockExt p], nt_rescue := nt_rescue t @ [EMPTY_ADDR]\<rparr>) }
                else None);
          let t = t\<lparr>nt_write_count := nt_write_count t + 1\<rparr>;
          ((parent_saved, addr), t, s) \<leftarrow>
            extent_append_ref B (NBTreeExtentsList_append_ref fuel B) lvl pl (t, s);
          if addr \<noteq> EMPTY_ADDR then do { t \<leftarrow> set_rescue lvl addr t; Some (True, t, s) }
          else Some (False, t, s) })"

text \<open>Enough fuel for a list of extents: every level once, and a new one.\<close>

definition tree_append_ref ::
  "'s bstore \<Rightarrow> subtree_ref \<Rightarrow> 's tree_state \<Rightarrow> (bool \<times> 's tree_state) option" where
  "tree_append_ref B pl st = NBTreeExtentsList_append_ref (length (nt_extents (fst st)) + 2) B pl st"

text \<open>\<open>append(Timestamp, double, bool)\<close> of an initialised list.\<close>

definition tree_append ::
  "'s bstore \<Rightarrow> timestamp \<Rightarrow> double_bits \<Rightarrow> bool \<Rightarrow> 's tree_state \<Rightarrow> (append_result \<times> 's tree_state) option" where
  "tree_append B ts value allow_duplicate_timestamps st =
     (case st of (t, s) \<Rightarrow>
        if (if allow_duplicate_timestamps then ts < nt_last t else ts \<le> nt_last t)
        then Some (FAIL_LATE_WRITE, t, s)
        else do {
          let t = t\<lparr>nt_last := ts, nt_write_count := nt_write_count t + 1\<rparr>;
          t \<leftarrow> (if length (nt_extents t) = 0 then do {
                  leaf \<leftarrow> NBTreeLeafExtent_new B (nt_id t) EMPTY_ADDR s;
                  Some (t\<lparr>nt_extents := [LeafExt leaf], nt_rescue := nt_rescue t @ [EMPTY_ADDR]\<rparr>) }
                else Some t);
          ((parent_saved, addr), t, s) \<leftarrow> NBTreeLeafExtent_append 2 B (tree_append_ref B) ts value (t, s);
          if addr \<noteq> EMPTY_ADDR then do {
            t \<leftarrow> (if 0 < length (nt_rescue t) then Some (t\<lparr>nt_rescue := (nt_rescue t)[0 := addr]\<rparr>)
                  else Some (t\<lparr>nt_rescue := nt_rescue t @ [addr]\<rparr>));
            Some (OK_FLUSH_NEEDED, t, s) }
          else Some (OK, t, s) })"

definition extent_is_dirty :: "extent \<Rightarrow> bool option" where
  "extent_is_dirty e = (case e of LeafExt e \<Rightarrow> NBTreeLeafExtent_is_dirty e
     | SBlockExt e \<Rightarrow> Some (NBTreeSBlockExtent_is_dirty e))"

definition extent_commit_final ::
  "'s bstore \<Rightarrow> nat \<Rightarrow> 's tree_state \<Rightarrow> ((bool \<times> logic_addr) \<times> 's tree_state) option" where
  "extent_commit_final B ix st =
     (case at (nt_extents (fst st)) ix of
        Some (LeafExt e) \<Rightarrow> NBTreeLeafExtent_commit B (tree_append_ref B) True st
      | Some (SBlockExt e) \<Rightarrow> NBTreeSBlockExtent_commit B (tree_append_ref B) True ix st
      | None \<Rightarrow> None)"

text \<open>The loop of \<open>close\<close>; a commit may add a level, so the bound is read in every round.\<close>

primrec close_loop ::
  "nat \<Rightarrow> 's bstore \<Rightarrow> nat \<Rightarrow> bool \<times> logic_addr \<Rightarrow> 's tree_state \<Rightarrow> ((bool \<times> logic_addr) \<times> 's tree_state) option" where
  "close_loop 0 B ix r st = None"
| "close_loop (Suc fuel) B ix r st =
     (if ix < length (nt_extents (fst st)) then do {
        e \<leftarrow> at (nt_extents (fst st)) ix;
        dirty \<leftarrow> extent_is_dirty e;
        (r, st) \<leftarrow> (if dirty then extent_commit_final B ix st else Some (r, st));
        close_loop fuel B (ix + 1) r st }
      else Some (r, st))"

definition NBTreeExtentsList_close :: "'s bstore \<Rightarrow> 's tree_state \<Rightarrow> (logic_addr list \<times> 's tree_state) option" where
  "NBTreeExtentsList_close B st =
     (case st of (t, s) \<Rightarrow>
        do {
          (t, s) \<leftarrow>
            (if nt_initialized t then
               (if nt_write_count t \<noteq> 0 then do {
                  ((parent_saved, addr), t, s) \<leftarrow>
                    close_loop (length (nt_extents t) + 3) B 0 (False, EMPTY_ADDR) (t, s);
                  if parent_saved \<or> nt_rescue t = [] then None
                  else Some (t\<lparr>nt_rescue := replicate (length (nt_rescue t) - 1) EMPTY_ADDR @ [addr]\<rparr>, s) }
                else if length (nt_rescue t) = 2 \<and> last (nt_rescue t) = EMPTY_ADDR
                then Some (t\<lparr>nt_rescue := butlast (nt_rescue t)\<rparr>, s)
                else Some (t, s))
             else Some (t, s));
          let t = t\<lparr>nt_extents := [], nt_initialized := False\<rparr>;
          Some (nt_rescue t, t, s) })"

end
