(* ===== verification/NBWrite.thy ===== *)
theory NBWrite
  imports NBExtents
begin

text \<open>
  The invariant of the tree and the correctness of its write path.  The content of a tree is
  the sequence of all samples appended: the subtrees below the references of the topmost
  extent, then those of the extent below it, and so on down to the samples of the leaf in
  memory.  The invariant also describes the links between the nodes of one level, which crash
  recovery follows; they hold as long as the tree was not closed and reopened, and a flag says
  whether they are part of the invariant.
\<close>

type_synonym sample = "timestamp \<times> double_bits"

subsection \<open>Subtrees in the block store\<close>

text \<open>\<open>subtree look sid n r p xs\<close>: the store holds at the address of \<open>r\<close> a node of level \<open>n\<close> that
  links to \<open>p\<close>, \<open>r\<close> is the reference to it, and the samples below it are \<open>xs\<close>.\<close>

primrec subtree ::
  "(logic_addr \<Rightarrow> u8 list option) \<Rightarrow> param_id \<Rightarrow> nat \<Rightarrow> subtree_ref \<Rightarrow> logic_addr \<Rightarrow> sample list \<Rightarrow> bool" where
  "subtree look sid 0 r p xs \<longleftrightarrow>
     (\<exists>fan bs. look (sr_addr r) = Some bs \<and> leaf_image sid p fan xs bs \<and> xs \<noteq> [] \<and> unat fan < 32 \<and>
        r = (leaf_ref sid fan xs)\<lparr>sr_addr := sr_addr r\<rparr>)"
| "subtree look sid (Suc n) r p xs \<longleftrightarrow>
     (\<exists>fan refs xss bs. look (sr_addr r) = Some bs \<and> sb_image sid p fan (of_nat (Suc n)) refs bs \<and> p \<noteq> 0 \<and> unat fan < 32 \<and>
        r = (sb_ref sid fan (of_nat (Suc n)) refs)\<lparr>sr_addr := sr_addr r\<rparr> \<and>
        list_all2 (\<lambda>r x. \<exists>p. subtree look sid n r p x) refs xss \<and> xs = concat xss)"

lemma subtree_mono:
  "subtree look sid n r p xs \<Longrightarrow> look \<subseteq>\<^sub>m look' \<Longrightarrow> subtree look' sid n r p xs"
proof (induction n arbitrary: r p xs)
  case 0
  then show ?case by (auto simp: map_le_def dom_def)
next
  case (Suc n)
  from Suc.prems(1) obtain fan refs xss bs where
    t: "look (sr_addr r) = Some bs" "sb_image sid p fan (of_nat (Suc n)) refs bs" "p \<noteq> 0 \<and> unat fan < 32"
    "r = (sb_ref sid fan (of_nat (Suc n)) refs)\<lparr>sr_addr := sr_addr r\<rparr>"
    "list_all2 (\<lambda>r x. \<exists>p. subtree look sid n r p x) refs xss" "xs = concat xss" by auto
  have "list_all2 (\<lambda>r x. \<exists>p. subtree look' sid n r p x) refs xss"
    using t(5) by (rule list_all2_mono) (use Suc.IH Suc.prems(2) in blast)
  moreover have "look' (sr_addr r) = Some bs" using t(1) Suc.prems(2) by (auto simp: map_le_def dom_def)
  ultimately show ?case using t(2-4,6) by (auto intro!: exI)
qed

lemma ref_fields:
  "r = q\<lparr>sr_addr := a\<rparr> \<Longrightarrow> sr_level r = sr_level q \<and> sr_begin r = sr_begin q \<and> sr_end r = sr_end q \<and>
     sr_type r = sr_type q \<and> sr_count r = sr_count q \<and> sr_addr r = a"
  by simp

lemma subtree_level: "subtree look sid n r p xs \<Longrightarrow> sr_level r = of_nat n"
proof (cases n)
  case 0
  assume "subtree look sid n r p xs"
  with 0 obtain fan where "r = (leaf_ref sid fan xs)\<lparr>sr_addr := sr_addr r\<rparr>" by auto
  from ref_fields[OF this] 0 show ?thesis by (simp add: leaf_ref_def)
next
  case (Suc k)
  assume "subtree look sid n r p xs"
  with Suc obtain fan refs where "r = (sb_ref sid fan (of_nat (Suc k)) refs)\<lparr>sr_addr := sr_addr r\<rparr>" by auto
  from ref_fields[OF this] Suc show ?thesis by (simp add: sb_ref_def Let_def)
qed

lemma subtree_nonempty: "subtree look sid n r p xs \<Longrightarrow> xs \<noteq> []"
proof (induction n arbitrary: r p xs)
  case (Suc n)
  then obtain refs xss fan bs where
    t: "sb_image sid p fan (of_nat (Suc n)) refs bs" "list_all2 (\<lambda>r x. \<exists>p. subtree look sid n r p x) refs xss"
    "xs = concat xss" by auto
  then obtain r' refs' where "refs = r' # refs'" by (cases refs) (auto simp: sb_image_def)
  with t(2) obtain x xss' where "xss = x # xss'" "\<exists>p. subtree look sid n r' p x" by (auto simp: list_all2_Cons1)
  with Suc.IH t(3) show ?case by auto
qed auto

lemma subtree_stored: "subtree look sid n r p xs \<Longrightarrow> \<exists>bs. look (sr_addr r) = Some bs"
  by (cases n) auto

subsection \<open>The links of one level\<close>

text \<open>Following the links from \<open>addr\<close> visits the nodes of \<open>refs\<close>, last one first.\<close>

primrec chain_rev ::
  "(logic_addr \<Rightarrow> u8 list option) \<Rightarrow> param_id \<Rightarrow> nat \<Rightarrow> subtree_ref list \<Rightarrow> logic_addr \<Rightarrow> bool" where
  "chain_rev look sid n [] addr \<longleftrightarrow> addr = EMPTY_ADDR"
| "chain_rev look sid n (r # rs) addr \<longleftrightarrow> addr = sr_addr r \<and> addr \<noteq> EMPTY_ADDR \<and>
     (\<exists>p xs. subtree look sid n r p xs \<and> chain_rev look sid n rs p)"

lemma chain_rev_mono:
  "chain_rev look sid n rs addr \<Longrightarrow> look \<subseteq>\<^sub>m look' \<Longrightarrow> chain_rev look' sid n rs addr"
  by (induction rs arbitrary: addr) (auto intro: subtree_mono)

text \<open>The next node of a level whose parent holds \<open>refs\<close>: its position and its link, and the
  rescue point of the level.\<close>

definition linked ::
  "bool \<Rightarrow> (logic_addr \<Rightarrow> u8 list option) \<Rightarrow> param_id \<Rightarrow> nat \<Rightarrow> u16 \<Rightarrow> logic_addr \<Rightarrow> logic_addr \<Rightarrow>
   subtree_ref list \<Rightarrow> bool" where
  "linked c look sid n fan prev rp refs \<longleftrightarrow> (c \<longrightarrow>
     fan = of_nat (length refs mod 32) \<and> prev = (if length refs mod 32 = 0 then EMPTY_ADDR else sr_addr (last refs)) \<and>
     chain_rev look sid n (rev refs) rp)"

lemma linked_mono:
  "linked c look sid n fan prev rp refs \<Longrightarrow> look \<subseteq>\<^sub>m look' \<Longrightarrow> linked c look' sid n fan prev rp refs"
  by (auto simp: linked_def intro: chain_rev_mono)

lemma linked_next:
  assumes l: "linked c look sid n fan prev rp refs" and len: "length refs \<le> 32" and fan: "unat fan < 32"
    and r: "subtree look sid n r (if c then prev else p) xs" "sr_addr r = addr" "addr \<noteq> EMPTY_ADDR"
    and refs': "refs' = (if length refs = 32 then [r] else refs @ [r])"
    and nx: "next_sibling fan addr = (fan', prev')"
  shows "linked c look sid n fan' prev' addr refs'" "unat fan' < 32" "addr \<noteq> 0 \<Longrightarrow> prev' \<noteq> 0"
proof -
  have u: "unat (fan + 1) = unat fan + 1" using fan by (simp add: unat_word_ariths)
  then show "unat fan' < 32" "addr \<noteq> 0 \<Longrightarrow> prev' \<noteq> 0" using nx fan
    by (auto simp: next_sibling_def NBTREE_FANOUT_def Let_def EMPTY_ADDR_def split: if_splits)
  show "linked c look sid n fan' prev' addr refs'"
  proof (cases c)
    case True
    with l have q: "fan = of_nat (length refs mod 32)" "prev = (if length refs mod 32 = 0 then EMPTY_ADDR else sr_addr (last refs))"
      "chain_rev look sid n (rev refs) rp" by (simp_all add: linked_def)
    have uf: "unat fan = length refs mod 32" unfolding q(1) by (simp add: unat_of_nat take_bit_nat_eq_self)
    have ch: "chain_rev look sid n (rev refs') addr"
    proof (cases "length refs = 32 \<or> refs = []")
      case True
      then have "prev = EMPTY_ADDR" "refs' = [r]" using q(2) refs' by auto
      with r \<open>c\<close> show ?thesis by auto
    next
      case False
      then obtain l0 ls where ls: "rev refs = l0 # ls" by (cases "rev refs") auto
      then have "last refs = l0" by (simp flip: hd_rev)
      moreover have "length refs mod 32 = length refs" "length refs \<noteq> 0" using False len by auto
      ultimately have "rp = prev" using q(2,3) ls by auto
      with False refs' r \<open>c\<close> q(3) show ?thesis by auto
    qed
    have "fan' = of_nat (length refs' mod 32) \<and> prev' = (if length refs' mod 32 = 0 then EMPTY_ADDR else sr_addr (last refs'))"
    proof (cases "length refs = 32")
      case True
      then have "fan = 0" "refs' = [r]" using q(1) refs' by auto
      with nx r(2) show ?thesis by (simp add: next_sibling_def NBTREE_FANOUT_def)
    next
      case False
      then have m: "length refs mod 32 = length refs" and r': "refs' = refs @ [r]" using len refs' by auto
      have un: "unat (fan + 1) = Suc (length refs)" using u uf m by simp
      have f1: "fan + 1 = of_nat (Suc (length refs))" using q(1) m by (simp add: add.commute)
      show ?thesis
      proof (cases "length refs = 31")
        case True
        with un nx have "fan' = 0" "prev' = EMPTY_ADDR" by (auto simp: next_sibling_def NBTREE_FANOUT_def Let_def)
        with True r' show ?thesis by simp
      next
        case False
        with \<open>length refs \<noteq> 32\<close> len have "Suc (length refs) mod 32 = Suc (length refs)" by simp
        moreover from False un nx have "fan' = fan + 1" "prev' = addr"
          by (auto simp: next_sibling_def NBTREE_FANOUT_def Let_def)
        ultimately show ?thesis using r' r(2) f1 by simp
      qed
    qed
    with ch show ?thesis by (simp add: linked_def)
  qed (simp add: linked_def)
qed

subsection \<open>The invariant of the extents\<close>

text \<open>The children of one node and their samples.  A child of level \<open>n\<close> has at least \<open>2 ^ (n - d)\<close>
  samples: the tree is balanced above level \<open>d\<close>, which bounds its height.\<close>

definition children ::
  "(logic_addr \<Rightarrow> u8 list option) \<Rightarrow> param_id \<Rightarrow> nat \<Rightarrow> nat \<Rightarrow> subtree_ref list \<Rightarrow> sample list \<Rightarrow> bool" where
  "children look sid d n refs xs \<longleftrightarrow>
     (\<exists>xss. list_all2 (\<lambda>r x. (\<exists>p. subtree look sid n r p x) \<and> 2 ^ (n - d) \<le> length x) refs xss \<and> xs = concat xss)"

lemma children_Nil [simp]: "children look sid d n [] xs \<longleftrightarrow> xs = []"
  by (auto simp: children_def)

lemma children_snoc:
  assumes "children look sid d n refs xs" and "subtree look sid n r p ys" and "2 ^ (n - d) \<le> length ys"
  shows "children look sid d n (refs @ [r]) (xs @ ys)"
proof -
  from assms(1) obtain xss where
    x: "list_all2 (\<lambda>r x. (\<exists>p. subtree look sid n r p x) \<and> 2 ^ (n - d) \<le> length x) refs xss" "xs = concat xss"
    by (auto simp: children_def)
  have "list_all2 (\<lambda>r x. (\<exists>p. subtree look sid n r p x) \<and> 2 ^ (n - d) \<le> length x) (refs @ [r]) (xss @ [ys])"
    using x(1) assms(2,3) by (intro list_all2_appendI) auto
  with x(2) show ?thesis unfolding children_def by force
qed

lemma children_mono: "children look sid d n refs xs \<Longrightarrow> look \<subseteq>\<^sub>m look' \<Longrightarrow> children look' sid d n refs xs"
  unfolding children_def by (elim exE conjE) (intro exI conjI, erule list_all2_mono, auto intro: subtree_mono)

lemma children_length: "children look sid d n refs xs \<Longrightarrow> length refs * 2 ^ (n - d) \<le> length xs"
proof -
  assume "children look sid d n refs xs"
  then obtain xss where
    "list_all2 (\<lambda>r x. (\<exists>p. subtree look sid n r p x) \<and> 2 ^ (n - d) \<le> length x) refs xss" "xs = concat xss"
    by (auto simp: children_def)
  then show ?thesis by (induction refs xss arbitrary: xs rule: list_all2_induct) auto
qed

lemma children_subtrees:
  "children look sid d n refs xs \<Longrightarrow> \<exists>xss. list_all2 (\<lambda>r x. \<exists>p. subtree look sid n r p x) refs xss \<and> xs = concat xss"
  unfolding children_def by (elim exE conjE) (intro exI conjI, erule list_all2_mono, auto)

lemma children_stored:
  "children look sid d n refs xs \<Longrightarrow> refs \<noteq> [] \<Longrightarrow> look \<noteq> Map.empty"
  by (cases refs) (auto simp: children_def list_all2_Cons1 dest!: subtree_stored)

text \<open>An inner extent of level \<open>n + 1\<close> that holds \<open>refs\<close>.\<close>

definition sbext_ok ::
  "bool \<Rightarrow> (logic_addr \<Rightarrow> u8 list option) \<Rightarrow> param_id \<Rightarrow> nat \<Rightarrow> nat \<Rightarrow> sblock_extent \<Rightarrow> subtree_ref list \<Rightarrow>
   sample list \<Rightarrow> bool" where
  "sbext_ok c look sid d n e refs xs \<longleftrightarrow> se_id e = sid \<and> se_level e = of_nat (Suc n) \<and>
     unat (se_fanout_index e) < 32 \<and> se_last e \<noteq> 0 \<and>
     (\<exists>prev fan. sb_view sid prev fan (of_nat (Suc n)) refs (se_curr e) \<and> prev \<noteq> 0 \<and> unat fan < 32 \<and>
        (c \<longrightarrow> prev = se_last e \<and> fan = se_fanout_index e)) \<and>
     children look sid d n refs xs"

text \<open>The extents above level \<open>n\<close> with their rescue points; \<open>refs\<close> are those of the lowest one.\<close>

primrec upper_ok ::
  "bool \<Rightarrow> (logic_addr \<Rightarrow> u8 list option) \<Rightarrow> param_id \<Rightarrow> nat \<Rightarrow> nat \<Rightarrow> extent list \<Rightarrow> logic_addr list \<Rightarrow>
   sample list \<Rightarrow> subtree_ref list \<Rightarrow> bool" where
  "upper_ok c look sid d n [] rps xs refs \<longleftrightarrow> rps = [] \<and> xs = [] \<and> refs = []"
| "upper_ok c look sid d n (e # es) rps xs refs \<longleftrightarrow>
     (\<exists>se rp rps' ys zs refs'. e = SBlockExt se \<and> rps = rp # rps' \<and> xs = ys @ zs \<and>
        sbext_ok c look sid d n se refs zs \<and> upper_ok c look sid d (Suc n) es rps' ys refs' \<and>
        linked c look sid (Suc n) (se_fanout_index se) (se_last se) rp refs' \<and>
        (es = [] \<longrightarrow> refs \<noteq> []))"

lemma sbext_ok_mono:
  "sbext_ok c look sid d n e refs xs \<Longrightarrow> look \<subseteq>\<^sub>m look' \<Longrightarrow> sbext_ok c look' sid d n e refs xs"
  unfolding sbext_ok_def using children_mono by blast

lemma upper_ok_ConsI:
  "sbext_ok c look sid d n se refs zs \<Longrightarrow> upper_ok c look sid d (Suc n) es rps ys refs' \<Longrightarrow>
   linked c look sid (Suc n) (se_fanout_index se) (se_last se) rp refs' \<Longrightarrow> (es = [] \<longrightarrow> refs \<noteq> []) \<Longrightarrow>
   upper_ok c look sid d n (SBlockExt se # es) (rp # rps) (ys @ zs) refs"
  by (simp only: upper_ok.simps) blast

lemma upper_ok_mono:
  "upper_ok c look sid d n es rps xs refs \<Longrightarrow> look \<subseteq>\<^sub>m look' \<Longrightarrow> upper_ok c look' sid d n es rps xs refs"
proof (induction es arbitrary: n rps xs refs)
  case (Cons e es)
  from Cons.prems(1) obtain se rp rps' ys zs refs' where
    e: "e = SBlockExt se" "rps = rp # rps'" "xs = ys @ zs" "sbext_ok c look sid d n se refs zs"
    "upper_ok c look sid d (Suc n) es rps' ys refs'"
    "linked c look sid (Suc n) (se_fanout_index se) (se_last se) rp refs'" "es = [] \<longrightarrow> refs \<noteq> []"
    by (simp only: upper_ok.simps) blast
  show ?case unfolding e(1-3) using e(7)
    by (rule upper_ok_ConsI[OF sbext_ok_mono[OF e(4) Cons.prems(2)] Cons.IH[OF e(5) Cons.prems(2)]
        linked_mono[OF e(6) Cons.prems(2)]])
qed simp

lemma upper_ok_length: "upper_ok c look sid d n es rps xs refs \<Longrightarrow> length rps = length es"
  by (induction es arbitrary: n rps xs refs) auto

lemma upper_ok_refs: "upper_ok c look sid d n es rps xs refs \<Longrightarrow> length refs \<le> 32"
  by (cases es) (auto simp: sbext_ok_def sb_view_def)

text \<open>The number of references held in memory.\<close>

definition ext_refs :: "extent \<Rightarrow> nat" where
  "ext_refs e = (case e of LeafExt _ \<Rightarrow> 0 | SBlockExt se \<Rightarrow> sb_write_pos (se_curr se))"

definition refs_total :: "extent list \<Rightarrow> nat" where
  "refs_total es = sum_list (map ext_refs es)"

lemma refs_total_simps [simp]:
  "refs_total [] = 0" "refs_total (e # es) = ext_refs e + refs_total es"
  by (simp_all add: refs_total_def)

text \<open>A new level appears only when every level above was full, and then each of them holds one
  reference; levels that hold at most one reference do not grow.\<close>

definition thin :: "extent list \<Rightarrow> bool" where
  "thin es \<longleftrightarrow> (\<forall>e \<in> set es. ext_refs e \<le> 1)"

definition grown_thin :: "extent list \<Rightarrow> extent list \<Rightarrow> bool" where
  "grown_thin es es' \<longleftrightarrow> (length es < length es' \<longrightarrow> thin es') \<and>
     (thin es \<longrightarrow> es \<noteq> [] \<longrightarrow> thin (tl es') \<and> length es' = length es)"

lemma grown_thin_fits: "ext_refs e' = Suc (ext_refs e) \<Longrightarrow> grown_thin (e # es) (e' # es)"
  by (simp add: grown_thin_def thin_def)

lemma grown_thin_overflow:
  "grown_thin es es' \<Longrightarrow> 1 < ext_refs e \<Longrightarrow> ext_refs e' \<le> 1 \<Longrightarrow> grown_thin (e # es) (e' # es')"
  by (auto simp: grown_thin_def thin_def)

lemma grown_thin_new: "ext_refs e \<le> 1 \<Longrightarrow> grown_thin [] [e]"
  by (simp add: grown_thin_def thin_def)

lemma sbext_ok_refs: "sbext_ok c look sid d n se refs xs \<Longrightarrow> ext_refs (SBlockExt se) = length refs"
  by (auto simp: ext_refs_def sbext_ok_def sb_view_def)

lemma sbext_append_ok:
  assumes e: "sbext_ok c look sid d n se refs xs" and len: "length refs < 32"
    and r: "subtree look sid n r p ys" "2 ^ (n - d) \<le> length ys"
  shows "\<exists>nd. IOVecSuperblock_append r (se_curr se) = Some (kOk, nd) \<and>
     sbext_ok c look sid d n (se\<lparr>se_curr := nd\<rparr>) (refs @ [r]) (xs @ ys)"
proof -
  from e obtain prev fan where
    v: "sb_view sid prev fan (of_nat (Suc n)) refs (se_curr se)" "prev \<noteq> 0 \<and> unat fan < 32"
    "c \<longrightarrow> prev = se_last se \<and> fan = se_fanout_index se" "children look sid d n refs xs"
    "se_id se = sid" "se_level se = of_nat (Suc n)" "unat (se_fanout_index se) < 32" "se_last se \<noteq> 0"
    unfolding sbext_ok_def by blast
  from sb_append_ok[OF v(1) len, of r] obtain nd where
    nd: "IOVecSuperblock_append r (se_curr se) = Some (kOk, nd)"
    "sb_view sid prev fan (of_nat (Suc n)) (refs @ [r]) nd" by blast
  have "sbext_ok c look sid d n (se\<lparr>se_curr := nd\<rparr>) (refs @ [r]) (xs @ ys)"
    unfolding sbext_ok_def using v nd(2) children_snoc[OF v(4) r] by auto
  with nd(1) show ?thesis by blast
qed

lemma sbext_append_full:
  "sbext_ok c look sid d n se refs xs \<Longrightarrow> length refs = 32 \<Longrightarrow>
   IOVecSuperblock_append r (se_curr se) = Some (kOverflow, se_curr se)"
  unfolding sbext_ok_def using sb_append_full by blast

lemma sbext_reset_ok:
  assumes "sbext_ok c look sid d n se refs xs" and "unat f < 32" and "prev \<noteq> 0"
  shows "\<exists>se'. NBTreeSBlockExtent_reset_subtree (se\<lparr>se_fanout_index := f, se_last := prev\<rparr>) = Some se' \<and>
     sbext_ok c look sid d n se' [] [] \<and> se_fanout_index se' = f \<and> se_last se' = prev"
proof -
  from sb_new_ok[OF assms(3), of sid f "of_nat (Suc n)"] obtain nd where
    "IOVecSuperblock_new sid prev f (of_nat (Suc n)) = Some nd" "sb_view sid prev f (of_nat (Suc n)) [] nd" by blast
  with assms show ?thesis by (auto simp: sbext_ok_def NBTreeSBlockExtent_reset_subtree_def)
qed

context durable_store
begin

lemma room_le: "room n s \<Longrightarrow> m \<le> n \<Longrightarrow> room m s"
  by (induction n arbitrary: m) (auto simp: le_Suc_eq room_mono)

lemma sbext_commit_node:
  assumes e: "sbext_ok c (look s) sid d n se refs xs" and ne: "refs \<noteq> []" and room: "room (Suc k) s"
  shows "\<exists>addr nd s' pl p. IOVecSuperblock_commit B (se_curr se) s = Some ((kOk, addr), nd, s') \<and> room k s' \<and>
     look s \<subseteq>\<^sub>m look s' \<and> addr \<noteq> EMPTY_ADDR \<and> addr \<noteq> 0 \<and>
     init_subtree_from_subtree nd INIT_SUBTREE_REF = Some (kOk, pl) \<and>
     subtree (look s') sid (Suc n) (pl\<lparr>sr_addr := addr\<rparr>) p xs \<and> (c \<longrightarrow> p = se_last se)"
proof -
  from e obtain prev fan where
    v: "sb_view sid prev fan (of_nat (Suc n)) refs (se_curr se)" "prev \<noteq> 0 \<and> unat fan < 32"
    "c \<longrightarrow> prev = se_last se" "children (look s) sid d n refs xs" unfolding sbext_ok_def by blast
  from sb_commit_ok[OF v(1) ne room] obtain addr nd s' bs where
    a: "IOVecSuperblock_commit B (se_curr se) s = Some ((kOk, addr), nd, s')" "room k s'" "addr \<noteq> EMPTY_ADDR"
    "addr = 0 \<longrightarrow> look s = Map.empty" "look s addr = None" "look s' = (look s)(addr \<mapsto> bs)"
    "sb_image sid prev fan (of_nat (Suc n)) refs bs"
    "init_subtree_from_subtree nd INIT_SUBTREE_REF = Some (kOk, sb_ref sid fan (of_nat (Suc n)) refs)" by blast
  have m: "look s \<subseteq>\<^sub>m look s'" using a(5,6) by (auto simp: map_le_def)
  from children_subtrees[OF children_mono[OF v(4) m]] obtain xss where
    "list_all2 (\<lambda>r x. \<exists>p. subtree (look s') sid n r p x) refs xss" "xs = concat xss" by blast
  then have "subtree (look s') sid (Suc n) ((sb_ref sid fan (of_nat (Suc n)) refs)\<lparr>sr_addr := addr\<rparr>) prev xs"
    using a(6,7) v(2) by auto
  moreover have "addr \<noteq> 0" using a(4) children_stored[OF v(4) ne] by blast
  ultimately show ?thesis using a(1-3,8) m v(3) by blast
qed

lemma sbext_new_ok:
  "\<exists>se. NBTreeSBlockExtent_new B sid EMPTY_ADDR (of_nat (Suc n)) s = Some se \<and>
     sbext_ok c (look s) sid d n se [] [] \<and> se_fanout_index se = 0 \<and> se_last se = EMPTY_ADDR"
proof -
  have e0: "EMPTY_ADDR \<noteq> 0" by (simp add: EMPTY_ADDR_def)
  from sb_new_ok[OF this, of sid 0 "of_nat (Suc n)"] obtain nd where
    "IOVecSuperblock_new sid EMPTY_ADDR 0 (of_nat (Suc n)) = Some nd"
    "sb_view sid EMPTY_ADDR 0 (of_nat (Suc n)) [] nd" by blast
  with e0 show ?thesis
    by (simp add: NBTreeSBlockExtent_new_def sbext_ok_def) (intro exI[of _ EMPTY_ADDR] exI[of _ 0], simp)
qed

text \<open>What a call of \<open>append(SubtreeRef)\<close> does to the extents above level \<open>n\<close>.\<close>

definition appended_ref ::
  "bool \<Rightarrow> param_id \<Rightarrow> nat \<Rightarrow> nat \<Rightarrow> extent list \<Rightarrow> sample list \<Rightarrow> subtree_ref list \<Rightarrow> subtree_ref \<Rightarrow> nat \<Rightarrow>
   'a tree_state \<Rightarrow> 'a tree_state \<Rightarrow> bool" where
  "appended_ref c sid d n pre xs refs r k st st' \<longleftrightarrow>
     (case (st, st') of ((t, s), (t', s')) \<Rightarrow>
        \<exists>post rps. nt_extents t' = pre @ post \<and> nt_rescue t' = take (length pre) (nt_rescue t) @ rps \<and>
          upper_ok c (look s') sid d n post rps xs (if length refs = 32 then [r] else refs @ [r]) \<and>
          look s \<subseteq>\<^sub>m look s' \<and> room (k + refs_total post) s' \<and> nt_id t' = nt_id t \<and> nt_last t' = nt_last t \<and>
          nt_initialized t' = nt_initialized t \<and> nt_write_count t < nt_write_count t' \<and>
          length (nt_extents t) \<le> length (nt_extents t') \<and> length (nt_extents t') \<le> Suc (length (nt_extents t)) \<and>
          grown_thin (drop (length pre) (nt_extents t)) post)"

lemma nth_append_length': "length pre = n \<Longrightarrow> (pre @ e # post) ! n = e"
  by auto

lemma append_ref_fits:
  assumes ext: "nt_extents t = pre @ SBlockExt se # es" "length pre = Suc n" "Suc n < 65535"
    and resc: "nt_rescue t = rs @ rp # rps" "length rs = Suc n"
    and e: "sbext_ok c (look s) sid d n se refs zs" "upper_ok c (look s) sid d (Suc n) es rps ys refs'"
      "linked c (look s) sid (Suc n) (se_fanout_index se) (se_last se) rp refs'"
    and r: "subtree (look s) sid n r p xs" "2 ^ (n - d) \<le> length xs" and len: "length refs < 32"
    and room: "room (Suc (k + refs_total (SBlockExt se # es))) s"
  shows "\<exists>t'. NBTreeExtentsList_append_ref (Suc fuel) B r (t, s) = Some (False, t', s) \<and>
     appended_ref c sid d n pre ((ys @ zs) @ xs) refs r k (t, s) (t', s)"
proof -
  have lvl: "unat (sr_level r + 1) = Suc n"
    using subtree_level[OF r(1)] ext(3) by (simp add: unat_word_ariths unat_of_nat take_bit_nat_eq_self)
  from sbext_append_ok[OF e(1) len r] obtain nd where
    nd: "IOVecSuperblock_append r (se_curr se) = Some (kOk, nd)"
    "sbext_ok c (look s) sid d n (se\<lparr>se_curr := nd\<rparr>) (refs @ [r]) (zs @ xs)" by blast
  let ?t = "t\<lparr>nt_write_count := nt_write_count t + 1, nt_extents := pre @ SBlockExt (se\<lparr>se_curr := nd\<rparr>) # es\<rparr>"
  have "NBTreeExtentsList_append_ref (Suc fuel) B r (t, s) = Some (False, ?t, s)"
    using ext nd(1) lvl
    by (simp add: extent_append_ref_def nth_append_length' numeral_2_eq_2 nt_set_extent_def list_update_append Let_def)
  moreover have "upper_ok c (look s) sid d n (SBlockExt (se\<lparr>se_curr := nd\<rparr>) # es) (rp # rps) (ys @ (zs @ xs)) (refs @ [r])"
    by (rule upper_ok_ConsI[OF nd(2) e(2)]) (use e(3) in simp_all)
  moreover have rf: "ext_refs (SBlockExt (se\<lparr>se_curr := nd\<rparr>)) = Suc (ext_refs (SBlockExt se))"
    using sbext_ok_refs[OF nd(2)] sbext_ok_refs[OF e(1)] by simp
  then have "refs_total (SBlockExt (se\<lparr>se_curr := nd\<rparr>) # es) = Suc (refs_total (SBlockExt se # es))" by simp
  moreover note grown_thin_fits[OF rf, of es]
  ultimately show ?thesis using len room ext(1,2) resc by (simp add: appended_ref_def)
qed

lemma sblock_commit_eq:
  assumes "at (nt_extents t) ix = Some (SBlockExt se)"
    and "IOVecSuperblock_commit B (se_curr se) s = Some ((kOk, addr), nd, s1)"
    and "init_subtree_from_subtree nd INIT_SUBTREE_REF = Some (kOk, pl)"
    and "(if \<not> final \<or> unat (sr_level pl) + 1 < length (nt_rescue t)
          then app (pl\<lparr>sr_addr := addr\<rparr>) (nt_set_extent ix (SBlockExt (se\<lparr>se_curr := nd\<rparr>)) t, s1)
          else Some (False, nt_set_extent ix (SBlockExt (se\<lparr>se_curr := nd\<rparr>)) t, s1)) = Some (b, t2, s2)"
    and "next_sibling (se_fanout_index se) addr = (f, prev)"
    and "NBTreeSBlockExtent_reset_subtree (se\<lparr>se_fanout_index := f, se_last := prev\<rparr>) = Some se'"
  shows "NBTreeSBlockExtent_commit B app final ix (t, s) = Some ((b, addr), nt_set_extent ix (SBlockExt se') t2, s2)"
  using assms by (simp add: NBTreeSBlockExtent_commit_def Let_def)

lemma append_ref_overflow:
  assumes ext: "nt_extents t = pre @ SBlockExt se # es" "length pre = Suc n" "Suc n < 65534"
    and resc: "nt_rescue t = rs @ rp # rps" "length rs = Suc n"
    and e: "sbext_ok c (look s) sid d n se refs zs" "upper_ok c (look s) sid d (Suc n) es rps ys refs'"
      "linked c (look s) sid (Suc n) (se_fanout_index se) (se_last se) rp refs'"
    and r: "subtree (look s) sid n r p xs" "2 ^ (n - d) \<le> length xs" and len: "length refs = 32"
    and room: "room (Suc (k + refs_total (SBlockExt se # es))) s"
    and IH: "\<And>t1 s1 pl q. \<exists>se1. nt_extents t1 = (pre @ [SBlockExt se1]) @ es \<Longrightarrow> nt_rescue t1 = nt_rescue t \<Longrightarrow> nt_id t1 = nt_id t \<Longrightarrow>
        upper_ok c (look s1) sid d (Suc n) es rps ys refs' \<Longrightarrow> subtree (look s1) sid (Suc n) pl q zs \<Longrightarrow>
        2 ^ (Suc n - d) \<le> length zs \<Longrightarrow> room (Suc ((k + 31) + refs_total es)) s1 \<Longrightarrow>
        \<exists>b t2 s2 pre1. length pre1 = Suc (Suc n) \<and> take (Suc (Suc n)) (nt_extents t1) = pre1 \<and>
          NBTreeExtentsList_append_ref fuel B pl (t1, s1) = Some (b, t2, s2) \<and>
          appended_ref c sid d (Suc n) pre1 (ys @ zs) refs' pl (k + 31) (t1, s1) (t2, s2)"
  shows "\<exists>t' s'. NBTreeExtentsList_append_ref (Suc fuel) B r (t, s) = Some (True, t', s') \<and>
     appended_ref c sid d n pre ((ys @ zs) @ xs) refs r k (t, s) (t', s')"
proof -
  have lvl: "unat (sr_level r + 1) = Suc n"
    using subtree_level[OF r(1)] ext(3) by (simp add: unat_word_ariths unat_of_nat take_bit_nat_eq_self)
  have ne: "refs \<noteq> []" using len by auto
  have "room (Suc (Suc ((k + 31) + refs_total es))) s" using room sbext_ok_refs[OF e(1)] len by (simp add: add.commute add.left_commute)
  from sbext_commit_node[OF e(1) ne this] obtain addr nd s1 pl q where
    cm: "IOVecSuperblock_commit B (se_curr se) s = Some ((kOk, addr), nd, s1)"
    "room (Suc ((k + 31) + refs_total es)) s1" "look s \<subseteq>\<^sub>m look s1" "addr \<noteq> EMPTY_ADDR" "addr \<noteq> 0"
    "init_subtree_from_subtree nd INIT_SUBTREE_REF = Some (kOk, pl)"
    "subtree (look s1) sid (Suc n) (pl\<lparr>sr_addr := addr\<rparr>) q zs" "c \<longrightarrow> q = se_last se" by blast
  let ?t0 = "t\<lparr>nt_write_count := nt_write_count t + 1\<rparr>"
  let ?t1 = "nt_set_extent (Suc n) (SBlockExt (se\<lparr>se_curr := nd\<rparr>)) ?t0" and ?pl = "pl\<lparr>sr_addr := addr\<rparr>"
  have x1: "nt_extents ?t1 = pre @ SBlockExt (se\<lparr>se_curr := nd\<rparr>) # es"
    using ext(1,2) by (simp add: nt_set_extent_def list_update_append)
  have "32 * 2 ^ (n - d) \<le> length zs" using children_length[of "look s" sid d n refs zs] e(1) len by (simp add: sbext_ok_def)
  moreover have "(2::nat) ^ (Suc n - d) \<le> 32 * 2 ^ (n - d)" by (cases "n < d") (auto simp: Suc_diff_le)
  ultimately have wt: "2 ^ (Suc n - d) \<le> length zs" by linarith
  have x1': "\<exists>se1. nt_extents ?t1 = (pre @ [SBlockExt se1]) @ es" using x1 by simp
  from IH[OF x1' _ _ upper_ok_mono[OF e(2) cm(3)] cm(7) wt cm(2)] obtain b t2 s2 where
    a: "NBTreeExtentsList_append_ref fuel B ?pl (?t1, s1) = Some (b, t2, s2)"
    "appended_ref c sid d (Suc n) (take (Suc (Suc n)) (nt_extents ?t1)) (ys @ zs) refs' ?pl (k + 31) (?t1, s1) (t2, s2)"
    by (auto simp: nt_set_extent_def)
  have tk: "take (Suc (Suc n)) (nt_extents ?t1) = pre @ [SBlockExt (se\<lparr>se_curr := nd\<rparr>)]"
    using x1 ext(2) by (simp add: take_Cons')
  let ?refs = "if length refs' = 32 then [?pl] else refs' @ [?pl]"
  from a(2) obtain es2 rps2 where
    x2: "nt_extents t2 = pre @ SBlockExt (se\<lparr>se_curr := nd\<rparr>) # es2" "nt_rescue t2 = rs @ rp # rps2"
    "upper_ok c (look s2) sid d (Suc n) es2 rps2 (ys @ zs) ?refs" "look s1 \<subseteq>\<^sub>m look s2"
    "room (k + 31 + refs_total es2) s2" "nt_id t2 = nt_id t" "nt_last t2 = nt_last t"
    "nt_initialized t2 = nt_initialized t" "nt_write_count t < nt_write_count t2"
    "length es \<le> length es2" "length es2 \<le> Suc (length es)"
    "grown_thin es es2"
    using ext(1,2) resc by (auto simp: appended_ref_def tk nt_set_extent_def x1)
  have m2: "look s \<subseteq>\<^sub>m look s2" using cm(3) x2(4) by (rule map_le_trans)
  obtain f prev where nx: "next_sibling (se_fanout_index se) addr = (f, prev)" by (cases "next_sibling (se_fanout_index se) addr")
  have fan: "unat (se_fanout_index se) < 32" using e(1) by (simp add: sbext_ok_def)
  have "subtree (look s2) sid (Suc n) ?pl (if c then se_last se else q) zs"
    using subtree_mono[OF cm(7) x2(4)] cm(8) by auto
  note lk = linked_next[OF linked_mono[OF e(3) m2] upper_ok_refs[OF e(2)] fan this _ cm(4) refl nx, simplified]
  from sbext_reset_ok[OF sbext_ok_mono[OF e(1) m2] lk(2) lk(3)[OF cm(5)]] obtain se' where
    se': "NBTreeSBlockExtent_reset_subtree (se\<lparr>se_fanout_index := f, se_last := prev\<rparr>) = Some se'"
    "sbext_ok c (look s2) sid d n se' [] []" "se_fanout_index se' = f" "se_last se' = prev" by blast
  from sbext_append_ok[OF se'(2) _ subtree_mono[OF r(1) m2] r(2)] obtain nd' where
    nd': "IOVecSuperblock_append r (se_curr se') = Some (kOk, nd')"
    "sbext_ok c (look s2) sid d n (se'\<lparr>se_curr := nd'\<rparr>) [r] xs" by auto
  have at0: "at (nt_extents ?t0) (Suc n) = Some (SBlockExt se)" using ext(1,2) by (simp add: nth_append_length')
  have cmt: "NBTreeSBlockExtent_commit B (NBTreeExtentsList_append_ref fuel B) False (Suc n) (?t0, s) =
      Some ((b, addr), nt_set_extent (Suc n) (SBlockExt se') t2, s2)"
    by (rule sblock_commit_eq[OF at0 cm(1,6) _ nx se'(1)]) (use a(1) in simp)
  have t0: "?t0 = t\<lparr>nt_write_count := Suc (nt_write_count t), nt_extents := pre @ SBlockExt se # es\<rparr>"
    using ext(1) by (cases t) simp
  let ?t3 = "t2\<lparr>nt_extents := pre @ SBlockExt (se'\<lparr>se_curr := nd'\<rparr>) # es2, nt_rescue := rs @ addr # rps2\<rparr>"
  have "NBTreeExtentsList_append_ref (Suc fuel) B r (t, s) = Some (True, ?t3, s2)"
    using ext(1,2) lvl sbext_append_full[OF e(1) len, of r] cmt[unfolded t0] x2(1,2) nd'(1) cm(4) resc(2)
    by (simp add: extent_append_ref_def nth_append_length' numeral_2_eq_2 nt_set_extent_def list_update_append
        set_rescue_def Let_def)
  moreover have "upper_ok c (look s2) sid d n (SBlockExt (se'\<lparr>se_curr := nd'\<rparr>) # es2) (addr # rps2) ((ys @ zs) @ xs) [r]"
    by (rule upper_ok_ConsI[OF nd'(2) x2(3)]) (use lk(1) se'(3,4) in simp_all)
  moreover have "room (k + refs_total (SBlockExt (se'\<lparr>se_curr := nd'\<rparr>) # es2)) s2"
    by (rule room_le[OF x2(5)]) (use sbext_ok_refs[OF nd'(2)] in simp)
  moreover have "grown_thin (SBlockExt se # es) (SBlockExt (se'\<lparr>se_curr := nd'\<rparr>) # es2)"
    using grown_thin_overflow[OF x2(12)] sbext_ok_refs[OF nd'(2)] sbext_ok_refs[OF e(1)] len by simp
  ultimately show ?thesis using len m2 ext(1,2) resc x2(1-11) by (simp add: appended_ref_def)
qed

lemma append_ref_new_level:
  assumes ext: "length (nt_extents t) = Suc n" "Suc n < 65535" and resc: "length (nt_rescue t) = Suc n" and sid: "nt_id t = sid"
    and r: "subtree (look s) sid n r p xs" "2 ^ (n - d) \<le> length xs" and room: "room (Suc k) s"
  shows "\<exists>t'. NBTreeExtentsList_append_ref (Suc fuel) B r (t, s) = Some (False, t', s) \<and>
     appended_ref c sid d n (nt_extents t) xs [] r k (t, s) (t', s)"
proof -
  have lv: "sr_level r + 1 = of_nat (Suc n)" using subtree_level[OF r(1)] by simp
  have lvl: "unat (sr_level r + 1) = Suc n"
    using subtree_level[OF r(1)] ext(2) by (simp add: unat_word_ariths unat_of_nat take_bit_nat_eq_self)
  from sbext_new_ok[of sid n s c d] obtain se where
    se: "NBTreeSBlockExtent_new B sid EMPTY_ADDR (of_nat (Suc n)) s = Some se" "sbext_ok c (look s) sid d n se [] []"
    "se_fanout_index se = 0" "se_last se = EMPTY_ADDR" by blast
  let ?pre = "nt_extents t"
  from sbext_append_ok[OF se(2) _ r] obtain nd where
    nd: "IOVecSuperblock_append r (se_curr se) = Some (kOk, nd)"
    "sbext_ok c (look s) sid d n (se\<lparr>se_curr := nd\<rparr>) [r] xs" by auto
  have lk: "linked c (look s) sid (Suc n) (se_fanout_index se) (se_last se) EMPTY_ADDR []"
    using se(3,4) by (simp add: linked_def)
  let ?t = "t\<lparr>nt_extents := ?pre @ [SBlockExt (se\<lparr>se_curr := nd\<rparr>)], nt_rescue := nt_rescue t @ [EMPTY_ADDR],
      nt_write_count := nt_write_count t + 1\<rparr>"
  have "NBTreeExtentsList_append_ref (Suc fuel) B r (t, s) = Some (False, ?t, s)"
    using ext sid se(1) nd(1) lvl lv
    by (simp add: extent_append_ref_def nth_append_length' numeral_2_eq_2 nt_set_extent_def list_update_append
        Let_def del: of_nat_Suc)
  moreover have "upper_ok c (look s) sid d n (SBlockExt (se\<lparr>se_curr := nd\<rparr>) # []) (EMPTY_ADDR # []) ([] @ xs) [r]"
    by (rule upper_ok_ConsI[OF nd(2)]) (use lk in simp_all)
  moreover have rf: "ext_refs (SBlockExt (se\<lparr>se_curr := nd\<rparr>)) = 1" using sbext_ok_refs[OF nd(2)] by simp
  moreover note grown_thin_new[of "SBlockExt (se\<lparr>se_curr := nd\<rparr>)"]
  ultimately show ?thesis using room ext resc by (simp add: appended_ref_def)
qed

lemma append_ref_ok:
  assumes "nt_extents t = pre @ post" and "length pre = Suc n" and "Suc n + length post < 65534"
    and "nt_rescue t = rs @ rps" and "length rs = Suc n" and "nt_id t = sid"
    and "upper_ok c (look s) sid d n post rps xs refs"
    and "subtree (look s) sid n r p ys" and "2 ^ (n - d) \<le> length ys"
    and "room (Suc (k + refs_total post)) s" and "length post < fuel"
  shows "\<exists>b t' s'. NBTreeExtentsList_append_ref fuel B r (t, s) = Some (b, t', s') \<and>
     appended_ref c sid d n pre (xs @ ys) refs r k (t, s) (t', s')"
  using assms
proof (induction post arbitrary: n pre rs rps t s xs refs r p ys k fuel)
  case Nil
  then obtain f where f: "fuel = Suc f" by (cases fuel) auto
  from Nil have nil: "xs = []" "refs = []" "rps = []" by auto
  with append_ref_new_level[of t n sid s r p ys d k f c] Nil f show ?case by auto
next
  case (Cons e es)
  from Cons.prems(11) obtain f where f: "fuel = Suc f" "length es < f" by (cases fuel) auto
  from Cons.prems(7) obtain se rp rps' xs1 xs2 refs' where
    u: "e = SBlockExt se" "rps = rp # rps'" "xs = xs1 @ xs2" "sbext_ok c (look s) sid d n se refs xs2"
    "upper_ok c (look s) sid d (Suc n) es rps' xs1 refs'"
    "linked c (look s) sid (Suc n) (se_fanout_index se) (se_last se) rp refs'"
    by (simp only: upper_ok.simps) blast
  have len: "length refs \<le> 32" using upper_ok_refs[OF Cons.prems(7)] .
  show ?case
  proof (cases "length refs = 32")
    case False
    with len have "length refs < 32" by simp
    from append_ref_fits[OF Cons.prems(1)[unfolded u(1)] Cons.prems(2) _ Cons.prems(4)[unfolded u(2)] Cons.prems(5)
        u(4-6) Cons.prems(8,9) this Cons.prems(10)[unfolded u(1)], of f] Cons.prems(3)
    show ?thesis unfolding f(1) u(3) by auto
  next
    case True
    have "\<exists>t' s'. NBTreeExtentsList_append_ref (Suc f) B r (t, s) = Some (True, t', s') \<and>
       appended_ref c sid d n pre ((xs1 @ xs2) @ ys) refs r k (t, s) (t', s')"
    proof (rule append_ref_overflow[OF Cons.prems(1)[unfolded u(1)] Cons.prems(2) _ Cons.prems(4)[unfolded u(2)]
          Cons.prems(5) u(4-6) Cons.prems(8,9) True Cons.prems(10)[unfolded u(1)]])
      show "Suc n < 65534" using Cons.prems(3) by simp
      fix t1 :: nbtree and s1 pl q
      assume e1: "\<exists>se1. nt_extents t1 = (pre @ [SBlockExt se1]) @ es"
        and r1: "nt_rescue t1 = nt_rescue t" "nt_id t1 = nt_id t" "upper_ok c (look s1) sid d (Suc n) es rps' xs1 refs'"
        "subtree (look s1) sid (Suc n) pl q xs2" "2 ^ (Suc n - d) \<le> length xs2" "room (Suc ((k + 31) + refs_total es)) s1"
      from e1 obtain se1 where e1: "nt_extents t1 = (pre @ [SBlockExt se1]) @ es" by blast
      have l1: "length (pre @ [SBlockExt se1]) = Suc (Suc n)" "Suc (Suc n) + length es < 65534" "length (rs @ [rp]) = Suc (Suc n)"
        "nt_rescue t1 = (rs @ [rp]) @ rps'" "nt_id t1 = sid"
        using Cons.prems(2-6) r1(1,2) u(2) by simp_all
      from Cons.IH[OF e1 l1(1,2,4,3,5) r1(3-6) f(2)] obtain b t2 s2 where
        "NBTreeExtentsList_append_ref f B pl (t1, s1) = Some (b, t2, s2)"
        "appended_ref c sid d (Suc n) (pre @ [SBlockExt se1]) (xs1 @ xs2) refs' pl (k + 31) (t1, s1) (t2, s2)" by blast
      moreover have "take (Suc (Suc n)) (nt_extents t1) = pre @ [SBlockExt se1]" using e1 l1(1) by simp
      ultimately show "\<exists>b t2 s2 pre1. length pre1 = Suc (Suc n) \<and> take (Suc (Suc n)) (nt_extents t1) = pre1 \<and>
          NBTreeExtentsList_append_ref f B pl (t1, s1) = Some (b, t2, s2) \<and>
          appended_ref c sid d (Suc n) pre1 (xs1 @ xs2) refs' pl (k + 31) (t1, s1) (t2, s2)"
        using l1(1) by blast
    qed
    then show ?thesis unfolding f(1) u(3) by auto
  qed
qed

lemma leaf_commit_eq:
  assumes "nt_extents t = LeafExt e # es"
    and "IOVecLeaf_commit B (le_leaf e) s = Some ((kOk, addr), l, s1)"
    and "init_subtree_from_leaf l INIT_SUBTREE_REF = Some (kOk, pl)"
    and "(if \<not> final \<or> unat (sr_level pl) + 1 < length (nt_rescue t)
          then app (pl\<lparr>sr_addr := addr\<rparr>) (nt_set_extent 0 (LeafExt (e\<lparr>le_leaf := l\<rparr>)) t, s1)
          else Some (False, nt_set_extent 0 (LeafExt (e\<lparr>le_leaf := l\<rparr>)) t, s1)) = Some (b, t2, s2)"
    and "next_sibling (le_fanout_index e) addr = (f, prev)"
    and "NBTreeLeafExtent_reset_leaf (e\<lparr>le_fanout_index := f, le_last := prev\<rparr>) = Some e'"
  shows "NBTreeLeafExtent_commit B app final (t, s) = Some ((b, addr), nt_set_extent 0 (LeafExt e') t2, s2)"
  using assms by (simp add: NBTreeLeafExtent_commit_def Let_def)

end

subsection \<open>The invariant of the tree\<close>

definition leafext_ok ::
  "bool \<Rightarrow> param_id \<Rightarrow> leaf_extent \<Rightarrow> sample list \<Rightarrow> bool" where
  "leafext_ok c sid e xs \<longleftrightarrow> le_id e = sid \<and> unat (le_fanout_index e) < 32 \<and>
     (\<exists>prev fan. leaf_view sid prev fan xs (le_leaf e) \<and> unat fan < 32 \<and> (c \<longrightarrow> prev = le_last e \<and> fan = le_fanout_index e))"

definition tree_parts ::
  "bool \<Rightarrow> (logic_addr \<Rightarrow> u8 list option) \<Rightarrow> param_id \<Rightarrow> nat \<Rightarrow> nbtree \<Rightarrow> leaf_extent \<Rightarrow> extent list \<Rightarrow>
   subtree_ref list \<Rightarrow> sample list \<Rightarrow> sample list \<Rightarrow> bool" where
  "tree_parts c look sid d t e es refs ys zs \<longleftrightarrow> nt_id t = sid \<and> nt_extents t = LeafExt e # es \<and> leafext_ok c sid e zs \<and>
     (\<exists>rp rps. nt_rescue t = rp # rps \<and> upper_ok c look sid d 0 es rps ys refs \<and>
        linked c look sid 0 (le_fanout_index e) (le_last e) rp refs)"

definition tree_ok ::
  "bool \<Rightarrow> (logic_addr \<Rightarrow> u8 list option) \<Rightarrow> param_id \<Rightarrow> nat \<Rightarrow> nbtree \<Rightarrow> sample list \<Rightarrow> bool" where
  "tree_ok c look sid d t xs \<longleftrightarrow>
     (nt_extents t = [] \<and> nt_rescue t = [] \<and> nt_id t = sid \<and> xs = []) \<or>
     (\<exists>e es refs ys zs. tree_parts c look sid d t e es refs ys zs \<and> xs = ys @ zs)"

lemma leafext_new:
  "\<exists>e. NBTreeLeafExtent_reset_leaf \<lparr>le_id = sid, le_last = prev, le_leaf = l, le_fanout_index = fan\<rparr> = Some e \<and>
     leaf_view sid prev fan [] (le_leaf e) \<and> \<not> leaf_full (le_leaf e) \<and> le_id e = sid \<and> le_last e = prev \<and> le_fanout_index e = fan"
  using leaf_new_ok[of sid prev fan] by (auto simp: NBTreeLeafExtent_reset_leaf_def)

lemma leafext_reset_ok:
  assumes "leafext_ok c sid e zs" and "unat f < 32"
  shows "\<exists>e'. NBTreeLeafExtent_reset_leaf (e\<lparr>le_fanout_index := f, le_last := prev\<rparr>) = Some e' \<and>
     leafext_ok c sid e' [] \<and> \<not> leaf_full (le_leaf e') \<and> le_fanout_index e' = f \<and> le_last e' = prev"
  using assms leafext_new[of sid prev "le_leaf e" f]
  by (cases e) (auto simp: leafext_ok_def)

lemma leafext_append_ok:
  assumes "leafext_ok c sid e zs"
  shows "\<exists>st l. IOVecLeaf_append ts x (le_leaf e) = Some (st, l) \<and>
     (if leaf_full (le_leaf e) then st = kOverflow \<and> leafext_ok c sid (e\<lparr>le_leaf := l\<rparr>) zs
      else st = kOk \<and> leafext_ok c sid (e\<lparr>le_leaf := l\<rparr>) (zs @ [(ts, x)]))"
proof -
  from assms obtain prev fan where v: "leaf_view sid prev fan zs (le_leaf e)"
    "c \<longrightarrow> prev = le_last e \<and> fan = le_fanout_index e" "le_id e = sid" "unat (le_fanout_index e) < 32 \<and> unat fan < 32"
    by (auto simp: leafext_ok_def)
  from leaf_append_ok[OF v(1), of ts x] obtain st l where
    "IOVecLeaf_append ts x (le_leaf e) = Some (st, l)"
    "if leaf_full (le_leaf e) then st = kOverflow \<and> leaf_view sid prev fan zs l \<and> leaf_full l
     else st = kOk \<and> leaf_view sid prev fan (zs @ [(ts, x)]) l" by blast
  with v(2-4) show ?thesis by (cases "leaf_full (le_leaf e)") (auto simp: leafext_ok_def)
qed

lemma leafext_full_length: "leafext_ok c sid e zs \<Longrightarrow> leaf_full (le_leaf e) \<Longrightarrow> 225 \<le> length zs"
  by (auto simp: leafext_ok_def dest: leaf_full_length)

lemma linked_link: "linked True look sid n fan prev rp refs \<Longrightarrow> node_link prev fan = prev"
  by (auto simp: linked_def node_link_def word_less_nat_alt unat_of_nat take_bit_nat_eq_self split: if_splits)

context durable_store
begin

lemma leafext_commit_node:
  assumes e: "leafext_ok c sid e xs" and lk: "linked c look' sid 0 (le_fanout_index e) (le_last e) rp refs"
    and ne: "xs \<noteq> []" and room: "room (Suc k) s"
  shows "\<exists>addr l s' pl p. IOVecLeaf_commit B (le_leaf e) s = Some ((kOk, addr), l, s') \<and> room k s' \<and>
     look s \<subseteq>\<^sub>m look s' \<and> addr \<noteq> EMPTY_ADDR \<and>
     init_subtree_from_leaf l INIT_SUBTREE_REF = Some (kOk, pl) \<and>
     subtree (look s') sid 0 (pl\<lparr>sr_addr := addr\<rparr>) p xs \<and> (c \<longrightarrow> p = le_last e)"
proof -
  from e obtain prev fan where v: "leaf_view sid prev fan xs (le_leaf e)"
    "c \<longrightarrow> prev = le_last e \<and> fan = le_fanout_index e" "unat fan < 32" by (auto simp: leafext_ok_def)
  from leaf_commit_ok[OF v(1) ne room, of INIT_SUBTREE_REF] obtain addr l s' bs where
    a: "IOVecLeaf_commit B (le_leaf e) s = Some ((kOk, addr), l, s')" "room k s'" "addr \<noteq> EMPTY_ADDR"
    "look s addr = None" "look s' = (look s)(addr \<mapsto> bs)" "leaf_image sid (node_link prev fan) fan xs bs"
    "init_subtree_from_leaf l INIT_SUBTREE_REF = Some (kOk, leaf_ref sid fan xs)" by blast
  have "subtree (look s') sid 0 ((leaf_ref sid fan xs)\<lparr>sr_addr := addr\<rparr>) (node_link prev fan) xs"
    using a(5,6) ne v(3) by auto
  moreover have "c \<longrightarrow> node_link prev fan = le_last e" using v(2) lk linked_link by auto
  moreover have "look s \<subseteq>\<^sub>m look s'" using a(4,5) by (auto simp: map_le_def)
  ultimately show ?thesis using a(1-3,7) by blast
qed

lemma tree_commit_leaf:
  assumes t: "tree_parts c (look s) sid d t e es refs ys zs" and ne: "zs \<noteq> []" and len: "length es < 65530"
    and room: "room (Suc (Suc (k + refs_total es))) s"
    and fin: "final \<longrightarrow> 1 < length (nt_rescue t)"
  shows "\<exists>b addr t' s' e' es' r. NBTreeLeafExtent_commit B (tree_append_ref B) final (t, s) = Some ((b, addr), t', s') \<and>
     nt_extents t' = LeafExt e' # es' \<and> \<not> leaf_full (le_leaf e') \<and> addr \<noteq> EMPTY_ADDR \<and>
     tree_parts c (look s') sid d (t'\<lparr>nt_rescue := (nt_rescue t')[0 := addr]\<rparr>) e' es'
       (if length refs = 32 then [r] else refs @ [r]) (ys @ zs) [] \<and>
     nt_rescue t' \<noteq> [] \<and> look s \<subseteq>\<^sub>m look s' \<and> room (k + refs_total es') s' \<and> nt_last t' = nt_last t \<and>
     nt_initialized t' = nt_initialized t \<and> nt_write_count t < nt_write_count t' \<and> length es \<le> length es' \<and>
     length es' \<le> Suc (length es)"
proof -
  from t obtain rp rps where
    p: "nt_id t = sid" "nt_extents t = LeafExt e # es" "leafext_ok c sid e zs" "nt_rescue t = rp # rps"
    "upper_ok c (look s) sid d 0 es rps ys refs" "linked c (look s) sid 0 (le_fanout_index e) (le_last e) rp refs"
    unfolding tree_parts_def by blast
  from leafext_commit_node[OF p(3,6) ne room] obtain addr l s1 pl q where
    cm: "IOVecLeaf_commit B (le_leaf e) s = Some ((kOk, addr), l, s1)" "room (Suc (k + refs_total es)) s1"
    "look s \<subseteq>\<^sub>m look s1" "addr \<noteq> EMPTY_ADDR" "init_subtree_from_leaf l INIT_SUBTREE_REF = Some (kOk, pl)"
    "subtree (look s1) sid 0 (pl\<lparr>sr_addr := addr\<rparr>) q zs" "c \<longrightarrow> q = le_last e" by blast
  let ?pl = "pl\<lparr>sr_addr := addr\<rparr>" and ?t1 = "nt_set_extent 0 (LeafExt (e\<lparr>le_leaf := l\<rparr>)) t"
  have x1: "nt_extents ?t1 = [LeafExt (e\<lparr>le_leaf := l\<rparr>)] @ es" "nt_rescue ?t1 = [rp] @ rps" "nt_id ?t1 = sid"
    using p(1,2,4) by (simp_all add: nt_set_extent_def)
  have w: "2 ^ (0 - d) \<le> length zs" using ne by (cases zs) auto
  have ln: "length [LeafExt (e\<lparr>le_leaf := l\<rparr>)] = Suc 0" "Suc 0 + length es < 65534" "length [rp] = Suc 0"
    "length es < length (nt_extents (fst (?t1, s1))) + 2" using len x1(1) by simp_all
  from append_ref_ok[OF x1(1) ln(1,2) x1(2) ln(3) x1(3) upper_ok_mono[OF p(5) cm(3)] cm(6) w cm(2) ln(4)]
  obtain b t2 s2 where a: "tree_append_ref B ?pl (?t1, s1) = Some (b, t2, s2)"
    "appended_ref c sid d 0 [LeafExt (e\<lparr>le_leaf := l\<rparr>)] (ys @ zs) refs ?pl k (?t1, s1) (t2, s2)"
    by (auto simp: tree_append_ref_def)
  let ?refs = "if length refs = 32 then [?pl] else refs @ [?pl]"
  from a(2) obtain es2 rps2 where
    x2: "nt_extents t2 = LeafExt (e\<lparr>le_leaf := l\<rparr>) # es2" "nt_rescue t2 = rp # rps2"
    "upper_ok c (look s2) sid d 0 es2 rps2 (ys @ zs) ?refs" "look s1 \<subseteq>\<^sub>m look s2"
    "room (k + refs_total es2) s2" "nt_id t2 = sid" "nt_last t2 = nt_last t"
    "nt_initialized t2 = nt_initialized t" "nt_write_count t < nt_write_count t2" "length es \<le> length es2"
    "length es2 \<le> Suc (length es)"
    using x1 p(2) by (auto simp: appended_ref_def nt_set_extent_def)
  have m2: "look s \<subseteq>\<^sub>m look s2" using cm(3) x2(4) by (rule map_le_trans)
  obtain f prev where nx: "next_sibling (le_fanout_index e) addr = (f, prev)" by (cases "next_sibling (le_fanout_index e) addr")
  have fan: "unat (le_fanout_index e) < 32" using p(3) by (simp add: leafext_ok_def)
  have "subtree (look s2) sid 0 ?pl (if c then le_last e else q) zs"
    using subtree_mono[OF cm(6) x2(4)] cm(7) by auto
  note lk = linked_next[OF linked_mono[OF p(6) m2] upper_ok_refs[OF p(5)] fan this _ cm(4) refl nx, simplified]
  from leafext_reset_ok[OF p(3) lk(2)] obtain e' where
    e': "NBTreeLeafExtent_reset_leaf (e\<lparr>le_fanout_index := f, le_last := prev\<rparr>) = Some e'" "leafext_ok c sid e' []"
    "\<not> leaf_full (le_leaf e')" "le_fanout_index e' = f" "le_last e' = prev" by blast
  have lv: "unat (sr_level pl) = 0" using subtree_level[OF cm(6)] by simp
  have "NBTreeLeafExtent_commit B (tree_append_ref B) final (t, s) = Some ((b, addr), nt_set_extent 0 (LeafExt e') t2, s2)"
    by (rule leaf_commit_eq[OF p(2) cm(1,5) _ nx e'(1)]) (use a(1) fin lv in auto)
  moreover have "tree_parts c (look s2) sid d ((nt_set_extent 0 (LeafExt e') t2)\<lparr>nt_rescue := (nt_rescue t2)[0 := addr]\<rparr>) e' es2 ?refs (ys @ zs) []"
    using x2 e' lk(1) by (simp add: tree_parts_def nt_set_extent_def)
  ultimately show ?thesis using x2 m2 e'(3) cm(4)
    by (intro exI[of _ b] exI[of _ addr] exI[of _ "nt_set_extent 0 (LeafExt e') t2"] exI[of _ s2] exI[of _ e'] exI[of _ es2] exI[of _ ?pl])
      (simp add: nt_set_extent_def)
qed

end

lemma tree_parts_set_leaf:
  assumes "tree_parts c look' sid d t e es refs ys zs" and "leafext_ok c sid (e\<lparr>le_leaf := l\<rparr>) zs'"
  shows "tree_parts c look' sid d (nt_set_extent 0 (LeafExt (e\<lparr>le_leaf := l\<rparr>)) t) (e\<lparr>le_leaf := l\<rparr>) es refs ys zs'"
  using assms by (auto simp: tree_parts_def nt_set_extent_def)

lemma leaf_append_fits:
  assumes "tree_parts c look' sid d t e es refs ys zs" and "\<not> leaf_full (le_leaf e)"
  shows "\<exists>l. NBTreeLeafExtent_append (Suc n) B app ts x (t, s) =
       Some ((False, EMPTY_ADDR), nt_set_extent 0 (LeafExt (e\<lparr>le_leaf := l\<rparr>)) t, s) \<and>
     leafext_ok c sid (e\<lparr>le_leaf := l\<rparr>) (zs @ [(ts, x)])"
proof -
  have e: "leafext_ok c sid e zs" "nt_extents t = LeafExt e # es" using assms(1) by (auto simp: tree_parts_def)
  from leafext_append_ok[OF e(1), of ts x] assms(2) obtain l where
    "IOVecLeaf_append ts x (le_leaf e) = Some (kOk, l)" "leafext_ok c sid (e\<lparr>le_leaf := l\<rparr>) (zs @ [(ts, x)])" by auto
  with e(2) show ?thesis by (auto simp: Let_def)
qed

text \<open>The number of blocks that \<open>k\<close> more appends may need: a full leaf has at least 225 samples,
  and it pays for its own block and for the reference that it leaves in the next level; thirty-two
  references pay for the node that holds them and for the reference to it.\<close>

definition leaf_count :: "nbtree \<Rightarrow> nat" where
  "leaf_count t = (case nt_extents t of
       LeafExt e # _ \<Rightarrow> (case IOVecLeaf_nelements (le_leaf e) of Some n \<Rightarrow> unat n | None \<Rightarrow> 0)
     | _ \<Rightarrow> 0)"

definition tree_need :: "nat \<Rightarrow> nbtree \<Rightarrow> nat" where
  "tree_need k t = 2 * ((k + leaf_count t) div 225) + refs_total (nt_extents t)"

lemma leaf_count_parts:
  assumes "tree_parts c look' sid d t e es refs ys zs"
  shows "leaf_count t = length zs"
proof -
  from assms obtain prev fan where v: "leaf_view sid prev fan zs (le_leaf e)" and e: "nt_extents t = LeafExt e # es"
    by (auto simp: tree_parts_def leafext_ok_def)
  have "length zs < 2 ^ 64" using leaf_length_bound[OF v] by simp
  then have "unat (of_nat (length zs) :: u64) = length zs" by (simp add: unat_of_nat take_bit_nat_eq_self)
  with leaf_nelements_view(1)[OF v] e show ?thesis by (simp add: leaf_count_def)
qed

lemma tree_need_parts:
  "tree_parts c look' sid d t e es refs ys zs \<Longrightarrow> tree_need k t = 2 * ((k + length zs) div 225) + refs_total es"
  by (simp add: tree_need_def leaf_count_parts) (simp add: tree_parts_def ext_refs_def)

context durable_store
begin

lemma leaf_append_ok_parts:
  assumes t: "tree_parts c (look s) sid d t e es refs ys zs" and len: "length es < 65530"
    and room: "room (tree_need (Suc k) t) s"
  shows "\<exists>b addr t' s' e' es' refs' ys' zs'. NBTreeLeafExtent_append 2 B (tree_append_ref B) ts x (t, s) = Some ((b, addr), t', s') \<and>
     (let t'' = (if addr \<noteq> EMPTY_ADDR then t'\<lparr>nt_rescue := (nt_rescue t')[0 := addr]\<rparr> else t')
      in tree_parts c (look s') sid d t'' e' es' refs' ys' zs' \<and> ys' @ zs' = ys @ zs @ [(ts, x)] \<and> zs' \<noteq> [] \<and> room (tree_need k t'') s') \<and>
     nt_rescue t' \<noteq> [] \<and> look s \<subseteq>\<^sub>m look s' \<and> nt_last t' = nt_last t \<and> nt_initialized t' = nt_initialized t \<and>
     nt_write_count t \<le> nt_write_count t'"
proof (cases "leaf_full (le_leaf e)")
  case False
  from leaf_append_fits[OF t False, of 1 B "tree_append_ref B" ts x s] obtain l where
    l: "NBTreeLeafExtent_append 2 B (tree_append_ref B) ts x (t, s) =
       Some ((False, EMPTY_ADDR), nt_set_extent 0 (LeafExt (e\<lparr>le_leaf := l\<rparr>)) t, s)"
    "leafext_ok c sid (e\<lparr>le_leaf := l\<rparr>) (zs @ [(ts, x)])" unfolding numeral_2_eq_2 One_nat_def by blast
  note t' = tree_parts_set_leaf[OF t l(2)]
  have "room (tree_need k (nt_set_extent 0 (LeafExt (e\<lparr>le_leaf := l\<rparr>)) t)) s"
    using room tree_need_parts[OF t, of "Suc k"] tree_need_parts[OF t', of k] by simp
  moreover have "nt_rescue t \<noteq> []" using t by (auto simp: tree_parts_def)
  ultimately show ?thesis using l(1) t'
    by (intro exI[of _ False] exI[of _ EMPTY_ADDR] exI[of _ "nt_set_extent 0 (LeafExt (e\<lparr>le_leaf := l\<rparr>)) t"] exI[of _ s]
        exI[of _ "e\<lparr>le_leaf := l\<rparr>"] exI[of _ es] exI[of _ refs] exI[of _ ys] exI[of _ "zs @ [(ts, x)]"])
      (simp add: nt_set_extent_def)
next
  case True
  have e: "leafext_ok c sid e zs" "nt_extents t = LeafExt e # es" using t by (auto simp: tree_parts_def)
  from leafext_append_ok[OF e(1), of ts x] True obtain l where
    l: "IOVecLeaf_append ts x (le_leaf e) = Some (kOverflow, l)" "leafext_ok c sid (e\<lparr>le_leaf := l\<rparr>) zs" by auto
  let ?t1 = "nt_set_extent 0 (LeafExt (e\<lparr>le_leaf := l\<rparr>)) t"
  have ge: "225 \<le> length zs" by (rule leafext_full_length[OF e(1) True])
  let ?k = "2 * (Suc k div 225)"
  have "(225 + Suc k) div 225 \<le> (Suc k + length zs) div 225" by (rule div_le_mono) (use ge in simp)
  then have "Suc (Suc ?k) \<le> 2 * ((Suc k + length zs) div 225)" using div_add_self1[of 225 "Suc k"] by linarith
  then have "Suc (Suc (?k + refs_total es)) \<le> tree_need (Suc k) t" using tree_need_parts[OF t, of "Suc k"] by linarith
  from room_le[OF room this] have room1: "room (Suc (Suc (?k + refs_total es))) s" .
  have ne: "zs \<noteq> []" using ge by auto
  from tree_commit_leaf[OF tree_parts_set_leaf[OF t l(2)] ne len room1, of False] obtain b addr t2 s2 e2 es2 r where
    c: "NBTreeLeafExtent_commit B (tree_append_ref B) False (?t1, s) = Some ((b, addr), t2, s2)"
    "nt_extents t2 = LeafExt e2 # es2" "\<not> leaf_full (le_leaf e2)" "addr \<noteq> EMPTY_ADDR"
    "tree_parts c (look s2) sid d (t2\<lparr>nt_rescue := (nt_rescue t2)[0 := addr]\<rparr>) e2 es2
       (if length refs = 32 then [r] else refs @ [r]) (ys @ zs) []"
    "nt_rescue t2 \<noteq> []" "look s \<subseteq>\<^sub>m look s2" "room (?k + refs_total es2) s2" "nt_last t2 = nt_last t"
    "nt_initialized t2 = nt_initialized t" "nt_write_count t < nt_write_count t2"
    by (auto simp: nt_set_extent_def)
  have e2: "leafext_ok c sid e2 []" using c(5) by (simp add: tree_parts_def)
  from leafext_append_ok[OF e2, of ts x] c(3) obtain l2 where
    l2: "IOVecLeaf_append ts x (le_leaf e2) = Some (kOk, l2)" "leafext_ok c sid (e2\<lparr>le_leaf := l2\<rparr>) [(ts, x)]" by auto
  let ?t3 = "nt_set_extent 0 (LeafExt (e2\<lparr>le_leaf := l2\<rparr>)) t2"
  have "NBTreeLeafExtent_append 2 B (tree_append_ref B) ts x (t, s) = Some ((b, addr), ?t3, s2)"
    unfolding numeral_2_eq_2 using e(2) l(1) c(1,2) l2(1) by (simp add: Let_def)
  moreover have t3: "tree_parts c (look s2) sid d (?t3\<lparr>nt_rescue := (nt_rescue ?t3)[0 := addr]\<rparr>) (e2\<lparr>le_leaf := l2\<rparr>) es2
       (if length refs = 32 then [r] else refs @ [r]) (ys @ zs) [(ts, x)]"
    using c(5) l2(2) by (auto simp: tree_parts_def nt_set_extent_def)
  moreover have "room (tree_need k (?t3\<lparr>nt_rescue := (nt_rescue ?t3)[0 := addr]\<rparr>)) s2"
    using c(8) tree_need_parts[OF t3, of k] by simp
  ultimately show ?thesis using c(4,6,7,9-11)
    by (intro exI[of _ b] exI[of _ addr] exI[of _ ?t3] exI[of _ s2] exI[of _ "e2\<lparr>le_leaf := l2\<rparr>"] exI[of _ es2]
        exI[of _ "if length refs = 32 then [r] else refs @ [r]"] exI[of _ "ys @ zs"] exI[of _ "[(ts, x)]"])
      (simp add: nt_set_extent_def Let_def)
qed

lemma tree_first_leaf:
  assumes "tree_ok c (look s) sid d t xs" and "nt_extents t = []"
  shows "\<exists>leaf. NBTreeLeafExtent_new B (nt_id t) EMPTY_ADDR s = Some leaf \<and>
     tree_parts c (look s) sid d (t\<lparr>nt_extents := [LeafExt leaf], nt_rescue := nt_rescue t @ [EMPTY_ADDR]\<rparr>) leaf [] [] [] [] \<and> xs = []"
proof -
  from assms have t: "nt_rescue t = []" "nt_id t = sid" "xs = []" by (auto simp: tree_ok_def tree_parts_def)
  from leaf_new_ok[of sid EMPTY_ADDR 0] obtain l where l: "IOVecLeaf_new sid EMPTY_ADDR 0 = Some l" "leaf_view sid EMPTY_ADDR 0 [] l" by blast
  let ?e = "\<lparr>le_id = sid, le_last = EMPTY_ADDR, le_leaf = l, le_fanout_index = 0\<rparr>"
  have "leafext_ok c sid ?e []" using l(2) by (simp add: leafext_ok_def) (intro exI[of _ EMPTY_ADDR] exI[of _ 0], simp)
  with t l(1) show ?thesis by (intro exI[of _ ?e]) (simp add: NBTreeLeafExtent_new_def tree_parts_def linked_def)
qed

lemma tree_append_ok:
  assumes t: "tree_ok c (look s) sid d t xs" and len: "length (nt_extents t) < 65530"
    and last: "\<not> (if dup then ts < nt_last t else ts \<le> nt_last t)" and room: "room (tree_need (Suc k) t) s"
  shows "\<exists>res t' s'. tree_append B ts x dup (t, s) = Some (res, t', s') \<and> (res = OK \<or> res = OK_FLUSH_NEEDED) \<and>
     tree_ok c (look s') sid d t' (xs @ [(ts, x)]) \<and> room (tree_need k t') s' \<and> look s \<subseteq>\<^sub>m look s' \<and>
     nt_last t' = ts \<and> nt_initialized t' = nt_initialized t \<and> 0 < nt_write_count t' \<and> nt_extents t' \<noteq> [] \<and> 0 < leaf_count t'"
proof -
  let ?t0 = "t\<lparr>nt_last := ts, nt_write_count := nt_write_count t + 1\<rparr>"
  let ?mk = "if length (nt_extents ?t0) = 0 then do {
      leaf \<leftarrow> NBTreeLeafExtent_new B (nt_id ?t0) EMPTY_ADDR s;
      Some (?t0\<lparr>nt_extents := [LeafExt leaf], nt_rescue := nt_rescue ?t0 @ [EMPTY_ADDR]\<rparr>) } else Some ?t0"
  have "\<exists>t1 e es refs ys zs. ?mk = Some t1 \<and> tree_parts c (look s) sid d t1 e es refs ys zs \<and> xs = ys @ zs \<and> length es < 65530 \<and>
      tree_need (Suc k) t1 \<le> tree_need (Suc k) t \<and> nt_last t1 = ts \<and> nt_initialized t1 = nt_initialized t \<and> 0 < nt_write_count t1"
  proof (cases "nt_extents t = []")
    case True
    have "tree_ok c (look s) sid d ?t0 xs" using t by (simp add: tree_ok_def tree_parts_def)
    from tree_first_leaf[OF this] True obtain leaf where
      l: "NBTreeLeafExtent_new B (nt_id t) EMPTY_ADDR s = Some leaf"
      "tree_parts c (look s) sid d (?t0\<lparr>nt_extents := [LeafExt leaf], nt_rescue := nt_rescue t @ [EMPTY_ADDR]\<rparr>) leaf [] [] [] []" "xs = []" by auto
    have "tree_need (Suc k) (?t0\<lparr>nt_extents := [LeafExt leaf], nt_rescue := nt_rescue t @ [EMPTY_ADDR]\<rparr>) \<le> tree_need (Suc k) t"
      using tree_need_parts[OF l(2), of "Suc k"] True by (simp add: tree_need_def leaf_count_def)
    with True l show ?thesis by fastforce
  next
    case False
    with t obtain e es refs ys zs where p: "tree_parts c (look s) sid d t e es refs ys zs" "xs = ys @ zs" by (auto simp: tree_ok_def)
    then have "tree_parts c (look s) sid d ?t0 e es refs ys zs" by (simp add: tree_parts_def)
    moreover have "tree_need (Suc k) ?t0 = tree_need (Suc k) t" by (simp add: tree_need_def leaf_count_def)
    moreover have "length es < 65530" using p(1) len by (simp add: tree_parts_def)
    ultimately show ?thesis using False p(2) by (intro exI[of _ ?t0] exI[of _ e] exI[of _ es] exI[of _ refs] exI[of _ ys] exI[of _ zs]) simp
  qed
  then obtain t1 e es refs ys zs where t1: "?mk = Some t1" "tree_parts c (look s) sid d t1 e es refs ys zs" "xs = ys @ zs"
    "length es < 65530" "tree_need (Suc k) t1 \<le> tree_need (Suc k) t" "nt_last t1 = ts"
    "nt_initialized t1 = nt_initialized t" "0 < nt_write_count t1" by blast
  from leaf_append_ok_parts[OF t1(2,4) room_le[OF room t1(5)], of ts x] obtain b addr t2 s2 e2 es2 refs2 ys2 zs2 where
    a: "NBTreeLeafExtent_append 2 B (tree_append_ref B) ts x (t1, s) = Some ((b, addr), t2, s2)"
    "let t'' = (if addr \<noteq> EMPTY_ADDR then t2\<lparr>nt_rescue := (nt_rescue t2)[0 := addr]\<rparr> else t2)
      in tree_parts c (look s2) sid d t'' e2 es2 refs2 ys2 zs2 \<and> ys2 @ zs2 = ys @ zs @ [(ts, x)] \<and> zs2 \<noteq> [] \<and> room (tree_need k t'') s2"
    "nt_rescue t2 \<noteq> []" "look s \<subseteq>\<^sub>m look s2" "nt_last t2 = ts" "nt_initialized t2 = nt_initialized t" "0 < nt_write_count t2"
    using t1(6-8) by force
  let ?t3 = "if addr \<noteq> EMPTY_ADDR then t2\<lparr>nt_rescue := (nt_rescue t2)[0 := addr]\<rparr> else t2"
  have "tree_append B ts x dup (t, s) = Some (if addr \<noteq> EMPTY_ADDR then OK_FLUSH_NEEDED else OK, ?t3, s2)"
    by (simp only: tree_append_def prod.case if_not_P[OF last] Let_def t1(1) Option.bind.simps a(1)) (use a(3) in simp)
  moreover have p3: "tree_parts c (look s2) sid d ?t3 e2 es2 refs2 ys2 zs2" "ys2 @ zs2 = xs @ [(ts, x)]"
    "room (tree_need k ?t3) s2" "zs2 \<noteq> []" using a(2) t1(3) by (simp_all add: Let_def)
  moreover have "tree_ok c (look s2) sid d ?t3 (xs @ [(ts, x)])" using p3(1,2) unfolding tree_ok_def by metis
  moreover have "nt_extents ?t3 \<noteq> []" using p3(1) by (simp add: tree_parts_def)
  moreover have "0 < leaf_count ?t3" using leaf_count_parts[OF p3(1)] p3(4) by simp
  ultimately show ?thesis using a(4-7) by (intro exI[of _ "if addr \<noteq> EMPTY_ADDR then OK_FLUSH_NEEDED else OK"] exI[of _ ?t3] exI[of _ s2]) auto
qed

end

subsection \<open>Height\<close>

lemma upper_ok_height:
  "upper_ok c look sid d n es rps xs refs \<Longrightarrow> es \<noteq> [] \<Longrightarrow> 2 ^ (n + length es - 1 - d) \<le> length xs"
proof (induction es arbitrary: n rps xs refs)
  case (Cons e es)
  from Cons.prems(1) obtain se rps' ys zs refs' where
    u: "xs = ys @ zs" "sbext_ok c look sid d n se refs zs" "upper_ok c look sid d (Suc n) es rps' ys refs'"
    "es = [] \<longrightarrow> refs \<noteq> []" by (simp only: upper_ok.simps) blast
  show ?case
  proof (cases "es = []")
    case True
    with u(4) have "1 \<le> length refs" by (cases refs) auto
    then have "1 * 2 ^ (n - d) \<le> length refs * 2 ^ (n - d)" by (rule mult_le_mono1)
    also have "\<dots> \<le> length zs" using children_length[of look sid d n refs zs] u(2) by (simp add: sbext_ok_def)
    finally show ?thesis using True u(1) by simp
  next
    case False
    from Cons.IH[OF u(3) False] u(1) show ?thesis by simp
  qed
qed simp

text \<open>A tree that holds fewer than \<open>2 ^ b\<close> samples has at most \<open>b + d + 1\<close> levels.\<close>

lemma tree_height:
  assumes "tree_ok c look sid d t xs" and "length xs < 2 ^ b"
  shows "length (nt_extents t) \<le> b + d + 1"
proof (rule ccontr)
  assume h: "\<not> ?thesis"
  with assms(1) obtain e es refs ys zs where p: "tree_parts c look sid d t e es refs ys zs" "xs = ys @ zs"
    by (auto simp: tree_ok_def)
  then obtain rps where u: "upper_ok c look sid d 0 es rps ys refs" and e: "nt_extents t = LeafExt e # es"
    by (auto simp: tree_parts_def)
  have es: "b + d + 1 \<le> length es" using h e by simp
  then have "es \<noteq> []" by auto
  from upper_ok_height[OF u this] have "2 ^ (length es - 1 - d) \<le> length xs" using p(2) by simp
  moreover have "(2::nat) ^ b \<le> 2 ^ (length es - 1 - d)" by (rule power_increasing) (use es in simp_all)
  ultimately show False using assms(2) by linarith
qed

end
