(* ===== verification/Operators.thy ===== *)
theory Operators
  imports SubtreeRefs
begin

text \<open>
  \<^verbatim>\<open>storage/operators/operator.h\<close> and \<^verbatim>\<open>operator.cc\<close>: the result of an aggregation, the filter
  on values that the tree evaluates on single samples and, through \<open>get_overlap\<close>, on the
  aggregates of a whole node, and the filter on aggregates.
\<close>

subsection \<open>More arithmetic on doubles\<close>

definition dbl_minus :: "double_bits \<Rightarrow> double_bits" where
  "dbl_minus x = x XOR 0x8000000000000000"

definition dbl_sub :: "double_bits \<Rightarrow> double_bits \<Rightarrow> double_bits" where
  "dbl_sub x y = dbl_add x (dbl_minus y)"

text \<open>The conversion of an unsigned integer to \<open>double\<close>.\<close>

definition dbl_of_nat :: "nat \<Rightarrow> double_bits" where
  "dbl_of_nat n = of_nat (dbl_round (n * 2 ^ 1074))"

text \<open>\<open>std::min\<close> and \<open>std::max\<close> on doubles.\<close>

definition std_min :: "double_bits \<Rightarrow> double_bits \<Rightarrow> double_bits" where
  "std_min a b = (if dbl_lt b a then b else a)"

definition std_max :: "double_bits \<Rightarrow> double_bits \<Rightarrow> double_bits" where
  "std_max a b = (if dbl_lt a b then b else a)"

subsection \<open>AggregationResult\<close>

record aggregation_result =
  ar_cnt :: double_bits
  ar_sum :: double_bits
  ar_min :: double_bits
  ar_max :: double_bits
  ar_first :: double_bits
  ar_last :: double_bits
  ar_mints :: timestamp
  ar_maxts :: timestamp
  ar_begin :: timestamp
  ar_end :: timestamp

definition INIT_AGGRES :: aggregation_result where
  "INIT_AGGRES = \<lparr>ar_cnt = 0, ar_sum = 0, ar_min = dbl_max, ar_max = dbl_lowest, ar_first = 0,
     ar_last = 0, ar_mints = 0xFFFFFFFFFFFFFFFF, ar_maxts = 0, ar_begin = 0xFFFFFFFFFFFFFFFF, ar_end = 0\<rparr>"

definition AggregationResult_copy_from :: "subtree_ref \<Rightarrow> aggregation_result" where
  "AggregationResult_copy_from r =
     \<lparr>ar_cnt = dbl_of_nat (unat (sr_count r)), ar_sum = sr_sum r, ar_min = sr_min r, ar_max = sr_max r,
      ar_first = sr_first r, ar_last = sr_last r, ar_mints = sr_min_time r, ar_maxts = sr_max_time r,
      ar_begin = sr_begin r, ar_end = sr_end r\<rparr>"

definition agg_extrema :: "timestamp \<Rightarrow> double_bits \<Rightarrow> aggregation_result \<Rightarrow> aggregation_result" where
  "agg_extrema ts xs r =
     (let r = r\<lparr>ar_sum := dbl_add (ar_sum r) xs\<rparr>;
          r = (if dbl_lt xs (ar_min r) then r\<lparr>ar_min := xs, ar_mints := ts\<rparr> else r)
      in if dbl_lt (ar_max r) xs then r\<lparr>ar_max := xs, ar_maxts := ts\<rparr> else r)"

definition AggregationResult_do_the_math ::
  "(timestamp \<times> double_bits) list \<Rightarrow> bool \<Rightarrow> aggregation_result \<Rightarrow> aggregation_result option" where
  "AggregationResult_do_the_math xs inverted r =
     (if xs = [] then None
      else
        let r = r\<lparr>ar_cnt := dbl_add (ar_cnt r) (dbl_of_nat (length xs))\<rparr>;
            r = foldl (\<lambda>r (ts, x). agg_extrema ts x r) r xs;
            (f, l) = (if \<not> inverted then (hd xs, last xs) else (last xs, hd xs))
        in Some (r\<lparr>ar_first := snd f, ar_last := snd l, ar_begin := fst f, ar_end := fst l\<rparr>))"

definition AggregationResult_add ::
  "timestamp \<Rightarrow> double_bits \<Rightarrow> bool \<Rightarrow> aggregation_result \<Rightarrow> aggregation_result" where
  "AggregationResult_add ts xs forward r =
     (let r = agg_extrema ts xs r;
          r = (if dbl_eq (ar_cnt r) 0
               then if forward then r\<lparr>ar_first := xs, ar_begin := ts\<rparr> else r\<lparr>ar_last := xs, ar_end := ts\<rparr>
               else r);
          r = (if forward then r\<lparr>ar_last := xs, ar_end := ts\<rparr> else r\<lparr>ar_first := xs, ar_begin := ts\<rparr>)
      in r\<lparr>ar_cnt := dbl_add (ar_cnt r) (dbl_of_nat 1)\<rparr>)"

definition AggregationResult_combine ::
  "aggregation_result \<Rightarrow> aggregation_result \<Rightarrow> aggregation_result" where
  "AggregationResult_combine other r =
     (let r = r\<lparr>ar_sum := dbl_add (ar_sum r) (ar_sum other), ar_cnt := dbl_add (ar_cnt r) (ar_cnt other)\<rparr>;
          r = (if dbl_lt (ar_min other) (ar_min r) then r\<lparr>ar_min := ar_min other, ar_mints := ar_mints other\<rparr> else r);
          r = (if dbl_lt (ar_max r) (ar_max other) then r\<lparr>ar_max := ar_max other, ar_maxts := ar_maxts other\<rparr> else r);
          r = (if ar_begin other < ar_begin r then r\<lparr>ar_first := ar_first other, ar_begin := ar_begin other\<rparr> else r)
      in if ar_end r < ar_end other then r\<lparr>ar_last := ar_last other, ar_end := ar_end other\<rparr> else r)"

subsection \<open>ValueFilter\<close>

datatype range_overlap = NO_OVERLAP | FULL_OVERLAP | PARTIAL_OVERLAP

text \<open>The enumeration \<open>LT\<close>, \<open>LE\<close>, \<open>GT\<close>, \<open>GE\<close> numbers the bits of the mask and the thresholds.\<close>

abbreviation (input) vf_LT :: nat where "vf_LT \<equiv> 0"
abbreviation (input) vf_LE :: nat where "vf_LE \<equiv> 1"
abbreviation (input) vf_GT :: nat where "vf_GT \<equiv> 2"
abbreviation (input) vf_GE :: nat where "vf_GE \<equiv> 3"

record value_filter =
  vf_mask :: u32
  vf_thresholds :: "double_bits list"

definition ValueFilter_new :: value_filter where
  "ValueFilter_new = \<lparr>vf_mask = 0, vf_thresholds = [0, 0, 0, 0]\<rparr>"

definition vf_set :: "nat \<Rightarrow> double_bits \<Rightarrow> value_filter \<Rightarrow> value_filter" where
  "vf_set i value f = f\<lparr>vf_mask := vf_mask f OR push_bit i 1, vf_thresholds := (vf_thresholds f)[i := value]\<rparr>"

definition ValueFilter_less_than :: "double_bits \<Rightarrow> value_filter \<Rightarrow> value_filter" where
  "ValueFilter_less_than value f = vf_set vf_LT value f"

definition ValueFilter_less_or_equal :: "double_bits \<Rightarrow> value_filter \<Rightarrow> value_filter" where
  "ValueFilter_less_or_equal value f = vf_set vf_LE value f"

definition ValueFilter_greater_than :: "double_bits \<Rightarrow> value_filter \<Rightarrow> value_filter" where
  "ValueFilter_greater_than value f = vf_set vf_GT value f"

definition ValueFilter_greater_or_equal :: "double_bits \<Rightarrow> value_filter \<Rightarrow> value_filter" where
  "ValueFilter_greater_or_equal value f = vf_set vf_GE value f"

definition ValueFilter_match :: "double_bits \<Rightarrow> value_filter \<Rightarrow> bool" where
  "ValueFilter_match value f =
     (let result = True;
          result = (if bit (vf_mask f) vf_LT then result \<and> dbl_lt value (vf_thresholds f ! vf_LT)
                    else if bit (vf_mask f) vf_LE then result \<and> dbl_le value (vf_thresholds f ! vf_LE)
                    else result)
      in if bit (vf_mask f) vf_GT then result \<and> dbl_lt (vf_thresholds f ! vf_GT) value
         else if bit (vf_mask f) vf_GE then result \<and> dbl_le (vf_thresholds f ! vf_GE) value
         else result)"

text \<open>\<open>__builtin_popcount\<close>.\<close>

definition ValueFilter_get_rank :: "value_filter \<Rightarrow> nat" where
  "ValueFilter_get_rank f = length (filter (bit (vf_mask f)) [0..<32])"

definition vf_hi :: "value_filter \<Rightarrow> double_bits" where
  "vf_hi f = (if bit (vf_mask f) vf_LT then vf_thresholds f ! vf_LT else vf_thresholds f ! vf_LE)"

definition vf_lo :: "value_filter \<Rightarrow> double_bits" where
  "vf_lo f = (if bit (vf_mask f) vf_GT then vf_thresholds f ! vf_GT else vf_thresholds f ! vf_GE)"

definition ValueFilter_is_ordered :: "value_filter \<Rightarrow> bool" where
  "ValueFilter_is_ordered f = (if ValueFilter_get_rank f = 2 then dbl_lt (vf_lo f) (vf_hi f) else True)"

definition ValueFilter_get_overlap :: "subtree_ref \<Rightarrow> value_filter \<Rightarrow> range_overlap" where
  "ValueFilter_get_overlap ref f =
     (if ValueFilter_get_rank f < 2 then
        let b = ValueFilter_match (sr_min ref) f; e = ValueFilter_match (sr_max ref) f
        in if b \<and> e then FULL_OVERLAP else if b \<or> e then PARTIAL_OVERLAP else NO_OVERLAP
      else
        let hi = vf_hi f; lo = vf_lo f;
            mn = std_min (sr_min ref) lo; mx = std_max (sr_max ref) hi;
            w1 = dbl_sub (sr_max ref) (sr_min ref); w2 = dbl_sub hi lo;
            inclusive = (bit (vf_mask f) vf_LE \<and> bit (vf_mask f) vf_GE);
            overlap = (if inclusive then dbl_le (dbl_sub mx mn) (dbl_add w1 w2)
                       else dbl_lt (dbl_sub mx mn) (dbl_add w1 w2))
        in if overlap
           then if ValueFilter_match (sr_min ref) f \<and> ValueFilter_match (sr_max ref) f then FULL_OVERLAP
                else PARTIAL_OVERLAP
           else NO_OVERLAP)"

definition ValueFilter_validate :: "value_filter \<Rightarrow> bool" where
  "ValueFilter_validate f =
     (if vf_mask f = 0 then False
      else if bit (vf_mask f) vf_LT \<and> bit (vf_mask f) vf_LE then False
      else if bit (vf_mask f) vf_GT \<and> bit (vf_mask f) vf_GE then False
      else ValueFilter_is_ordered f)"

end
