(* ===== verification/NBIter.thy ===== *)
theory NBIter
  imports NBExtents Operators
begin

text \<open>
  The read path of the tree, \<^verbatim>\<open>storage/nbtree.cc\<close> and \<^verbatim>\<open>operators/scan.cc\<close>: the iterators over a
  leaf, over the subtree of an inner node and over a chain of iterators, plain and filtering, and
  the \<open>search\<close> and \<open>filter\<close> methods that build them.  An output array with its length is the list
  of the elements written to it; a pair of arrays written in lockstep is a list of pairs.
\<close>

type_synonym real_sample = "timestamp \<times> double_bits"

subsection \<open>Ordered search\<close>

text \<open>\<open>std::lower_bound\<close> and \<open>std::upper_bound\<close> on an ordered range, as an offset.\<close>

definition lower_bound :: "timestamp list \<Rightarrow> timestamp \<Rightarrow> nat" where
  "lower_bound ts x = length (takeWhile (\<lambda>t. t < x) ts)"

definition upper_bound :: "timestamp list \<Rightarrow> timestamp \<Rightarrow> nat" where
  "upper_bound ts x = length (takeWhile (\<lambda>t. t \<le> x) ts)"

datatype direction = FORWARD | BACKWARD

definition op_direction :: "timestamp \<Rightarrow> timestamp \<Rightarrow> direction" where
  "op_direction b e = (if b < e then FORWARD else BACKWARD)"

subsection \<open>NBTreeLeafIterator\<close>

record leaf_iterator =
  li_begin :: timestamp
  li_end :: timestamp
  li_buf :: "real_sample list"
  li_from :: int
  li_to :: int
  li_status :: status

definition NBTreeLeafIterator_delayed :: "timestamp \<Rightarrow> timestamp \<Rightarrow> leaf_iterator" where
  "NBTreeLeafIterator_delayed b e =
     \<lparr>li_begin = b, li_end = e, li_buf = [], li_from = 0, li_to = 0, li_status = kNoData\<rparr>"

text \<open>The first position of the forward direction, shared with the filter; the assertion reads
  the front of the buffer.\<close>

definition leaf_fwd_from :: "timestamp list \<Rightarrow> timestamp \<Rightarrow> nat option" where
  "leaf_fwd_from ts b =
     (let it_begin = lower_bound ts b
      in if it_begin \<noteq> length ts then Some it_begin
         else do { front \<leftarrow> at ts 0; if b < front then Some 0 else None })"

definition NBTreeLeafIterator_init :: "iovec_leaf \<Rightarrow> leaf_iterator \<Rightarrow> leaf_iterator option" where
  "NBTreeLeafIterator_init node it =
     do {
       let mn = min (li_begin it) (li_end it);
       let mx = max (li_begin it) (li_end it);
       (nb, ne) \<leftarrow> IOVecLeaf_get_timestamps node;
       if mx < nb \<or> ne < mn then Some (it\<lparr>li_status := kNoData\<rparr>)
       else do {
         (st, buf) \<leftarrow> IOVecLeaf_read_all node;
         let it = it\<lparr>li_status := st, li_buf := buf\<rparr>;
         let ts = map fst buf;
         if \<not> IsOk st then Some it
         else if li_begin it < li_end it then do {
           from \<leftarrow> leaf_fwd_from ts (li_begin it);
           Some (it\<lparr>li_from := int from, li_to := int (lower_bound ts (li_end it))\<rparr>) }
         else
           Some (it\<lparr>li_from := int (length ts - upper_bound ts (li_begin it)),
                    li_to := int (length ts - upper_bound ts (li_end it)), li_buf := rev buf\<rparr>) } }"

definition NBTreeLeafIterator_new :: "timestamp \<Rightarrow> timestamp \<Rightarrow> iovec_leaf \<Rightarrow> leaf_iterator option" where
  "NBTreeLeafIterator_new b e node = NBTreeLeafIterator_init node (NBTreeLeafIterator_delayed b e)"

definition NBTreeLeafIterator_get_size :: "leaf_iterator \<Rightarrow> nat option" where
  "NBTreeLeafIterator_get_size it = (if li_from it \<le> li_to it then Some (nat (li_to it - li_from it)) else None)"

definition NBTreeLeafIterator_read ::
  "nat \<Rightarrow> leaf_iterator \<Rightarrow> ((status \<times> real_sample list) \<times> leaf_iterator) option" where
  "NBTreeLeafIterator_read sz it =
     (if \<not> IsOk (li_status it) then Some ((li_status it, []), it)
      else
        let toread = li_to it - li_from it;
            toread = (if int sz < toread then int sz else toread)
        in if toread = 0 then Some ((kNoData, []), it)
           else if toread < 0 then None
           else Some ((kOk, take (nat toread) (drop (nat (li_from it)) (li_buf it))),
                      it\<lparr>li_from := li_from it + toread\<rparr>))"

subsection \<open>NBTreeLeafFilter\<close>

record leaf_filter =
  lft_begin :: timestamp
  lft_end :: timestamp
  lft_buf :: "real_sample list"
  lft_status :: status
  lft_filter :: value_filter
  lft_pos :: nat

text \<open>The loops over the index: \<open>from \<dots> to - 1\<close> upwards and \<open>from \<dots> to\<close> downwards.\<close>

definition filter_fwd :: "value_filter \<Rightarrow> real_sample list \<Rightarrow> nat \<Rightarrow> nat \<Rightarrow> real_sample list" where
  "filter_fwd f xs from to = filter (\<lambda>x. ValueFilter_match (snd x) f) (map (nth xs) [from..<to])"

definition filter_bwd :: "value_filter \<Rightarrow> real_sample list \<Rightarrow> int \<Rightarrow> int \<Rightarrow> real_sample list" where
  "filter_bwd f xs from to = filter (\<lambda>x. ValueFilter_match (snd x) f) (map (\<lambda>ix. xs ! nat ix) (rev [to..from]))"

definition NBTreeLeafFilter_init :: "iovec_leaf \<Rightarrow> leaf_filter \<Rightarrow> leaf_filter option" where
  "NBTreeLeafFilter_init node it =
     do {
       let mn = min (lft_begin it) (lft_end it);
       let mx = max (lft_begin it) (lft_end it);
       (nb, ne) \<leftarrow> IOVecLeaf_get_timestamps node;
       if mx < nb \<or> ne < mn then Some (it\<lparr>lft_status := kNoData\<rparr>)
       else do {
         (st, xs) \<leftarrow> IOVecLeaf_read_all node;
         let it = it\<lparr>lft_status := st\<rparr>;
         let ts = map fst xs;
         if \<not> IsOk st then Some it
         else if lft_begin it < lft_end it then do {
           from \<leftarrow> leaf_fwd_from ts (lft_begin it);
           let to = lower_bound ts (lft_end it);
           Some (it\<lparr>lft_buf := lft_buf it @ filter_fwd (lft_filter it) xs from to\<rparr>) }
         else do {
           let it_begin = lower_bound ts (lft_begin it);
           let from = (if it_begin \<noteq> length ts then int it_begin else int (length ts) - 1);
           let to = int (upper_bound ts (lft_end it));
           Some (it\<lparr>lft_buf := lft_buf it @ filter_bwd (lft_filter it) xs from to\<rparr>) } } }"

definition NBTreeLeafFilter_new ::
  "timestamp \<Rightarrow> timestamp \<Rightarrow> value_filter \<Rightarrow> iovec_leaf \<Rightarrow> leaf_filter option" where
  "NBTreeLeafFilter_new b e f node =
     NBTreeLeafFilter_init node
       \<lparr>lft_begin = b, lft_end = e, lft_buf = [], lft_status = kNoData, lft_filter = f, lft_pos = 0\<rparr>"

definition NBTreeLeafFilter_read ::
  "nat \<Rightarrow> leaf_filter \<Rightarrow> ((status \<times> real_sample list) \<times> leaf_filter) option" where
  "NBTreeLeafFilter_read sz it =
     (if \<not> IsOk (lft_status it) then Some ((lft_status it, []), it)
      else
        let toread = int (length (lft_buf it)) - int (lft_pos it);
            toread = (if int sz < toread then int sz else toread)
        in if toread = 0 then Some ((kNoData, []), it)
           else if toread < 0 then None
           else Some ((kOk, take (nat toread) (drop (lft_pos it) (lft_buf it))),
                      it\<lparr>lft_pos := lft_pos it + nat toread\<rparr>))"

subsection \<open>NBTreeSBlockIteratorBase\<close>

text \<open>The base class is a template in the value type and has two virtual methods; \<open>'i\<close> is the type
  of the iterators that they make.  \<open>'e\<close> is state that an iterator shares with its parent.\<close>

datatype 'i sblock_iter = SBlockIter
  (sbi_begin: timestamp) (sbi_end: timestamp) (sbi_addr: logic_addr) (sbi_refs: "subtree_ref list")
  (sbi_iter: "'i option") (sbi_fsm_pos: nat) (sbi_refs_pos: int)

definition subtree_in_range :: "subtree_ref \<Rightarrow> timestamp \<Rightarrow> timestamp \<Rightarrow> bool" where
  "subtree_in_range ref b e = (if sr_end ref < b \<or> e < sr_begin ref then False else True)"

definition NBTreeSBlockIterator_at :: "logic_addr \<Rightarrow> timestamp \<Rightarrow> timestamp \<Rightarrow> 'i sblock_iter" where
  "NBTreeSBlockIterator_at addr b e = SBlockIter b e addr [] None 0 0"

definition NBTreeSBlockIterator_of :: "iovec_superblock \<Rightarrow> timestamp \<Rightarrow> timestamp \<Rightarrow> 'i sblock_iter option" where
  "NBTreeSBlockIterator_of sblock b e =
     do {
       (st, refs) \<leftarrow> IOVecSuperblock_read_all sblock;
       let pos = (if \<not> IsOk st then (if b < e then int (length refs) else - 1)
                  else (if b < e then 0 else int (length refs) - 1));
       Some (SBlockIter b e EMPTY_ADDR refs None 1 pos) }"

definition NBTreeSBlockIterator_init ::
  "'s bstore \<Rightarrow> 's \<Rightarrow> 'i sblock_iter \<Rightarrow> (status \<times> 'i sblock_iter) option" where
  "NBTreeSBlockIterator_init B s it =
     do {
       (st, block) \<leftarrow> read_and_check B (sbi_addr it) s;
       if \<not> IsOk st then Some (st, it)
       else do {
         b \<leftarrow> block;
         current \<leftarrow> IOVecSuperblock_of_block b;
         (st, refs) \<leftarrow> IOVecSuperblock_read_all current;
         let refs = sbi_refs it @ refs;
         let pos = (if sbi_begin it < sbi_end it then 0 else int (length refs) - 1);
         Some (st, SBlockIter (sbi_begin it) (sbi_end it) (sbi_addr it) refs (sbi_iter it) (sbi_fsm_pos it) pos) } }"

text \<open>\<open>mk_leaf\<close> and \<open>mk_sblock\<close> are \<open>make_leaf_iterator\<close> and \<open>make_superblock_iterator\<close>.\<close>

definition sbi_open ::
  "'s bstore \<Rightarrow> (subtree_ref \<Rightarrow> 'e \<Rightarrow> ((status \<times> 'i option) \<times> 'e) option) \<Rightarrow>
   (subtree_ref \<Rightarrow> 'e \<Rightarrow> ((status \<times> 'i option) \<times> 'e) option) \<Rightarrow> 's \<Rightarrow> timestamp \<Rightarrow> timestamp \<Rightarrow>
   subtree_ref \<Rightarrow> 'e \<Rightarrow> ((status \<times> 'i option) \<times> 'e) option" where
  "sbi_open B mk_leaf mk_sblock s mn mx ref e =
     do {
       ex \<leftarrow> bs_exists B (sr_addr ref) s;
       if \<not> ex then Some ((kUnavailable, None), e)
       else if \<not> subtree_in_range ref mn mx then Some ((kNotFound, None), e)
       else if sr_type ref = LEAF then mk_leaf ref e
       else mk_sblock ref e }"

definition get_next_iter ::
  "(subtree_ref \<Rightarrow> 'e \<Rightarrow> ((status \<times> 'i option) \<times> 'e) option) \<Rightarrow> direction \<Rightarrow> subtree_ref list \<Rightarrow>
   int \<Rightarrow> 'e \<Rightarrow> ((status \<times> 'i option) \<times> int \<times> 'e) option" where
  "get_next_iter opn dir refs pos e =
     (if dir = FORWARD then
        if pos = int (length refs) then Some ((kNoData, None), pos, e)
        else do {
          ref \<leftarrow> (if pos < 0 then None else at refs (nat pos));
          (r, e) \<leftarrow> opn ref e;
          Some (r, pos + 1, e) }
      else
        if pos < 0 then Some ((kNoData, None), pos, e)
        else do {
          ref \<leftarrow> at refs (nat pos);
          (r, e) \<leftarrow> opn ref e;
          Some (r, pos - 1, e) })"

text \<open>One round of the loop of \<open>iter\<close>; the result says whether the loop goes on.  The state is the
  status, the elements written, the open iterator, the cursor and the shared state.\<close>

type_synonym ('v, 'i, 'e) iter_state = "status \<times> 'v list \<times> 'i option \<times> int \<times> 'e"

definition iter_draw ::
  "('i \<Rightarrow> nat \<Rightarrow> 'e \<Rightarrow> ((status \<times> 'v list) \<times> 'i \<times> 'e) option) \<Rightarrow> direction \<Rightarrow> nat \<Rightarrow> 'v list \<Rightarrow>
   'i \<Rightarrow> int \<Rightarrow> 'e \<Rightarrow> (bool \<times> ('v, 'i, 'e) iter_state) option" where
  "iter_draw rd dir sz out i pos e =
     do {
       ((st, xs), i, e) \<leftarrow> rd i (sz - length out) e;
       if st = kNoData \<or> st = kUnavailable \<and> dir = FORWARD then Some (True, st, out @ xs, None, pos, e)
       else Some (IsOk st, st, out @ xs, Some i, pos, e) }"

definition iter_round ::
  "(int \<Rightarrow> 'e \<Rightarrow> ((status \<times> 'i option) \<times> int \<times> 'e) option) \<Rightarrow>
   ('i \<Rightarrow> nat \<Rightarrow> 'e \<Rightarrow> ((status \<times> 'v list) \<times> 'i \<times> 'e) option) \<Rightarrow> direction \<Rightarrow> nat \<Rightarrow>
   ('v, 'i, 'e) iter_state \<Rightarrow> (bool \<times> ('v, 'i, 'e) iter_state) option" where
  "iter_round nxt rd dir sz state =
     (case state of (st, out, it, pos, e) \<Rightarrow> case it of
        Some i \<Rightarrow> iter_draw rd dir sz out i pos e
      | None \<Rightarrow> do {
          ((st, it), pos, e) \<leftarrow> nxt pos e;
          if st = kNotFound \<or> st = kUnavailable then Some (True, st, out, it, pos, e)
          else if \<not> IsOk st then Some (False, st, out, it, pos, e)
          else do { i \<leftarrow> it; iter_draw rd dir sz out i pos e } })"

primrec iter_loop ::
  "nat \<Rightarrow> (int \<Rightarrow> 'e \<Rightarrow> ((status \<times> 'i option) \<times> int \<times> 'e) option) \<Rightarrow>
   ('i \<Rightarrow> nat \<Rightarrow> 'e \<Rightarrow> ((status \<times> 'v list) \<times> 'i \<times> 'e) option) \<Rightarrow> direction \<Rightarrow> nat \<Rightarrow>
   ('v, 'i, 'e) iter_state \<Rightarrow> ('v, 'i, 'e) iter_state option" where
  "iter_loop 0 nxt rd dir sz state = None"
| "iter_loop (Suc fuel) nxt rd dir sz state =
     (if length (fst (snd state)) < sz then do {
        (go, state) \<leftarrow> iter_round nxt rd dir sz state;
        if go then iter_loop fuel nxt rd dir sz state else Some state }
      else Some state)"

definition sbi_iterate ::
  "nat \<Rightarrow> (subtree_ref \<Rightarrow> 'e \<Rightarrow> ((status \<times> 'i option) \<times> 'e) option) \<Rightarrow>
   ('i \<Rightarrow> nat \<Rightarrow> 'e \<Rightarrow> ((status \<times> 'v list) \<times> 'i \<times> 'e) option) \<Rightarrow> nat \<Rightarrow> 'i sblock_iter \<Rightarrow> 'e \<Rightarrow>
   ((status \<times> 'v list) \<times> 'i sblock_iter \<times> 'e) option" where
  "sbi_iterate fuel opn rd sz it e =
     (let dir = op_direction (sbi_begin it) (sbi_end it) in
      do {
        (st, out, i, pos, e) \<leftarrow> iter_loop fuel (get_next_iter opn dir (sbi_refs it)) rd dir sz
            (kNoData, [], sbi_iter it, sbi_refs_pos it, e);
        Some ((st, out),
          SBlockIter (sbi_begin it) (sbi_end it) (sbi_addr it) (sbi_refs it) i (sbi_fsm_pos it) pos, e) })"

text \<open>\<open>read\<close> of the derived classes: \<open>init\<close> on the first call, then \<open>iter\<close>.\<close>

definition sbi_read ::
  "nat \<Rightarrow> 's bstore \<Rightarrow> 's \<Rightarrow> (subtree_ref \<Rightarrow> 'e \<Rightarrow> ((status \<times> 'i option) \<times> 'e) option) \<Rightarrow>
   ('i \<Rightarrow> nat \<Rightarrow> 'e \<Rightarrow> ((status \<times> 'v list) \<times> 'i \<times> 'e) option) \<Rightarrow> nat \<Rightarrow> 'i sblock_iter \<Rightarrow> 'e \<Rightarrow>
   ((status \<times> 'v list) \<times> 'i sblock_iter \<times> 'e) option" where
  "sbi_read fuel B s opn rd sz it e =
     (if sbi_fsm_pos it = 0 then do {
        (st, it) \<leftarrow> NBTreeSBlockIterator_init B s it;
        if \<not> IsOk st then Some ((st, []), it, e)
        else
          sbi_iterate fuel opn rd sz
            (SBlockIter (sbi_begin it) (sbi_end it) (sbi_addr it) (sbi_refs it) (sbi_iter it) 1 (sbi_refs_pos it)) e }
      else sbi_iterate fuel opn rd sz it e)"

subsection \<open>The real-valued operators\<close>

datatype real_op =
    LeafIt leaf_iterator
  | LeafFlt leaf_filter
  | EmptyIt timestamp timestamp
  | SBlockIt "real_op sblock_iter"
  | SBlockFlt value_filter "real_op sblock_iter"
  | ChainIt "real_op list" direction nat

primrec real_direction :: "real_op \<Rightarrow> direction" where
  "real_direction (LeafIt it) = op_direction (li_begin it) (li_end it)"
| "real_direction (LeafFlt it) = op_direction (lft_begin it) (lft_end it)"
| "real_direction (EmptyIt b e) = op_direction b e"
| "real_direction (SBlockIt it) = op_direction (sbi_begin it) (sbi_end it)"
| "real_direction (SBlockFlt f it) = op_direction (sbi_begin it) (sbi_end it)"
| "real_direction (ChainIt its dir ix) = dir"

text \<open>\<open>NBTreeSBlockIterator\<close>.\<close>

definition SBlockIterator_make_leaf ::
  "'s bstore \<Rightarrow> 's \<Rightarrow> timestamp \<Rightarrow> timestamp \<Rightarrow> subtree_ref \<Rightarrow> unit \<Rightarrow> ((status \<times> real_op option) \<times> unit) option" where
  "SBlockIterator_make_leaf B s b e ref u =
     (if sr_type ref \<noteq> LEAF then None
      else do {
        (st, block) \<leftarrow> read_and_check B (sr_addr ref) s;
        if \<not> IsOk st then Some ((st, None), u)
        else do {
          blk \<leftarrow> block;
          blockref \<leftarrow> IOVecBlock_get_header blk;
          if sr_type blockref \<noteq> sr_type ref then None
          else do {
            leaf \<leftarrow> IOVecLeaf_of_block blk;
            it \<leftarrow> NBTreeLeafIterator_new b e leaf;
            Some ((kOk, Some (LeafIt it)), u) } } })"

definition SBlockIterator_make_superblock ::
  "timestamp \<Rightarrow> timestamp \<Rightarrow> subtree_ref \<Rightarrow> unit \<Rightarrow> ((status \<times> real_op option) \<times> unit) option" where
  "SBlockIterator_make_superblock b e ref u =
     Some ((kOk, Some (SBlockIt (NBTreeSBlockIterator_at (sr_addr ref) b e))), u)"

text \<open>\<open>NBTreeSBlockFilter\<close>.\<close>

definition SBlockFilter_make_leaf ::
  "'s bstore \<Rightarrow> 's \<Rightarrow> timestamp \<Rightarrow> timestamp \<Rightarrow> value_filter \<Rightarrow> subtree_ref \<Rightarrow> unit \<Rightarrow>
   ((status \<times> real_op option) \<times> unit) option" where
  "SBlockFilter_make_leaf B s b e f ref u =
     (if sr_type ref \<noteq> LEAF then None
      else do {
        (st, block) \<leftarrow> read_and_check B (sr_addr ref) s;
        if \<not> IsOk st then Some ((st, None), u)
        else do {
          blk \<leftarrow> block;
          blockref \<leftarrow> IOVecBlock_get_header blk;
          if sr_type blockref \<noteq> sr_type ref then None
          else case ValueFilter_get_overlap blockref f of
            FULL_OVERLAP \<Rightarrow> do {
              leaf \<leftarrow> IOVecLeaf_of_block blk;
              it \<leftarrow> NBTreeLeafIterator_new b e leaf;
              Some ((kOk, Some (LeafIt it)), u) }
          | PARTIAL_OVERLAP \<Rightarrow> do {
              leaf \<leftarrow> IOVecLeaf_of_block blk;
              it \<leftarrow> NBTreeLeafFilter_new b e f leaf;
              Some ((kOk, Some (LeafFlt it)), u) }
          | NO_OVERLAP \<Rightarrow> Some ((kOk, Some (EmptyIt b e)), u) } })"

definition SBlockFilter_make_superblock ::
  "timestamp \<Rightarrow> timestamp \<Rightarrow> value_filter \<Rightarrow> subtree_ref \<Rightarrow> unit \<Rightarrow> ((status \<times> real_op option) \<times> unit) option" where
  "SBlockFilter_make_superblock b e f ref u =
     (case ValueFilter_get_overlap ref f of
        FULL_OVERLAP \<Rightarrow> Some ((kOk, Some (SBlockIt (NBTreeSBlockIterator_at (sr_addr ref) b e))), u)
      | PARTIAL_OVERLAP \<Rightarrow> Some ((kOk, Some (SBlockFlt f (NBTreeSBlockIterator_at (sr_addr ref) b e))), u)
      | NO_OVERLAP \<Rightarrow> Some ((kOk, Some (EmptyIt b e)), u))"

definition SBlockIterator_open ::
  "'s bstore \<Rightarrow> 's \<Rightarrow> timestamp \<Rightarrow> timestamp \<Rightarrow> subtree_ref \<Rightarrow> unit \<Rightarrow> ((status \<times> real_op option) \<times> unit) option" where
  "SBlockIterator_open B s b e =
     sbi_open B (SBlockIterator_make_leaf B s b e) (SBlockIterator_make_superblock b e) s (min b e) (max b e)"

definition SBlockFilter_open ::
  "'s bstore \<Rightarrow> 's \<Rightarrow> timestamp \<Rightarrow> timestamp \<Rightarrow> value_filter \<Rightarrow> subtree_ref \<Rightarrow> unit \<Rightarrow>
   ((status \<times> real_op option) \<times> unit) option" where
  "SBlockFilter_open B s b e f =
     sbi_open B (SBlockFilter_make_leaf B s b e f) (SBlockFilter_make_superblock b e f) s (min b e) (max b e)"

text \<open>\<open>ChainOperator\<close>; \<open>rd\<close> reads one of the iterators.\<close>

definition ChainOperator_new :: "real_op list \<Rightarrow> real_op" where
  "ChainOperator_new its = ChainIt its (if its = [] then FORWARD else real_direction (hd its)) 0"

primrec chain_loop ::
  "nat \<Rightarrow> ('i \<Rightarrow> nat \<Rightarrow> ((status \<times> 'v list) \<times> 'i) option) \<Rightarrow> nat \<Rightarrow> status \<Rightarrow> 'v list \<Rightarrow> 'i list \<Rightarrow> nat \<Rightarrow>
   ((status \<times> 'v list) \<times> 'i list \<times> nat) option" where
  "chain_loop 0 rd sz st out its ix = None"
| "chain_loop (Suc fuel) rd sz st out its ix =
     (if ix < length its then do {
        ((st, xs), i) \<leftarrow> rd (its ! ix) sz;
        let its = its[ix := i];
        let sz = sz - length xs;
        let out = out @ xs;
        if sz = 0 then Some ((st, out), its, ix)
        else if st = kNoData \<or> st = kUnavailable then chain_loop fuel rd sz st out its (ix + 1)
        else if \<not> IsOk st then Some ((st, out), its, ix)
        else chain_loop fuel rd sz st out its ix }
      else Some ((st, out), its, ix))"

text \<open>The virtual \<open>read\<close>.  The fuel bounds the nesting of the iterators and the rounds of their
  loops.\<close>

primrec RealOp_read ::
  "nat \<Rightarrow> 's bstore \<Rightarrow> 's \<Rightarrow> real_op \<Rightarrow> nat \<Rightarrow> ((status \<times> real_sample list) \<times> real_op) option" where
  "RealOp_read 0 B s op sz = None"
| "RealOp_read (Suc fuel) B s op sz =
     (case op of
        LeafIt it \<Rightarrow> do { (r, it) \<leftarrow> NBTreeLeafIterator_read sz it; Some (r, LeafIt it) }
      | LeafFlt it \<Rightarrow> do { (r, it) \<leftarrow> NBTreeLeafFilter_read sz it; Some (r, LeafFlt it) }
      | EmptyIt b e \<Rightarrow> Some ((kNoData, []), op)
      | SBlockIt it \<Rightarrow> do {
          (r, it, u) \<leftarrow> sbi_read fuel B s (SBlockIterator_open B s (sbi_begin it) (sbi_end it))
            (\<lambda>i n u. map_option (\<lambda>(r, i). (r, i, u)) (RealOp_read fuel B s i n)) sz it ();
          Some (r, SBlockIt it) }
      | SBlockFlt f it \<Rightarrow> do {
          (r, it, u) \<leftarrow> sbi_read fuel B s (SBlockFilter_open B s (sbi_begin it) (sbi_end it) f)
            (\<lambda>i n u. map_option (\<lambda>(r, i). (r, i, u)) (RealOp_read fuel B s i n)) sz it ();
          Some (r, SBlockFlt f it) }
      | ChainIt its dir ix \<Rightarrow> do {
          (r, its, ix) \<leftarrow> chain_loop fuel (RealOp_read fuel B s) sz kNoData [] its ix;
          Some (r, ChainIt its dir ix) })"

subsection \<open>search and filter\<close>

definition IOVecLeaf_range :: "timestamp \<Rightarrow> timestamp \<Rightarrow> iovec_leaf \<Rightarrow> real_op option" where
  "IOVecLeaf_range b e l = map_option LeafIt (NBTreeLeafIterator_new b e l)"

definition IOVecLeaf_filter :: "timestamp \<Rightarrow> timestamp \<Rightarrow> value_filter \<Rightarrow> iovec_leaf \<Rightarrow> real_op option" where
  "IOVecLeaf_filter b e f l = map_option LeafFlt (NBTreeLeafFilter_new b e f l)"

definition IOVecSuperblock_search :: "timestamp \<Rightarrow> timestamp \<Rightarrow> iovec_superblock \<Rightarrow> real_op option" where
  "IOVecSuperblock_search b e n = map_option SBlockIt (NBTreeSBlockIterator_of n b e)"

definition IOVecSuperblock_filter ::
  "timestamp \<Rightarrow> timestamp \<Rightarrow> value_filter \<Rightarrow> iovec_superblock \<Rightarrow> real_op option" where
  "IOVecSuperblock_filter b e f n = map_option (SBlockFlt f) (NBTreeSBlockIterator_of n b e)"

definition extent_search :: "timestamp \<Rightarrow> timestamp \<Rightarrow> extent \<Rightarrow> real_op option" where
  "extent_search b e x = (case x of
     LeafExt l \<Rightarrow> IOVecLeaf_range b e (le_leaf l) | SBlockExt n \<Rightarrow> IOVecSuperblock_search b e (se_curr n))"

definition extent_filter :: "timestamp \<Rightarrow> timestamp \<Rightarrow> value_filter \<Rightarrow> extent \<Rightarrow> real_op option" where
  "extent_filter b e f x = (case x of
     LeafExt l \<Rightarrow> IOVecLeaf_filter b e f (le_leaf l) | SBlockExt n \<Rightarrow> IOVecSuperblock_filter b e f (se_curr n))"

text \<open>The body that \<open>search\<close> and \<open>filter\<close> of \<open>NBTreeExtentsList\<close> share: one iterator per extent,
  from the topmost down when the direction is forward.\<close>

definition extents_operator ::
  "(extent \<Rightarrow> real_op option) \<Rightarrow> timestamp \<Rightarrow> timestamp \<Rightarrow> extent list \<Rightarrow> real_op option" where
  "extents_operator mk b e exts =
     do {
       its \<leftarrow> (if exts = [] then Some [EmptyIt b e]
              else those (map mk (if b < e then rev exts else exts)));
       Some (if length its = 1 then hd its else ChainOperator_new its) }"

definition tree_search :: "timestamp \<Rightarrow> timestamp \<Rightarrow> nbtree \<Rightarrow> real_op option" where
  "tree_search b e t = extents_operator (extent_search b e) b e (nt_extents t)"

definition tree_filter :: "timestamp \<Rightarrow> timestamp \<Rightarrow> value_filter \<Rightarrow> nbtree \<Rightarrow> real_op option" where
  "tree_filter b e f t = extents_operator (extent_filter b e f) b e (nt_extents t)"

end
