(* ===== verification/NBSearch.thy ===== *)
theory NBSearch
  imports NBWrite NBIter
begin

text \<open>
  Correctness of the read path.  An operator delivers a list when successive reads, whatever the
  sizes of the buffers, return consecutive pieces of it and then report that there is no more.
  The lemmas go from the loops of the superblock iterator and of the chain, which are generic in
  the iterators below them, to the subtrees in the block store and to a search over the tree.
\<close>

declare RealOp_read.simps(2) [simp del]

lemmas read_op = RealOp_read.simps(2)

subsection \<open>Delivering a list\<close>

coinductive delivers ::
  "('i \<Rightarrow> nat \<Rightarrow> ((status \<times> 'v list) \<times> 'i) option) \<Rightarrow> 'i \<Rightarrow> 'v list \<Rightarrow> bool" for rd where
  deliversI: "(\<And>n. 0 < n \<Longrightarrow> \<exists>st i'. rd i n = Some ((st, take n ys), i') \<and>
      (st = kOk \<and> ys \<noteq> [] \<or> st = kNoData \<and> length ys < n) \<and> delivers rd i' (drop n ys)) \<Longrightarrow>
    delivers rd i ys"

lemma delivers_read:
  assumes "delivers rd i ys" and "0 < n"
  obtains st i' where "rd i n = Some ((st, take n ys), i')"
    "st = kOk \<and> ys \<noteq> [] \<or> st = kNoData \<and> length ys < n" "delivers rd i' (drop n ys)"
  using assms(1) by cases (use assms(2) in blast)

lemma delivers_simulation:
  assumes "R i ys" and step: "\<And>i ys n. R i ys \<Longrightarrow> 0 < n \<Longrightarrow> \<exists>st i'. rd i n = Some ((st, take n ys), i') \<and>
      (st = kOk \<and> ys \<noteq> [] \<or> st = kNoData \<and> length ys < n) \<and> R i' (drop n ys)"
  shows "delivers rd i ys"
  using assms(1)
proof (rule delivers.coinduct)
  fix i ys assume r: "R i ys"
  have "\<exists>st i'. rd i n = Some ((st, take n ys), i') \<and> (st = kOk \<and> ys \<noteq> [] \<or> st = kNoData \<and> length ys < n) \<and>
      (R i' (drop n ys) \<or> delivers rd i' (drop n ys))" if "0 < n" for n
  proof -
    from step[OF r that] obtain st i' where "rd i n = Some ((st, take n ys), i')"
      "st = kOk \<and> ys \<noteq> [] \<or> st = kNoData \<and> length ys < n" "R i' (drop n ys)" by blast
    then show ?thesis by blast
  qed
  then show "\<exists>i' ys'. i = i' \<and> ys = ys' \<and> (\<forall>n>0. \<exists>st i''. rd i' n = Some ((st, take n ys'), i'') \<and>
      (st = kOk \<and> ys' \<noteq> [] \<or> st = kNoData \<and> length ys' < n) \<and> (R i'' (drop n ys') \<or> delivers rd i'' (drop n ys')))"
    by blast
qed

text \<open>Reads with the buffer sizes \<open>ns\<close>.\<close>

primrec read_chunks ::
  "('i \<Rightarrow> nat \<Rightarrow> ((status \<times> 'v list) \<times> 'i) option) \<Rightarrow> nat list \<Rightarrow> 'i \<Rightarrow> ((status \<times> 'v list) list \<times> 'i) option" where
  "read_chunks rd [] i = Some ([], i)"
| "read_chunks rd (n # ns) i =
     do { (r, i) \<leftarrow> rd i n; (rs, i) \<leftarrow> read_chunks rd ns i; Some (r # rs, i) }"

lemma delivers_chunks:
  "delivers rd i ys \<Longrightarrow> \<forall>n \<in> set ns. 0 < n \<Longrightarrow>
   \<exists>rs i'. read_chunks rd ns i = Some (rs, i') \<and> concat (map snd rs) = take (sum_list ns) ys \<and>
     delivers rd i' (drop (sum_list ns) ys)"
proof (induction ns arbitrary: i ys)
  case (Cons n ns)
  from Cons.prems(2) have "0 < n" by simp
  from delivers_read[OF Cons.prems(1) this] obtain st i1 where
    r: "rd i n = Some ((st, take n ys), i1)" "delivers rd i1 (drop n ys)" by blast
  from Cons.IH[OF r(2)] Cons.prems(2) obtain rs i' where
    "read_chunks rd ns i1 = Some (rs, i')" "concat (map snd rs) = take (sum_list ns) (drop n ys)"
    "delivers rd i' (drop (sum_list ns) (drop n ys))" by auto
  with r(1) show ?case by (simp add: take_add add.commute)
qed simp

text \<open>A client that reads with the buffer sizes \<open>sz k\<close>, \<open>sz (k + 1)\<close>, \<dots> until a read reports
  \<open>kNoData\<close>; a client that is never told to stop, or that meets another status than \<open>kOk\<close>,
  has no result.\<close>

partial_function (option) read_to_end ::
  "('i \<Rightarrow> nat \<Rightarrow> ((status \<times> 'v list) \<times> 'i) option) \<Rightarrow> (nat \<Rightarrow> nat) \<Rightarrow> nat \<Rightarrow> 'i \<Rightarrow>
   ((status \<times> 'v list) list \<times> 'i) option" where
  "read_to_end rd sz k i =
     Option.bind (rd i (sz k)) (\<lambda>((st, xs), i').
       if st = kNoData then Some ([(st, xs)], i')
       else if st = kOk then Option.bind (read_to_end rd sz (Suc k) i') (\<lambda>(rs, i''). Some ((st, xs) # rs, i''))
       else None)"

lemma delivers_to_end:
  assumes "delivers rd i ys" and "\<forall>k. 0 < sz k"
  shows "\<exists>rs i'. read_to_end rd sz k i = Some (rs, i') \<and> concat (map snd rs) = ys \<and>
     length rs \<le> Suc (length ys) \<and> delivers rd i' []"
  using assms(1)
proof (induction "length ys" arbitrary: ys i k rule: less_induct)
  case less
  from assms(2) have n: "0 < sz k" by simp
  from delivers_read[OF less.prems n] obtain st i1 where
    r: "rd i (sz k) = Some ((st, take (sz k) ys), i1)"
    "st = kOk \<and> ys \<noteq> [] \<or> st = kNoData \<and> length ys < sz k" "delivers rd i1 (drop (sz k) ys)" by blast
  from r(2) show ?case
  proof
    assume st: "st = kOk \<and> ys \<noteq> []"
    then have "length (drop (sz k) ys) < length ys" using n by (cases ys) auto
    from less.hyps[OF this r(3), of "Suc k"] obtain rs i' where
      rs: "read_to_end rd sz (Suc k) i1 = Some (rs, i')" "concat (map snd rs) = drop (sz k) ys"
      "length rs \<le> Suc (length (drop (sz k) ys))" "delivers rd i' []" by blast
    have "read_to_end rd sz k i = Some ((st, take (sz k) ys) # rs, i')"
      by (subst read_to_end.simps) (use r(1) st rs(1) in simp)
    moreover have "length ((st, take (sz k) ys) # rs) \<le> Suc (length ys)"
      using rs(3) \<open>length (drop (sz k) ys) < length ys\<close> by simp
    ultimately show ?thesis using rs(2,4) by auto
  next
    assume st: "st = kNoData \<and> length ys < sz k"
    have "read_to_end rd sz k i = Some ([(st, take (sz k) ys)], i1)"
      by (subst read_to_end.simps) (use r(1) st in simp)
    with st r(3) show ?thesis by auto
  qed
qed

subsection \<open>The loop over the children of a node\<close>

abbreviation (input) pure_read ::
  "('i \<Rightarrow> nat \<Rightarrow> ((status \<times> 'v list) \<times> 'i) option) \<Rightarrow> 'i \<Rightarrow> nat \<Rightarrow> unit \<Rightarrow> ((status \<times> 'v list) \<times> 'i \<times> unit) option" where
  "pure_read rd \<equiv> \<lambda>i n u. map_option (\<lambda>(r, i). (r, i, u)) (rd i n)"

text \<open>The children that the cursor still has to open deliver \<open>yss\<close>.\<close>

inductive opens ::
  "('i \<Rightarrow> nat \<Rightarrow> ((status \<times> 'v list) \<times> 'i) option) \<Rightarrow>
   (int \<Rightarrow> unit \<Rightarrow> ((status \<times> 'i option) \<times> int \<times> unit) option) \<Rightarrow> int \<Rightarrow> 'v list list \<Rightarrow> bool" for rd nxt where
  opens_Nil: "nxt pos () = Some ((kNoData, None), pos, ()) \<Longrightarrow> opens rd nxt pos []"
| opens_skip: "nxt pos () = Some ((st, None), pos', ()) \<Longrightarrow> st = kNotFound \<or> st = kUnavailable \<Longrightarrow>
    opens rd nxt pos' yss \<Longrightarrow> opens rd nxt pos ([] # yss)"
| opens_Cons: "nxt pos () = Some ((kOk, Some i), pos', ()) \<Longrightarrow> delivers rd i ys \<Longrightarrow>
    opens rd nxt pos' yss \<Longrightarrow> opens rd nxt pos (ys # yss)"

definition open_iter ::
  "('i \<Rightarrow> nat \<Rightarrow> ((status \<times> 'v list) \<times> 'i) option) \<Rightarrow> 'i option \<Rightarrow> 'v list \<Rightarrow> bool" where
  "open_iter rd it ys \<longleftrightarrow> (case it of None \<Rightarrow> ys = [] | Some i \<Rightarrow> delivers rd i ys)"

lemma open_iter_simps [simp]:
  "open_iter rd None ys \<longleftrightarrow> ys = []" "open_iter rd (Some i) ys \<longleftrightarrow> delivers rd i ys"
  by (simp_all add: open_iter_def)

lemma iter_draw_ok:
  assumes "delivers rd i ys" and "length out < sz"
  shows "\<exists>st it. iter_draw (pure_read rd) dir sz out i pos () =
       Some (True, st, out @ take (sz - length out) ys, it, pos, ()) \<and> open_iter rd it (drop (sz - length out) ys) \<and>
     (st = kOk \<and> ys \<noteq> [] \<or> st = kNoData \<and> length ys < sz - length out \<and> it = None)"
proof -
  from delivers_read[OF assms(1), of "sz - length out"] assms(2) obtain st i' where
    r: "rd i (sz - length out) = Some ((st, take (sz - length out) ys), i')"
    "st = kOk \<and> ys \<noteq> [] \<or> st = kNoData \<and> length ys < sz - length out"
    "delivers rd i' (drop (sz - length out) ys)" by auto
  show ?thesis
  proof (cases "st = kOk")
    case True
    with r show ?thesis by (intro exI[of _ kOk] exI[of _ "Some i'"]) (simp add: iter_draw_def)
  next
    case False
    with r show ?thesis by (intro exI[of _ kNoData] exI[of _ None]) (auto simp: iter_draw_def)
  qed
qed

definition loop_done :: "nat \<Rightarrow> 'v list \<Rightarrow> status \<Rightarrow> bool" where
  "loop_done m ys st \<longleftrightarrow> st = kOk \<and> m \<le> length ys \<or> st = kNoData \<and> length ys < m"

text \<open>Enough rounds: one per element, two per child, one for the open iterator.\<close>

lemma iter_loop_ok:
  "opens rd nxt pos yss \<Longrightarrow> open_iter rd it ys \<Longrightarrow> length out < sz \<Longrightarrow>
   2 * length yss + length (ys @ concat yss) + (if it = None then 0 else 1) < fuel \<Longrightarrow>
   \<exists>st it' pos' ys' yss'. iter_loop fuel nxt (pure_read rd) dir sz (st0, out, it, pos, ()) =
       Some (st, out @ take (sz - length out) (ys @ concat yss), it', pos', ()) \<and>
     opens rd nxt pos' yss' \<and> open_iter rd it' ys' \<and> ys' @ concat yss' = drop (sz - length out) (ys @ concat yss) \<and>
     length yss' \<le> length yss \<and> loop_done (sz - length out) (ys @ concat yss) st"
proof (induction fuel arbitrary: pos yss it ys out st0)
  case (Suc fuel)
  let ?m = "sz - length out"
  define G where "G r \<longleftrightarrow> (\<exists>st it' pos' ys' yss'. r = Some (st, out @ take ?m (ys @ concat yss), it', pos', ()) \<and>
     opens rd nxt pos' yss' \<and> open_iter rd it' ys' \<and> ys' @ concat yss' = drop ?m (ys @ concat yss) \<and>
     length yss' \<le> length yss \<and> loop_done ?m (ys @ concat yss) st)" for r
  have more: "G (iter_loop fuel nxt (pure_read rd) dir sz (st1, out @ zs, it1, pos1, ()))"
    if h: "opens rd nxt pos1 yss1" "open_iter rd it1 ys1" "ys @ concat yss = zs @ ys1 @ concat yss1"
      "length zs \<le> ?m" "length zs = ?m \<longrightarrow> st1 = kOk" "length yss1 \<le> length yss"
      "2 * length yss1 + length (ys1 @ concat yss1) + (if it1 = None then 0 else 1) < fuel" for st1 it1 pos1 ys1 yss1 zs
  proof (cases "length zs = ?m")
    case True
    from h(7) obtain f where "fuel = Suc f" by (cases fuel) auto
    with True h Suc.prems(3) show ?thesis unfolding G_def
      by (intro exI[of _ st1] exI[of _ it1] exI[of _ pos1] exI[of _ ys1] exI[of _ yss1]) (simp add: loop_done_def)
  next
    case False
    with h(4) have lt: "length (out @ zs) < sz" by simp
    from Suc.IH[OF h(1,2) lt h(7), of st1] obtain st it' pos' ys' yss' where
      r: "iter_loop fuel nxt (pure_read rd) dir sz (st1, out @ zs, it1, pos1, ()) =
         Some (st, (out @ zs) @ take (?m - length zs) (ys1 @ concat yss1), it', pos', ())"
      "opens rd nxt pos' yss'" "open_iter rd it' ys'" "ys' @ concat yss' = drop (?m - length zs) (ys1 @ concat yss1)"
      "length yss' \<le> length yss1" "loop_done (?m - length zs) (ys1 @ concat yss1) st" by auto
    have "take ?m (ys @ concat yss) = zs @ take (?m - length zs) (ys1 @ concat yss1)"
      "drop ?m (ys @ concat yss) = drop (?m - length zs) (ys1 @ concat yss1)"
      "loop_done ?m (ys @ concat yss) st"
      using h(4) r(6) by (auto simp: h(3) loop_done_def)
    with r h(6) show ?thesis unfolding G_def
      by (intro exI[of _ st] exI[of _ it'] exI[of _ pos'] exI[of _ ys'] exI[of _ yss']) simp
  qed
  have draw: "G (iter_loop (Suc fuel) nxt (pure_read rd) dir sz (st0, out, it, pos, ()))"
    if i: "delivers rd i ys1" and o1: "opens rd nxt pos1 yss1"
      and eq: "ys @ concat yss = ys1 @ concat yss1" and ln: "length yss1 \<le> length yss"
      and rnd: "iter_round nxt (pure_read rd) dir sz (st0, out, it, pos, ()) = iter_draw (pure_read rd) dir sz out i pos1 ()"
      and ms: "2 * length yss1 + length (ys1 @ concat yss1) < fuel" for i ys1 pos1 yss1
  proof -
    from iter_draw_ok[OF i Suc.prems(3), of dir pos1] obtain st it1 where
      d: "iter_draw (pure_read rd) dir sz out i pos1 () = Some (True, st, out @ take ?m ys1, it1, pos1, ())"
      "open_iter rd it1 (drop ?m ys1)" "st = kOk \<and> ys1 \<noteq> [] \<or> st = kNoData \<and> length ys1 < ?m \<and> it1 = None" by blast
    have "2 * length yss1 + length (drop ?m ys1 @ concat yss1) + (if it1 = None then 0 else 1) < fuel"
      using ms d(3) Suc.prems(3) by (cases ys1) (auto split: if_splits)
    from more[OF o1 d(2) _ _ _ ln this, of "take ?m ys1" st] d(3) eq Suc.prems(3)
    have "G (iter_loop fuel nxt (pure_read rd) dir sz (st, out @ take ?m ys1, it1, pos1, ()))" by auto
    with Suc.prems(3) rnd d(1) show ?thesis by simp
  qed
  have "G (iter_loop (Suc fuel) nxt (pure_read rd) dir sz (st0, out, it, pos, ()))"
  proof (cases it)
    case (Some i)
    show ?thesis
      by (rule draw[of i ys pos yss]) (use Some Suc.prems in \<open>auto simp: iter_round_def\<close>)
  next
    case None
    with Suc.prems(2) have ys: "ys = []" by simp
    from Suc.prems(1) show ?thesis
    proof cases
      case opens_Nil
      with None ys Suc.prems show ?thesis unfolding G_def
        by (intro exI[of _ kNoData] exI[of _ None] exI[of _ pos] exI[of _ "[]"] exI[of _ "[]"])
          (simp add: iter_round_def loop_done_def)
    next
      case (opens_skip st pos' yss1)
      from more[of pos' yss1 None "[]" "[]" st] opens_skip ys Suc.prems(3,4)
      have "G (iter_loop fuel nxt (pure_read rd) dir sz (st, out, None, pos', ()))" by auto
      then show ?thesis using opens_skip(2,3) None Suc.prems(3) by (simp add: iter_round_def)
    next
      case (opens_Cons i pos' ys1 yss1)
      show ?thesis
        by (rule draw[of i ys1 pos' yss1]) (use opens_Cons None ys Suc.prems(4) in \<open>auto simp: iter_round_def\<close>)
    qed
  qed
  then show ?case unfolding G_def .
qed simp

text \<open>The result of opening one child: its iterator delivers \<open>ys\<close>, or it is skipped and \<open>ys\<close> is
  empty.\<close>

definition child ::
  "('i \<Rightarrow> nat \<Rightarrow> ((status \<times> 'v list) \<times> 'i) option) \<Rightarrow>
   (subtree_ref \<Rightarrow> unit \<Rightarrow> ((status \<times> 'i option) \<times> unit) option) \<Rightarrow> subtree_ref \<Rightarrow> 'v list \<Rightarrow> bool" where
  "child rd opn r ys \<longleftrightarrow> (\<exists>i. opn r () = Some ((kOk, Some i), ()) \<and> delivers rd i ys) \<or>
     (\<exists>st. opn r () = Some ((st, None), ()) \<and> (st = kNotFound \<or> st = kUnavailable) \<and> ys = [])"

lemma opens_forward:
  "list_all2 (child rd opn) refs yss \<Longrightarrow> k \<le> length refs \<Longrightarrow>
   opens rd (get_next_iter opn FORWARD refs) (int k) (drop k yss)"
proof (induction "length refs - k" arbitrary: k)
  case 0
  with list_all2_lengthD[OF 0(2)] show ?case by (auto intro: opens_Nil simp: get_next_iter_def)
next
  case (Suc m)
  from Suc.hyps(2) have k: "k < length refs" by simp
  with list_all2_lengthD[OF Suc.prems(1)] have d: "drop k yss = yss ! k # drop (Suc k) yss" by (simp add: Cons_nth_drop_Suc)
  have o: "opens rd (get_next_iter opn FORWARD refs) (int (Suc k)) (drop (Suc k) yss)"
    by (rule Suc.hyps(1)) (use Suc k in auto)
  have "child rd opn (refs ! k) (yss ! k)" using Suc.prems(1) k by (simp add: list_all2_conv_all_nth)
  then consider i where "opn (refs ! k) () = Some ((kOk, Some i), ())" "delivers rd i (yss ! k)"
    | st where "opn (refs ! k) () = Some ((st, None), ())" "st = kNotFound \<or> st = kUnavailable" "yss ! k = []"
    unfolding child_def by blast
  then show ?case
  proof cases
    case (1 i)
    with k show ?thesis using opens_Cons[OF _ _ o, of "int k" i] by (simp add: get_next_iter_def add.commute d)
  next
    case (2 st)
    with k show ?thesis using opens_skip[where st = st, OF _ _ o, of "int k"] by (simp add: get_next_iter_def add.commute d)
  qed
qed

lemma opens_backward:
  "list_all2 (child rd opn) refs yss \<Longrightarrow> k \<le> length refs \<Longrightarrow>
   opens rd (get_next_iter opn BACKWARD refs) (int k - 1) (rev (take k yss))"
proof (induction k)
  case 0
  show ?case by (auto intro: opens_Nil simp: get_next_iter_def)
next
  case (Suc k)
  then have k: "k < length refs" and o: "opens rd (get_next_iter opn BACKWARD refs) (int k - 1) (rev (take k yss))" by auto
  with list_all2_lengthD[OF Suc.prems(1)] have d: "rev (take (Suc k) yss) = yss ! k # rev (take k yss)" by (simp add: take_Suc_conv_app_nth)
  have "child rd opn (refs ! k) (yss ! k)" using Suc.prems(1) k by (simp add: list_all2_conv_all_nth)
  then consider i where "opn (refs ! k) () = Some ((kOk, Some i), ())" "delivers rd i (yss ! k)"
    | st where "opn (refs ! k) () = Some ((st, None), ())" "st = kNotFound \<or> st = kUnavailable" "yss ! k = []"
    unfolding child_def by blast
  then show ?case
  proof cases
    case (1 i)
    then have "get_next_iter opn BACKWARD refs (int k) () = Some ((kOk, Some i), int k - 1, ())" using k by (simp add: get_next_iter_def)
    from opens_Cons[OF this 1(2) o] show ?thesis by (simp add: d)
  next
    case (2 st)
    then have "get_next_iter opn BACKWARD refs (int k) () = Some ((st, None), int k - 1, ())" using k by (simp add: get_next_iter_def)
    from opens_skip[OF this 2(2) o] 2(3) show ?thesis by (simp add: d)
  qed
qed

text \<open>The elements that a range selects, in the order of the direction.\<close>

definition pick :: "timestamp \<Rightarrow> timestamp \<Rightarrow> ('v \<Rightarrow> bool) \<Rightarrow> 'v list \<Rightarrow> 'v list" where
  "pick b e P xs = (if b < e then filter P xs else rev (filter P xs))"

lemma pick_concat:
  "pick b e P (concat xss) = (if b < e then concat (map (pick b e P) xss) else concat (rev (map (pick b e P) xss)))"
proof (induction xss)
  case (Cons xs xss)
  have "pick b e P (concat (xs # xss)) =
      (if b < e then pick b e P xs @ pick b e P (concat xss) else pick b e P (concat xss) @ pick b e P xs)"
    by (simp add: pick_def)
  with Cons show ?case by simp
qed (simp add: pick_def)

lemma length_pick: "length (pick b e P xs) \<le> length xs"
  by (simp add: pick_def)

text \<open>An initialised iterator over a node, with \<open>ys\<close> left to deliver.\<close>

definition sbi_left ::
  "('i \<Rightarrow> nat \<Rightarrow> ((status \<times> 'v list) \<times> 'i) option) \<Rightarrow>
   (subtree_ref \<Rightarrow> unit \<Rightarrow> ((status \<times> 'i option) \<times> unit) option) \<Rightarrow> timestamp \<Rightarrow> timestamp \<Rightarrow> 'i sblock_iter \<Rightarrow>
   'v list \<Rightarrow> bool" where
  "sbi_left rd opn b e it ys \<longleftrightarrow> sbi_begin it = b \<and> sbi_end it = e \<and> sbi_fsm_pos it \<noteq> 0 \<and>
     (\<exists>ys0 yss. opens rd (get_next_iter opn (op_direction b e) (sbi_refs it)) (sbi_refs_pos it) yss \<and>
        open_iter rd (sbi_iter it) ys0 \<and> ys = ys0 @ concat yss \<and> length yss \<le> 32)"

lemma sbi_left_start:
  assumes "list_all2 (\<lambda>r xs. child rd opn r (pick b e P xs)) refs xss" and "length refs \<le> 32" and "0 < fsm"
  shows "sbi_left rd opn b e (SBlockIter b e addr refs None fsm (if b < e then 0 else int (length refs) - 1))
     (pick b e P (concat xss))"
proof -
  from assms(1) have c: "list_all2 (child rd opn) refs (map (pick b e P) xss)" by (simp add: list_all2_map2)
  from list_all2_lengthD[OF assms(1)] have l: "length xss = length refs" by simp
  show ?thesis
  proof (cases "b < e")
    case True
    with opens_forward[OF c, of 0] assms(2,3) l show ?thesis
      by (auto simp: sbi_left_def op_direction_def pick_concat intro!: exI[of _ "map (pick b e P) xss"])
  next
    case False
    with opens_backward[OF c order_refl] assms(2,3) l show ?thesis
      by (auto simp: sbi_left_def op_direction_def pick_concat intro!: exI[of _ "rev (map (pick b e P) xss)"])
  qed
qed

lemma sbi_iterate_ok:
  assumes "sbi_left rd opn b e it ys" and "65 + length ys < fuel" and "0 < n"
  shows "\<exists>st it'. sbi_iterate fuel opn (pure_read rd) n it () = Some ((st, take n ys), it', ()) \<and>
     sbi_left rd opn b e it' (drop n ys) \<and> loop_done n ys st"
proof -
  let ?nxt = "get_next_iter opn (op_direction b e) (sbi_refs it)"
  from assms(1) obtain ys0 yss where
    l: "opens rd ?nxt (sbi_refs_pos it) yss" "open_iter rd (sbi_iter it) ys0" "ys = ys0 @ concat yss" "length yss \<le> 32"
    "sbi_begin it = b" "sbi_end it = e" "sbi_fsm_pos it \<noteq> 0" by (auto simp: sbi_left_def)
  have "2 * length yss + length (ys0 @ concat yss) + (if sbi_iter it = None then 0 else 1) < fuel"
    using l(4) assms(2) by (simp add: l(3))
  from iter_loop_ok[OF l(1,2) _ this, of "[]" n "op_direction b e" kNoData] assms(3)
  obtain st it' pos' ys' yss' where
    r: "iter_loop fuel ?nxt (pure_read rd) (op_direction b e) n (kNoData, [], sbi_iter it, sbi_refs_pos it, ()) =
       Some (st, take n ys, it', pos', ())"
    "opens rd ?nxt pos' yss'" "open_iter rd it' ys'" "ys' @ concat yss' = drop n ys" "length yss' \<le> length yss" "loop_done n ys st"
    unfolding l(3) by auto
  have "sbi_iterate fuel opn (pure_read rd) n it () =
      Some ((st, take n ys), SBlockIter b e (sbi_addr it) (sbi_refs it) it' (sbi_fsm_pos it) pos', ())"
    unfolding sbi_iterate_def Let_def l(5,6) r(1) by simp
  moreover have "sbi_left rd opn b e (SBlockIter b e (sbi_addr it) (sbi_refs it) it' (sbi_fsm_pos it) pos') (drop n ys)"
    unfolding sbi_left_def using r(2-5) l(4,7) by (auto intro!: exI[of _ ys'] exI[of _ yss'])
  ultimately show ?thesis using r(6) by blast
qed

text \<open>Any operator whose \<open>read\<close> is that of the base class delivers what is left.\<close>

lemma sbi_run:
  assumes n: "0 < n" and i: "sbi_left rd opn b e it1 ys" and f: "65 + length ys < fuel"
    and r: "res = do { (r, it, u) \<leftarrow> sbi_iterate fuel opn (pure_read rd) n it1 (); Some (r, K it) }"
  shows "\<exists>st it'. res = Some ((st, take n ys), K it') \<and> (st = kOk \<and> ys \<noteq> [] \<or> st = kNoData \<and> length ys < n) \<and>
     sbi_left rd opn b e it' (drop n ys)"
proof -
  from sbi_iterate_ok[OF i f n] obtain st it' where
    s: "sbi_iterate fuel opn (pure_read rd) n it1 () = Some ((st, take n ys), it', ())"
    "sbi_left rd opn b e it' (drop n ys)" "loop_done n ys st" by blast
  have "res = Some ((st, take n ys), K it')" unfolding r s(1) by simp
  moreover from s(3) n have "st = kOk \<and> ys \<noteq> [] \<or> st = kNoData \<and> length ys < n" by (auto simp: loop_done_def)
  ultimately show ?thesis using s(2) by blast
qed

lemma sbi_delivers_left:
  assumes step: "\<And>it n. sbi_begin it = b \<Longrightarrow> sbi_end it = e \<Longrightarrow>
      rd' (K it) n = do { (r, it, u) \<leftarrow> sbi_read fuel B s opn (pure_read rd) n it (); Some (r, K it) }"
    and fuel: "65 + length ys < fuel" and it: "sbi_left rd opn b e it ys"
  shows "delivers rd' (K it) ys"
proof (rule delivers_simulation[of "\<lambda>i ys. \<exists>it. i = K it \<and> sbi_left rd opn b e it ys \<and> 65 + length ys < fuel"],
    goal_cases)
  case (2 i ys n)
  then obtain it where x: "i = K it" "sbi_left rd opn b e it ys" "65 + length ys < fuel" by blast
  have "rd' i n = do { (r, it, u) \<leftarrow> sbi_iterate fuel opn (pure_read rd) n it (); Some (r, K it) }"
    using step[of it n] x(1,2) by (simp add: sbi_read_def sbi_left_def)
  from sbi_run[OF 2(2) x(2,3) this] obtain st it' where
    "rd' i n = Some ((st, take n ys), K it')" "st = kOk \<and> ys \<noteq> [] \<or> st = kNoData \<and> length ys < n"
    "sbi_left rd opn b e it' (drop n ys)" by blast
  moreover have "65 + length (drop n ys) < fuel" using x(3) by simp
  ultimately show ?case by blast
qed (use fuel it in blast)

lemma sbi_delivers_new:
  assumes step: "\<And>it n. sbi_begin it = b \<Longrightarrow> sbi_end it = e \<Longrightarrow>
      rd' (K it) n = do { (r, it, u) \<leftarrow> sbi_read fuel B s opn (pure_read rd) n it (); Some (r, K it) }"
    and fuel: "65 + length ys < fuel"
    and it: "sbi_begin it = b" "sbi_end it = e" "sbi_fsm_pos it = 0" "NBTreeSBlockIterator_init B s it = Some (kOk, itn)"
      "sbi_left rd opn b e (SBlockIter (sbi_begin itn) (sbi_end itn) (sbi_addr itn) (sbi_refs itn) (sbi_iter itn) 1
          (sbi_refs_pos itn)) ys"
  shows "delivers rd' (K it) ys"
proof (rule deliversI)
  let ?it = "SBlockIter (sbi_begin itn) (sbi_end itn) (sbi_addr itn) (sbi_refs itn) (sbi_iter itn) 1 (sbi_refs_pos itn)"
  fix n :: nat assume n: "0 < n"
  have "rd' (K it) n = do { (r, it, u) \<leftarrow> sbi_iterate fuel opn (pure_read rd) n ?it (); Some (r, K it) }"
    using step[OF it(1,2), of n] it(3,4) by (simp add: sbi_read_def)
  from sbi_run[OF n it(5) fuel this] obtain st it' where
    r: "rd' (K it) n = Some ((st, take n ys), K it')" "st = kOk \<and> ys \<noteq> [] \<or> st = kNoData \<and> length ys < n"
    "sbi_left rd opn b e it' (drop n ys)" by blast
  have "delivers rd' (K it') (drop n ys)" by (rule sbi_delivers_left[OF step _ r(3)]) (use fuel in auto)
  with r(1,2) show "\<exists>st i'. rd' (K it) n = Some ((st, take n ys), i') \<and>
      (st = kOk \<and> ys \<noteq> [] \<or> st = kNoData \<and> length ys < n) \<and> delivers rd' i' (drop n ys)" by blast
qed

subsection \<open>The chain of iterators\<close>

text \<open>Enough rounds: one per element and one per iterator.\<close>

lemma chain_loop_ok:
  "list_all2 (delivers rd) (drop ix its) yss \<Longrightarrow> ix \<le> length its \<Longrightarrow> 0 < n \<Longrightarrow> st0 = kNoData \<or> yss \<noteq> [] \<Longrightarrow>
   length yss + length (concat yss) < fuel \<Longrightarrow>
   \<exists>st its' ix' yss'. chain_loop fuel rd n st0 out its ix = Some ((st, out @ take n (concat yss)), its', ix') \<and>
     list_all2 (delivers rd) (drop ix' its') yss' \<and> ix' \<le> length its' \<and> concat yss' = drop n (concat yss) \<and>
     length yss' \<le> length yss \<and> loop_done n (concat yss) st"
proof (induction fuel arbitrary: ix its yss n st0 out)
  case (Suc fuel)
  show ?case
  proof (cases "ix < length its")
    case False
    with Suc.prems show ?thesis
      by (intro exI[of _ kNoData] exI[of _ its] exI[of _ ix] exI[of _ "[]"]) (simp add: loop_done_def)
  next
    case True
    then have d: "drop ix its = its ! ix # drop (Suc ix) its" by (simp add: Cons_nth_drop_Suc)
    with Suc.prems(1) obtain ys yss1 where
      y: "yss = ys # yss1" "delivers rd (its ! ix) ys" "list_all2 (delivers rd) (drop (Suc ix) its) yss1"
      by (auto simp: list_all2_Cons1)
    from delivers_read[OF y(2) Suc.prems(3)] obtain st i where
      r: "rd (its ! ix) n = Some ((st, take n ys), i)" "st = kOk \<and> ys \<noteq> [] \<or> st = kNoData \<and> length ys < n"
      "delivers rd i (drop n ys)" by blast
    let ?its = "its[ix := i]"
    have d1: "list_all2 (delivers rd) (drop ix ?its) (drop n ys # yss1)" using d True y(3) r(3)
      by (simp add: drop_update_swap)
    have d2: "list_all2 (delivers rd) (drop (Suc ix) ?its) yss1" using y(3) by simp
    consider "n \<le> length ys" "st = kOk" | "length ys < n" "st = kOk" "ys \<noteq> []" | "length ys < n" "st = kNoData"
      using r(2) by fastforce
    then show ?thesis
    proof cases
      case 1
      with True r(1) y(1) d1 show ?thesis
        by (intro exI[of _ kOk] exI[of _ ?its] exI[of _ ix] exI[of _ "drop n ys # yss1"]) (simp add: loop_done_def)
    next
      case 2
      then have fu: "length (drop n ys # yss1) + length (concat (drop n ys # yss1)) < fuel" using Suc.prems(5) y(1)
        by (cases ys) auto
      from Suc.IH[OF d1 _ _ _ fu, of "n - length ys" kOk "out @ ys"] 2 True obtain st' its' ix' yss' where
        "chain_loop fuel rd (n - length ys) kOk (out @ ys) ?its ix = Some ((st', (out @ ys) @ take (n - length ys) (concat yss1)), its', ix')"
        "list_all2 (delivers rd) (drop ix' its') yss'" "ix' \<le> length its'" "concat yss' = drop (n - length ys) (concat yss1)"
        "length yss' \<le> Suc (length yss1)" "loop_done (n - length ys) (concat yss1) st'" by auto
      with 2 True r(1) y(1) show ?thesis
        by (intro exI[of _ st'] exI[of _ its'] exI[of _ ix'] exI[of _ yss']) (auto simp: loop_done_def)
    next
      case 3
      then have fu: "length yss1 + length (concat yss1) < fuel" using Suc.prems(5) y(1) by simp
      from Suc.IH[OF d2 _ _ _ fu, of "n - length ys" kNoData "out @ ys"] 3 True obtain st' its' ix' yss' where
        "chain_loop fuel rd (n - length ys) kNoData (out @ ys) ?its (Suc ix) =
           Some ((st', (out @ ys) @ take (n - length ys) (concat yss1)), its', ix')"
        "list_all2 (delivers rd) (drop ix' its') yss'" "ix' \<le> length its'" "concat yss' = drop (n - length ys) (concat yss1)"
        "length yss' \<le> length yss1" "loop_done (n - length ys) (concat yss1) st'" by auto
      with 3 True r(1) y(1) show ?thesis
        by (intro exI[of _ st'] exI[of _ its'] exI[of _ ix'] exI[of _ yss']) (auto simp: loop_done_def)
    qed
  qed
qed simp

lemma chain_delivers:
  assumes "list_all2 (delivers (RealOp_read f B s)) (drop ix its) yss" and "ix \<le> length its"
    and "length yss + length (concat yss) < f"
  shows "delivers (RealOp_read (Suc f) B s) (ChainIt its dir ix) (concat yss)"
proof (rule delivers_simulation[of "\<lambda>i ys. \<exists>its ix yss. i = ChainIt its dir ix \<and> ys = concat yss \<and>
    list_all2 (delivers (RealOp_read f B s)) (drop ix its) yss \<and> ix \<le> length its \<and> length yss + length (concat yss) < f"],
    goal_cases)
  case (2 i ys n)
  let ?rd = "RealOp_read f B s"
  from 2(1) obtain its ix yss where x: "i = ChainIt its dir ix" "ys = concat yss" "list_all2 (delivers ?rd) (drop ix its) yss"
    "ix \<le> length its" "length yss + length (concat yss) < f" by blast
  from chain_loop_ok[OF x(3,4) 2(2) _ x(5), of kNoData "[]"] obtain st its' ix' yss' where
    r: "chain_loop f ?rd n kNoData [] its ix = Some ((st, take n ys), its', ix')"
    "list_all2 (delivers ?rd) (drop ix' its') yss'" "ix' \<le> length its'" "concat yss' = drop n ys"
    "length yss' \<le> length yss" "loop_done n ys st" unfolding x(2) by auto
  have "RealOp_read (Suc f) B s i n = Some ((st, take n ys), ChainIt its' dir ix')" using r(1) x(1) by (simp add: read_op)
  moreover have "length yss' + length (concat yss') < f" using r(4,5) x(2,5) by simp
  moreover have "st = kOk \<and> ys \<noteq> [] \<or> st = kNoData \<and> length ys < n" using r(6) 2(2) by (auto simp: loop_done_def)
  ultimately show ?case using r(2-4) by metis
qed (use assms in blast)

subsection \<open>Leaves\<close>

text \<open>Positions of an ordered list: what lies between the bounds of two predicates.\<close>

lemma sorted_between:
  fixes xs :: "(('a :: linorder) \<times> 'v) list"
  assumes "sorted (map fst xs)" and "\<And>x y. x \<le> y \<Longrightarrow> P y \<Longrightarrow> P x" and "\<And>x y. x \<le> y \<Longrightarrow> Q y \<Longrightarrow> Q x"
  shows "drop (length (takeWhile P (map fst xs))) (take (length (takeWhile Q (map fst xs))) xs) =
     filter (\<lambda>x. \<not> P (fst x) \<and> Q (fst x)) xs"
  using assms(1)
proof (induction xs)
  case (Cons x xs)
  then have s: "sorted (map fst xs)" "\<forall>y \<in> set xs. fst x \<le> fst y" by auto
  consider "\<not> Q (fst x)" | "Q (fst x)" "P (fst x)" | "Q (fst x)" "\<not> P (fst x)" by blast
  then show ?case
  proof cases
    case 1
    then have "\<forall>y \<in> set xs. \<not> Q (fst y)" using s(2) assms(3) by blast
    with 1 show ?thesis by simp
  next
    case 2
    with Cons.IH[OF s(1)] show ?thesis by simp
  next
    case 3
    then have np: "\<forall>y \<in> set xs. \<not> P (fst y)" using s(2) assms(2) by blast
    have "takeWhile P (map fst xs) = []" using np by (cases xs) auto
    with 3 Cons.IH[OF s(1)] show ?thesis by simp
  qed
qed simp

definition in_range :: "timestamp \<Rightarrow> timestamp \<Rightarrow> timestamp \<Rightarrow> bool" where
  "in_range b e t \<longleftrightarrow> (if b < e then b \<le> t \<and> t < e else e < t \<and> t \<le> b)"

definition li_left :: "leaf_iterator \<Rightarrow> real_sample list \<Rightarrow> bool" where
  "li_left it ys \<longleftrightarrow> (if li_status it = kOk
     then 0 \<le> li_from it \<and> li_from it \<le> li_to it \<and> li_to it \<le> int (length (li_buf it)) \<and>
       ys = take (nat (li_to it - li_from it)) (drop (nat (li_from it)) (li_buf it))
     else li_status it = kNoData \<and> ys = [])"

lemma leaf_it_read:
  assumes "li_left it ys" and "0 < n"
  shows "\<exists>st it'. NBTreeLeafIterator_read n it = Some ((st, take n ys), it') \<and>
     (st = kOk \<and> ys \<noteq> [] \<or> st = kNoData \<and> length ys < n) \<and> li_left it' (drop n ys)"
proof (cases "li_status it = kOk")
  case True
  define m where "m = nat (li_to it - li_from it)"
  define k where "k = nat (li_from it)"
  have h: "li_from it = int k" "li_to it = int (k + m)" "k + m \<le> length (li_buf it)" "ys = take m (drop k (li_buf it))"
    using assms(1) True by (auto simp: li_left_def m_def k_def)
  have l: "length ys = m" using h(3,4) by simp
  show ?thesis
  proof (cases "m = 0")
    case True
    with h l assms show ?thesis using \<open>li_status it = kOk\<close> by (simp add: NBTreeLeafIterator_read_def li_left_def)
  next
    case False
    let ?t = "min m n"
    have "NBTreeLeafIterator_read n it = Some ((kOk, take ?t (drop k (li_buf it))), it\<lparr>li_from := int (k + ?t)\<rparr>)"
      using True False h(1,2) assms(2) by (simp add: NBTreeLeafIterator_read_def Let_def min_def)
    moreover have "take ?t (drop k (li_buf it)) = take n ys" using h(4) by (simp add: min.commute)
    moreover have "li_left (it\<lparr>li_from := int (k + ?t)\<rparr>) (drop n ys)"
      using True h by (auto simp: li_left_def drop_take min_def nat_add_distrib nat_diff_distrib' add.commute)
    moreover have "ys \<noteq> []" using l False by auto
    ultimately show ?thesis by auto
  qed
qed (use assms in \<open>auto simp: li_left_def NBTreeLeafIterator_read_def IsOk_def\<close>)

lemma leaf_it_delivers:
  assumes "li_left it ys"
  shows "delivers (RealOp_read (Suc f) B s) (LeafIt it) ys"
proof (rule delivers_simulation[of "\<lambda>i ys. \<exists>it. i = LeafIt it \<and> li_left it ys"], goal_cases)
  case (2 i ys n)
  then obtain it where x: "i = LeafIt it" "li_left it ys" by blast
  from leaf_it_read[OF x(2) 2(2)] obtain st it' where
    "NBTreeLeafIterator_read n it = Some ((st, take n ys), it')" "st = kOk \<and> ys \<noteq> [] \<or> st = kNoData \<and> length ys < n"
    "li_left it' (drop n ys)" by blast
  moreover from this(1) have "RealOp_read (Suc f) B s i n = Some ((st, take n ys), LeafIt it')" by (simp add: x(1) read_op)
  ultimately show ?case by blast
qed (use assms in blast)

abbreviation (input) range_pick :: "timestamp \<Rightarrow> timestamp \<Rightarrow> real_sample list \<Rightarrow> real_sample list" where
  "range_pick b e \<equiv> pick b e (\<lambda>x. in_range b e (fst x))"

lemma sorted_ends:
  assumes "sorted (map fst xs)" and "x \<in> set xs"
  shows "fst (hd xs) \<le> fst x \<and> fst x \<le> fst (last xs)"
proof -
  from assms(2) obtain i where i: "i < length xs" "x = xs ! i" by (auto simp: in_set_conv_nth)
  from i(1) have ne: "xs \<noteq> []" by auto
  have "map fst xs ! 0 \<le> map fst xs ! i" by (rule sorted_nth_mono[OF assms(1)]) (use i in auto)
  moreover have "map fst xs ! i \<le> map fst xs ! (length xs - 1)" by (rule sorted_nth_mono[OF assms(1)]) (use i in auto)
  ultimately show ?thesis using i ne by (simp add: hd_conv_nth last_conv_nth)
qed

lemma out_of_range:
  assumes "sorted (map fst xs)" and "xs \<noteq> [] \<Longrightarrow> max b e < fst (hd xs) \<or> fst (last xs) < min b e"
  shows "pick b e (\<lambda>x. in_range b e (fst x) \<and> Q x) xs = []"
proof -
  have "\<not> in_range b e (fst x)" if "x \<in> set xs" for x
    using sorted_ends[OF assms(1) that] assms(2) that by (cases xs) (auto simp: in_range_def min_def max_def split: if_splits)
  then show ?thesis by (auto simp: pick_def filter_empty_conv)
qed

lemma leaf_fwd_from_ok:
  assumes "sorted ts" and "ts \<noteq> []" and "b \<le> last ts"
  shows "leaf_fwd_from ts b = Some (lower_bound ts b)"
proof -
  have "lower_bound ts b \<noteq> length ts"
  proof
    assume "lower_bound ts b = length ts"
    then have "takeWhile (\<lambda>t. t < b) ts = ts" unfolding lower_bound_def by (metis takeWhile_eq_take take_all order_refl)
    then have "last ts < b" using assms(2) by (metis takeWhile_eq_all_conv last_in_set)
    with assms(3) show False by simp
  qed
  then show ?thesis by (simp add: leaf_fwd_from_def)
qed

lemma range_positions:
  assumes "sorted (map fst xs)"
  shows "b < e \<Longrightarrow> lower_bound (map fst xs) b \<le> lower_bound (map fst xs) e \<and>
      drop (lower_bound (map fst xs) b) (take (lower_bound (map fst xs) e) xs) = range_pick b e xs"
    and "\<not> b < e \<Longrightarrow> upper_bound (map fst xs) e \<le> upper_bound (map fst xs) b \<and>
      rev (drop (upper_bound (map fst xs) e) (take (upper_bound (map fst xs) b) xs)) = range_pick b e xs"
proof -
  have tw: "length (takeWhile P ts) \<le> length (takeWhile Q ts)" if "\<And>t. P t \<Longrightarrow> Q t" for P Q and ts :: "timestamp list"
    by (induction ts) (auto simp: that)
  show "lower_bound (map fst xs) b \<le> lower_bound (map fst xs) e \<and>
      drop (lower_bound (map fst xs) b) (take (lower_bound (map fst xs) e) xs) = range_pick b e xs" if "b < e"
    using that sorted_between[OF assms, of "\<lambda>t. t < b" "\<lambda>t. t < e"] tw[of "\<lambda>t. t < b" "\<lambda>t. t < e"]
    by (auto simp: lower_bound_def pick_def in_range_def not_less)
  show "upper_bound (map fst xs) e \<le> upper_bound (map fst xs) b \<and>
      rev (drop (upper_bound (map fst xs) e) (take (upper_bound (map fst xs) b) xs)) = range_pick b e xs" if "\<not> b < e"
    using that sorted_between[OF assms, of "\<lambda>t. t \<le> e" "\<lambda>t. t \<le> b"] tw[of "\<lambda>t. t \<le> e" "\<lambda>t. t \<le> b"]
    by (auto simp: upper_bound_def pick_def in_range_def not_le)
qed

lemma bound_le: "lower_bound ts x \<le> length ts" "upper_bound ts x \<le> length ts"
  by (simp_all add: lower_bound_def upper_bound_def length_takeWhile_le)

lemma u64_le_max: "(x :: u64) \<le> 0xFFFFFFFFFFFFFFFF"
proof -
  have "(0xFFFFFFFFFFFFFFFF :: u64) = - 1" by simp
  then show ?thesis by (simp only:) simp
qed

text \<open>The state of a leaf as its iterators see it.\<close>

definition leaf_shows :: "iovec_leaf \<Rightarrow> real_sample list \<Rightarrow> bool" where
  "leaf_shows l xs \<longleftrightarrow> IOVecLeaf_read_all l = Some (kOk, xs) \<and>
     IOVecLeaf_get_timestamps l = Some (if xs = [] then (0xFFFFFFFFFFFFFFFF, 0) else (fst (hd xs), fst (last xs)))"

lemma leaf_iterator_new_eq:
  assumes "IOVecLeaf_get_timestamps l = Some (nb, ne)" and "IOVecLeaf_read_all l = Some (kOk, xs)"
  shows "max b e < nb \<or> ne < min b e \<Longrightarrow> NBTreeLeafIterator_new b e l = Some (NBTreeLeafIterator_delayed b e)"
    and "\<not> (max b e < nb \<or> ne < min b e) \<Longrightarrow> b < e \<Longrightarrow> leaf_fwd_from (map fst xs) b = Some k \<Longrightarrow>
      NBTreeLeafIterator_new b e l = Some \<lparr>li_begin = b, li_end = e, li_buf = xs, li_from = int k,
        li_to = int (lower_bound (map fst xs) e), li_status = kOk\<rparr>"
    and "\<not> (max b e < nb \<or> ne < min b e) \<Longrightarrow> \<not> b < e \<Longrightarrow>
      NBTreeLeafIterator_new b e l = Some \<lparr>li_begin = b, li_end = e, li_buf = rev xs,
        li_from = int (length xs - upper_bound (map fst xs) b),
        li_to = int (length xs - upper_bound (map fst xs) e), li_status = kOk\<rparr>"
  using assms by (simp_all add: NBTreeLeafIterator_new_def NBTreeLeafIterator_init_def NBTreeLeafIterator_delayed_def Let_def)

lemma li_left_delayed [simp]: "li_left (NBTreeLeafIterator_delayed b e) ys \<longleftrightarrow> ys = []"
  by (simp add: li_left_def NBTreeLeafIterator_delayed_def)

lemma li_left_positions:
  assumes "k \<le> m" and "m \<le> length xs"
  shows "li_left \<lparr>li_begin = b, li_end = e, li_buf = xs, li_from = int k, li_to = int m, li_status = kOk\<rparr> (drop k (take m xs))"
proof -
  have "nat (int m - int k) = m - k" by simp
  with assms show ?thesis by (simp add: li_left_def drop_take)
qed

lemma rev_positions:
  "g \<le> f \<Longrightarrow> f \<le> length xs \<Longrightarrow> rev (drop g (take f xs)) = drop (length xs - f) (take (length xs - g) (rev xs))"
  by (simp only: rev_drop rev_take drop_take length_take) simp

lemma leaf_iterator_empty:
  assumes l: "leaf_shows l []" and ne: "\<not> (b = 0 \<and> e = 0xFFFFFFFFFFFFFFFF)"
  shows "\<exists>it. NBTreeLeafIterator_new b e l = Some it \<and> li_left it []"
proof (cases "max b e < 0xFFFFFFFFFFFFFFFF \<or> 0 < min b e")
  case True
  with leaf_iterator_new_eq(1) l show ?thesis by (auto simp: leaf_shows_def)
next
  case False
  have "\<not> b < e"
  proof
    assume "b < e"
    then have "max b e = e" "min b e = b" by simp_all
    with False have "0xFFFFFFFFFFFFFFFF \<le> e" "b \<le> 0" by (simp_all add: not_less)
    with u64_le_max[of e] ne show False by auto
  qed
  with leaf_iterator_new_eq(3)[OF _ _ False] l show ?thesis by (auto simp: leaf_shows_def li_left_def)
qed

lemma leaf_iterator_new:
  assumes l: "leaf_shows l xs" and s: "sorted (map fst xs)" and ne: "xs = [] \<longrightarrow> \<not> (b = 0 \<and> e = 0xFFFFFFFFFFFFFFFF)"
  shows "\<exists>it. NBTreeLeafIterator_new b e l = Some it \<and> li_left it (range_pick b e xs)"
proof (cases "xs = []")
  case True
  with leaf_iterator_empty[of l b e] l ne show ?thesis by (simp add: pick_def)
next
  case False
  let ?ts = "map fst xs"
  have t: "IOVecLeaf_get_timestamps l = Some (fst (hd xs), fst (last xs))" "IOVecLeaf_read_all l = Some (kOk, xs)"
    using l False by (simp_all add: leaf_shows_def)
  show ?thesis
  proof (cases "max b e < fst (hd xs) \<or> fst (last xs) < min b e")
    case True
    with out_of_range[OF s, of b e "\<lambda>_. True"] leaf_iterator_new_eq(1)[OF t True] show ?thesis by simp
  next
    case out: False
    show ?thesis
    proof (cases "b < e")
      case True
      then have "leaf_fwd_from ?ts b = Some (lower_bound ?ts b)" using out False
        by (intro leaf_fwd_from_ok[OF s]) (auto simp: last_map)
      from leaf_iterator_new_eq(2)[OF t out True this] li_left_positions[of "lower_bound ?ts b" "lower_bound ?ts e" xs b e]
        range_positions(1)[OF s True] bound_le(1)[of ?ts e] show ?thesis by simp
    next
      case bw: False
      let ?n = "length xs" and ?f = "upper_bound ?ts b" and ?g = "upper_bound ?ts e"
      have p: "?g \<le> ?f" "?f \<le> ?n" "rev (drop ?g (take ?f xs)) = range_pick b e xs"
        using range_positions(2)[OF s bw] bound_le(2)[of ?ts b] by auto
      from leaf_iterator_new_eq(3)[OF t out bw] li_left_positions[of "?n - ?f" "?n - ?g" "rev xs" b e]
        p(1,2) p(3)[unfolded rev_positions[OF p(1,2)]] show ?thesis by simp
    qed
  qed
qed

lemma leaf_layout_length:
  assumes "leaf_layout sid xs z"
  shows "length xs < 2 ^ 64"
proof -
  from assms obtain main tvs where m: "xs = concat main @ tvs" "length main \<le> 65535" "length tvs \<le> 65535"
    "\<forall>c \<in> set main. length c = 16" unfolding leaf_layout_def by blast
  from concat_pieces_length[of main 16] m(4) have "length (concat main) = length main * 16" by blast
  with m(2,3) show ?thesis by (simp add: m(1))
qed

lemma leaf_shows_view: "leaf_view sid prev fan xs l \<Longrightarrow> leaf_shows l xs"
proof -
  assume v: "leaf_view sid prev fan xs l"
  have "length xs < 2 ^ 64" using leaf_length_bound[OF v] by simp
  then show ?thesis
    using leaf_read_all_view[OF v] leaf_view_header[OF v] leaf_stats_ends[of xs "leaf_header0 sid prev fan"]
    by (auto simp: leaf_shows_def IOVecLeaf_get_timestamps_def IOVecLeaf_get_leafmeta_def leaf_header0_def leaf_init_header_def)
qed

lemma leaf_ref_ends:
  assumes "leaf_image sid p fan xs bs" and "xs \<noteq> []"
  shows "sr_begin (leaf_ref sid fan xs) = fst (hd xs)" "sr_end (leaf_ref sid fan xs) = fst (last xs)"
proof -
  have "length xs < 2 ^ 64" using assms(1) leaf_layout_length by (auto simp: leaf_image_def)
  with assms(2) leaf_stats_ends[of xs "leaf_header0 sid EMPTY_ADDR fan"]
  show "sr_begin (leaf_ref sid fan xs) = fst (hd xs)" "sr_end (leaf_ref sid fan xs) = fst (last xs)"
    by (simp_all add: leaf_ref_def)
qed

lemma ref_core_fields:
  "ref_core r = q \<Longrightarrow> sr_begin r = sr_begin q \<and> sr_end r = sr_end q \<and> sr_type r = sr_type q \<and> sr_level r = sr_level q \<and>
     sr_min r = sr_min q \<and> sr_max r = sr_max q \<and> sr_count r = sr_count q"
  by (auto simp: ref_core_def)

subsection \<open>Subtrees\<close>

lemma hd_last_concat:
  "list_all2 (\<lambda>r x. x \<noteq> [] \<and> f r = g (hd x) \<and> h r = k (last x)) rs xss \<Longrightarrow> rs \<noteq> [] \<Longrightarrow>
   f (hd rs) = g (hd (concat xss)) \<and> h (last rs) = k (last (concat xss)) \<and> concat xss \<noteq> []"
proof (induction rs xss rule: list_all2_induct)
  case (Cons r rs x xss)
  then show ?case by (cases "rs = []") (auto simp: list_all2_Nil)
qed simp

lemma subtree_bounds:
  "subtree look sid n r p xs \<Longrightarrow> xs \<noteq> [] \<and> sr_begin r = fst (hd xs) \<and> sr_end r = fst (last xs) \<and>
     sr_type r = (if n = 0 then LEAF else INNER)"
proof (induction n arbitrary: r p xs)
  case 0
  then obtain fan bs where
    t: "leaf_image sid p fan xs bs" "xs \<noteq> []" "r = (leaf_ref sid fan xs)\<lparr>sr_addr := sr_addr r\<rparr>" by auto
  from ref_fields[OF t(3)] leaf_ref_ends[OF t(1,2)] t(2) show ?case by (simp add: leaf_ref_def)
next
  case (Suc n)
  then obtain fan refs xss bs where
    t: "sb_image sid p fan (of_nat (Suc n)) refs bs" "r = (sb_ref sid fan (of_nat (Suc n)) refs)\<lparr>sr_addr := sr_addr r\<rparr>"
    "list_all2 (\<lambda>r x. \<exists>p. subtree look sid n r p x) refs xss" "xs = concat xss" by auto
  have "list_all2 (\<lambda>r x. x \<noteq> [] \<and> sr_begin r = fst (hd x) \<and> sr_end r = fst (last x)) refs xss"
    using t(3) by (rule list_all2_mono) (use Suc.IH in blast)
  from hd_last_concat[OF this] ref_fields[OF t(2)] t(1,4) show ?case by (simp add: sb_ref_def Let_def sb_image_def)
qed

lemma list_all2_sorted:
  "list_all2 P refs xss \<Longrightarrow> sorted (map fst (concat xss)) \<Longrightarrow>
   list_all2 (\<lambda>r x. P r x \<and> sorted (map fst x) \<and> length x \<le> length (concat xss)) refs xss"
proof (induction refs xss rule: list_all2_induct)
  case (Cons r rs x xss)
  have "list_all2 (\<lambda>r x. P r x \<and> sorted (map fst x) \<and> length x \<le> length (concat xss)) rs xss"
    using Cons by (simp add: sorted_append)
  then have "list_all2 (\<lambda>r y. P r y \<and> sorted (map fst y) \<and> length y \<le> length (concat (x # xss))) rs xss"
    by (rule list_all2_mono) auto
  with Cons show ?case by (simp add: sorted_append)
qed simp

context block_store
begin

lemma leaf_block_shows:
  assumes "room k s" and "look s a = Some bs" and "leaf_image sid p fan xs bs" and "xs \<noteq> []"
  shows "\<exists>l h. read_and_check B a s = Some (kOk, Some (disk_block bs)) \<and> IOVecBlock_get_header (disk_block bs) = Some h \<and>
     ref_core h = leaf_ref sid fan xs \<and> IOVecLeaf_of_block (disk_block bs) = Some l \<and> leaf_shows l xs"
proof -
  from leaf_image_load[OF assms(3,1,2)] obtain l h where
    l: "read_and_check B a s = Some (kOk, Some (disk_block bs))" "IOVecLeaf_of_block (disk_block bs) = Some l"
    "IOVecLeaf_get_leafmeta l = Some h" "ref_core h = leaf_ref sid fan xs" "IOVecLeaf_read_all l = Some (kOk, xs)" by blast
  have "lf_block l = disk_block bs" using l(2) by (auto simp: IOVecLeaf_of_block_def bind_eq_Some_conv)
  with l(3) have "IOVecBlock_get_header (disk_block bs) = Some h" by (simp add: IOVecLeaf_get_leafmeta_def)
  moreover have "leaf_shows l xs"
    using l(3,5) assms(4) ref_core_fields[OF l(4)] leaf_ref_ends[OF assms(3,4)]
    by (simp add: leaf_shows_def IOVecLeaf_get_timestamps_def)
  ultimately show ?thesis using l by blast
qed

lemma leaf_child:
  assumes room: "room k s" and t: "subtree (look s) sid 0 r p xs" and srt: "sorted (map fst xs)"
    and rng: "subtree_in_range r (min b e) (max b e)"
  shows "\<exists>it. SBlockIterator_open B s b e r () = Some ((kOk, Some (LeafIt it)), ()) \<and> li_left it (range_pick b e xs)"
proof -
  from t obtain fan bs where l: "look s (sr_addr r) = Some bs" "leaf_image sid p fan xs bs" "xs \<noteq> []" by auto
  from leaf_block_shows[OF room l] obtain lf h where
    h: "read_and_check B (sr_addr r) s = Some (kOk, Some (disk_block bs))" "IOVecBlock_get_header (disk_block bs) = Some h"
    "ref_core h = leaf_ref sid fan xs" "IOVecLeaf_of_block (disk_block bs) = Some lf" "leaf_shows lf xs" by blast
  have ty: "sr_type r = LEAF" "sr_type h = LEAF" using subtree_bounds[OF t] ref_core_fields[OF h(3)] by (simp_all add: leaf_ref_def)
  from leaf_iterator_new[OF h(5) srt, of b e] l(3) obtain it where
    "NBTreeLeafIterator_new b e lf = Some it" "li_left it (range_pick b e xs)" by blast
  then show ?thesis using exists_ok[OF room, of "sr_addr r"] l(1) rng h(1,2,4) ty
    by (simp add: SBlockIterator_open_def sbi_open_def SBlockIterator_make_leaf_def)
qed

lemma sblock_init:
  assumes room: "room k s" and t: "subtree (look s) sid (Suc n) r p xs"
  shows "\<exists>refs xss. NBTreeSBlockIterator_init B s (NBTreeSBlockIterator_at (sr_addr r) b e) =
       Some (kOk, SBlockIter b e (sr_addr r) refs None 0 (if b < e then 0 else int (length refs) - 1)) \<and>
     list_all2 (\<lambda>r x. \<exists>p. subtree (look s) sid n r p x) refs xss \<and> xs = concat xss \<and> length refs \<le> 32"
proof -
  from t obtain fan refs xss bs where
    l: "look s (sr_addr r) = Some bs" "sb_image sid p fan (of_nat (Suc n)) refs bs" "p \<noteq> 0"
    "list_all2 (\<lambda>r x. \<exists>p. subtree (look s) sid n r p x) refs xss" "xs = concat xss" by auto
  from sb_image_load[OF l(2) room l(1,3)] obtain nd where
    "read_and_check B (sr_addr r) s = Some (kOk, Some (disk_block bs))" "IOVecSuperblock_of_block (disk_block bs) = Some nd"
    "IOVecSuperblock_read_all nd = Some (kOk, refs)" by blast
  then have "NBTreeSBlockIterator_init B s (NBTreeSBlockIterator_at (sr_addr r) b e) =
      Some (kOk, SBlockIter b e (sr_addr r) refs None 0 (if b < e then 0 else int (length refs) - 1))"
    by (simp add: NBTreeSBlockIterator_init_def NBTreeSBlockIterator_at_def)
  with l(2,4,5) show ?thesis by (auto simp: sb_image_def)
qed

lemma subtree_child:
  "room k s \<Longrightarrow> subtree (look s) sid n r p xs \<Longrightarrow> sorted (map fst xs) \<Longrightarrow> 66 + n + length xs < f \<Longrightarrow>
   child (RealOp_read f B s) (SBlockIterator_open B s b e) r (range_pick b e xs)"
proof (induction n arbitrary: r p xs f)
  case (0 r p xs f)
  show ?case
  proof (cases "subtree_in_range r (min b e) (max b e)")
    case True
    from 0(4) obtain f' where f: "f = Suc f'" by (cases f) auto
    from leaf_child[OF 0(1-3) True] leaf_it_delivers[of _ "range_pick b e xs" f' B s] f show ?thesis
      by (auto simp: child_def)
  next
    case False
    have "range_pick b e xs = []" using out_of_range[OF 0(3), of b e "\<lambda>_. True"] False subtree_bounds[OF 0(2)]
      by (auto simp: subtree_in_range_def split: if_splits)
    moreover have "SBlockIterator_open B s b e r () = Some ((kNotFound, None), ())"
      using False exists_ok[OF 0(1), of "sr_addr r"] subtree_stored[OF 0(2)] by (auto simp: SBlockIterator_open_def sbi_open_def)
    ultimately show ?thesis by (simp add: child_def)
  qed
next
  case (Suc n r p xs f)
  show ?case
  proof (cases "subtree_in_range r (min b e) (max b e)")
    case True
    from Suc.prems(4) obtain f' where f: "f = Suc f'" "66 + n + length xs < f'" by (cases f) auto
    from sblock_init[OF Suc.prems(1,2), of b e] obtain refs xss where
      i: "NBTreeSBlockIterator_init B s (NBTreeSBlockIterator_at (sr_addr r) b e :: real_op sblock_iter) =
         Some (kOk, SBlockIter b e (sr_addr r) refs None 0 (if b < e then 0 else int (length refs) - 1))"
      "list_all2 (\<lambda>r x. \<exists>p. subtree (look s) sid n r p x) refs xss" "xs = concat xss" "length refs \<le> 32" by blast
    have "list_all2 (\<lambda>r x. child (RealOp_read f' B s) (SBlockIterator_open B s b e) r (range_pick b e x)) refs xss"
      using list_all2_sorted[OF i(2) Suc.prems(3)[unfolded i(3)]]
      by (rule list_all2_mono) (use Suc.IH[OF Suc.prems(1)] f(2) i(3) in fastforce)
    from sbi_left_start[OF this i(4), of 1 "sr_addr r"]
    have st: "sbi_left (RealOp_read f' B s) (SBlockIterator_open B s b e) b e
      (SBlockIter b e (sr_addr r) refs None 1 (if b < e then 0 else int (length refs) - 1)) (range_pick b e xs)"
      by (simp add: i(3))
    have "delivers (RealOp_read f B s) (SBlockIt (NBTreeSBlockIterator_at (sr_addr r) b e)) (range_pick b e xs)"
      unfolding f(1)
      by (rule sbi_delivers_new[where opn = "SBlockIterator_open B s b e" and rd = "RealOp_read f' B s" and fuel = f'
            and itn = "SBlockIter b e (sr_addr r) refs None 0 (if b < e then 0 else int (length refs) - 1)"])
        (use st i(1) f(2) length_pick[of b e "\<lambda>x. in_range b e (fst x)" xs] in \<open>auto simp: NBTreeSBlockIterator_at_def read_op\<close>)
    moreover have "SBlockIterator_open B s b e r () = Some ((kOk, Some (SBlockIt (NBTreeSBlockIterator_at (sr_addr r) b e))), ())"
      using True exists_ok[OF Suc.prems(1), of "sr_addr r"] subtree_stored[OF Suc.prems(2)] subtree_bounds[OF Suc.prems(2)]
      by (auto simp: SBlockIterator_open_def sbi_open_def SBlockIterator_make_superblock_def LEAF_def INNER_def)
    ultimately show ?thesis by (auto simp: child_def)
  next
    case False
    have "range_pick b e xs = []" using out_of_range[OF Suc.prems(3), of b e "\<lambda>_. True"] False subtree_bounds[OF Suc.prems(2)]
      by (auto simp: subtree_in_range_def split: if_splits)
    moreover have "SBlockIterator_open B s b e r () = Some ((kNotFound, None), ())"
      using False exists_ok[OF Suc.prems(1), of "sr_addr r"] subtree_stored[OF Suc.prems(2)]
      by (auto simp: SBlockIterator_open_def sbi_open_def)
    ultimately show ?thesis by (simp add: child_def)
  qed
qed

end

subsection \<open>The tree\<close>

lemma empty_delivers: "delivers (RealOp_read (Suc f) B s) (EmptyIt b e) []"
  by (rule delivers_simulation[of "\<lambda>i ys. i = EmptyIt b e \<and> ys = []"]) (auto simp: read_op)

lemma those_list_all2: "list_all2 (\<lambda>x y. f x = Some y) xs ys \<Longrightarrow> those (map f xs) = Some ys"
  by (induction xs ys rule: list_all2_induct) auto

lemma list_all2_middle:
  assumes "list_all2 (\<lambda>x z. \<exists>y. P x y \<and> Q y z) xs zs"
  shows "\<exists>ys. list_all2 P xs ys \<and> list_all2 Q ys zs"
proof -
  have "(\<lambda>x z. \<exists>y. P x y \<and> Q y z) = P OO Q" by (auto simp: fun_eq_iff)
  with assms have "(list_all2 P OO list_all2 Q) xs zs" by (simp add: list.rel_compp)
  then show ?thesis by blast
qed

text \<open>One operator per extent, delivering its share of the content.\<close>

definition ext_delivers ::
  "(real_op \<Rightarrow> nat \<Rightarrow> ((status \<times> real_sample list) \<times> real_op) option) \<Rightarrow> (extent \<Rightarrow> real_op option) \<Rightarrow> extent \<Rightarrow>
   real_sample list \<Rightarrow> bool" where
  "ext_delivers rd mk x ys \<longleftrightarrow> (\<exists>op. mk x = Some op \<and> delivers rd op ys)"

lemma extents_delivers:
  assumes "list_all2 (\<lambda>x xs. ext_delivers (RealOp_read f B s) mk x (pick b e P xs)) exts xss" and "exts \<noteq> []"
    and "length exts + length (concat xss) < f"
  shows "\<exists>op. extents_operator mk b e exts = Some op \<and>
     (delivers (RealOp_read (Suc f) B s) op (pick b e P (concat (rev xss))) \<or>
      length exts = 1 \<and> delivers (RealOp_read f B s) op (pick b e P (concat (rev xss))))"
proof -
  define exts' xss' where "exts' = (if b < e then rev exts else exts)" and "xss' = (if b < e then rev xss else xss)"
  have "list_all2 (\<lambda>x xs. ext_delivers (RealOp_read f B s) mk x (pick b e P xs)) exts' xss'"
    using assms(1) by (simp add: exts'_def xss'_def)
  from list_all2_middle[OF this[unfolded ext_delivers_def]] obtain its where
    i: "list_all2 (\<lambda>x op. mk x = Some op) exts' its"
    "list_all2 (\<lambda>op xs. delivers (RealOp_read f B s) op (pick b e P xs)) its xss'" by blast
  let ?yss = "map (pick b e P) xss'"
  have c: "concat ?yss = pick b e P (concat (rev xss))" by (simp add: xss'_def pick_concat rev_map)
  have d: "list_all2 (delivers (RealOp_read f B s)) its ?yss" using i(2) by (simp add: list_all2_map2)
  have l: "length its = length exts" "length xss' = length exts"
    using list_all2_lengthD[OF i(1)] list_all2_lengthD[OF i(2)] by (simp_all add: exts'_def split: if_splits)
  have eq: "extents_operator mk b e exts = Some (if length its = 1 then hd its else ChainOperator_new its)"
    using assms(2) those_list_all2[OF i(1)] by (simp add: extents_operator_def exts'_def)
  show ?thesis
  proof (cases "length its = 1")
    case True
    then obtain op where "its = [op]" by (cases its) auto
    then have "delivers (RealOp_read f B s) op (concat ?yss)" using d by (auto simp: list_all2_Cons1)
    with \<open>its = [op]\<close> eq c l(1) show ?thesis by simp
  next
    case False
    have "length (concat ?yss) \<le> length (concat xss)" unfolding c
      by (rule order_trans[OF length_pick]) simp
    then have "length ?yss + length (concat ?yss) < f" using l(2) assms(3) by simp
    then have "delivers (RealOp_read (Suc f) B s) (ChainOperator_new its) (concat ?yss)"
      unfolding ChainOperator_new_def by (intro chain_delivers) (use d in simp_all)
    with eq c False show ?thesis by simp
  qed
qed

context block_store
begin

lemma sblock_extent_delivers:
  assumes x: "sbext_ok c (look s) sid d n se refs xs" and room: "room k s" and srt: "sorted (map fst xs)"
    and fuel: "67 + n + length xs < f"
  shows "ext_delivers (RealOp_read f B s) (extent_search b e) (SBlockExt se) (range_pick b e xs)"
proof -
  from x obtain prev fan where v: "sb_view sid prev fan (of_nat (Suc n)) refs (se_curr se)"
    and ch: "children (look s) sid d n refs xs" by (auto simp: sbext_ok_def)
  from children_subtrees[OF ch] obtain xss where
    c: "list_all2 (\<lambda>r x. \<exists>p. subtree (look s) sid n r p x) refs xss" "xs = concat xss" by blast
  from fuel obtain f' where f: "f = Suc f'" "66 + n + length xs < f'" by (cases f) auto
  have "list_all2 (\<lambda>r x. child (RealOp_read f' B s) (SBlockIterator_open B s b e) r (range_pick b e x)) refs xss"
    using list_all2_sorted[OF c(1) srt[unfolded c(2)]]
    by (rule list_all2_mono) (use subtree_child[OF room] f(2) c(2) in fastforce)
  moreover have "length refs \<le> 32" using v by (simp add: sb_view_def)
  ultimately have st: "sbi_left (RealOp_read f' B s) (SBlockIterator_open B s b e) b e
      (SBlockIter b e EMPTY_ADDR refs None 1 (if b < e then 0 else int (length refs) - 1)) (range_pick b e xs)"
    unfolding c(2) by (intro sbi_left_start) auto
  have "delivers (RealOp_read (Suc f') B s) (SBlockIt
      (SBlockIter b e EMPTY_ADDR refs None 1 (if b < e then 0 else int (length refs) - 1))) (range_pick b e xs)"
    by (rule sbi_delivers_left[OF _ _ st, where fuel = f'])
      (use f(2) length_pick[of b e "\<lambda>x. in_range b e (fst x)" xs] in \<open>auto simp: read_op\<close>)
  moreover have "extent_search b e (SBlockExt se) =
      Some (SBlockIt (SBlockIter b e EMPTY_ADDR refs None 1 (if b < e then 0 else int (length refs) - 1)))"
    using sb_read_all_view[OF v] by (simp add: extent_search_def IOVecSuperblock_search_def NBTreeSBlockIterator_of_def Let_def)
  ultimately show ?thesis unfolding ext_delivers_def f(1) by blast
qed

text \<open>The content of the upper extents, cut into the shares of the extents.\<close>

lemma upper_shares:
  "upper_ok c (look s) sid d n es rps ys refs \<Longrightarrow> sorted (map fst ys) \<Longrightarrow>
   \<exists>xss. ys = concat (rev xss) \<and> list_all2 (\<lambda>x xs. sorted (map fst xs) \<and> length xs \<le> length ys \<and>
     (\<exists>m se rs. x = SBlockExt se \<and> m < n + length es \<and> sbext_ok c (look s) sid d m se rs xs)) es xss"
proof (induction es arbitrary: n rps ys refs)
  case (Cons e es)
  from Cons.prems(1) obtain se rps' ys' zs refs' where
    u: "e = SBlockExt se" "ys = ys' @ zs" "sbext_ok c (look s) sid d n se refs zs"
    "upper_ok c (look s) sid d (Suc n) es rps' ys' refs'" by (simp only: upper_ok.simps) blast
  from Cons.IH[OF u(4)] Cons.prems(2) u(2) obtain xss where
    x: "ys' = concat (rev xss)" "list_all2 (\<lambda>x xs. sorted (map fst xs) \<and> length xs \<le> length ys' \<and>
      (\<exists>m se rs. x = SBlockExt se \<and> m < Suc n + length es \<and> sbext_ok c (look s) sid d m se rs xs)) es xss"
    by (auto simp: sorted_append)
  have "list_all2 (\<lambda>x xs. sorted (map fst xs) \<and> length xs \<le> length ys \<and>
      (\<exists>m se rs. x = SBlockExt se \<and> m < n + length (e # es) \<and> sbext_ok c (look s) sid d m se rs xs)) es xss"
    using x(2) by (rule list_all2_mono) (auto simp: u(2))
  moreover have "sorted (map fst zs)" using Cons.prems(2) u(2) by (simp add: sorted_append)
  moreover have "length zs \<le> length ys" "ys = concat (rev (zs # xss))" using u(2) x(1) by simp_all
  moreover have "\<exists>m se rs. e = SBlockExt se \<and> m < n + length (e # es) \<and> sbext_ok c (look s) sid d m se rs zs"
    using u(1,3) by (intro exI[of _ n] exI[of _ se] exI[of _ refs]) simp
  ultimately show ?case by (intro exI[of _ "zs # xss"]) (simp only: list.rel_inject simp_thms)
qed auto

lemma tree_search_delivers:
  assumes t: "tree_ok c (look s) sid d t xs" and srt: "sorted (map fst xs)" and room: "room k s"
    and full: "nt_extents t \<noteq> [] \<longrightarrow> leaf_count t = 0 \<longrightarrow> \<not> (b = 0 \<and> e = 0xFFFFFFFFFFFFFFFF)"
    and fuel: "70 + length (nt_extents t) + length xs < f"
  shows "\<exists>op. tree_search b e t = Some op \<and> delivers (RealOp_read f B s) op (range_pick b e xs)"
proof -
  from fuel obtain f' where f: "f = Suc f'" "69 + length (nt_extents t) + length xs < f'" by (cases f) auto
  consider "nt_extents t = []" "xs = []" | le es refs ys zs where "tree_parts c (look s) sid d t le es refs ys zs" "xs = ys @ zs"
    using t by (auto simp: tree_ok_def)
  then show ?thesis
  proof cases
    case 1
    with empty_delivers[of f' B s b e] f(1) show ?thesis by (simp add: tree_search_def extents_operator_def pick_def)
  next
    case (2 le es refs ys zs)
    then obtain rps prev fan where p: "nt_extents t = LeafExt le # es" "upper_ok c (look s) sid d 0 es rps ys refs"
      "leaf_view sid prev fan zs (le_leaf le)" by (auto simp: tree_parts_def leafext_ok_def)
    have sz: "sorted (map fst zs)" "sorted (map fst ys)" using srt 2(2) by (simp_all add: sorted_append)
    from upper_shares[OF p(2) sz(2)] obtain xss where
      x: "ys = concat (rev xss)" "list_all2 (\<lambda>x xs. sorted (map fst xs) \<and> length xs \<le> length ys \<and>
        (\<exists>m se rs. x = SBlockExt se \<and> m < 0 + length es \<and> sbext_ok c (look s) sid d m se rs xs)) es xss" by blast
    have upper: "list_all2 (\<lambda>x xs. ext_delivers (RealOp_read g B s) (extent_search b e) x (range_pick b e xs)) es xss"
      if g: "69 + length es + length ys < g" for g
      using x(2) by (rule list_all2_mono) (use sblock_extent_delivers[OF _ room] g in \<open>fastforce simp: in_range_def\<close>)
    have "zs = [] \<longrightarrow> \<not> (b = 0 \<and> e = 0xFFFFFFFFFFFFFFFF)" using full leaf_count_parts[OF 2(1)] p(1) by simp
    from leaf_iterator_new[OF leaf_shows_view[OF p(3)] sz(1) this] obtain it where
      it: "NBTreeLeafIterator_new b e (le_leaf le) = Some it" "li_left it (range_pick b e zs)" by blast
    have leaf: "ext_delivers (RealOp_read (Suc g) B s) (extent_search b e) (LeafExt le) (range_pick b e zs)" for g
      using it leaf_it_delivers[OF it(2)] by (simp add: ext_delivers_def extent_search_def IOVecLeaf_range_def)
    show ?thesis
    proof (cases "es = []")
      case True
      with x(2) 2(2) x(1) leaf[of f'] p(1) f(1) show ?thesis
        by (auto simp: tree_search_def extents_operator_def ext_delivers_def)
    next
      case False
      from f(2) obtain g where g: "f' = Suc g" by (cases f') auto
      have "list_all2 (\<lambda>x xs. ext_delivers (RealOp_read f' B s) (extent_search b e) x (range_pick b e xs)) (LeafExt le # es) (zs # xss)"
        using upper[of f'] f(2) p(1) 2(2) leaf[of g] g by simp
      from extents_delivers[OF this] f(2) p(1) 2(2) x(1) False show ?thesis unfolding f(1)
        by (auto simp: tree_search_def)
    qed
  qed
qed

end

end
