(* ===== verification/NBOpen.thy ===== *)
theory NBOpen
  imports NBIter
begin

text \<open>
  Opening a tree, \<^verbatim>\<open>storage/nbtree.cc\<close>: \<open>open\<close> rebuilds the extents from the root that \<open>close\<close>
  wrote, \<open>repair\<close> rebuilds them from the rescue points after a crash, \<open>init\<close> chooses between them.
  The public operations initialise the tree on their first use.
\<close>

definition FASTSTDB_MIN_TIMESTAMP :: timestamp where
  "FASTSTDB_MIN_TIMESTAMP = 0"

definition FASTSTDB_MAX_TIMESTAMP :: timestamp where
  "FASTSTDB_MAX_TIMESTAMP = 0xFFFFFFFFFFFFFFFF"

definition FASTSTDB_LIMITS_MAX_EVENT_LEN :: nat where
  "FASTSTDB_LIMITS_MAX_EVENT_LEN = 4096"

subsection \<open>open\<close>

text \<open>The branch for a single page on disk; the result says whether the method returns at once.
  The new root is empty, so that its \<open>append\<close> cannot overflow.\<close>

definition open_single_page :: "'s bstore \<Rightarrow> 's tree_state \<Rightarrow> (bool \<times> nbtree) option" where
  "open_single_page B st =
     (case st of (t, s) \<Rightarrow>
        do {
          root_extent \<leftarrow> NBTreeSBlockExtent_new B (nt_id t) EMPTY_ADDR 1 s;
          addr \<leftarrow> at (nt_rescue t) 0;
          (status, leaf_block) \<leftarrow> read_and_check B addr s;
          if \<not> IsOk status then do {
            leaf_extent \<leftarrow> NBTreeLeafExtent_new B (nt_id t) EMPTY_ADDR s;
            Some (True, t\<lparr>nt_extents := nt_extents t @ [LeafExt leaf_extent], nt_initialized := True\<rparr>) }
          else do {
            b \<leftarrow> leaf_block;
            leaf \<leftarrow> IOVecLeaf_of_block b;
            (status, sref) \<leftarrow> init_subtree_from_leaf leaf INIT_SUBTREE_REF;
            if \<not> IsOk status then None
            else do {
              (status, n) \<leftarrow> IOVecSuperblock_append (sref\<lparr>sr_addr := addr\<rparr>) (se_curr root_extent);
              if status = kOverflow then None
              else do {
                leaf_extent \<leftarrow> NBTreeLeafExtent_new B (nt_id t) addr s;
                Some (False, t\<lparr>nt_extents := nt_extents t @ [LeafExt leaf_extent, SBlockExt (root_extent\<lparr>se_curr := n\<rparr>)],
                               nt_rescue := nt_rescue t @ [EMPTY_ADDR]\<rparr>) } } } })"

primrec open_inner :: "'s bstore \<Rightarrow> param_id \<Rightarrow> nat list \<Rightarrow> 's \<Rightarrow> extent list option" where
  "open_inner B id' [] s = Some []"
| "open_inner B id' (i # is) s =
     do { inner \<leftarrow> NBTreeSBlockExtent_new B id' EMPTY_ADDR (of_nat i) s;
          rest \<leftarrow> open_inner B id' is s;
          Some (SBlockExt inner # rest) }"

definition open_root :: "'s bstore \<Rightarrow> 's tree_state \<Rightarrow> nbtree option" where
  "open_root B st =
     (case st of (t, s) \<Rightarrow>
        do {
          let root_level = length (nt_rescue t) - 1;
          let addr = last (nt_rescue t);
          root \<leftarrow> NBTreeSBlockExtent_new B (nt_id t) addr (of_nat root_level) s;
          leaf \<leftarrow> NBTreeLeafExtent_new B (nt_id t) EMPTY_ADDR s;
          inner \<leftarrow> open_inner B (nt_id t) [1..<root_level] s;
          Some (t\<lparr>nt_extents := nt_extents t @ [LeafExt leaf] @ inner @ [SBlockExt root]\<rparr>) })"

definition extent_get_status :: "extent \<Rightarrow> extent_status option" where
  "extent_get_status x = (case x of LeafExt e \<Rightarrow> NBTreeLeafExtent_status e | SBlockExt e \<Rightarrow> Some (NBTreeSBlockExtent_status e))"

text \<open>The number of extents at the end of the list that the retention has killed.\<close>

primrec count_killed :: "extent list \<Rightarrow> nat option" where
  "count_killed [] = Some 0"
| "count_killed (x # xs) =
     do { st \<leftarrow> extent_get_status x;
          if st = ExtKILLED_BY_RETENTION then map_option Suc (count_killed xs) else Some 0 }"

definition remove_stalled :: "nbtree \<Rightarrow> nbtree option" where
  "remove_stalled t =
     do { n \<leftarrow> count_killed (rev (nt_extents t));
          if length (nt_rescue t) < n then None
          else Some (t\<lparr>nt_extents := take (length (nt_extents t) - n) (nt_extents t),
                       nt_rescue := take (length (nt_rescue t) - n) (nt_rescue t)\<rparr>) }"

definition restore_last :: "nat \<Rightarrow> 's bstore \<Rightarrow> 's tree_state \<Rightarrow> nbtree option" where
  "restore_last fuel B st =
     (case st of (t, s) \<Rightarrow>
        if nt_extents t = [] then Some t
        else do {
          it \<leftarrow> extent_search FASTSTDB_MAX_TIMESTAMP 0 (last (nt_extents t));
          ((status, out), it) \<leftarrow> RealOp_read fuel B s it 1;
          if \<not> IsOk status then Some (t\<lparr>nt_last := FASTSTDB_MIN_TIMESTAMP\<rparr>)
          else do { (ts, v) \<leftarrow> at out 0; Some (t\<lparr>nt_last := ts\<rparr>) } })"

definition NBTreeExtentsList_open :: "nat \<Rightarrow> 's bstore \<Rightarrow> 's tree_state \<Rightarrow> nbtree option" where
  "NBTreeExtentsList_open fuel B st =
     (case st of (t, s) \<Rightarrow>
        do {
          (done', t) \<leftarrow> (if length (nt_rescue t) < 2 then open_single_page B (t, s)
                        else map_option (\<lambda>t. (False, t)) (open_root B (t, s)));
          if done' then Some t
          else do {
            t \<leftarrow> remove_stalled t;
            t \<leftarrow> restore_last fuel B (t, s);
            if length (nt_rescue t) = length (nt_extents t) then Some t else None } })"

subsection \<open>repair\<close>

primrec create_empty_extents :: "'s bstore \<Rightarrow> param_id \<Rightarrow> nat list \<Rightarrow> 's \<Rightarrow> extent list option" where
  "create_empty_extents B id' [] s = Some []"
| "create_empty_extents B id' (i # is) s =
     do {
       x \<leftarrow> (if i = 0 then map_option LeafExt (NBTreeLeafExtent_new B id' EMPTY_ADDR s)
            else map_option SBlockExt (NBTreeSBlockExtent_new B id' EMPTY_ADDR (of_nat i) s));
       rest \<leftarrow> create_empty_extents B id' is s;
       Some (x # rest) }"

primrec append_refs :: "'s bstore \<Rightarrow> subtree_ref list \<Rightarrow> 's tree_state \<Rightarrow> 's tree_state option" where
  "append_refs B [] st = Some st"
| "append_refs B (r # rs) st = do { (b, st) \<leftarrow> tree_append_ref B r st; append_refs B rs st }"

text \<open>The summary of the node at \<open>cur\<close> and its link to the previous node.\<close>

definition repair_node :: "iovec_block \<Rightarrow> logic_addr \<Rightarrow> (subtree_ref \<times> logic_addr) option" where
  "repair_node block cur =
     do {
       pref \<leftarrow> IOVecBlock_get_header block;
       if sr_type pref = LEAF then do {
         leaf \<leftarrow> IOVecLeaf_of_block block;
         (status, ref) \<leftarrow> init_subtree_from_leaf leaf INIT_SUBTREE_REF;
         Some (ref\<lparr>sr_addr := cur\<rparr>, IOVecLeaf_get_prev_addr leaf) }
       else do {
         sblock \<leftarrow> IOVecSuperblock_of_block block;
         (status, ref) \<leftarrow> init_subtree_from_subtree sblock INIT_SUBTREE_REF;
         Some (ref\<lparr>sr_addr := cur\<rparr>, IOVecSuperblock_get_prev_addr sblock) } }"

text \<open>The head of the list is the top of the stack.  The fuel bounds the number of blocks read.\<close>

primrec repair_loop ::
  "nat \<Rightarrow> 's bstore \<Rightarrow> logic_addr list \<Rightarrow> subtree_ref list \<Rightarrow> 's tree_state \<Rightarrow> 's tree_state option" where
  "repair_loop 0 B stack refs st = None"
| "repair_loop (Suc fuel) B stack refs st =
     (case stack of
        [] \<Rightarrow> Some st
      | cur # stack \<Rightarrow>
          if cur = EMPTY_ADDR then do {
            st \<leftarrow> append_refs B (rev refs) st;
            repair_loop fuel B stack [] st }
          else do {
            (status, block) \<leftarrow> read_and_check B cur (snd st);
            if \<not> IsOk status then repair_loop fuel B (EMPTY_ADDR # stack) refs st
            else do {
              b \<leftarrow> block;
              (ref, prev) \<leftarrow> repair_node b cur;
              repair_loop fuel B (prev # stack) (refs @ [ref]) st } })"

definition NBTreeExtentsList_repair :: "nat \<Rightarrow> 's bstore \<Rightarrow> 's tree_state \<Rightarrow> 's tree_state option" where
  "NBTreeExtentsList_repair fuel B st =
     (case st of (t, s) \<Rightarrow>
        do {
          exts \<leftarrow> create_empty_extents B (nt_id t) [0..<length (nt_rescue t)] s;
          repair_loop fuel B (rev (nt_rescue t)) [] (t\<lparr>nt_extents := nt_extents t @ exts\<rparr>, s) })"

subsection \<open>init\<close>

datatype repair_status = RepairOK | RepairSKIP | RepairREPAIR

definition NBTreeExtentsList_repair_status :: "logic_addr list \<Rightarrow> repair_status" where
  "NBTreeExtentsList_repair_status rescue_points =
     (let cnt = int (length rescue_points) - int (count_list rescue_points EMPTY_ADDR)
      in if cnt = 1 \<and> last rescue_points \<noteq> EMPTY_ADDR then RepairOK else RepairREPAIR)"

definition NBTreeExtentsList_init :: "nat \<Rightarrow> 's bstore \<Rightarrow> 's tree_state \<Rightarrow> 's tree_state option" where
  "NBTreeExtentsList_init fuel B st =
     (case st of (t, s) \<Rightarrow>
        let t = t\<lparr>nt_initialized := True\<rparr>
        in if nt_rescue t \<noteq> [] then
             (if NBTreeExtentsList_repair_status (nt_rescue t) = RepairOK
              then map_option (\<lambda>t. (t, s)) (NBTreeExtentsList_open fuel B (t, s))
              else NBTreeExtentsList_repair fuel B (t, s))
           else Some (t, s))"

definition NBTreeExtentsList_force_init :: "nat \<Rightarrow> 's bstore \<Rightarrow> 's tree_state \<Rightarrow> 's tree_state option" where
  "NBTreeExtentsList_force_init fuel B st =
     (if \<not> nt_initialized (fst st) then NBTreeExtentsList_init fuel B st else Some st)"

subsection \<open>The public operations\<close>

definition NBTreeExtentsList_append ::
  "nat \<Rightarrow> 's bstore \<Rightarrow> timestamp \<Rightarrow> double_bits \<Rightarrow> bool \<Rightarrow> 's tree_state \<Rightarrow> (append_result \<times> 's tree_state) option" where
  "NBTreeExtentsList_append fuel B ts value dup st =
     do { st \<leftarrow> NBTreeExtentsList_force_init fuel B st; tree_append B ts value dup st }"

definition NBTreeExtentsList_search ::
  "nat \<Rightarrow> 's bstore \<Rightarrow> timestamp \<Rightarrow> timestamp \<Rightarrow> 's tree_state \<Rightarrow> (real_op \<times> 's tree_state) option" where
  "NBTreeExtentsList_search fuel B b e st =
     do { st \<leftarrow> NBTreeExtentsList_force_init fuel B st; it \<leftarrow> tree_search b e (fst st); Some (it, st) }"

definition NBTreeExtentsList_filter ::
  "nat \<Rightarrow> 's bstore \<Rightarrow> timestamp \<Rightarrow> timestamp \<Rightarrow> value_filter \<Rightarrow> 's tree_state \<Rightarrow> (real_op \<times> 's tree_state) option" where
  "NBTreeExtentsList_filter fuel B b e f st =
     do { st \<leftarrow> NBTreeExtentsList_force_init fuel B st; it \<leftarrow> tree_filter b e f (fst st); Some (it, st) }"

text \<open>\<open>append(Timestamp, const u8*, u32)\<close>: an event is a head element, which holds its size and
  the part of the timestamp below a microsecond, and one element per eight bytes.\<close>

primrec append_elements ::
  "nat \<Rightarrow> 's bstore \<Rightarrow> u8 list list \<Rightarrow> timestamp \<Rightarrow> append_result \<Rightarrow> 's tree_state \<Rightarrow> (append_result \<times> 's tree_state) option" where
  "append_elements fuel B [] basets outres st = Some (outres, st)"
| "append_elements fuel B (c # cs) basets outres st =
     do {
       (res, st) \<leftarrow> NBTreeExtentsList_append fuel B basets (le_val c) False st;
       if res = OK then append_elements fuel B cs (basets + 1) outres st
       else if res = OK_FLUSH_NEEDED then append_elements fuel B cs (basets + 1) res st
       else Some (res, st) }"

fun blob_chunks :: "u8 list \<Rightarrow> u8 list list" where
  "blob_chunks [] = []"
| "blob_chunks (x # xs) = take 8 (x # xs) # blob_chunks (drop 8 (x # xs))"

definition NBTreeExtentsList_append_blob ::
  "nat \<Rightarrow> 's bstore \<Rightarrow> timestamp \<Rightarrow> u8 list \<Rightarrow> 's tree_state \<Rightarrow> (append_result \<times> 's tree_state) option" where
  "NBTreeExtentsList_append_blob fuel B ts blob st =
     (if length blob = 0 \<or> FASTSTDB_LIMITS_MAX_EVENT_LEN < length blob then Some (FAIL_BAD_VALUE, st)
      else do {
        let basets = ts div 1000 * 1000;
        let tsrem = (ucast (ts - basets) :: u32);
        let head = le_val (le_bytes 4 (of_nat (length blob) :: u32) @ le_bytes 4 tsrem);
        (outres, st) \<leftarrow> NBTreeExtentsList_append fuel B basets head False st;
        if outres = FAIL_BAD_ID \<or> outres = FAIL_BAD_VALUE \<or> outres = FAIL_LATE_WRITE then Some (outres, st)
        else append_elements fuel B (blob_chunks blob) (basets + 1) outres st })"

definition NBTreeExtentsList_bytes_used :: "nbtree \<Rightarrow> nat \<times> nat" where
  "NBTreeExtentsList_bytes_used t =
     (case nt_extents t of
        [] \<Rightarrow> (0, 0)
      | x # xs \<Rightarrow>
          ((case x of LeafExt e \<Rightarrow> IOVecLeaf_bytes_used (le_leaf e) | SBlockExt e \<Rightarrow> 0),
           if xs = [] then 0 else 0x1000 * (length (nt_extents t) - 1)))"

definition NBTreeExtentsList_get_uncommitted_size :: "nbtree \<Rightarrow> nat option" where
  "NBTreeExtentsList_get_uncommitted_size t =
     (case nt_extents t of
        [] \<Rightarrow> Some 0
      | LeafExt e # _ \<Rightarrow> IOVecLeaf_get_uncommitted_size (le_leaf e)
      | SBlockExt e # _ \<Rightarrow> None)"

definition NBTreeExtentsList_get_roots :: "nbtree \<Rightarrow> logic_addr list" where
  "NBTreeExtentsList_get_roots t = nt_rescue t"

end
