(* ===== verification/NBTree.thy ===== *)
theory NBTree
  imports NBSearch NBOpen
begin

text \<open>
  The tree as its clients see it: appends and searches through the public operations.  A live tree
  is an initialised one that satisfies the invariant of the write path and whose samples are
  ordered; every append keeps it live and adds the sample or refuses it, and a search delivers the
  samples of the range.
\<close>

definition late :: "bool \<Rightarrow> timestamp \<Rightarrow> timestamp \<Rightarrow> bool" where
  "late dup last' ts \<longleftrightarrow> (if dup then ts < last' else ts \<le> last')"

definition live_tree ::
  "bool \<Rightarrow> (logic_addr \<Rightarrow> u8 list option) \<Rightarrow> param_id \<Rightarrow> nat \<Rightarrow> nbtree \<Rightarrow> sample list \<Rightarrow> bool" where
  "live_tree c lk sid d t xs \<longleftrightarrow> nt_initialized t \<and> tree_ok c lk sid d t xs \<and> sorted (map fst xs) \<and>
     (\<forall>x \<in> set xs. fst x \<le> nt_last t)"

text \<open>A sequence of appends, and the samples of it that a tree with the given last timestamp
  accepts.\<close>

primrec append_all ::
  "nat \<Rightarrow> 's bstore \<Rightarrow> bool \<Rightarrow> sample list \<Rightarrow> 's tree_state \<Rightarrow> (append_result list \<times> 's tree_state) option" where
  "append_all fuel B dup [] st = Some ([], st)"
| "append_all fuel B dup (x # xs) st =
     do { (r, st) \<leftarrow> NBTreeExtentsList_append fuel B (fst x) (snd x) dup st;
          (rs, st) \<leftarrow> append_all fuel B dup xs st;
          Some (r # rs, st) }"

primrec accepted :: "bool \<Rightarrow> timestamp \<Rightarrow> sample list \<Rightarrow> sample list" where
  "accepted dup last' [] = []"
| "accepted dup last' (x # xs) =
     (if late dup last' (fst x) then accepted dup last' xs else x # accepted dup (fst x) xs)"

lemma force_init_live [simp]: "nt_initialized t \<Longrightarrow> NBTreeExtentsList_force_init fuel B (t, s) = Some (t, s)"
  by (simp add: NBTreeExtentsList_force_init_def)

lemma tree_need_mono: "k \<le> k' \<Longrightarrow> tree_need k t \<le> tree_need k' t"
  by (simp add: tree_need_def div_le_mono)

context durable_store
begin

lemma append_live:
  assumes t: "live_tree c (look s) sid d t xs" and len: "length xs < 2 ^ 64" and d: "d < 65000"
    and room: "room (tree_need (Suc k) t) s"
  shows "\<exists>r t' s'. NBTreeExtentsList_append fuel B ts x dup (t, s) = Some (r, t', s') \<and> room (tree_need k t') s' \<and>
     look s \<subseteq>\<^sub>m look s' \<and>
     (if late dup (nt_last t) ts then r = FAIL_LATE_WRITE \<and> t' = t \<and> s' = s
      else (r = OK \<or> r = OK_FLUSH_NEEDED) \<and> live_tree c (look s') sid d t' (xs @ [(ts, x)]) \<and> nt_last t' = ts \<and>
        0 < leaf_count t' \<and> 0 < nt_write_count t')"
proof (cases "late dup (nt_last t) ts")
  case True
  then have "tree_append B ts x dup (t, s) = Some (FAIL_LATE_WRITE, t, s)" by (simp add: late_def tree_append_def)
  moreover have "room (tree_need k t) s" using room_le[OF room tree_need_mono] by simp
  ultimately show ?thesis using True t by (simp add: NBTreeExtentsList_append_def live_tree_def)
next
  case False
  have ok: "tree_ok c (look s) sid d t xs" using t by (simp add: live_tree_def)
  have "length (nt_extents t) < 65530" using tree_height[OF ok len] d by simp
  from tree_append_ok[OF ok this False[unfolded late_def] room] obtain r t' s' where
    a: "tree_append B ts x dup (t, s) = Some (r, t', s')" "r = OK \<or> r = OK_FLUSH_NEEDED"
    "tree_ok c (look s') sid d t' (xs @ [(ts, x)])" "room (tree_need k t') s'" "look s \<subseteq>\<^sub>m look s'"
    "nt_last t' = ts" "nt_initialized t' = nt_initialized t" "0 < leaf_count t'" "0 < nt_write_count t'" by blast
  have "nt_last t \<le> ts" using False by (auto simp: late_def split: if_splits)
  then have "sorted (map fst (xs @ [(ts, x)]))" "\<forall>y \<in> set (xs @ [(ts, x)]). fst y \<le> ts"
    using t by (auto simp: live_tree_def sorted_append)
  with a t False show ?thesis by (auto simp: NBTreeExtentsList_append_def live_tree_def)
qed

lemma append_all_live:
  "live_tree c (look s) sid d t xs \<Longrightarrow> length xs + length ops < 2 ^ 64 \<Longrightarrow> d < 65000 \<Longrightarrow>
   room (tree_need (length ops + k) t) s \<Longrightarrow>
   \<exists>rs t' s'. append_all fuel B dup ops (t, s) = Some (rs, t', s') \<and>
     live_tree c (look s') sid d t' (xs @ accepted dup (nt_last t) ops) \<and> length rs = length ops \<and>
     accepted dup (nt_last t) ops = map fst (filter (\<lambda>(x, r). r \<noteq> FAIL_LATE_WRITE) (zip ops rs)) \<and>
     room (tree_need k t') s' \<and> look s \<subseteq>\<^sub>m look s' \<and>
     (if accepted dup (nt_last t) ops = [] then t' = t \<and> s' = s else 0 < leaf_count t' \<and> 0 < nt_write_count t')"
proof (induction ops arbitrary: t s xs)
  case (Cons x ops)
  have lt: "length xs < 2 ^ 64" using Cons.prems(2) by simp
  from append_live[OF Cons.prems(1) lt Cons.prems(3), of "length ops + k" fuel "fst x" "snd x" dup] Cons.prems(4)
  obtain r t1 s1 where
    a: "NBTreeExtentsList_append fuel B (fst x) (snd x) dup (t, s) = Some (r, t1, s1)" "room (tree_need (length ops + k) t1) s1"
    "look s \<subseteq>\<^sub>m look s1"
    "if late dup (nt_last t) (fst x) then r = FAIL_LATE_WRITE \<and> t1 = t \<and> s1 = s
     else (r = OK \<or> r = OK_FLUSH_NEEDED) \<and> live_tree c (look s1) sid d t1 (xs @ [(fst x, snd x)]) \<and> nt_last t1 = fst x \<and>
       0 < leaf_count t1 \<and> 0 < nt_write_count t1" by auto
  define xs1 where "xs1 = (if late dup (nt_last t) (fst x) then xs else xs @ [x])"
  have l1: "live_tree c (look s1) sid d t1 xs1"
    "accepted dup (nt_last t) (x # ops) = (if late dup (nt_last t) (fst x) then [] else [x]) @ accepted dup (nt_last t1) ops"
    "r = FAIL_LATE_WRITE \<longleftrightarrow> late dup (nt_last t) (fst x)"
    using a(4) Cons.prems(1) by (auto simp: xs1_def split: if_splits)
  have "length xs1 + length ops < 2 ^ 64" using Cons.prems(2) by (simp add: xs1_def)
  from Cons.IH[OF l1(1) this Cons.prems(3) a(2)] obtain rs t' s' where
    i: "append_all fuel B dup ops (t1, s1) = Some (rs, t', s')"
    "live_tree c (look s') sid d t' (xs1 @ accepted dup (nt_last t1) ops)" "length rs = length ops"
    "accepted dup (nt_last t1) ops = map fst (filter (\<lambda>(x, r). r \<noteq> FAIL_LATE_WRITE) (zip ops rs))"
    "room (tree_need k t') s'" "look s1 \<subseteq>\<^sub>m look s'"
    "if accepted dup (nt_last t1) ops = [] then t' = t1 \<and> s' = s1 else 0 < leaf_count t' \<and> 0 < nt_write_count t'" by blast
  have "append_all fuel B dup (x # ops) (t, s) = Some (r # rs, t', s')" using a(1) i(1) by simp
  moreover have "xs1 @ accepted dup (nt_last t1) ops = xs @ accepted dup (nt_last t) (x # ops)"
    unfolding l1(2) by (simp add: xs1_def)
  moreover have "accepted dup (nt_last t) (x # ops) = map fst (filter (\<lambda>(x, r). r \<noteq> FAIL_LATE_WRITE) (zip (x # ops) (r # rs)))"
    unfolding l1(2) using l1(3) i(4) by simp
  moreover have "if accepted dup (nt_last t) (x # ops) = [] then t' = t \<and> s' = s else 0 < leaf_count t' \<and> 0 < nt_write_count t'"
    unfolding l1(2) using i(7) a(4) by (auto split: if_splits)
  ultimately show ?case using i(2,3,5,6) map_le_trans[OF a(3) i(6)] by (intro exI[of _ "r # rs"] exI[of _ t'] exI[of _ s']) simp
qed simp

lemma search_live:
  assumes t: "live_tree c (look s) sid d t xs" and room: "room k s"
    and full: "nt_extents t \<noteq> [] \<longrightarrow> leaf_count t = 0 \<longrightarrow> \<not> (b = 0 \<and> e = 0xFFFFFFFFFFFFFFFF)"
    and fuel: "70 + length (nt_extents t) + length xs < f"
  shows "\<exists>op. NBTreeExtentsList_search fuel B b e (t, s) = Some (op, t, s) \<and>
     delivers (RealOp_read f B s) op (range_pick b e xs)"
proof -
  from tree_search_delivers[OF _ _ room full fuel] t obtain op where
    "tree_search b e t = Some op" "delivers (RealOp_read f B s) op (range_pick b e xs)" unfolding live_tree_def by blast
  with t show ?thesis by (simp add: live_tree_def NBTreeExtentsList_search_def)
qed

end

subsection \<open>A new tree over the memory resident store\<close>

definition new_tree :: "param_id \<Rightarrow> nbtree" where
  "new_tree sid = \<lparr>nt_extents = [], nt_id = sid, nt_last = 0, nt_rescue = [], nt_initialized = True, nt_write_count = 0\<rparr>"

lemma new_tree_init:
  "NBTreeExtentsList_new sid [] = Some t \<Longrightarrow> NBTreeExtentsList_force_init fuel B (t, s) = Some (new_tree sid, s)"
  by (auto simp: NBTreeExtentsList_new_def NBTreeExtentsList_force_init_def NBTreeExtentsList_init_def new_tree_def)

lemma new_tree_live: "live_tree c lk sid d (new_tree sid) []"
  by (simp add: live_tree_def new_tree_def tree_ok_def)

lemma append_all_new:
  assumes "NBTreeExtentsList_new sid [] = Some t" and "ops \<noteq> []"
  shows "append_all fuel B dup ops (t, s) = append_all fuel B dup ops (new_tree sid, s)"
proof -
  obtain x xs where "ops = x # xs" using assms(2) by (cases ops) auto
  moreover have "NBTreeExtentsList_force_init fuel B (new_tree sid, s) = Some (new_tree sid, s)" by (simp add: new_tree_def)
  ultimately show ?thesis using new_tree_init[OF assms(1), of fuel B s] by (simp add: NBTreeExtentsList_append_def)
qed

lemma new_tree_need [simp]: "tree_need k (new_tree sid) = 2 * (k div 225)"
  by (simp add: tree_need_def new_tree_def leaf_count_def)

lemma ms_room_new: "n < 2 ^ 20 \<Longrightarrow> ms_room n MemStore_new"
  by (simp add: ms_room_def MemStore_new_def)

text \<open>A run on a new store leaves room for \<open>k\<close> more appends.\<close>

lemma memstore_run:
  assumes "length ops + k \<le> 110000000"
  shows "\<exists>rs t s. append_all fuel (MemStoreB hw al) dup ops (new_tree sid, MemStore_new) = Some (rs, t, s) \<and>
     live_tree True (ms_look s) sid 0 t (accepted dup 0 ops) \<and> length rs = length ops \<and>
     accepted dup 0 ops = map fst (filter (\<lambda>(x, r). r \<noteq> FAIL_LATE_WRITE) (zip ops rs)) \<and>
     ms_room (tree_need k t) s \<and> (nt_extents t \<noteq> [] \<longrightarrow> 0 < leaf_count t \<and> 0 < nt_write_count t)"
proof -
  have "2 * ((length ops + k) div 225) < 2 ^ 20" using div_le_mono[OF assms, of 225] by simp
  then have "ms_room (tree_need (length ops + k) (new_tree sid)) MemStore_new" by (simp add: ms_room_new)
  from memstore.append_all_live[OF new_tree_live[of True _ sid 0] _ _ this, of fuel hw al dup] assms obtain rs t s where
    r: "append_all fuel (MemStoreB hw al) dup ops (new_tree sid, MemStore_new) = Some (rs, t, s)"
    "live_tree True (ms_look s) sid 0 t (accepted dup 0 ops)" "length rs = length ops"
    "accepted dup 0 ops = map fst (filter (\<lambda>(x, r). r \<noteq> FAIL_LATE_WRITE) (zip ops rs))"
    "ms_room (tree_need k t) s"
    "if accepted dup 0 ops = [] then t = new_tree sid \<and> s = MemStore_new else 0 < leaf_count t \<and> 0 < nt_write_count t"
    by (auto simp: new_tree_def)
  from r(6) have "nt_extents t \<noteq> [] \<longrightarrow> 0 < leaf_count t \<and> 0 < nt_write_count t"
    by (auto simp: new_tree_def split: if_splits)
  with r(1-5) show ?thesis by blast
qed

lemma ms_room_0: "ms_room n s \<Longrightarrow> ms_room 0 s"
  by (rule memstore.room_le) auto

lemma accepted_length: "length (accepted dup l ops) \<le> length ops"
  by (induction ops arbitrary: l) (auto intro: le_SucI)

lemma memstore_search:
  assumes "live_tree c (ms_look s) sid 0 t xs" and "ms_room 0 s" and "nt_extents t \<noteq> [] \<longrightarrow> 0 < leaf_count t"
    and "length xs \<le> 100000000" and "100 + length xs < f"
  shows "\<exists>op. NBTreeExtentsList_search fuel (MemStoreB hw al) b e (t, s) = Some (op, t, s) \<and>
     delivers (RealOp_read f (MemStoreB hw al) s) op (range_pick b e xs)"
proof -
  have "length xs < 2 ^ 27" using assms(4) by simp
  from tree_height[OF _ this, of c "ms_look s" sid 0 t] assms(1) have "length (nt_extents t) \<le> 28" by (simp add: live_tree_def)
  with memstore.search_live[OF assms(1,2), of b e f fuel hw al] assms(3,5) show ?thesis by auto
qed

lemma run_search:
  assumes "NBTreeExtentsList_new sid [] = Some t0" and "ops \<noteq> []" and "length ops \<le> 100000000" and "100 + length ops < f"
  shows "\<exists>rs t s op. append_all fuel (MemStoreB hw al) dup ops (t0, MemStore_new) = Some (rs, t, s) \<and>
     accepted dup 0 ops = map fst (filter (\<lambda>(x, r). r \<noteq> FAIL_LATE_WRITE) (zip ops rs)) \<and>
     NBTreeExtentsList_search fuel (MemStoreB hw al) b e (t, s) = Some (op, t, s) \<and>
     delivers (RealOp_read f (MemStoreB hw al) s) op (range_pick b e (accepted dup 0 ops))"
proof -
  from memstore_run[of ops 0 fuel hw al dup sid] assms(3) obtain rs t s where
    r: "append_all fuel (MemStoreB hw al) dup ops (new_tree sid, MemStore_new) = Some (rs, t, s)"
    "live_tree True (ms_look s) sid 0 t (accepted dup 0 ops)"
    "accepted dup 0 ops = map fst (filter (\<lambda>(x, r). r \<noteq> FAIL_LATE_WRITE) (zip ops rs))"
    "ms_room 0 s" "nt_extents t \<noteq> [] \<longrightarrow> 0 < leaf_count t" using ms_room_0 by auto
  from memstore_search[OF r(2,4,5), of f fuel hw al b e] accepted_length[of dup 0 ops] assms(3,4) obtain op where
    "NBTreeExtentsList_search fuel (MemStoreB hw al) b e (t, s) = Some (op, t, s)"
    "delivers (RealOp_read f (MemStoreB hw al) s) op (range_pick b e (accepted dup 0 ops))" by auto
  with r(1,3) append_all_new[OF assms(1,2), of fuel "MemStoreB hw al" dup MemStore_new] show ?thesis by auto
qed

text \<open>C1. Appends and searches.  A list of samples, at most a hundred million, is appended to a new
  tree over the memory resident store, in any order and with any duplicates.  Every call returns;
  the tree holds exactly the samples whose append was not refused as late, and these are the ones
  that keep the timestamps ordered; and a search for any range, read through any sequence of
  non-empty buffers, returns exactly the stored samples of the range \<open>[begin, end)\<close>, or of
  \<open>(end, begin]\<close> backwards, in the order of the direction.\<close>

theorem tree_append_search:
  assumes "NBTreeExtentsList_new sid [] = Some t0" and "ops \<noteq> []" and "length ops \<le> 100000000"
    and "100 + length ops < f" and "\<forall>n \<in> set ns. 0 < n"
  shows "\<exists>rs t s op out op'. append_all fuel (MemStoreB hw al) dup ops (t0, MemStore_new) = Some (rs, t, s) \<and>
     accepted dup 0 ops = map fst (filter (\<lambda>(x, r). r \<noteq> FAIL_LATE_WRITE) (zip ops rs)) \<and>
     NBTreeExtentsList_search fuel (MemStoreB hw al) b e (t, s) = Some (op, t, s) \<and>
     read_chunks (RealOp_read f (MemStoreB hw al) s) ns op = Some (out, op') \<and>
     concat (map snd out) = take (sum_list ns) (range_pick b e (accepted dup 0 ops))"
proof -
  from run_search[OF assms(1-4), of fuel hw al dup b e] obtain rs t s op where
    r: "append_all fuel (MemStoreB hw al) dup ops (t0, MemStore_new) = Some (rs, t, s)"
    "accepted dup 0 ops = map fst (filter (\<lambda>(x, r). r \<noteq> FAIL_LATE_WRITE) (zip ops rs))"
    "NBTreeExtentsList_search fuel (MemStoreB hw al) b e (t, s) = Some (op, t, s)"
    "delivers (RealOp_read f (MemStoreB hw al) s) op (range_pick b e (accepted dup 0 ops))" by blast
  from delivers_chunks[OF r(4) assms(5)] r(1-3) show ?thesis by auto
qed

theorem tree_append_search_witness:
  "\<exists>t0 rs t s op out op'. NBTreeExtentsList_new 7 [] = Some t0 \<and>
     append_all 0 (MemStoreB False (\<lambda>_. 0)) False [(5, 1), (3, 2), (9, 3)] (t0, MemStore_new) = Some (rs, t, s) \<and>
     NBTreeExtentsList_search 0 (MemStoreB False (\<lambda>_. 0)) 0 10 (t, s) = Some (op, t, s) \<and>
     read_chunks (RealOp_read 200 (MemStoreB False (\<lambda>_. 0)) s) [1, 2] op = Some (out, op') \<and>
     concat (map snd out) = [(5, 1), (9, 3)]"
proof -
  obtain t0 where t0: "NBTreeExtentsList_new 7 [] = Some t0" by (simp add: NBTreeExtentsList_new_def)
  have "take (sum_list [1, 2]) (range_pick 0 10 (accepted False 0 [(5, 1), (3, 2), (9, 3)])) = [(5, 1), (9, 3)]"
    by (simp add: pick_def in_range_def late_def)
  with tree_append_search[OF t0, of "[(5, 1), (3, 2), (9, 3)]" 200 "[1, 2]" 0 False "\<lambda>_. 0" False 0 10] t0
  show ?thesis by (simp del: sum_list.Cons append_all.simps accepted.simps) blast
qed

text \<open>C5. A search ends, and \<open>kNoData\<close> means that it has ended: a client that reads with buffers of any
  positive sizes until a read reports \<open>kNoData\<close> stops, after at most one read more than the range
  has samples; every earlier read reported \<open>kOk\<close>; what it received is the whole range in order;
  and every further read reports \<open>kNoData\<close> with nothing.\<close>

theorem search_exhausts:
  assumes "NBTreeExtentsList_new sid [] = Some t0" and "ops \<noteq> []" and "length ops \<le> 100000000"
    and "100 + length ops < f" and "\<forall>k. 0 < sz k"
  shows "\<exists>rs t s op out op'. append_all fuel (MemStoreB hw al) dup ops (t0, MemStore_new) = Some (rs, t, s) \<and>
     NBTreeExtentsList_search fuel (MemStoreB hw al) b e (t, s) = Some (op, t, s) \<and>
     read_to_end (RealOp_read f (MemStoreB hw al) s) sz 0 op = Some (out, op') \<and>
     concat (map snd out) = range_pick b e (accepted dup 0 ops) \<and>
     length out \<le> Suc (length (range_pick b e (accepted dup 0 ops))) \<and>
     (\<forall>n. 0 < n \<longrightarrow> (\<exists>op''. RealOp_read f (MemStoreB hw al) s op' n = Some ((kNoData, []), op'')))"
proof -
  from run_search[OF assms(1-4), of fuel hw al dup b e] obtain rs t s op where
    r: "append_all fuel (MemStoreB hw al) dup ops (t0, MemStore_new) = Some (rs, t, s)"
    "NBTreeExtentsList_search fuel (MemStoreB hw al) b e (t, s) = Some (op, t, s)"
    "delivers (RealOp_read f (MemStoreB hw al) s) op (range_pick b e (accepted dup 0 ops))" by blast
  from delivers_to_end[OF r(3) assms(5), of 0] obtain out op' where
    o: "read_to_end (RealOp_read f (MemStoreB hw al) s) sz 0 op = Some (out, op')"
    "concat (map snd out) = range_pick b e (accepted dup 0 ops)"
    "length out \<le> Suc (length (range_pick b e (accepted dup 0 ops)))"
    "delivers (RealOp_read f (MemStoreB hw al) s) op' []" by blast
  have "\<exists>op''. RealOp_read f (MemStoreB hw al) s op' n = Some ((kNoData, []), op'')" if "0 < n" for n
    using delivers_read[OF o(4) that] by auto
  with r o show ?thesis by blast
qed

theorem search_exhausts_witness:
  "\<exists>t0 rs t s op out op'. NBTreeExtentsList_new 7 [] = Some t0 \<and>
     append_all 0 (MemStoreB False (\<lambda>_. 0)) False [(5, 1), (3, 2), (9, 3)] (t0, MemStore_new) = Some (rs, t, s) \<and>
     NBTreeExtentsList_search 0 (MemStoreB False (\<lambda>_. 0)) 9 4 (t, s) = Some (op, t, s) \<and>
     read_to_end (RealOp_read 200 (MemStoreB False (\<lambda>_. 0)) s) (\<lambda>k. k + 1) 0 op = Some (out, op') \<and>
     concat (map snd out) = [(9, 3), (5, 1)]"
proof -
  obtain t0 where t0: "NBTreeExtentsList_new 7 [] = Some t0" by (simp add: NBTreeExtentsList_new_def)
  have "range_pick 9 4 (accepted False 0 [(5, 1), (3, 2), (9, 3)]) = [(9, 3), (5, 1)]"
    by (simp add: pick_def in_range_def late_def)
  with search_exhausts[OF t0, of "[(5, 1), (3, 2), (9, 3)]" 200 "\<lambda>k. k + 1" 0 False "\<lambda>_. 0" False 9 4] t0
  show ?thesis by (simp del: append_all.simps accepted.simps) blast
qed

subsection \<open>A tree over an expandable file storage\<close>

text \<open>C4. The well-formedness of a tree in a file storage that grows is kept by every append.  The append
  returns; a late sample is refused and changes nothing; any other sample is added at the end of the
  content, the nodes written before stay readable at their addresses with their bytes, and the tree
  is again a well-formed tree of the series with ordered content.\<close>

theorem expandable_append_wellformed:
  assumes "live_tree c (fs_lookup unat s) sid d t xs" and "length xs < 2 ^ 64" and "d < 65000"
    and "expandable_has_room files db (tree_need (Suc k) t) s"
  shows "\<exists>r t' s'. NBTreeExtentsList_append fuel (ExpandableB hw al files db) ts x dup (t, s) = Some (r, t', s') \<and>
     expandable_has_room files db (tree_need k t') s' \<and> fs_lookup unat s \<subseteq>\<^sub>m fs_lookup unat s' \<and>
     (if late dup (nt_last t) ts then r = FAIL_LATE_WRITE \<and> t' = t \<and> s' = s
      else (r = OK \<or> r = OK_FLUSH_NEEDED) \<and> live_tree c (fs_lookup unat s') sid d t' (xs @ [(ts, x)]) \<and> nt_last t' = ts)"
  using expandablestore.append_live[OF assms, of fuel hw al ts x dup] by (elim exE) (auto split: if_splits)

theorem expandable_append_wellformed_witness:
  "\<exists>t' s' r. NBTreeExtentsList_append 0 (ExpandableB False (\<lambda>_. 0) (\<lambda>_. None) [100]) 5 6 False (new_tree 7, demo_storage) = Some (r, t', s') \<and>
     live_tree True (fs_lookup unat s') 7 0 t' [(5, 6)]"
proof -
  have "expandable_ok demo_storage"
    using demo_meta by (simp add: expandable_ok_def fs_ok_def Let_def vol_ok_def)
  then have room: "expandable_has_room (\<lambda>_. None) [100] (tree_need (Suc 0) (new_tree 7)) demo_storage" by simp
  have "\<not> late False (nt_last (new_tree 7)) 5" by (simp add: late_def new_tree_def)
  with expandable_append_wellformed[OF new_tree_live[of True _ 7 0] _ _ room, of 0 False "\<lambda>_. 0" 5 6 False] show ?thesis by auto
qed

end
