(* ===== verification/NBRecover.thy ===== *)
theory NBRecover
  imports NBTree
begin

text \<open>
  Crash recovery: \<open>repair\<close> follows the links of the nodes of each level from its rescue point and
  appends them to the level above.  From the rescue points of a live tree and the blocks in the
  store it rebuilds a tree that holds every sample but those of the leaf in memory.
\<close>

subsection \<open>The nodes on disk\<close>

context block_store
begin

lemma stored_leaf_ok:
  assumes room: "room k s" and t: "subtree (look s) sid 0 r p xs"
  shows "\<exists>b lf h fan. read_and_check B (sr_addr r) s = Some (kOk, Some b) \<and> IOVecBlock_get_header b = Some h \<and>
     sr_type h = LEAF \<and> sr_fanout_index h = fan \<and> unat fan < 32 \<and> IOVecLeaf_of_block b = Some lf \<and> lf_prev lf = p \<and>
     init_subtree_from_leaf lf INIT_SUBTREE_REF = Some (kOk, leaf_ref sid fan xs) \<and>
     r = (leaf_ref sid fan xs)\<lparr>sr_addr := sr_addr r\<rparr>"
proof -
  from t obtain fan bs where l: "look s (sr_addr r) = Some bs" "leaf_image sid p fan xs bs" "xs \<noteq> []" "unat fan < 32"
    "r = (leaf_ref sid fan xs)\<lparr>sr_addr := sr_addr r\<rparr>" by auto
  from leaf_image_load[OF l(2) room l(1)] obtain lf h where
    h: "read_and_check B (sr_addr r) s = Some (kOk, Some (disk_block bs))" "IOVecLeaf_of_block (disk_block bs) = Some lf"
    "IOVecLeaf_get_leafmeta lf = Some h" "ref_core h = leaf_ref sid fan xs" "lf_prev lf = p" by blast
  have hd: "IOVecBlock_get_header (disk_block bs) = Some h"
    using h(2,3) by (auto simp: IOVecLeaf_of_block_def IOVecLeaf_get_leafmeta_def bind_eq_Some_conv)
  have "sr_fanout_index (ref_core h) = fan" unfolding h(4) by (simp add: leaf_ref_def)
  then have f: "sr_type h = LEAF" "sr_count h = of_nat (length xs)" "sr_fanout_index h = fan"
    using ref_core_fields[OF h(4)] by (simp_all add: leaf_ref_def leaf_stats_count ref_core_def)
  have "length xs < 2 ^ 64" using l(2) leaf_layout_length by (auto simp: leaf_image_def)
  with u64_of_nat_0[of "length xs"] l(3) f(2) have c: "sr_count h \<noteq> 0" by simp
  have "h\<lparr>sr_payload_size := 0, sr_checksum := 0, sr_addr := EMPTY_ADDR, sr_type := LEAF\<rparr> = ref_core h"
    using f(1) by (cases h) (simp add: ref_core_def)
  then have "init_subtree_from_leaf lf INIT_SUBTREE_REF = Some (kOk, leaf_ref sid fan xs)"
    using h(3,4) c by (simp add: init_subtree_from_leaf_def IOVecLeaf_nelements_def)
  with h(1,2,5) hd f(1,3) l(4,5) show ?thesis by blast
qed

lemma repair_node_ok:
  assumes room: "room k s" and t: "subtree (look s) sid n r p xs"
  shows "\<exists>b. read_and_check B (sr_addr r) s = Some (kOk, Some b) \<and> repair_node b (sr_addr r) = Some (r, p)"
proof (cases n)
  case 0
  from stored_leaf_ok[OF room t[unfolded 0]] obtain b lf h fan where
    "read_and_check B (sr_addr r) s = Some (kOk, Some b)" "IOVecBlock_get_header b = Some h" "sr_type h = LEAF"
    "IOVecLeaf_of_block b = Some lf" "lf_prev lf = p"
    "init_subtree_from_leaf lf INIT_SUBTREE_REF = Some (kOk, leaf_ref sid fan xs)"
    "r = (leaf_ref sid fan xs)\<lparr>sr_addr := sr_addr r\<rparr>" by blast
  then show ?thesis by (simp add: repair_node_def IOVecLeaf_get_prev_addr_def)
next
  case (Suc m)
  with t obtain fan refs bs where l: "look s (sr_addr r) = Some bs" "sb_image sid p fan (of_nat (Suc m)) refs bs" "p \<noteq> 0"
    "r = (sb_ref sid fan (of_nat (Suc m)) refs)\<lparr>sr_addr := sr_addr r\<rparr>" by auto
  from sb_image_load[OF l(2) room l(1,3)] obtain nd where
    h: "read_and_check B (sr_addr r) s = Some (kOk, Some (disk_block bs))" "IOVecSuperblock_of_block (disk_block bs) = Some nd"
    "IOVecSuperblock_read_all nd = Some (kOk, refs)" "sb_prev nd = p" "sb_fanout_index nd = fan"
    "sb_level nd = of_nat (Suc m)" "sb_id nd = sid" by blast
  have ne: "refs \<noteq> []" using l(2) by (simp add: sb_image_def)
  then have i: "init_subtree_from_subtree nd INIT_SUBTREE_REF = Some (kOk, sb_ref sid fan (of_nat (Suc m)) refs)"
    using h by (simp add: init_subtree_from_subtree_def sb_summary_init)
  obtain hd where "IOVecBlock_get_header (disk_block bs) = Some hd" "sr_type hd = INNER"
    using h(2) by (auto simp: IOVecSuperblock_of_block_def bind_eq_Some_conv split: if_splits)
  with h(1,2,4) i l(4) show ?thesis
    by (simp add: repair_node_def IOVecSuperblock_get_prev_addr_def LEAF_def INNER_def)
qed

text \<open>Following the links of one level.\<close>

lemma repair_chain:
  assumes room: "room k s"
  shows "chain_rev (look s) sid n rs rp \<Longrightarrow> length rs < fuel \<Longrightarrow>
     repair_loop fuel B (rp # stack) acc (t, s) =
       do { st \<leftarrow> append_refs B (rev (acc @ rs)) (t, s); repair_loop (fuel - Suc (length rs)) B stack [] st }"
proof (induction rs arbitrary: rp acc fuel)
  case Nil
  then obtain f where "fuel = Suc f" by (cases fuel) auto
  with Nil show ?case by simp
next
  case (Cons r rs)
  then obtain f p xs where f: "fuel = Suc f" "length rs < f" and r: "rp = sr_addr r" "rp \<noteq> EMPTY_ADDR"
    "subtree (look s) sid n r p xs" "chain_rev (look s) sid n rs p" by (cases fuel) auto
  from repair_node_ok[OF room r(3)] obtain b where
    "read_and_check B rp s = Some (kOk, Some b)" "repair_node b rp = Some (r, p)" unfolding r(1) by blast
  then have "repair_loop fuel B (rp # stack) acc (t, s) = repair_loop f B (p # stack) (acc @ [r]) (t, s)"
    using f(1) r(2) by simp
  with Cons.IH[OF r(4) f(2), of "acc @ [r]"] f(1) show ?case by simp
qed

end

subsection \<open>Filling one level\<close>

lemma append_ref_plain:
  assumes ext: "Suc n < length (nt_extents t)" "nt_extents t ! Suc n = SBlockExt se" "Suc n < 65535"
    and e: "sbext_ok c look sid d n se refs zs" and r: "subtree look sid n r p xs" "2 ^ (n - d) \<le> length xs"
    and len: "length refs < 32"
  shows "\<exists>se'. tree_append_ref B r (t, s) = Some (False, nt_set_extent (Suc n) (SBlockExt se')
      (t\<lparr>nt_write_count := nt_write_count t + 1\<rparr>), s) \<and> sbext_ok c look sid d n se' (refs @ [r]) (zs @ xs)"
proof -
  have lvl: "unat (sr_level r + 1) = Suc n"
    using subtree_level[OF r(1)] ext(3) by (simp add: unat_word_ariths unat_of_nat take_bit_nat_eq_self)
  from sbext_append_ok[OF e len r] obtain nd where
    nd: "IOVecSuperblock_append r (se_curr se) = Some (kOk, nd)"
    "sbext_ok c look sid d n (se\<lparr>se_curr := nd\<rparr>) (refs @ [r]) (zs @ xs)" by blast
  have "tree_append_ref B r (t, s) = Some (False, nt_set_extent (Suc n) (SBlockExt (se\<lparr>se_curr := nd\<rparr>))
      (t\<lparr>nt_write_count := nt_write_count t + 1\<rparr>), s)"
    using ext(1,2) nd(1) lvl
    by (simp add: tree_append_ref_def extent_append_ref_def numeral_2_eq_2 nt_set_extent_def Let_def)
  with nd(2) show ?thesis by blast
qed

lemma append_refs_level:
  assumes "list_all2 (\<lambda>r x. (\<exists>p. subtree look sid n r p x) \<and> 2 ^ (n - d) \<le> length x) rs xss"
  shows "Suc n < length (nt_extents t) \<Longrightarrow> nt_extents t ! Suc n = SBlockExt se \<Longrightarrow> Suc n < 65535 \<Longrightarrow>
     sbext_ok c look sid d n se refs zs \<Longrightarrow> length refs + length rs \<le> 32 \<Longrightarrow>
     \<exists>t' se'. append_refs B rs (t, s) = Some (t', s) \<and> nt_extents t' = (nt_extents t)[Suc n := SBlockExt se'] \<and>
       sbext_ok c look sid d n se' (refs @ rs) (zs @ concat xss) \<and> nt_id t' = nt_id t \<and> nt_rescue t' = nt_rescue t \<and>
       nt_last t' = nt_last t \<and> nt_initialized t' = nt_initialized t"
  using assms
proof (induction rs xss arbitrary: t se refs zs rule: list_all2_induct)
  case Nil
  then have "(nt_extents t)[Suc n := SBlockExt se] = nt_extents t" by (metis list_update_id)
  with Nil show ?case by (intro exI[of _ t] exI[of _ se]) simp
next
  case (Cons r rs x xss)
  then obtain p where r: "subtree look sid n r p x" "2 ^ (n - d) \<le> length x" by blast
  from append_ref_plain[OF Cons.prems(1-4) r, of B s] Cons.prems(5) obtain se1 where
    a: "tree_append_ref B r (t, s) = Some (False, nt_set_extent (Suc n) (SBlockExt se1) (t\<lparr>nt_write_count := nt_write_count t + 1\<rparr>), s)"
    "sbext_ok c look sid d n se1 (refs @ [r]) (zs @ x)" by auto
  let ?t = "nt_set_extent (Suc n) (SBlockExt se1) (t\<lparr>nt_write_count := nt_write_count t + 1\<rparr>)"
  have "Suc n < length (nt_extents ?t)" "nt_extents ?t ! Suc n = SBlockExt se1" "length (refs @ [r]) + length rs \<le> 32"
    using Cons.prems(1,5) by (simp_all add: nt_set_extent_def)
  from Cons.IH[OF this(1,2) Cons.prems(3) a(2) this(3)] obtain t' se' where
    "append_refs B rs (?t, s) = Some (t', s)" "nt_extents t' = (nt_extents ?t)[Suc n := SBlockExt se']"
    "sbext_ok c look sid d n se' ((refs @ [r]) @ rs) ((zs @ x) @ concat xss)" "nt_id t' = nt_id ?t"
    "nt_rescue t' = nt_rescue ?t" "nt_last t' = nt_last ?t" "nt_initialized t' = nt_initialized ?t" by blast
  with a(1) show ?case by (intro exI[of _ t'] exI[of _ se']) (simp add: nt_set_extent_def)
qed

subsection \<open>All levels\<close>

text \<open>The upper extents level by level.\<close>

lemma upper_ok_levels:
  "upper_ok c look sid d n es rps xs refs \<Longrightarrow>
   \<exists>rss xss. length rss = length es \<and> length xss = length es \<and> length rps = length es \<and> xs = concat (rev xss) \<and>
     (es \<noteq> [] \<longrightarrow> last rss \<noteq> []) \<and> refs = (rss @ [[]]) ! 0 \<and>
     (\<forall>j < length es. children look sid d (n + j) (rss ! j) (xss ! j) \<and> length (rss ! j) \<le> 32 \<and>
        (c \<longrightarrow> chain_rev look sid (Suc (n + j)) (rev ((rss @ [[]]) ! Suc j)) (rps ! j)))"
proof (induction es arbitrary: n rps xs refs)
  case (Cons e es)
  from Cons.prems obtain se rp rps' ys zs refs' where
    u: "e = SBlockExt se" "rps = rp # rps'" "xs = ys @ zs" "sbext_ok c look sid d n se refs zs"
    "upper_ok c look sid d (Suc n) es rps' ys refs'" "linked c look sid (Suc n) (se_fanout_index se) (se_last se) rp refs'"
    "es = [] \<longrightarrow> refs \<noteq> []" by (simp only: upper_ok.simps) blast
  from Cons.IH[OF u(5)] obtain rss xss where
    i: "length rss = length es" "length xss = length es" "length rps' = length es" "ys = concat (rev xss)"
    "es \<noteq> [] \<longrightarrow> last rss \<noteq> []" "refs' = (rss @ [[]]) ! 0"
    "\<forall>j < length es. children look sid d (Suc n + j) (rss ! j) (xss ! j) \<and> length (rss ! j) \<le> 32 \<and>
       (c \<longrightarrow> chain_rev look sid (Suc (Suc n + j)) (rev ((rss @ [[]]) ! Suc j)) (rps' ! j))" by blast
  have z: "children look sid d n refs zs" "length refs \<le> 32" using u(4) by (auto simp: sbext_ok_def sb_view_def)
  have "children look sid d (n + j) ((refs # rss) ! j) ((zs # xss) ! j) \<and> length ((refs # rss) ! j) \<le> 32 \<and>
      (c \<longrightarrow> chain_rev look sid (Suc (n + j)) (rev ((refs # rss @ [[]]) ! Suc j)) (rps ! j))" if "j < length (e # es)" for j
  proof (cases j)
    case 0
    with z u(2,6) i(6) show ?thesis by (simp add: linked_def)
  next
    case (Suc k)
    with i(7) that u(2) show ?thesis by simp
  qed
  moreover have "last (refs # rss) \<noteq> []" using u(7) i(1,5) by (cases "es = []") auto
  ultimately show ?case using u(2,3) i(1-4) by (intro exI[of _ "refs # rss"] exI[of _ "zs # xss"]) simp
qed auto

lemma upper_okI:
  "length rss = length ses \<Longrightarrow> length xss = length ses \<Longrightarrow> length rps = length ses \<Longrightarrow> ses \<noteq> [] \<longrightarrow> last rss \<noteq> [] \<Longrightarrow>
   \<forall>j < length ses. sbext_ok False look sid d (n + j) (ses ! j) (rss ! j) (xss ! j) \<Longrightarrow>
   upper_ok False look sid d n (map SBlockExt ses) rps (concat (rev xss)) ((rss @ [[]]) ! 0)"
proof (induction ses arbitrary: n rss xss rps)
  case (Cons se ses)
  then obtain r rss' x xss' rp rps' where l: "rss = r # rss'" "xss = x # xss'" "rps = rp # rps'"
    by (auto simp: length_Suc_conv)
  have h: "\<forall>j < length ses. sbext_ok False look sid d (Suc n + j) (ses ! j) (rss' ! j) (xss' ! j)"
  proof (intro allI impI)
    fix j assume "j < length ses"
    with Cons.prems(5) l show "sbext_ok False look sid d (Suc n + j) (ses ! j) (rss' ! j) (xss' ! j)"
      using spec[of _ "Suc j"] by (metis Suc_less_eq add_Suc add_Suc_right length_Cons nth_Cons_Suc)
  qed
  have "sbext_ok False look sid d n se r x" using Cons.prems(5) l by auto
  moreover have "upper_ok False look sid d (Suc n) (map SBlockExt ses) rps' (concat (rev xss')) ((rss' @ [[]]) ! 0)"
    by (rule Cons.IH[OF _ _ _ _ h]) (use Cons.prems l in \<open>auto split: if_splits\<close>)
  moreover have "map SBlockExt ses = [] \<longrightarrow> r \<noteq> []" using Cons.prems(1,4) l by auto
  ultimately have "upper_ok False look sid d n (SBlockExt se # map SBlockExt ses) (rp # rps') (concat (rev xss') @ x) r"
    by (intro upper_ok_ConsI) (auto simp: linked_def)
  then show ?case by (simp add: l)
qed simp

lemma tree_levels:
  assumes "tree_parts True look sid d t e es refs ys zs"
  shows "\<exists>rss xss. length rss = length es \<and> length xss = length es \<and> length (nt_rescue t) = Suc (length es) \<and>
     ys = concat (rev xss) \<and> (es \<noteq> [] \<longrightarrow> last rss \<noteq> []) \<and>
     (\<forall>j < length es. children look sid d j (rss ! j) (xss ! j) \<and> length (rss ! j) \<le> 32) \<and>
     (\<forall>i \<le> length es. chain_rev look sid i (rev ((rss @ [[]]) ! i)) (nt_rescue t ! i))"
proof -
  from assms obtain rp rps where p: "nt_rescue t = rp # rps" "upper_ok True look sid d 0 es rps ys refs"
    "chain_rev look sid 0 (rev refs) rp" by (auto simp: tree_parts_def linked_def)
  from upper_ok_levels[OF p(2)] obtain rss xss where
    l: "length rss = length es" "length xss = length es" "length rps = length es" "ys = concat (rev xss)"
    "es \<noteq> [] \<longrightarrow> last rss \<noteq> []" "refs = (rss @ [[]]) ! 0"
    "\<forall>j < length es. children look sid d j (rss ! j) (xss ! j) \<and> length (rss ! j) \<le> 32 \<and>
       chain_rev look sid (Suc j) (rev ((rss @ [[]]) ! Suc j)) (rps ! j)" by auto
  have "chain_rev look sid i (rev ((rss @ [[]]) ! i)) (nt_rescue t ! i)" if "i \<le> length es" for i
    using that l(6,7) p(1,3) by (cases i) auto
  with l p(1) show ?thesis by (intro exI[of _ rss] exI[of _ xss]) simp
qed

context block_store
begin

lemma repair_levels:
  assumes room: "room q s" and len: "length rss = m" "length xss = m" "length rescue = Suc m" "m < 65000"
    and ch: "\<forall>j < m. children (look s) sid d j (rss ! j) (xss ! j) \<and> length (rss ! j) \<le> 32"
    and rp: "\<forall>i \<le> m. chain_rev (look s) sid i (rev ((rss @ [[]]) ! i)) (rescue ! i)"
  shows "k \<le> Suc m \<Longrightarrow> nt_extents t = LeafExt le # map SBlockExt ses \<Longrightarrow> length ses = m \<Longrightarrow>
     \<forall>j < m. sbext_ok False (look s) sid d j (ses ! j) (if k \<le> j then rss ! j else []) (if k \<le> j then xss ! j else []) \<Longrightarrow>
     33 * k < fuel \<Longrightarrow>
     \<exists>t' ses'. repair_loop fuel B (rev (take k rescue)) [] (t, s) = Some (t', s) \<and>
       nt_extents t' = LeafExt le # map SBlockExt ses' \<and> length ses' = m \<and>
       (\<forall>j < m. sbext_ok False (look s) sid d j (ses' ! j) (rss ! j) (xss ! j)) \<and>
       nt_id t' = nt_id t \<and> nt_rescue t' = nt_rescue t \<and> nt_last t' = nt_last t \<and> nt_initialized t' = nt_initialized t"
proof (induction k arbitrary: t ses fuel)
  case 0
  then obtain f where "fuel = Suc f" by (cases fuel) auto
  with 0 show ?case by (intro exI[of _ t] exI[of _ ses]) simp
next
  case (Suc k)
  let ?rs = "(rss @ [[]]) ! k"
  have k: "k \<le> m" using Suc.prems(1) by simp
  have st: "rev (take (Suc k) rescue) = rescue ! k # rev (take k rescue)"
    using k len(3) by (simp add: take_Suc_conv_app_nth)
  have lr: "length ?rs \<le> 32" using k ch len(1) by (cases "k < m") (auto simp: nth_append)
  have fl: "length (rev ?rs) < fuel" using lr Suc.prems(5) by simp
  have run: "repair_loop fuel B (rev (take (Suc k) rescue)) [] (t, s) =
      do { st \<leftarrow> append_refs B ?rs (t, s); repair_loop (fuel - Suc (length ?rs)) B (rev (take k rescue)) [] st }"
    unfolding st using repair_chain[OF room rp[rule_format, OF k] fl, of "rev (take k rescue)" "[]" t] by simp
  have "\<exists>t1 ses1. append_refs B ?rs (t, s) = Some (t1, s) \<and> nt_extents t1 = LeafExt le # map SBlockExt ses1 \<and>
      length ses1 = m \<and> (\<forall>j < m. sbext_ok False (look s) sid d j (ses1 ! j) (if k \<le> j then rss ! j else []) (if k \<le> j then xss ! j else [])) \<and>
      nt_id t1 = nt_id t \<and> nt_rescue t1 = nt_rescue t \<and> nt_last t1 = nt_last t \<and> nt_initialized t1 = nt_initialized t"
  proof (cases "k < m")
    case False
    then have "?rs = []" using k len(1) by (simp add: nth_append)
    with Suc.prems(2-4) False show ?thesis by (intro exI[of _ t] exI[of _ ses]) simp
  next
    case True
    then have rs: "?rs = rss ! k" using len(1) by (simp add: nth_append)
    from ch True obtain ys where c: "list_all2 (\<lambda>r x. (\<exists>p. subtree (look s) sid k r p x) \<and> 2 ^ (k - d) \<le> length x) (rss ! k) ys"
      "xss ! k = concat ys" by (auto simp: children_def)
    have "sbext_ok False (look s) sid d k (ses ! k) [] []" using Suc.prems(4) True by auto
    from append_refs_level[OF c(1) _ _ _ this, of t B s] Suc.prems(2,3) True lr rs len(4) obtain t1 se where
      a: "append_refs B (rss ! k) (t, s) = Some (t1, s)" "nt_extents t1 = (nt_extents t)[Suc k := SBlockExt se]"
      "sbext_ok False (look s) sid d k se (rss ! k) (xss ! k)" "nt_id t1 = nt_id t" "nt_rescue t1 = nt_rescue t"
      "nt_last t1 = nt_last t" "nt_initialized t1 = nt_initialized t" unfolding c(2) by auto
    have "sbext_ok False (look s) sid d j (ses[k := se] ! j) (if k \<le> j then rss ! j else []) (if k \<le> j then xss ! j else [])"
      if "j < m" for j
      using Suc.prems(3,4) that True a(3) by (cases "j = k") (auto simp: nth_list_update Suc_le_eq)
    with a rs Suc.prems(2,3) show ?thesis by (intro exI[of _ t1] exI[of _ "ses[k := se]"]) (simp add: map_update)
  qed
  then obtain t1 ses1 where
    a: "append_refs B ?rs (t, s) = Some (t1, s)" "nt_extents t1 = LeafExt le # map SBlockExt ses1" "length ses1 = m"
    "\<forall>j < m. sbext_ok False (look s) sid d j (ses1 ! j) (if k \<le> j then rss ! j else []) (if k \<le> j then xss ! j else [])"
    "nt_id t1 = nt_id t" "nt_rescue t1 = nt_rescue t" "nt_last t1 = nt_last t" "nt_initialized t1 = nt_initialized t" by blast
  have "33 * k < fuel - Suc (length ?rs)" using Suc.prems(5) lr by simp
  from Suc.IH[OF _ a(2-4) this] k a(1,5-8) show ?case unfolding run by auto
qed

end

subsection \<open>Recovery\<close>

context durable_store
begin

lemma leafext_fresh:
  "\<exists>le. NBTreeLeafExtent_new B sid EMPTY_ADDR s = Some le \<and> leafext_ok c sid le []"
proof -
  from leaf_new_ok[of sid EMPTY_ADDR 0] obtain l where
    "IOVecLeaf_new sid EMPTY_ADDR 0 = Some l" "leaf_view sid EMPTY_ADDR 0 [] l" by blast
  moreover from this(2) have "leafext_ok c sid \<lparr>le_id = sid, le_last = EMPTY_ADDR, le_leaf = l, le_fanout_index = 0\<rparr> []"
    by (simp add: leafext_ok_def) (intro exI[of _ EMPTY_ADDR] exI[of _ 0], simp)
  ultimately show ?thesis by (simp add: NBTreeLeafExtent_new_def)
qed

lemma empty_extents:
  "\<exists>ses. create_empty_extents B sid [Suc k..<Suc (k + n)] s = Some (map SBlockExt ses) \<and>
     open_inner B sid [Suc k..<Suc (k + n)] s = Some (map SBlockExt ses) \<and> length ses = n \<and>
     (\<forall>j < n. sbext_ok False (look s) sid d (k + j) (ses ! j) [] [])"
proof (induction n arbitrary: k)
  case (Suc n)
  from sbext_new_ok[of sid k s False d] obtain se where
    se: "NBTreeSBlockExtent_new B sid EMPTY_ADDR (of_nat (Suc k)) s = Some se" "sbext_ok False (look s) sid d k se [] []" by blast
  from Suc.IH[of "Suc k"] obtain ses where
    i: "create_empty_extents B sid [Suc (Suc k)..<Suc (Suc k + n)] s = Some (map SBlockExt ses)"
    "open_inner B sid [Suc (Suc k)..<Suc (Suc k + n)] s = Some (map SBlockExt ses)" "length ses = n"
    "\<forall>j < n. sbext_ok False (look s) sid d (Suc k + j) (ses ! j) [] []" by blast
  have u: "[Suc k..<Suc (k + Suc n)] = Suc k # [Suc (Suc k)..<Suc (Suc k + n)]" by (simp add: upt_conv_Cons del: upt_Suc)
  have "sbext_ok False (look s) sid d (k + j) ((se # ses) ! j) [] []" if "j < Suc n" for j
    using that se(2) i(4) by (cases j) auto
  moreover have "create_empty_extents B sid [Suc k..<Suc (k + Suc n)] s = Some (map SBlockExt (se # ses))"
    "open_inner B sid [Suc k..<Suc (k + Suc n)] s = Some (map SBlockExt (se # ses))"
    unfolding u using se(1) i(1,2) by (simp_all del: of_nat_Suc upt_Suc)
  ultimately show ?case using i(3) by (intro exI[of _ "se # ses"]) simp
qed simp

lemma repair_ok:
  assumes t: "tree_parts True (look s) sid d t e es refs ys zs" and len: "length es < 65000" and room: "room q s"
    and t1: "nt_extents t1 = []" "nt_rescue t1 = nt_rescue t" "nt_id t1 = sid" and fuel: "33 * length (nt_rescue t) < fuel"
  shows "\<exists>t2. NBTreeExtentsList_repair fuel B (t1, s) = Some (t2, s) \<and> tree_ok False (look s) sid d t2 ys \<and>
     nt_last t2 = nt_last t1 \<and> nt_initialized t2 = nt_initialized t1 \<and> leaf_count t2 = 0 \<and>
     length (nt_extents t2) = length (nt_extents t)"
proof -
  let ?m = "length es"
  from tree_levels[OF t] obtain rss xss where
    l: "length rss = ?m" "length xss = ?m" "length (nt_rescue t) = Suc ?m" "ys = concat (rev xss)"
    "es \<noteq> [] \<longrightarrow> last rss \<noteq> []" "\<forall>j < ?m. children (look s) sid d j (rss ! j) (xss ! j) \<and> length (rss ! j) \<le> 32"
    "\<forall>i \<le> ?m. chain_rev (look s) sid i (rev ((rss @ [[]]) ! i)) (nt_rescue t ! i)" by blast
  from leafext_fresh[of sid s False] obtain le where
    le: "NBTreeLeafExtent_new B sid EMPTY_ADDR s = Some le" "leafext_ok False sid le []" by blast
  from empty_extents[of sid 0 ?m s d] obtain ses where
    ses: "create_empty_extents B sid [Suc 0..<Suc ?m] s = Some (map SBlockExt ses)" "length ses = ?m"
    "\<forall>j < ?m. sbext_ok False (look s) sid d j (ses ! j) [] []" by auto
  have u: "[0..<Suc ?m] = 0 # [Suc 0..<Suc ?m]" by (simp add: upt_conv_Cons del: upt_Suc)
  have cr: "create_empty_extents B sid [0..<length (nt_rescue t1)] s = Some (LeafExt le # map SBlockExt ses)"
    unfolding t1(2) l(3) u using le(1) ses(1) by (simp del: upt_Suc)
  let ?t = "t1\<lparr>nt_extents := LeafExt le # map SBlockExt ses\<rparr>"
  have "\<exists>t' ses'. repair_loop fuel B (rev (take (Suc ?m) (nt_rescue t))) [] (?t, s) = Some (t', s) \<and>
       nt_extents t' = LeafExt le # map SBlockExt ses' \<and> length ses' = ?m \<and>
       (\<forall>j < ?m. sbext_ok False (look s) sid d j (ses' ! j) (rss ! j) (xss ! j)) \<and>
       nt_id t' = nt_id ?t \<and> nt_rescue t' = nt_rescue ?t \<and> nt_last t' = nt_last ?t \<and> nt_initialized t' = nt_initialized ?t"
    by (rule repair_levels[OF room l(1-3) len l(6,7)]) (use ses fuel l(3) in auto)
  then obtain t2 ses' where
    r: "repair_loop fuel B (rev (nt_rescue t)) [] (?t, s) = Some (t2, s)" "nt_extents t2 = LeafExt le # map SBlockExt ses'"
    "length ses' = ?m" "\<forall>j < ?m. sbext_ok False (look s) sid d j (ses' ! j) (rss ! j) (xss ! j)"
    "nt_id t2 = sid" "nt_rescue t2 = nt_rescue t" "nt_last t2 = nt_last t1" "nt_initialized t2 = nt_initialized t1"
    using l(3) t1 by auto
  have "NBTreeExtentsList_repair fuel B (t1, s) = Some (t2, s)"
    using cr r(1) t1 by (simp add: NBTreeExtentsList_repair_def)
  moreover obtain rp rps where rp: "nt_rescue t = rp # rps" "length rps = ?m" using l(3) by (cases "nt_rescue t") auto
  have "upper_ok False (look s) sid d 0 (map SBlockExt ses') rps ys ((rss @ [[]]) ! 0)"
    unfolding l(4) by (rule upper_okI) (use r(3,4) l(1,2,5) rp(2) in auto)
  then have p2: "tree_parts False (look s) sid d t2 le (map SBlockExt ses') ((rss @ [[]]) ! 0) ys []"
    using r(2,5,6) rp(1) le(2) by (simp add: tree_parts_def linked_def)
  then have "tree_ok False (look s) sid d t2 ys" unfolding tree_ok_def by (metis append_Nil2)
  ultimately show ?thesis using r leaf_count_parts[OF p2] t by (auto simp: tree_parts_def)
qed

lemma crash_init:
  assumes t: "tree_ok True (look s) sid d t xs" and len: "length xs < 2 ^ 64" "d < 60000" and room: "room q s"
    and new: "NBTreeExtentsList_new sid (nt_rescue t) = Some t1" and fuel: "33 * length (nt_rescue t) < fuel"
  shows "\<exists>t2. NBTreeExtentsList_force_init fuel B (t1, s) = Some (t2, s) \<and> nt_initialized t2 \<and> nt_last t2 = 0 \<and>
     tree_ok False (look s) sid d t2 (take (length xs - leaf_count t) xs) \<and> leaf_count t2 = 0 \<and>
     length (nt_extents t2) = length (nt_extents t)"
proof -
  have n: "nt_extents t1 = []" "nt_rescue t1 = nt_rescue t" "nt_id t1 = sid" "nt_last t1 = 0" "\<not> nt_initialized t1"
    using new by (auto simp: NBTreeExtentsList_new_def split: if_splits)
  show ?thesis
  proof (cases "nt_extents t = []")
    case True
    with t have e: "nt_rescue t = []" "xs = []" by (auto simp: tree_ok_def tree_parts_def)
    let ?t2 = "t1\<lparr>nt_initialized := True\<rparr>"
    have "tree_ok False (look s) sid d ?t2 []" "leaf_count ?t2 = 0" using n e by (simp_all add: tree_ok_def leaf_count_def)
    with n e True show ?thesis by (intro exI[of _ ?t2]) (simp add: NBTreeExtentsList_force_init_def NBTreeExtentsList_init_def)
  next
    case False
    with t obtain e es refs ys zs where p: "tree_parts True (look s) sid d t e es refs ys zs" "xs = ys @ zs"
      by (auto simp: tree_ok_def)
    have "length es < 65000" using tree_height[OF t len(1)] len(2) p(1) by (simp add: tree_parts_def)
    from repair_ok[OF p(1) this room, of "t1\<lparr>nt_initialized := True\<rparr>" fuel] n fuel obtain t2 where
      r: "NBTreeExtentsList_repair fuel B (t1\<lparr>nt_initialized := True\<rparr>, s) = Some (t2, s)"
      "tree_ok False (look s) sid d t2 ys" "nt_last t2 = 0" "nt_initialized t2" "leaf_count t2 = 0"
      "length (nt_extents t2) = length (nt_extents t)" by auto
    from tree_levels[OF p(1)] have "nt_rescue t ! length es = EMPTY_ADDR" "length (nt_rescue t) = Suc (length es)"
      by (fastforce simp: nth_append)+
    then have "last (nt_rescue t) = EMPTY_ADDR" "nt_rescue t \<noteq> []" by (cases "nt_rescue t" rule: rev_cases; simp add: nth_append)+
    then have "NBTreeExtentsList_repair_status (nt_rescue t) = RepairREPAIR" by (simp add: NBTreeExtentsList_repair_status_def)
    moreover have "take (length xs - leaf_count t) xs = ys" using leaf_count_parts[OF p(1)] p(2) by simp
    ultimately show ?thesis using n r \<open>nt_rescue t \<noteq> []\<close>
      by (intro exI[of _ t2]) (simp add: NBTreeExtentsList_force_init_def NBTreeExtentsList_init_def)
  qed
qed

end

subsection \<open>A crash\<close>

lemma memstore_crash:
  assumes "NBTreeExtentsList_new sid [] = Some t0" and "ops \<noteq> []" and "length ops \<le> 100000000" and "1000 \<le> fuel'"
  shows "\<exists>rs t s t1 t2. append_all fuel (MemStoreB hw al) dup ops (t0, MemStore_new) = Some (rs, t, s) \<and>
     NBTreeExtentsList_new sid (nt_rescue t) = Some t1 \<and>
     NBTreeExtentsList_force_init fuel' (MemStoreB hw al) (t1, s) = Some (t2, s) \<and>
     nt_last t2 = 0 \<and> leaf_count t2 = 0 \<and> length (nt_extents t2) \<le> 28 \<and> ms_room 0 s \<and>
     tree_ok False (ms_look s) sid 0 t2 (take (length (accepted dup 0 ops) - leaf_count t) (accepted dup 0 ops)) \<and>
     sorted (map fst (accepted dup 0 ops)) \<and> nt_extents t2 = [] = (accepted dup 0 ops = [])"
proof -
  let ?xs = "accepted dup 0 ops"
  from memstore_run[of ops 0 fuel hw al dup sid] assms(3) obtain rs t s where
    r: "append_all fuel (MemStoreB hw al) dup ops (new_tree sid, MemStore_new) = Some (rs, t, s)"
    "live_tree True (ms_look s) sid 0 t ?xs" "ms_room 0 s" "nt_extents t \<noteq> [] \<longrightarrow> 0 < leaf_count t"
    using ms_room_0 by auto
  have run: "append_all fuel (MemStoreB hw al) dup ops (t0, MemStore_new) = Some (rs, t, s)"
    using r(1) append_all_new[OF assms(1,2), of fuel "MemStoreB hw al" dup MemStore_new] by simp
  have ok: "tree_ok True (ms_look s) sid 0 t ?xs" using r(2) by (simp add: live_tree_def)
  have len: "length ?xs < 2 ^ 27" using accepted_length[of dup 0 ops] assms(3) by simp
  have h: "length (nt_extents t) \<le> 28" using tree_height[OF ok len] by simp
  have e: "length (nt_rescue t) = length (nt_extents t)" using ok upper_ok_length
    by (fastforce simp: tree_ok_def tree_parts_def)
  with h assms(4) have f: "33 * length (nt_rescue t) < fuel'" by simp
  obtain t1 where t1: "NBTreeExtentsList_new sid (nt_rescue t) = Some t1" using e h by (simp add: NBTreeExtentsList_new_def)
  have len': "length ?xs < 2 ^ 64" using len by simp
  have z: "nt_extents t = [] \<longleftrightarrow> ?xs = []"
  proof
    assume "?xs = []"
    with ok r(4) leaf_count_parts show "nt_extents t = []" by (fastforce simp: tree_ok_def)
  qed (use ok in \<open>auto simp: tree_ok_def tree_parts_def\<close>)
  from memstore.crash_init[OF ok len' _ r(3) t1 f, of hw al] obtain t2 where
    i: "NBTreeExtentsList_force_init fuel' (MemStoreB hw al) (t1, s) = Some (t2, s)" "nt_last t2 = 0"
    "tree_ok False (ms_look s) sid 0 t2 (take (length ?xs - leaf_count t) ?xs)" "leaf_count t2 = 0"
    "length (nt_extents t2) = length (nt_extents t)" by auto
  from i(5) z have "nt_extents t2 = [] \<longleftrightarrow> ?xs = []" by (metis length_0_conv)
  moreover have "sorted (map fst ?xs)" using r(2) by (simp add: live_tree_def)
  moreover have "length (nt_extents t2) \<le> 28" using i(5) h by simp
  ultimately show ?thesis using i(1-4) t1 run r(3)
    by (intro exI[of _ rs] exI[of _ t] exI[of _ s] exI[of _ t1] exI[of _ t2] conjI)
qed

text \<open>C2. Crash recovery.  The process stops after any sequence of appends, with the blocks written so
  far in the store and the rescue points of the tree saved.  A tree created from these rescue
  points repairs itself on first use, and a search returns exactly the accepted samples of the
  range, in order, except those that were still in the leaf in memory.  (The forward search over
  the whole time range is excluded: it fails an assertion on the empty leaf.)\<close>

theorem crash_recovery:
  assumes "NBTreeExtentsList_new sid [] = Some t0" and "ops \<noteq> []" and "length ops \<le> 100000000" and "1000 \<le> fuel'"
    and "100 + length ops < f" and "\<forall>n \<in> set ns. 0 < n" and "b \<noteq> 0 \<or> e \<noteq> FASTSTDB_MAX_TIMESTAMP"
  shows "\<exists>rs t s t1 op t2 out op'. append_all fuel (MemStoreB hw al) dup ops (t0, MemStore_new) = Some (rs, t, s) \<and>
     NBTreeExtentsList_new sid (nt_rescue t) = Some t1 \<and>
     NBTreeExtentsList_search fuel' (MemStoreB hw al) b e (t1, s) = Some (op, t2, s) \<and>
     read_chunks (RealOp_read f (MemStoreB hw al) s) ns op = Some (out, op') \<and>
     concat (map snd out) = take (sum_list ns)
       (range_pick b e (take (length (accepted dup 0 ops) - leaf_count t) (accepted dup 0 ops)))"
proof -
  from memstore_crash[OF assms(1-4), of fuel hw al dup] obtain rs t s t1 t2 where
    r: "append_all fuel (MemStoreB hw al) dup ops (t0, MemStore_new) = Some (rs, t, s)"
    "NBTreeExtentsList_new sid (nt_rescue t) = Some t1"
    "NBTreeExtentsList_force_init fuel' (MemStoreB hw al) (t1, s) = Some (t2, s)" "length (nt_extents t2) \<le> 28"
    "ms_room 0 s" "tree_ok False (ms_look s) sid 0 t2 (take (length (accepted dup 0 ops) - leaf_count t) (accepted dup 0 ops))"
    "sorted (map fst (accepted dup 0 ops))" by blast
  let ?xs = "take (length (accepted dup 0 ops) - leaf_count t) (accepted dup 0 ops)"
  have "sorted (map fst ?xs)" using sorted_wrt_take[OF r(7)] by (simp add: take_map)
  moreover have "length ?xs \<le> length ops" using accepted_length[of dup 0 ops] by simp
  then have "70 + length (nt_extents t2) + length ?xs < f" using r(4) assms(5) by linarith
  ultimately obtain op where
    o: "tree_search b e t2 = Some op" "delivers (RealOp_read f (MemStoreB hw al) s) op (range_pick b e ?xs)"
    using memstore.tree_search_delivers[OF r(6) _ r(5), of b e f hw al] assms(7)
    unfolding FASTSTDB_MAX_TIMESTAMP_def by blast
  from delivers_chunks[OF o(2) assms(6)] o(1) r(1-3) show ?thesis by (auto simp: NBTreeExtentsList_search_def)
qed

theorem crash_recovery_witness:
  "\<exists>t0 rs t s t1 op t2 out op'. NBTreeExtentsList_new 7 [] = Some t0 \<and>
     append_all 0 (MemStoreB False (\<lambda>_. 0)) False (map (\<lambda>n. (of_nat (Suc n), 1)) [0..<600]) (t0, MemStore_new) = Some (rs, t, s) \<and>
     NBTreeExtentsList_new 7 (nt_rescue t) = Some t1 \<and>
     NBTreeExtentsList_search 1000 (MemStoreB False (\<lambda>_. 0)) 1 100 (t1, s) = Some (op, t2, s) \<and>
     read_chunks (RealOp_read 1000 (MemStoreB False (\<lambda>_. 0)) s) [50, 50] op = Some (out, op')"
proof -
  obtain t0 where t0: "NBTreeExtentsList_new 7 [] = Some t0" by (simp add: NBTreeExtentsList_new_def)
  let ?ops = "map (\<lambda>n. (of_nat (Suc n), 1)) [0..<600]"
  have "?ops \<noteq> []" by simp
  from crash_recovery[OF t0 this, of 1000 1000 "[50, 50]" 1 100 0 False "\<lambda>_. 0" False] t0
  show ?thesis by (simp del: append_all.simps accepted.simps) blast
qed

lemma append_empty_leaf:
  assumes p: "tree_parts c look sid d t e es refs ys []" and "\<not> late dup (nt_last t) ts"
  shows "\<exists>t'. tree_append B ts x dup (t, s) = Some (OK, t', s)"
proof -
  let ?t = "t\<lparr>nt_last := ts, nt_write_count := nt_write_count t + 1\<rparr>"
  have p': "tree_parts c look sid d ?t e es refs ys []" using p by (simp add: tree_parts_def)
  have "\<not> leaf_full (le_leaf e)" using leafext_full_length[of c sid e "[]"] p by (auto simp: tree_parts_def)
  from leaf_append_fits[OF p' this, of 1 B "tree_append_ref B" ts x s] obtain l where
    "NBTreeLeafExtent_append 2 B (tree_append_ref B) ts x (?t, s) =
       Some ((False, EMPTY_ADDR), nt_set_extent 0 (LeafExt (e\<lparr>le_leaf := l\<rparr>)) ?t, s)"
    unfolding numeral_2_eq_2 One_nat_def by blast
  moreover have "nt_extents t \<noteq> []" using p by (simp add: tree_parts_def)
  ultimately show ?thesis using assms(2) by (simp add: tree_append_def late_def Let_def)
qed

text \<open>C39. After a crash the tree forgets the order: the tree that the first use repairs holds every
  accepted sample but those of the leaf that was in memory, yet its timestamp of the last sample is
  zero, so that it accepts a sample with any positive timestamp, also one that is earlier than a
  sample it holds.\<close>

theorem recovery_forgets_last_timestamp:
  assumes "NBTreeExtentsList_new sid [] = Some t0" and "length ops \<le> 100000000" and "accepted dup 0 ops \<noteq> []"
    and "1000 \<le> fuel'" and "0 < ts"
  shows "\<exists>rs t s t1 ti t2. append_all fuel (MemStoreB hw al) dup ops (t0, MemStore_new) = Some (rs, t, s) \<and>
     NBTreeExtentsList_new sid (nt_rescue t) = Some t1 \<and>
     NBTreeExtentsList_force_init fuel' (MemStoreB hw al) (t1, s) = Some (ti, s) \<and> nt_last ti = 0 \<and>
     tree_ok False (ms_look s) sid 0 ti (take (length (accepted dup 0 ops) - leaf_count t) (accepted dup 0 ops)) \<and>
     NBTreeExtentsList_append fuel' (MemStoreB hw al) ts x dup' (t1, s) = Some (OK, t2, s)"
proof -
  have ne: "ops \<noteq> []" using assms(3) by auto
  from memstore_crash[OF assms(1) ne assms(2,4), of fuel hw al dup] assms(3) obtain rs t s t1 t2 where
    r: "append_all fuel (MemStoreB hw al) dup ops (t0, MemStore_new) = Some (rs, t, s)"
    "NBTreeExtentsList_new sid (nt_rescue t) = Some t1"
    "NBTreeExtentsList_force_init fuel' (MemStoreB hw al) (t1, s) = Some (t2, s)" "nt_last t2 = 0" "leaf_count t2 = 0"
    "nt_extents t2 \<noteq> []"
    "tree_ok False (ms_look s) sid 0 t2 (take (length (accepted dup 0 ops) - leaf_count t) (accepted dup 0 ops))" by auto
  from r(6,7) obtain e es refs ys zs where p: "tree_parts False (ms_look s) sid 0 t2 e es refs ys zs"
    by (auto simp: tree_ok_def)
  with r(5) leaf_count_parts[OF p] have p': "tree_parts False (ms_look s) sid 0 t2 e es refs ys []" by simp
  have "\<not> late dup' (nt_last t2) ts" using r(4) assms(5) by (auto simp: late_def not_le)
  from append_empty_leaf[OF p' this, of "MemStoreB hw al" x s] obtain t3 where "tree_append (MemStoreB hw al) ts x dup' (t2, s) = Some (OK, t3, s)" by blast
  with r(3) have "NBTreeExtentsList_append fuel' (MemStoreB hw al) ts x dup' (t1, s) = Some (OK, t3, s)"
    by (simp add: NBTreeExtentsList_append_def)
  with r(1-4,7) show ?thesis by blast
qed

theorem recovery_forgets_last_timestamp_witness:
  "\<exists>t0 rs t s t1 t2. NBTreeExtentsList_new 7 [] = Some t0 \<and>
     append_all 0 (MemStoreB False (\<lambda>_. 0)) False [(5, 1), (9, 3)] (t0, MemStore_new) = Some (rs, t, s) \<and>
     NBTreeExtentsList_new 7 (nt_rescue t) = Some t1 \<and>
     NBTreeExtentsList_append 1000 (MemStoreB False (\<lambda>_. 0)) 2 4 False (t1, s) = Some (OK, t2, s)"
proof -
  obtain t0 where t0: "NBTreeExtentsList_new 7 [] = Some t0" by (simp add: NBTreeExtentsList_new_def)
  have "accepted False 0 [(5, 1), (9, 3)] \<noteq> []" by (simp add: late_def)
  from recovery_forgets_last_timestamp[OF t0 _ this, of 1000 2 0 False "\<lambda>_. 0" 4 False] t0
  show ?thesis by (simp del: append_all.simps) blast
qed

end
