(* ===== verification/NBReopen.thy ===== *)
theory NBReopen
  imports NBRecover
begin

text \<open>
  Closing a tree and opening it again.  \<open>close\<close> commits the extents from the leaf up, so that the
  node of the topmost level becomes the root of everything; \<open>open\<close> copies this node into a new
  topmost extent and puts empty extents below it.
\<close>

subsection \<open>Weaker forms of the invariant\<close>

lemma children_weaken: "children look sid d n refs xs \<Longrightarrow> d \<le> d' \<Longrightarrow> children look sid d' n refs xs"
proof -
  assume a: "children look sid d n refs xs" "d \<le> d'"
  have "(2::nat) ^ (n - d') \<le> 2 ^ (n - d)" using a(2) by (intro power_increasing) auto
  then have le: "2 ^ (n - d) \<le> length ys \<Longrightarrow> 2 ^ (n - d') \<le> length ys" for ys :: "sample list" by (rule le_trans)
  from a(1) show ?thesis unfolding children_def
    by (elim exE conjE) (intro exI conjI, erule list_all2_mono, use le in auto)
qed

lemma sbext_weaken:
  "sbext_ok c look sid d n se refs xs \<Longrightarrow> d \<le> d' \<Longrightarrow> sbext_ok False look sid d' n se refs xs"
  unfolding sbext_ok_def by (auto intro: children_weaken)

lemma upper_weaken:
  "upper_ok c look sid d n es rps xs refs \<Longrightarrow> d \<le> d' \<Longrightarrow> upper_ok False look sid d' n es rps xs refs"
proof (induction es arbitrary: n rps xs refs)
  case (Cons e es)
  from Cons.prems(1) obtain se rp rps' ys zs refs' where
    e: "e = SBlockExt se" "rps = rp # rps'" "xs = ys @ zs" "sbext_ok c look sid d n se refs zs"
    "upper_ok c look sid d (Suc n) es rps' ys refs'" "es = [] \<longrightarrow> refs \<noteq> []"
    by (simp only: upper_ok.simps) blast
  show ?case unfolding e(1-3)
    by (rule upper_ok_ConsI[OF sbext_weaken[OF e(4) Cons.prems(2)] Cons.IH[OF e(5) Cons.prems(2)]])
      (use e(6) in \<open>simp_all add: linked_def\<close>)
qed simp

lemma sbext_dirty: "sbext_ok c look sid d n se refs xs \<Longrightarrow> NBTreeSBlockExtent_is_dirty se \<longleftrightarrow> refs \<noteq> []"
  by (auto simp: NBTreeSBlockExtent_is_dirty_def IOVecSuperblock_nelements_def sbext_ok_def sb_view_def)

lemma leafext_dirty: "leafext_ok c sid e xs \<Longrightarrow> NBTreeLeafExtent_is_dirty e = Some (xs \<noteq> [])"
proof -
  assume "leafext_ok c sid e xs"
  then obtain prev fan where v: "leaf_view sid prev fan xs (le_leaf e)" by (auto simp: leafext_ok_def)
  have "length xs < 2 ^ 64" using leaf_length_bound[OF v] by simp
  then have "(of_nat (length xs) :: u64) = 0 \<longleftrightarrow> xs = []" by (simp add: u64_of_nat_0)
  with leaf_nelements_view(1)[OF v] show ?thesis by (simp add: NBTreeLeafExtent_is_dirty_def)
qed

subsection \<open>close\<close>

lemma next_sibling_bounds:
  assumes "next_sibling fan addr = (f, prev)" and "unat fan < 32" and "addr \<noteq> 0"
  shows "unat f < 32" "prev \<noteq> 0"
proof -
  have "unat (fan + 1) = unat fan + 1" using assms(2) by (simp add: unat_word_ariths)
  with assms show "unat f < 32" "prev \<noteq> 0"
    by (auto simp: next_sibling_def NBTREE_FANOUT_def Let_def EMPTY_ADDR_def split: if_splits)
qed

text \<open>The result of a commit at the top: \<open>xs\<close> is below the node of level \<open>n\<close> at \<open>addr\<close>.\<close>

definition root_at :: "(logic_addr \<Rightarrow> u8 list option) \<Rightarrow> param_id \<Rightarrow> nat \<Rightarrow> logic_addr \<Rightarrow> sample list \<Rightarrow> bool" where
  "root_at look sid n addr xs \<longleftrightarrow> addr \<noteq> EMPTY_ADDR \<and> (\<exists>r p. sr_addr r = addr \<and> subtree look sid n r p xs)"

lemma root_atI: "addr \<noteq> EMPTY_ADDR \<Longrightarrow> subtree look sid n (pl\<lparr>sr_addr := addr\<rparr>) q xs \<Longrightarrow> root_at look sid n addr xs"
  unfolding root_at_def by (intro conjI exI[of _ "pl\<lparr>sr_addr := addr\<rparr>"] exI[of _ q]) simp_all

context durable_store
begin

lemma commit_top:
  assumes ext: "nt_extents t = pre @ [SBlockExt se]" "length pre = Suc n" "Suc n < 65535"
    and resc: "length (nt_rescue t) = Suc (Suc n)" and e: "sbext_ok c (look s) sid d n se refs zs" and ne: "refs \<noteq> []"
    and room: "room (Suc k) s"
  shows "\<exists>addr t' s'. NBTreeSBlockExtent_commit B app True (Suc n) (t, s) = Some ((False, addr), t', s') \<and>
     length (nt_extents t') = length (nt_extents t) \<and> nt_rescue t' = nt_rescue t \<and>
     look s \<subseteq>\<^sub>m look s' \<and> room k s' \<and> root_at (look s') sid (Suc n) addr zs"
proof -
  from sbext_commit_node[OF e ne room] obtain addr nd s1 pl q where
    cm: "IOVecSuperblock_commit B (se_curr se) s = Some ((kOk, addr), nd, s1)" "room k s1" "look s \<subseteq>\<^sub>m look s1"
    "addr \<noteq> EMPTY_ADDR" "addr \<noteq> 0" "init_subtree_from_subtree nd INIT_SUBTREE_REF = Some (kOk, pl)"
    "subtree (look s1) sid (Suc n) (pl\<lparr>sr_addr := addr\<rparr>) q zs" by blast
  have lv: "unat (sr_level pl) = Suc n"
    using subtree_level[OF cm(7)] ext(3) by (simp add: unat_of_nat take_bit_nat_eq_self del: of_nat_Suc)
  obtain f prev where nx: "next_sibling (se_fanout_index se) addr = (f, prev)" by (cases "next_sibling (se_fanout_index se) addr")
  have fan: "unat (se_fanout_index se) < 32" using e by (simp add: sbext_ok_def)
  from sbext_reset_ok[OF e next_sibling_bounds[OF nx fan cm(5)]] obtain se' where
    se': "NBTreeSBlockExtent_reset_subtree (se\<lparr>se_fanout_index := f, se_last := prev\<rparr>) = Some se'" by blast
  have at0: "at (nt_extents t) (Suc n) = Some (SBlockExt se)" using ext(1,2) by (simp add: nth_append_length')
  let ?t1 = "nt_set_extent (Suc n) (SBlockExt (se\<lparr>se_curr := nd\<rparr>)) t"
  have "NBTreeSBlockExtent_commit B app True (Suc n) (t, s) =
      Some ((False, addr), nt_set_extent (Suc n) (SBlockExt se') ?t1, s1)"
    by (rule sblock_commit_eq[OF at0 cm(1,6) _ nx se']) (use lv resc in simp)
  moreover have "root_at (look s1) sid (Suc n) addr zs" using cm(4,7) by (rule root_atI)
  ultimately show ?thesis using cm(2,3) by (intro exI[of _ addr]) (simp add: nt_set_extent_def)
qed

lemma commit_inner:
  assumes ext: "nt_extents t = pre @ SBlockExt se # es" "length pre = Suc n" "Suc n + length es < 65530" "es \<noteq> []"
    and resc: "nt_rescue t = rs @ rp # rps" "length rs = Suc n" and sid: "nt_id t = sid" and d: "Suc n \<le> d"
    and e: "sbext_ok c (look s) sid d n se refs zs" and u: "upper_ok False (look s) sid d (Suc n) es rps ys refs'"
    and ne: "refs \<noteq> []" and room: "room (Suc (Suc (k + refs_total es))) s"
  shows "\<exists>r t' s' se' es' rps' refs''. NBTreeSBlockExtent_commit B (tree_append_ref B) True (Suc n) (t, s) = Some (r, t', s') \<and>
     nt_extents t' = pre @ SBlockExt se' # es' \<and> nt_rescue t' = rs @ rp # rps' \<and> nt_id t' = sid \<and>
     upper_ok False (look s') sid d (Suc n) es' rps' (ys @ zs) refs'' \<and> room (k + refs_total es') s' \<and>
     look s \<subseteq>\<^sub>m look s' \<and> grown_thin es es' \<and> length es \<le> length es' \<and> length es' \<le> Suc (length es)"
proof -
  from sbext_commit_node[OF e ne room] obtain addr nd s1 pl q where
    cm: "IOVecSuperblock_commit B (se_curr se) s = Some ((kOk, addr), nd, s1)" "room (Suc (k + refs_total es)) s1"
    "look s \<subseteq>\<^sub>m look s1" "addr \<noteq> EMPTY_ADDR" "addr \<noteq> 0" "init_subtree_from_subtree nd INIT_SUBTREE_REF = Some (kOk, pl)"
    "subtree (look s1) sid (Suc n) (pl\<lparr>sr_addr := addr\<rparr>) q zs" by blast
  let ?se = "SBlockExt (se\<lparr>se_curr := nd\<rparr>)" and ?pl = "pl\<lparr>sr_addr := addr\<rparr>"
  let ?t1 = "nt_set_extent (Suc n) ?se t"
  have lv: "unat (sr_level pl) = Suc n"
    using subtree_level[OF cm(7)] ext(3) by (simp add: unat_of_nat take_bit_nat_eq_self del: of_nat_Suc)
  have x1: "nt_extents ?t1 = (pre @ [?se]) @ es" "nt_rescue ?t1 = (rs @ [rp]) @ rps" "nt_id ?t1 = sid"
    using ext(1,2) resc sid by (simp_all add: nt_set_extent_def list_update_append)
  have ln: "length (pre @ [?se]) = Suc (Suc n)" "Suc (Suc n) + length es < 65534" "length (rs @ [rp]) = Suc (Suc n)"
    "length es < length (nt_extents (fst (?t1, s1))) + 2" "2 ^ (Suc n - d) \<le> length zs"
    using ext(2,3) resc(2) x1(1) d subtree_nonempty[OF cm(7)] by (auto simp: Suc_le_eq)
  from append_ref_ok[OF x1(1) ln(1,2) x1(2) ln(3) x1(3) upper_ok_mono[OF u cm(3)] cm(7) ln(5) cm(2) ln(4)]
  obtain b t2 s2 where a: "tree_append_ref B ?pl (?t1, s1) = Some (b, t2, s2)"
    "appended_ref False sid d (Suc n) (pre @ [?se]) (ys @ zs) refs' ?pl k (?t1, s1) (t2, s2)"
    by (auto simp: tree_append_ref_def)
  from a(2) obtain es2 rps2 where
    x2: "nt_extents t2 = pre @ ?se # es2" "nt_rescue t2 = rs @ rp # rps2" "look s1 \<subseteq>\<^sub>m look s2"
    "upper_ok False (look s2) sid d (Suc n) es2 rps2 (ys @ zs) (if length refs' = 32 then [?pl] else refs' @ [?pl])"
    "room (k + refs_total es2) s2" "nt_id t2 = sid" "grown_thin es es2" "length es \<le> length es2" "length es2 \<le> Suc (length es)"
    using x1 ln(1,3) by (auto simp: appended_ref_def)
  obtain f prev where nx: "next_sibling (se_fanout_index se) addr = (f, prev)" by (cases "next_sibling (se_fanout_index se) addr")
  have fan: "unat (se_fanout_index se) < 32" using e by (simp add: sbext_ok_def)
  from sbext_reset_ok[OF e next_sibling_bounds[OF nx fan cm(5)]] obtain se' where
    se': "NBTreeSBlockExtent_reset_subtree (se\<lparr>se_fanout_index := f, se_last := prev\<rparr>) = Some se'" by blast
  have at0: "at (nt_extents t) (Suc n) = Some (SBlockExt se)" using ext(1,2) by (simp add: nth_append_length')
  have "length rps = length es" by (rule upper_ok_length[OF u])
  with ext(4) resc have "Suc n + 1 < length (nt_rescue t)" by (cases es) auto
  then have "NBTreeSBlockExtent_commit B (tree_append_ref B) True (Suc n) (t, s) =
      Some ((b, addr), nt_set_extent (Suc n) (SBlockExt se') t2, s2)"
    by (intro sblock_commit_eq[OF at0 cm(1,6) _ nx se']) (use lv a(1) in simp)
  with x2 ext(2) map_le_trans[OF cm(3) x2(3)] show ?thesis
    by (intro exI[of _ "(b, addr)"] exI[of _ "nt_set_extent (Suc n) (SBlockExt se') t2"] exI[of _ s2] exI[of _ se']
        exI[of _ es2] exI[of _ rps2] exI[of _ "if length refs' = 32 then [?pl] else refs' @ [?pl]"])
      (simp add: nt_set_extent_def list_update_append)
qed

lemma grown_thin_rounds:
  assumes "grown_thin es es'" and "es \<noteq> []" and "length es' \<le> Suc (length es)"
    and "Suc (Suc (length es)) \<le> n \<or> thin es \<and> Suc (length es) \<le> n"
  shows "Suc (Suc (length es')) \<le> n \<or> thin (tl es') \<and> Suc (length es') \<le> n"
proof (cases "length es < length es'")
  case True
  with assms(1,2) have "thin es'" "\<not> thin es" unfolding grown_thin_def by auto
  then have "thin (tl es')" by (cases es') (auto simp: thin_def)
  with assms(3,4) \<open>\<not> thin es\<close> show ?thesis by auto
next
  case False
  then show ?thesis using assms unfolding grown_thin_def by auto
qed

text \<open>The rounds of the loop above the leaf.  A round may add one level, and then the levels that
  are left hold one reference each and do not grow again.\<close>

lemma close_upper:
  "nt_extents t = pre @ post \<Longrightarrow> length pre = Suc n \<Longrightarrow> post \<noteq> [] \<Longrightarrow> nt_rescue t = rs @ rps \<Longrightarrow> length rs = Suc n \<Longrightarrow>
   nt_id t = sid \<Longrightarrow> upper_ok False (look s) sid d n post rps xs refs \<Longrightarrow> n + fuel \<le> d \<Longrightarrow> n + fuel < 65000 \<Longrightarrow>
   room (k + fuel + refs_total post) s \<Longrightarrow>
   Suc (Suc (length post)) \<le> fuel \<or> thin (tl post) \<and> Suc (length post) \<le> fuel \<Longrightarrow>
   \<exists>addr t' s'. close_loop fuel B (Suc n) q (t, s) = Some ((False, addr), t', s') \<and> look s \<subseteq>\<^sub>m look s' \<and> room k s' \<and>
     1 < length (nt_rescue t') \<and> length (nt_rescue t') \<le> n + fuel \<and> root_at (look s') sid (length (nt_rescue t') - 1) addr xs"
proof (induction fuel arbitrary: t s pre post n rs rps xs refs q)
  case (Suc fuel)
  from Suc.prems(3) obtain e es where post: "post = e # es" by (cases post) auto
  from Suc.prems(7)[unfolded post] obtain se rp rps' ys zs refs' where
    e: "e = SBlockExt se" "rps = rp # rps'" "xs = ys @ zs" "sbext_ok False (look s) sid d n se refs zs"
    "upper_ok False (look s) sid d (Suc n) es rps' ys refs'" "es = [] \<longrightarrow> refs \<noteq> []"
    by (simp only: upper_ok.simps) blast
  have at0: "at (nt_extents t) (Suc n) = Some (SBlockExt se)" "Suc n < length (nt_extents t)"
    using Suc.prems(1,2) post e(1) by (simp_all add: nth_append_length')
  have step: "close_loop (Suc fuel) B (Suc n) q (t, s) =
      do { (q, st) \<leftarrow> (if refs \<noteq> [] then NBTreeSBlockExtent_commit B (tree_append_ref B) True (Suc n) (t, s) else Some (q, t, s));
           close_loop fuel B (Suc (Suc n)) q st }"
    using at0 sbext_dirty[OF e(4)] by (simp add: extent_is_dirty_def extent_commit_final_def)
  have rt: "refs_total post = length refs + refs_total es" using post e(1) sbext_ok_refs[OF e(4)] by simp
  have ex: "nt_extents t = pre @ SBlockExt se # es" "nt_rescue t = rs @ rp # rps'" using Suc.prems(1,4) post e(1,2) by simp_all
  have lr: "length rps' = length es" by (rule upper_ok_length[OF e(5)])
  show ?case
  proof (cases "es = []")
    case True
    with e(5,6) have ne: "refs \<noteq> []" "xs = zs" using e(3) by auto
    have "room (Suc k) s" by (rule room_le[OF Suc.prems(10)]) simp
    moreover have "nt_extents t = pre @ [SBlockExt se]" "Suc n < 65535" "length (nt_rescue t) = Suc (Suc n)"
      using ex True Suc.prems(2,5,9) lr by auto
    ultimately obtain addr t' s' where
      c: "NBTreeSBlockExtent_commit B (tree_append_ref B) True (Suc n) (t, s) = Some ((False, addr), t', s')"
      "length (nt_extents t') = Suc (Suc n)" "nt_rescue t' = nt_rescue t" "look s \<subseteq>\<^sub>m look s'" "room k s'"
      "root_at (look s') sid (Suc n) addr zs"
      using commit_top[of t pre se n False s sid d refs zs k "tree_append_ref B"] Suc.prems(2) e(4) ne(1) by auto
    obtain fuel' where "fuel = Suc fuel'" using Suc.prems(11) post by (cases fuel) auto
    then show ?thesis unfolding step using ne c True ex lr Suc.prems(5) by simp
  next
    case False
    have bd: "Suc n + fuel \<le> d" "Suc n + fuel < 65000" "Suc n \<le> d" "Suc n + length es < 65530"
      using Suc.prems(8,9,11) post by auto
    show ?thesis
    proof (cases "refs = []")
      case True
      then have z: "zs = []" using e(4) by (auto simp: sbext_ok_def)
      have "room (k + fuel + refs_total es) s" by (rule room_le[OF Suc.prems(10)]) (simp add: rt)
      moreover have "Suc (Suc (length es)) \<le> fuel \<or> thin (tl es) \<and> Suc (length es) \<le> fuel"
        using Suc.prems(11) post by (cases es) (auto simp: thin_def)
      ultimately show ?thesis unfolding step
        using Suc.IH[of t "pre @ [SBlockExt se]" es "Suc n" "rs @ [rp]" rps' s ys refs' q] ex Suc.prems(2,5,6) False e(3,5) bd True z by simp
    next
      case ne: False
      then have "1 \<le> length refs" by (cases refs) auto
      then have "room (Suc (Suc ((k + fuel) + refs_total es))) s" by (intro room_le[OF Suc.prems(10)]) (simp add: rt)
      from commit_inner[OF ex(1) Suc.prems(2) bd(4) False ex(2) Suc.prems(5,6) bd(3) e(4,5) ne this] obtain q' t' s' se' es' rps2 refs2 where
        c: "NBTreeSBlockExtent_commit B (tree_append_ref B) True (Suc n) (t, s) = Some (q', t', s')"
        "nt_extents t' = (pre @ [SBlockExt se']) @ es'" "nt_rescue t' = (rs @ [rp]) @ rps2" "nt_id t' = sid"
        "upper_ok False (look s') sid d (Suc n) es' rps2 (ys @ zs) refs2" "room (k + fuel + refs_total es') s'"
        "look s \<subseteq>\<^sub>m look s'" "grown_thin es es'" "length es \<le> length es'" "length es' \<le> Suc (length es)" by auto
      have ne': "es' \<noteq> []" using False c(9) by (cases es') simp_all
      have fu: "Suc (Suc (length es')) \<le> fuel \<or> thin (tl es') \<and> Suc (length es') \<le> fuel"
        by (rule grown_thin_rounds[OF c(8) False c(10)]) (use Suc.prems(11) post in simp)
      have ln: "length (pre @ [SBlockExt se']) = Suc (Suc n)" "length (rs @ [rp]) = Suc (Suc n)" using Suc.prems(2,5) by simp_all
      from Suc.IH[OF c(2) ln(1) ne' c(3) ln(2) c(4,5) bd(1,2) c(6) fu, of q'] obtain addr t2 s2 where
        i: "close_loop fuel B (Suc (Suc n)) q' (t', s') = Some ((False, addr), t2, s2)" "look s' \<subseteq>\<^sub>m look s2" "room k s2"
        "1 < length (nt_rescue t2)" "length (nt_rescue t2) \<le> Suc n + fuel" "root_at (look s2) sid (length (nt_rescue t2) - 1) addr (ys @ zs)"
        by blast
      have "close_loop (Suc fuel) B (Suc n) q (t, s) = Some ((False, addr), t2, s2)" unfolding step using c(1) ne i(1) by simp
      then show ?thesis using i(3-6) e(3) map_le_trans[OF c(7) i(2)]
        by (intro exI[of _ addr] exI[of _ t2] exI[of _ s2]) simp
    qed
  qed
qed simp

lemma commit_only_leaf:
  assumes t: "tree_parts c (look s) sid d t e [] refs ys zs" and ne: "zs \<noteq> []" and room: "room (Suc k) s"
  shows "\<exists>addr t' s'. NBTreeLeafExtent_commit B app True (t, s) = Some ((False, addr), t', s') \<and>
     length (nt_extents t') = 1 \<and> nt_rescue t' = nt_rescue t \<and> look s \<subseteq>\<^sub>m look s' \<and> room k s' \<and> root_at (look s') sid 0 addr zs"
proof -
  from t obtain rp where
    p: "nt_extents t = LeafExt e # []" "leafext_ok c sid e zs" "nt_rescue t = [rp]"
    "linked c (look s) sid 0 (le_fanout_index e) (le_last e) rp refs" by (auto simp: tree_parts_def)
  from leafext_commit_node[OF p(2,4) ne room] obtain addr l s1 pl q where
    cm: "IOVecLeaf_commit B (le_leaf e) s = Some ((kOk, addr), l, s1)" "room k s1" "look s \<subseteq>\<^sub>m look s1" "addr \<noteq> EMPTY_ADDR"
    "init_subtree_from_leaf l INIT_SUBTREE_REF = Some (kOk, pl)" "subtree (look s1) sid 0 (pl\<lparr>sr_addr := addr\<rparr>) q zs" by blast
  obtain f prev where nx: "next_sibling (le_fanout_index e) addr = (f, prev)" by (cases "next_sibling (le_fanout_index e) addr")
  from leafext_new[of "le_id e" prev "le_leaf e" f] obtain e' where
    e': "NBTreeLeafExtent_reset_leaf (e\<lparr>le_fanout_index := f, le_last := prev\<rparr>) = Some e'" by (cases e) auto
  let ?t1 = "nt_set_extent 0 (LeafExt (e\<lparr>le_leaf := l\<rparr>)) t"
  have "NBTreeLeafExtent_commit B app True (t, s) = Some ((False, addr), nt_set_extent 0 (LeafExt e') ?t1, s1)"
    by (rule leaf_commit_eq[OF p(1) cm(1,5) _ nx e']) (simp add: p(3))
  with cm(2,3) root_atI[OF cm(4,6)] p(1) show ?thesis by (intro exI[of _ addr]) (simp add: nt_set_extent_def)
qed

text \<open>The whole loop.  \<open>rescue\<close> keeps one entry per level, so its length tells the level of the root.\<close>

lemma close_loop_ok:
  assumes t: "tree_parts c (look s) sid d t e es refs ys zs" and ne: "ys @ zs \<noteq> []" and len: "length es < 60000"
    and room: "room (k + length es + 6 + refs_total es) s"
  shows "\<exists>addr t' s'. close_loop (length es + 4) B 0 q (t, s) = Some ((False, addr), t', s') \<and> look s \<subseteq>\<^sub>m look s' \<and> room k s' \<and>
     nt_rescue t' \<noteq> [] \<and> length (nt_rescue t') \<le> length es + 3 \<and> root_at (look s') sid (length (nt_rescue t') - 1) addr (ys @ zs)"
proof -
  let ?F = "length es + 3" and ?d = "max d 65000"
  from t obtain rp rps where
    p: "nt_id t = sid" "nt_extents t = LeafExt e # es" "leafext_ok c sid e zs" "nt_rescue t = rp # rps"
    "upper_ok c (look s) sid d 0 es rps ys refs" by (auto simp: tree_parts_def)
  have step: "close_loop (length es + 4) B 0 q (t, s) =
      do { (q, st) \<leftarrow> (if zs \<noteq> [] then NBTreeLeafExtent_commit B (tree_append_ref B) True (t, s) else Some (q, t, s));
           close_loop ?F B 1 q st }"
  proof -
    have F: "length es + 4 = Suc ?F" by simp
    show ?thesis unfolding F close_loop.simps(2) using p(2) leafext_dirty[OF p(3)]
      by (simp add: extent_is_dirty_def extent_commit_final_def)
  qed
  have lr: "length rps = length es" by (rule upper_ok_length[OF p(5)])
  show ?thesis
  proof (cases "es = []")
    case True
    with p(5) ne have z: "zs \<noteq> []" "ys = []" by auto
    have "room (Suc k) s" by (rule room_le[OF room]) simp
    from commit_only_leaf[OF t[unfolded True] z(1) this, of "tree_append_ref B"] obtain addr t' s' where
      c: "NBTreeLeafExtent_commit B (tree_append_ref B) True (t, s) = Some ((False, addr), t', s')" "length (nt_extents t') = 1"
      "nt_rescue t' = nt_rescue t" "look s \<subseteq>\<^sub>m look s'" "room k s'" "root_at (look s') sid 0 addr zs" by blast
    then have "close_loop (length es + 4) B 0 q (t, s) = Some ((False, addr), t', s')"
      unfolding step using True z by (simp add: numeral_eq_Suc)
    with c(3-6) z p(4) lr True show ?thesis by simp
  next
    case False
    have up: "\<exists>addr t' s'. close_loop ?F B 1 q (t1, s1) = Some ((False, addr), t', s') \<and> look s1 \<subseteq>\<^sub>m look s' \<and> room k s' \<and>
        nt_rescue t' \<noteq> [] \<and> length (nt_rescue t') \<le> ?F \<and> root_at (look s') sid (length (nt_rescue t') - 1) addr xs"
      if x: "nt_extents t1 = x # es1" "nt_rescue t1 = rp1 # rps1" "nt_id t1 = sid" "upper_ok c (look s1) sid d 0 es1 rps1 xs refs1"
        "room (k + ?F + refs_total es1) s1" "length es \<le> length es1" "length es1 \<le> Suc (length es)" for q t1 s1 x es1 rp1 rps1 xs refs1
    proof -
      have "es1 \<noteq> []" "Suc (Suc (length es1)) \<le> ?F" using False x(6,7) by auto
      with close_upper[of t1 "[x]" es1 0 "[rp1]" rps1 sid s1 ?d xs refs1 ?F k q] x(1-5) upper_weaken[OF x(4), of ?d] len
      show ?thesis by force
    qed
    show ?thesis
    proof (cases "zs = []")
      case True
      have "room (k + ?F + refs_total es) s" by (rule room_le[OF room]) simp
      from up[OF p(2,4,1,5) this, of q] True show ?thesis unfolding step by simp
    next
      case nz: False
      have l1: "length es < 65530" "1 < length (nt_rescue t)" using len p(4) lr False by (auto simp: neq_Nil_conv)
      have "room (Suc (Suc ((k + ?F) + refs_total es))) s" by (rule room_le[OF room]) simp
      from tree_commit_leaf[OF t nz l1(1) this, of True] l1(2) obtain b addr t1 s1 e1 es1 r where
        c: "NBTreeLeafExtent_commit B (tree_append_ref B) True (t, s) = Some ((b, addr), t1, s1)"
        "nt_extents t1 = LeafExt e1 # es1"
        "tree_parts c (look s1) sid d (t1\<lparr>nt_rescue := (nt_rescue t1)[0 := addr]\<rparr>) e1 es1
           (if length refs = 32 then [r] else refs @ [r]) (ys @ zs) []"
        "nt_rescue t1 \<noteq> []" "look s \<subseteq>\<^sub>m look s1" "room (k + ?F + refs_total es1) s1" "length es \<le> length es1"
        "length es1 \<le> Suc (length es)" by blast
      from c(4) obtain rp1 rps1 where r1: "nt_rescue t1 = rp1 # rps1" by (cases "nt_rescue t1") auto
      have "nt_id t1 = sid" "upper_ok c (look s1) sid d 0 es1 rps1 (ys @ zs) (if length refs = 32 then [r] else refs @ [r])"
        using c(3) r1 by (auto simp: tree_parts_def)
      from up[OF c(2) r1 this c(6-8), of "(b, addr)"] obtain addr' t' s' where
        "close_loop ?F B 1 (b, addr) (t1, s1) = Some ((False, addr'), t', s')" "look s1 \<subseteq>\<^sub>m look s'" "room k s'"
        "nt_rescue t' \<noteq> []" "length (nt_rescue t') \<le> ?F" "root_at (look s') sid (length (nt_rescue t') - 1) addr' (ys @ zs)" by blast
      with c(1) nz map_le_trans[OF c(5)] show ?thesis unfolding step by auto
    qed
  qed
qed

lemma close_ok:
  assumes t: "tree_ok c (look s) sid d t xs" "xs \<noteq> []" "length (nt_extents t) < 60000" "nt_initialized t" "0 < nt_write_count t"
    and room: "room (k + length (nt_extents t) + 5 + refs_total (nt_extents t)) s"
  shows "\<exists>n addr t' s'. NBTreeExtentsList_close B (t, s) = Some (replicate n EMPTY_ADDR @ [addr], t', s') \<and> look s \<subseteq>\<^sub>m look s' \<and>
     room k s' \<and> n \<le> length (nt_extents t) + 1 \<and> root_at (look s') sid n addr xs"
proof -
  from t(1,2) obtain e es refs ys zs where
    p: "tree_parts c (look s) sid d t e es refs ys zs" "xs = ys @ zs" unfolding tree_ok_def by blast
  have e: "nt_extents t = LeafExt e # es" using p(1) by (simp add: tree_parts_def)
  have "room (k + length es + 6 + refs_total es) s" "length es < 60000"
    using room_le[OF room] t(3) e by (simp_all add: ext_refs_def)
  from close_loop_ok[OF p(1) _ this(2,1), of "(False, EMPTY_ADDR)"] t(2) p(2) obtain addr t' s' where
    c: "close_loop (length es + 4) B 0 (False, EMPTY_ADDR) (t, s) = Some ((False, addr), t', s')" "look s \<subseteq>\<^sub>m look s'" "room k s'"
    "nt_rescue t' \<noteq> []" "length (nt_rescue t') \<le> length es + 3" "root_at (look s') sid (length (nt_rescue t') - 1) addr xs" by blast
  have "length (nt_extents t) + 3 = length es + 4" using e by simp
  with c(1) have "close_loop (length (nt_extents t) + 3) B 0 (False, EMPTY_ADDR) (t, s) = Some ((False, addr), t', s')" by (simp only:)
  with c(4) t(4,5) have "\<exists>t2. NBTreeExtentsList_close B (t, s) =
      Some (replicate (length (nt_rescue t') - 1) EMPTY_ADDR @ [addr], t2, s')"
    by (simp add: NBTreeExtentsList_close_def Let_def del: add_Suc_right)
  with c(2,3,5,6) e show ?thesis by (intro exI[of _ "length (nt_rescue t') - 1"] exI[of _ addr]) auto
qed

end

subsection \<open>open\<close>

lemma tree_ok_empty_leaf:
  assumes "tree_parts c look sid d t e es refs ys []"
  shows "tree_ok c look sid d t ys" "leaf_count t = 0"
proof -
  show "tree_ok c look sid d t ys" unfolding tree_ok_def
    by (rule disjI2) (intro exI conjI, rule assms, simp)
  show "leaf_count t = 0" using leaf_count_parts[OF assms] by simp
qed

lemma last_in_range:
  assumes "sorted (map fst xs)" and "xs \<noteq> []"
  shows "(case range_pick FASTSTDB_MAX_TIMESTAMP 0 xs of [] \<Rightarrow> 0 | y # ys \<Rightarrow> fst y) = fst (last xs)"
proof -
  have r: "range_pick FASTSTDB_MAX_TIMESTAMP 0 zs = rev (filter (\<lambda>x. 0 < fst x) zs)" for zs :: "real_sample list"
    by (simp add: pick_def in_range_def FASTSTDB_MAX_TIMESTAMP_def u64_le_max)
  from assms(2) obtain us u where x: "xs = us @ [u]" by (cases xs rule: rev_cases) auto
  show ?thesis
  proof (cases "0 < fst u")
    case False
    then have z: "fst u = 0" by (simp add: word_gt_0)
    with assms(1) x have "\<forall>y \<in> set us. fst y = 0" by (auto simp: sorted_append)
    then have "filter (\<lambda>x. 0 < fst x) us = []" by (auto simp: filter_empty_conv)
    with z x show ?thesis unfolding r by simp
  qed (simp add: r x)
qed

context durable_store
begin

lemma restore_last_ok:
  assumes ext: "nt_extents t = es @ [SBlockExt se]" and x: "sbext_ok c (look s) sid d n se refs xs" and room: "room k s"
    and srt: "sorted (map fst xs)" "xs \<noteq> []" and fuel: "67 + n + length xs < fuel"
  shows "restore_last fuel B (t, s) = Some (t\<lparr>nt_last := fst (last xs)\<rparr>)"
proof -
  let ?b = FASTSTDB_MAX_TIMESTAMP
  from sblock_extent_delivers[OF x room srt(1) fuel, of ?b 0] obtain op where
    op: "extent_search ?b 0 (SBlockExt se) = Some op" "delivers (RealOp_read fuel B s) op (range_pick ?b 0 xs)"
    unfolding ext_delivers_def by blast
  from delivers_read[OF op(2), of 1] obtain st op' where
    o: "RealOp_read fuel B s op 1 = Some ((st, take 1 (range_pick ?b 0 xs)), op')"
    "st = kOk \<and> range_pick ?b 0 xs \<noteq> [] \<or> st = kNoData \<and> length (range_pick ?b 0 xs) < 1" by (metis zero_less_one)
  show ?thesis
  proof (cases "range_pick ?b 0 xs")
    case Nil
    with o last_in_range[OF srt] op(1) ext show ?thesis by (simp add: restore_last_def FASTSTDB_MIN_TIMESTAMP_def IsOk_def)
  next
    case (Cons y ys)
    with o last_in_range[OF srt] op(1) ext show ?thesis by (cases y) (simp add: restore_last_def)
  qed
qed

lemma root_extent_ok:
  assumes r: "root_at (look s) sid (Suc m) addr xs" and room: "room k s" and d: "m \<le> d"
  shows "\<exists>se refs. NBTreeSBlockExtent_new B sid addr (of_nat (Suc m)) s = Some se \<and> \<not> se_killed se \<and>
     sbext_ok False (look s) sid d m se refs xs \<and> refs \<noteq> []"
proof -
  from r obtain r p where r': "addr \<noteq> EMPTY_ADDR" "sr_addr r = addr" "subtree (look s) sid (Suc m) r p xs" unfolding root_at_def by blast
  from r'(2,3) obtain fan refs xss bs where
    t: "look s addr = Some bs" "sb_image sid p fan (of_nat (Suc m)) refs bs" "p \<noteq> 0" "unat fan < 32"
    "list_all2 (\<lambda>r x. \<exists>p. subtree (look s) sid m r p x) refs xss" "xs = concat xss" by auto
  from t(2) obtain h z where
    h: "node_image h (pack_refs refs @ z) bs" "sr_addr h = p" "ref_core h = sb_ref sid fan (of_nat (Suc m)) refs" "refs \<noteq> []"
    by (auto simp: sb_image_def)
  have "sr_fanout_index (ref_core h) = fan" unfolding h(3) by (simp add: sb_ref_def Let_def)
  then have f: "sr_fanout_index h = fan" by (simp add: ref_core_def)
  from sb_copy_ok[OF t(2) room t(1,3)] obtain nd where
    nd: "IOVecSuperblock_copy B addr False s = Some nd" "sb_view sid p fan (of_nat (Suc m)) refs nd" by blast
  let ?f = "if unat (fan + 1) = 32 then 0 else fan + 1"
  let ?se = "\<lparr>se_curr = nd, se_id = sid, se_last = p, se_fanout_index = ?f, se_level = of_nat (Suc m), se_killed = False\<rparr>"
  have uf: "unat ?f < 32" using t(4) by (auto simp: unat_word_ariths)
  have "list_all2 (\<lambda>r x. (\<exists>p. subtree (look s) sid m r p x) \<and> 2 ^ (m - d) \<le> length x) refs xss"
    using t(5) by (rule list_all2_mono) (use subtree_nonempty d in \<open>fastforce simp: Suc_le_eq\<close>)
  then have "children (look s) sid d m refs xs" unfolding children_def using t(6) by blast
  then have "sbext_ok False (look s) sid d m ?se refs xs" using nd(2) t(3,4) uf by (auto simp: sbext_ok_def)
  moreover have "NBTreeSBlockExtent_new B sid addr (of_nat (Suc m)) s = Some ?se"
    using r'(1) nd(1) read_image(1)[OF room t(1) h(1)] image_header(1)[OF h(1)] f h(2)
    by (simp add: NBTreeSBlockExtent_new_def NBTREE_FANOUT_def Let_def)
  ultimately show ?thesis using h(4) by (intro exI[of _ ?se] exI[of _ refs]) simp
qed

lemma remove_stalled_none:
  "nt_extents t = es @ [SBlockExt se] \<Longrightarrow> \<not> se_killed se \<Longrightarrow> remove_stalled t = Some t"
  by (simp add: remove_stalled_def extent_get_status_def NBTreeSBlockExtent_status_def)

lemma open_root_ok:
  assumes r: "root_at (look s) sid (Suc m) addr xs" and room: "room k s" and srt: "sorted (map fst xs)" "xs \<noteq> []"
    and t: "nt_extents t = []" "nt_rescue t = replicate (Suc m) EMPTY_ADDR @ [addr]" "nt_id t = sid"
    and fuel: "67 + m + length xs < fuel"
  shows "\<exists>t'. NBTreeExtentsList_open fuel B (t, s) = Some t' \<and> tree_ok False (look s) sid (Suc m) t' xs \<and> nt_last t' = fst (last xs) \<and>
     nt_initialized t' = nt_initialized t \<and> leaf_count t' = 0 \<and> refs_total (nt_extents t') \<le> 32 \<and> length (nt_extents t') = Suc (Suc m)"
proof -
  from root_extent_ok[OF r room, of "Suc m"] obtain se refs where
    se: "NBTreeSBlockExtent_new B sid addr (of_nat (Suc m)) s = Some se" "\<not> se_killed se"
    "sbext_ok False (look s) sid (Suc m) m se refs xs" "refs \<noteq> []" by auto
  from leafext_fresh[of sid s False] obtain le where
    le: "NBTreeLeafExtent_new B sid EMPTY_ADDR s = Some le" "leafext_ok False sid le []" by blast
  from empty_extents[of sid 0 m s "Suc m"] obtain ses where
    ses: "open_inner B sid [1..<Suc m] s = Some (map SBlockExt ses)" "length ses = m"
    "\<forall>j < m. sbext_ok False (look s) sid (Suc m) j (ses ! j) [] []" by auto
  let ?t = "t\<lparr>nt_extents := LeafExt le # map SBlockExt (ses @ [se])\<rparr>" and ?t' = "t\<lparr>nt_extents := LeafExt le # map SBlockExt (ses @ [se]), nt_last := fst (last xs)\<rparr>"
  have ex: "nt_extents ?t = (LeafExt le # map SBlockExt ses) @ [SBlockExt se]" by simp
  have lr: "length (nt_rescue t) = Suc (Suc m)" "last (nt_rescue t) = addr" using t(2) by simp_all
  have "open_root B (t, s) = Some ?t"
    using se(1) le(1) ses(1) t(1,3) lr by (simp add: open_root_def Let_def del: of_nat_Suc upt_Suc)
  then have op: "NBTreeExtentsList_open fuel B (t, s) = Some ?t'"
    using remove_stalled_none[OF ex se(2)] restore_last_ok[OF ex se(3) room srt fuel] lr(1) ses(2)
    by (simp add: NBTreeExtentsList_open_def)
  let ?rss = "replicate m [] @ [refs]" and ?xss = "replicate m [] @ [xs]"
  have lv: "\<forall>j < length (ses @ [se]). sbext_ok False (look s) sid (Suc m) (0 + j) ((ses @ [se]) ! j) (?rss ! j) (?xss ! j)"
    using ses(2,3) se(3) by (auto simp: nth_append less_Suc_eq)
  have "upper_ok False (look s) sid (Suc m) 0 (map SBlockExt (ses @ [se])) (replicate m EMPTY_ADDR @ [addr]) (concat (rev ?xss)) ((?rss @ [[]]) ! 0)"
    by (rule upper_okI[OF _ _ _ _ lv]) (use ses(2) se(4) in simp_all)
  moreover have "concat (rev ?xss) = xs" by simp
  ultimately have "tree_parts False (look s) sid (Suc m) ?t' le (map SBlockExt (ses @ [se])) ((?rss @ [[]]) ! 0) xs []"
    using t(2,3) le(2) by (simp add: tree_parts_def linked_def)
  note fin = tree_ok_empty_leaf[OF this]
  have "refs_total (map SBlockExt ses) = 0"
  proof -
    have "ext_refs x = 0" if "x \<in> set (map SBlockExt ses)" for x
    proof -
      from that obtain j where j: "j < m" "x = SBlockExt (ses ! j)" using ses(2) by (auto simp: in_set_conv_nth)
      with ses(3) have "sbext_ok False (look s) sid (Suc m) j (ses ! j) [] []" by blast
      from sbext_ok_refs[OF this] j(2) show ?thesis by simp
    qed
    then show ?thesis unfolding refs_total_def by (simp add: sum_list_eq_0_iff)
  qed
  moreover have "refs_total (map SBlockExt (ses @ [se])) = refs_total (map SBlockExt ses) + length refs"
    using sbext_ok_refs[OF se(3)] by (simp add: refs_total_def)
  moreover have "length refs \<le> 32" using se(3) by (auto simp: sbext_ok_def sb_view_def)
  ultimately have "refs_total (nt_extents ?t') \<le> 32" by (simp add: ext_refs_def)
  with fin op ses(2) show ?thesis by (intro exI[of _ ?t']) simp
qed

lemma open_single_ok:
  assumes r: "root_at (look s) sid 0 addr xs" and room: "room k s" and srt: "sorted (map fst xs)" "xs \<noteq> []"
    and t: "nt_extents t = []" "nt_rescue t = [addr]" "nt_id t = sid" and fuel: "67 + length xs < fuel"
  shows "\<exists>t'. NBTreeExtentsList_open fuel B (t, s) = Some t' \<and> tree_ok False (look s) sid 0 t' xs \<and> nt_last t' = fst (last xs) \<and>
     nt_initialized t' = nt_initialized t \<and> leaf_count t' = 0 \<and> refs_total (nt_extents t') \<le> 32 \<and> length (nt_extents t') = 2"
proof -
  from r obtain r p where r': "addr \<noteq> EMPTY_ADDR" "sr_addr r = addr" "subtree (look s) sid 0 r p xs" unfolding root_at_def by blast
  from stored_leaf_ok[OF room r'(3)] obtain b lf h fan where
    l: "read_and_check B addr s = Some (kOk, Some b)" "IOVecBlock_get_header b = Some h" "sr_fanout_index h = fan" "unat fan < 32"
    "IOVecLeaf_of_block b = Some lf" "init_subtree_from_leaf lf INIT_SUBTREE_REF = Some (kOk, leaf_ref sid fan xs)"
    "r = (leaf_ref sid fan xs)\<lparr>sr_addr := addr\<rparr>" unfolding r'(2) by blast
  from sbext_new_ok[of sid 0 s False 0] obtain se where
    se: "NBTreeSBlockExtent_new B sid EMPTY_ADDR 1 s = Some se" "sbext_ok False (look s) sid 0 0 se [] []" by auto
  have "\<not> se_killed se" using se(1) by (auto simp: NBTreeSBlockExtent_new_def bind_eq_Some_conv)
  from sbext_append_ok[OF se(2) _ r'(3)] srt(2) obtain nd where
    nd: "IOVecSuperblock_append r (se_curr se) = Some (kOk, nd)" "sbext_ok False (look s) sid 0 0 (se\<lparr>se_curr := nd\<rparr>) [r] xs"
    by (auto simp: Suc_le_eq)
  let ?f = "if unat (fan + 1) = 32 then 0 else fan + 1" and ?p = "if unat (fan + 1) = 32 then EMPTY_ADDR else addr"
  from leaf_new_ok[of sid ?p ?f] obtain l0 where l0: "IOVecLeaf_new sid ?p ?f = Some l0" "leaf_view sid ?p ?f [] l0" by blast
  let ?le = "\<lparr>le_id = sid, le_last = ?p, le_leaf = l0, le_fanout_index = ?f\<rparr>" and ?se = "se\<lparr>se_curr := nd\<rparr>"
  have uf: "unat ?f < 32" using l(4) by (auto simp: unat_word_ariths)
  have le: "NBTreeLeafExtent_new B sid addr s = Some ?le"
    using r'(1) l(1-3) l0(1) by (auto simp: NBTreeLeafExtent_new_def NBTREE_FANOUT_def Let_def split: if_splits)
  have lok: "leafext_ok False sid ?le []" using l0(2) uf unfolding leafext_ok_def by auto
  let ?t = "t\<lparr>nt_extents := [LeafExt ?le, SBlockExt ?se], nt_rescue := [addr, EMPTY_ADDR]\<rparr>"
  let ?t' = "?t\<lparr>nt_last := fst (last xs)\<rparr>"
  have ex: "nt_extents ?t = [LeafExt ?le] @ [SBlockExt ?se]" by simp
  have "open_single_page B (t, s) = Some (False, ?t)"
    using se(1) t l nd(1) le by (simp add: open_single_page_def)
  then have op: "NBTreeExtentsList_open fuel B (t, s) = Some ?t'"
    using remove_stalled_none[OF ex] \<open>\<not> se_killed se\<close> restore_last_ok[OF ex nd(2) room srt] fuel t(2)
    by (simp add: NBTreeExtentsList_open_def)
  have "upper_ok False (look s) sid 0 0 [SBlockExt ?se] [EMPTY_ADDR] ([] @ xs) [r]"
    by (rule upper_ok_ConsI[OF nd(2)]) (simp_all add: linked_def)
  then have "tree_parts False (look s) sid 0 ?t' ?le [SBlockExt ?se] [r] xs []"
    using t(3) lok by (simp add: tree_parts_def linked_def)
  note fin = tree_ok_empty_leaf[OF this]
  have "ext_refs (SBlockExt ?se) = 1" "ext_refs (LeafExt ?le) = 0" using sbext_ok_refs[OF nd(2)] by (simp_all add: ext_refs_def)
  with op fin show ?thesis by (intro exI[of _ ?t']) simp
qed

lemma count_list_replicate_same: "count_list (replicate n x) x = n"
  by (induction n) simp_all

lemma root_nonempty: "root_at look' sid n addr xs \<Longrightarrow> xs \<noteq> []"
  unfolding root_at_def using subtree_nonempty by blast

text \<open>A tree created from the list that \<open>close\<close> returns.\<close>

lemma reopen_live:
  assumes r: "root_at (look s) sid n addr xs" and room: "room k s" and srt: "sorted (map fst xs)"
    and new: "NBTreeExtentsList_new sid (replicate n EMPTY_ADDR @ [addr]) = Some t" and fuel: "67 + n + length xs < fuel"
  shows "\<exists>t'. NBTreeExtentsList_force_init fuel B (t, s) = Some (t', s) \<and> live_tree False (look s) sid n t' xs \<and>
     nt_last t' = fst (last xs) \<and> leaf_count t' = 0 \<and> refs_total (nt_extents t') \<le> 32 \<and> length (nt_extents t') \<le> n + 2"
proof -
  have ne: "xs \<noteq> []" and a: "addr \<noteq> EMPTY_ADDR" using root_nonempty[OF r] r by (auto simp: root_at_def)
  let ?t = "t\<lparr>nt_initialized := True\<rparr>"
  have t: "nt_extents ?t = []" "nt_rescue ?t = replicate n EMPTY_ADDR @ [addr]" "nt_id ?t = sid" "\<not> nt_initialized t"
    using new by (auto simp: NBTreeExtentsList_new_def split: if_splits)
  have "\<exists>t'. NBTreeExtentsList_open fuel B (?t, s) = Some t' \<and> tree_ok False (look s) sid n t' xs \<and> nt_last t' = fst (last xs) \<and>
     nt_initialized t' \<and> leaf_count t' = 0 \<and> refs_total (nt_extents t') \<le> 32 \<and> length (nt_extents t') \<le> n + 2"
  proof (cases n)
    case 0
    with open_single_ok[OF r[unfolded 0] room srt ne t(1) _ t(3), of fuel] t(2) fuel show ?thesis by auto
  next
    case (Suc m)
    with open_root_ok[OF r[unfolded Suc] room srt ne t(1) _ t(3), of fuel] t(2) fuel show ?thesis by fastforce
  qed
  then obtain t' where o: "NBTreeExtentsList_open fuel B (?t, s) = Some t'" "tree_ok False (look s) sid n t' xs"
    "nt_last t' = fst (last xs)" "nt_initialized t'" "leaf_count t' = 0" "refs_total (nt_extents t') \<le> 32"
    "length (nt_extents t') \<le> n + 2" by blast
  have "NBTreeExtentsList_repair_status (replicate n EMPTY_ADDR @ [addr]) = RepairOK"
    using a by (simp add: NBTreeExtentsList_repair_status_def count_list_replicate_same)
  then have "NBTreeExtentsList_force_init fuel B (t, s) = Some (t', s)"
    using o(1) t by (simp add: NBTreeExtentsList_force_init_def NBTreeExtentsList_init_def)
  moreover have "\<forall>x \<in> set xs. fst x \<le> fst (last xs)"
    using srt ne by (cases xs rule: rev_cases) (auto simp: sorted_append)
  ultimately show ?thesis using o srt by (auto simp: live_tree_def)
qed

end

subsection \<open>Close and reopen over the memory resident store\<close>

lemma accepted_append:
  "accepted dup l (xs @ ys) = accepted dup l xs @
     accepted dup (if accepted dup l xs = [] then l else fst (last (accepted dup l xs))) ys"
  by (induction xs arbitrary: l) auto

lemma append_all_init:
  assumes "NBTreeExtentsList_force_init fuel B (t, s) = Some (t', s)" and "nt_initialized t'" and "ops \<noteq> []"
  shows "append_all fuel B dup ops (t, s) = append_all fuel B dup ops (t', s)"
  using assms by (cases ops) (simp_all add: NBTreeExtentsList_append_def)

lemma search_init:
  assumes "NBTreeExtentsList_force_init fuel B (t, s) = Some (t', s)" and "nt_initialized t'"
  shows "NBTreeExtentsList_search fuel B b e (t, s) = NBTreeExtentsList_search fuel B b e (t', s)"
  using assms by (simp add: NBTreeExtentsList_search_def)

lemma memstore_reopen:
  assumes new: "NBTreeExtentsList_new sid [] = Some t0" and acc: "accepted dup 0 ops \<noteq> []"
    and len: "length ops + m \<le> 100000000" and fuel: "200 + length ops \<le> fuel'"
  shows "\<exists>rs t s addrs t' s' t1 t2 n. append_all fuel (MemStoreB hw al) dup ops (t0, MemStore_new) = Some (rs, t, s) \<and>
     NBTreeExtentsList_close (MemStoreB hw al) (t, s) = Some (addrs, t', s') \<and> NBTreeExtentsList_new sid addrs = Some t1 \<and>
     NBTreeExtentsList_force_init fuel' (MemStoreB hw al) (t1, s') = Some (t2, s') \<and> n \<le> 30 \<and>
     live_tree False (ms_look s') sid n t2 (accepted dup 0 ops) \<and> nt_last t2 = fst (last (accepted dup 0 ops)) \<and>
     leaf_count t2 = 0 \<and> ms_room (tree_need m t2) s'"
proof -
  let ?xs = "accepted dup 0 ops" and ?B = "MemStoreB hw al"
  have ne: "ops \<noteq> []" using acc by auto
  from memstore_run[of ops "m + 9000" fuel hw al dup sid] len obtain rs t s where
    r: "append_all fuel ?B dup ops (new_tree sid, MemStore_new) = Some (rs, t, s)"
    "live_tree True (ms_look s) sid 0 t ?xs" "ms_room (tree_need (m + 9000) t) s"
    "nt_extents t \<noteq> [] \<longrightarrow> 0 < nt_write_count t" by auto
  have ok: "tree_ok True (ms_look s) sid 0 t ?xs" "nt_initialized t" "sorted (map fst ?xs)" using r(2) by (simp_all add: live_tree_def)
  have ll: "length ?xs \<le> length ops" by (rule accepted_length)
  have "length ?xs < 2 ^ 27" using ll len by simp
  from tree_height[OF ok(1) this] have h: "length (nt_extents t) \<le> 28" by simp
  have wc: "0 < nt_write_count t" using r(4) ok(1) acc by (auto simp: tree_ok_def tree_parts_def)
  let ?k = "2 * (m div 225) + 32"
  have "(m + 9000) div 225 = m div 225 + 40" by simp
  moreover have "(m + 9000) div 225 \<le> (m + 9000 + leaf_count t) div 225" by (rule div_le_mono) simp
  ultimately have "?k + length (nt_extents t) + 5 + refs_total (nt_extents t) \<le> tree_need (m + 9000) t"
    using h by (simp add: tree_need_def)
  from memstore.room_le[OF r(3) this] memstore.close_ok[OF ok(1) acc _ ok(2) wc, of ?k hw al] h obtain n addr t' s' where
    c: "NBTreeExtentsList_close ?B (t, s) = Some (replicate n EMPTY_ADDR @ [addr], t', s')" "ms_room ?k s'"
    "n \<le> length (nt_extents t) + 1" "root_at (ms_look s') sid n addr ?xs" by auto
  obtain t1 where t1: "NBTreeExtentsList_new sid (replicate n EMPTY_ADDR @ [addr]) = Some t1"
    using c(3) h by (simp add: NBTreeExtentsList_new_def)
  have "67 + n + length ?xs < fuel'" using fuel ll c(3) h by simp
  from memstore.reopen_live[OF c(4,2) ok(3) t1 this, of hw al] obtain t2 where
    o: "NBTreeExtentsList_force_init fuel' ?B (t1, s') = Some (t2, s')" "live_tree False (ms_look s') sid n t2 ?xs"
    "nt_last t2 = fst (last ?xs)" "leaf_count t2 = 0" "refs_total (nt_extents t2) \<le> 32" by blast
  have "ms_room (tree_need m t2) s'" by (rule memstore.room_le[OF c(2)]) (use o(4,5) in \<open>simp add: tree_need_def\<close>)
  moreover have "append_all fuel ?B dup ops (t0, MemStore_new) = Some (rs, t, s)"
    using r(1) append_all_new[OF new ne, of fuel ?B dup MemStore_new] by simp
  moreover have "n \<le> 30" using c(3) h by simp
  ultimately show ?thesis using c(1) t1 o(1-4) by blast
qed

text \<open>C3. A tree survives a restart.  Samples are appended to a new tree over the memory resident
  store, the tree is closed, a tree is created from the addresses that \<open>close\<close> returned, and more
  samples are appended to it.  The reopened tree remembers the last timestamp, so that it accepts and
  refuses exactly what the first one would have; and a search returns exactly the samples accepted
  before and after the restart.  (The forward search over the whole time range is excluded: it fails
  an assertion on the empty leaf of a tree that was just opened.)\<close>

theorem close_reopen:
  assumes "NBTreeExtentsList_new sid [] = Some t0" and "accepted dup 0 ops \<noteq> []" and "length ops + length ops' \<le> 100000000"
    and "200 + length ops \<le> fuel'" and "200 + length ops + length ops' \<le> f" and "\<forall>n \<in> set ns. 0 < n"
    and "b \<noteq> 0 \<or> e \<noteq> FASTSTDB_MAX_TIMESTAMP"
  shows "\<exists>rs t s addrs t' s' t1 rs' t2 s2 op t3 out op'.
     append_all fuel (MemStoreB hw al) dup ops (t0, MemStore_new) = Some (rs, t, s) \<and>
     NBTreeExtentsList_close (MemStoreB hw al) (t, s) = Some (addrs, t', s') \<and> NBTreeExtentsList_new sid addrs = Some t1 \<and>
     append_all fuel' (MemStoreB hw al) dup ops' (t1, s') = Some (rs', t2, s2) \<and>
     NBTreeExtentsList_search fuel' (MemStoreB hw al) b e (t2, s2) = Some (op, t3, s2) \<and>
     read_chunks (RealOp_read f (MemStoreB hw al) s2) ns op = Some (out, op') \<and>
     concat (map snd out) = take (sum_list ns) (range_pick b e (accepted dup 0 (ops @ ops')))"
proof -
  let ?B = "MemStoreB hw al" and ?xs = "accepted dup 0 ops"
  from memstore_reopen[OF assms(1-4), of fuel hw al] obtain rs t s addrs t' s' t1 ti n where
    r: "append_all fuel ?B dup ops (t0, MemStore_new) = Some (rs, t, s)" "NBTreeExtentsList_close ?B (t, s) = Some (addrs, t', s')"
    "NBTreeExtentsList_new sid addrs = Some t1" "NBTreeExtentsList_force_init fuel' ?B (t1, s') = Some (ti, s')" "n \<le> 30"
    "live_tree False (ms_look s') sid n ti ?xs" "nt_last ti = fst (last ?xs)" "ms_room (tree_need (length ops') ti) s'" by blast
  have ini: "nt_initialized ti" using r(6) by (simp add: live_tree_def)
  have ll: "length ?xs \<le> length ops" by (rule accepted_length)
  let ?ys = "accepted dup 0 (ops @ ops')"
  have ys: "?ys = ?xs @ accepted dup (nt_last ti) ops'" using assms(2) r(7) by (simp add: accepted_append)
  have "length ?xs + length ops' < 2 ^ 64" using ll assms(3) by simp
  from memstore.append_all_live[OF r(6) this, of 0 fuel' hw al dup] r(5,8) obtain rs' t2 s2 where
    a: "append_all fuel' ?B dup ops' (ti, s') = Some (rs', t2, s2)" "live_tree False (ms_look s2) sid n t2 ?ys"
    "ms_room (tree_need 0 t2) s2" unfolding ys by auto
  have yl: "length ?ys \<le> length ops + length ops'" using accepted_length[of dup 0 "ops @ ops'"] by simp
  then have "length ?ys < 2 ^ 27" using assms(3) by simp
  then have "length (nt_extents t2) \<le> 27 + n + 1" using tree_height a(2) unfolding live_tree_def by blast
  then have "70 + length (nt_extents t2) + length ?ys < f" using r(5) yl assms(5) by linarith
  from memstore.search_live[OF a(2,3) _ this, of b e fuel' hw al] assms(7) obtain op where
    o: "NBTreeExtentsList_search fuel' ?B b e (t2, s2) = Some (op, t2, s2)" "delivers (RealOp_read f ?B s2) op (range_pick b e ?ys)"
    by (auto simp: FASTSTDB_MAX_TIMESTAMP_def)
  from delivers_chunks[OF o(2) assms(6)] obtain out op' where
    d: "read_chunks (RealOp_read f ?B s2) ns op = Some (out, op')" "concat (map snd out) = take (sum_list ns) (range_pick b e ?ys)" by blast
  show ?thesis
  proof (cases "ops' = []")
    case True
    with a(1) have "t2 = ti" "s2 = s'" by simp_all
    with o(1) search_init[OF r(4) ini] have "NBTreeExtentsList_search fuel' ?B b e (t1, s') = Some (op, t2, s2)" by simp
    with r(1-3) d True \<open>s2 = s'\<close> show ?thesis by simp
  next
    case False
    with append_all_init[OF r(4) ini, of ops' dup] a(1) have "append_all fuel' ?B dup ops' (t1, s') = Some (rs', t2, s2)" by simp
    with r(1-3) o(1) d show ?thesis by blast
  qed
qed

theorem close_reopen_witness:
  "\<exists>t0 rs t s addrs t' s' t1 rs' t2 s2 op t3 out op'. NBTreeExtentsList_new 7 [] = Some t0 \<and>
     append_all 0 (MemStoreB False (\<lambda>_. 0)) False [(5, 1), (9, 2)] (t0, MemStore_new) = Some (rs, t, s) \<and>
     NBTreeExtentsList_close (MemStoreB False (\<lambda>_. 0)) (t, s) = Some (addrs, t', s') \<and> NBTreeExtentsList_new 7 addrs = Some t1 \<and>
     append_all 300 (MemStoreB False (\<lambda>_. 0)) False [(8, 3), (10, 4)] (t1, s') = Some (rs', t2, s2) \<and>
     NBTreeExtentsList_search 300 (MemStoreB False (\<lambda>_. 0)) 1 100 (t2, s2) = Some (op, t3, s2) \<and>
     read_chunks (RealOp_read 300 (MemStoreB False (\<lambda>_. 0)) s2) [2, 2] op = Some (out, op') \<and>
     concat (map snd out) = [(5, 1), (9, 2), (10, 4)]"
proof -
  obtain t0 where t0: "NBTreeExtentsList_new 7 [] = Some t0" by (simp add: NBTreeExtentsList_new_def)
  have acc: "accepted False 0 [(5, 1), (9, 2)] \<noteq> []" by (simp add: late_def)
  have "take (sum_list [2, 2]) (range_pick 1 100 (accepted False 0 ([(5, 1), (9, 2)] @ [(8, 3), (10, 4)]))) = [(5, 1), (9, 2), (10, 4)]"
    by (simp add: pick_def in_range_def late_def)
  with close_reopen[OF t0 acc, of "[(8, 3), (10, 4)]" 300 300 "[2, 2]" 1 100 0 False "\<lambda>_. 0"] t0
  show ?thesis by (simp del: append_all.simps accepted.simps sum_list.Cons append_Cons append_Nil)
qed

end
