(* ===== verification/Containers.thy ===== *)
theory Containers
  imports Bytes
begin

text \<open>
  The containers of the standard library that the program iterates in the order of their keys:
  \<open>std::map\<close> is an association list with strictly increasing keys, \<open>std::set\<close> where only
  membership and size matter is a list without duplicates.
\<close>

subsection \<open>std::map\<close>

fun map_put :: "'k::linorder \<Rightarrow> 'v \<Rightarrow> ('k \<times> 'v) list \<Rightarrow> ('k \<times> 'v) list" where
  "map_put k v [] = [(k, v)]"
| "map_put k v ((k', v') # m) =
     (if k < k' then (k, v) # (k', v') # m
      else if k = k' then (k, v) # m
      else (k', v') # map_put k v m)"

definition map_erase :: "'k \<Rightarrow> ('k \<times> 'v) list \<Rightarrow> ('k \<times> 'v) list" where
  "map_erase k m = filter (\<lambda>(k', v). k' \<noteq> k) m"

text \<open>The offset of the first key that is not less than \<open>k\<close>.\<close>

definition map_lower_bound :: "'k::linorder \<Rightarrow> ('k \<times> 'v) list \<Rightarrow> nat" where
  "map_lower_bound k m = length (takeWhile (\<lambda>(k', v). k' < k) m)"

definition map_wf :: "('k::linorder \<times> 'v) list \<Rightarrow> bool" where
  "map_wf m \<longleftrightarrow> sorted_wrt (<) (map fst m)"

lemma map_wf_Nil [simp]: "map_wf []"
  by (simp add: map_wf_def)

lemma map_wf_Cons [simp]: "map_wf (x # m) \<longleftrightarrow> (\<forall>y \<in> set m. fst x < fst y) \<and> map_wf m"
  by (auto simp: map_wf_def)

lemma keys_map_put: "fst ` set (map_put k v m) = insert k (fst ` set m)"
  by (induction k v m rule: map_put.induct) auto

lemma map_put_wf [simp]: "map_wf m \<Longrightarrow> map_wf (map_put k v m)"
proof (induction k v m rule: map_put.induct)
  case (2 k v k' v' m)
  show ?case
  proof (cases "k' < k")
    case True
    have "\<forall>y \<in> set (map_put k v m). k' < fst y"
    proof
      fix y assume "y \<in> set (map_put k v m)"
      then have "fst y \<in> insert k (fst ` set m)" using keys_map_put[of k v m] by blast
      with True "2.prems" show "k' < fst y" by auto
    qed
    with 2 True show ?thesis by auto
  qed (use 2 in auto)
qed simp

lemma map_of_map_put: "map_wf m \<Longrightarrow> map_of (map_put k v m) = (map_of m)(k \<mapsto> v)"
  by (induction k v m rule: map_put.induct) (auto simp: fun_eq_iff)

lemma map_wf_filter: "map_wf m \<Longrightarrow> map_wf (filter P m)"
  by (induction m) auto

lemma map_erase_wf [simp]: "map_wf m \<Longrightarrow> map_wf (map_erase k m)"
  unfolding map_erase_def by (rule map_wf_filter)

lemma map_of_map_erase: "map_of (map_erase k m) = (map_of m)(k := None)"
  by (induction m) (auto simp: map_erase_def fun_eq_iff)

lemma keys_map_erase: "fst ` set (map_erase k m) = fst ` set m - {k}"
  by (force simp: map_erase_def)

lemma map_wf_distinct: "map_wf m \<Longrightarrow> distinct (map fst m)"
  unfolding map_wf_def using strict_sorted_iff by blast

lemma map_wf_card: "map_wf m \<Longrightarrow> card (fst ` set m) = length m"
  using distinct_card[OF map_wf_distinct, of m] by simp

subsection \<open>std::set\<close>

definition set_erase :: "'a \<Rightarrow> 'a list \<Rightarrow> 'a list" where
  "set_erase x xs = filter (\<lambda>y. y \<noteq> x) xs"

lemma set_set_erase [simp]: "set (set_erase x xs) = set xs - {x}"
  by (auto simp: set_erase_def)

lemma distinct_set_erase [simp]: "distinct xs \<Longrightarrow> distinct (set_erase x xs)"
  by (simp add: set_erase_def)

end
