(* ===== verification/ConsistentHashing.thy ===== *)
theory ConsistentHashing
  imports Containers "HOL-Library.AList"
begin

text \<open>
  \<^verbatim>\<open>common/hash.h\<close>: the hash function \<open>MurmurHash64A\<close> and the ring \<open>ConsistentHash\<close> that maps keys
  to nodes.  Strings are lists of bytes.  The locks are left out: every method takes the lock for
  its whole body.
\<close>

subsection \<open>MurmurHash64A\<close>

definition murmur_m :: u64 where
  "murmur_m = 0xc6a4a7935bd1e995"

definition murmur_block :: "u64 \<Rightarrow> u64 \<Rightarrow> u64" where
  "murmur_block h k =
     (let k = k * murmur_m; k = k XOR drop_bit 47 k; k = k * murmur_m in (h XOR k) * murmur_m)"

text \<open>The switch with its fall-through cases: byte \<open>i\<close> of the rest goes to bit \<open>8 * i\<close>.\<close>

primrec murmur_tail :: "nat \<Rightarrow> u8 list \<Rightarrow> u64 \<Rightarrow> u64" where
  "murmur_tail 0 data2 h = h"
| "murmur_tail (Suc i) data2 h = murmur_tail i data2 (h XOR push_bit (8 * i) (ucast (data2 ! i)))"

definition MurmurHash64A :: "u8 list \<Rightarrow> u64 \<Rightarrow> u64" where
  "MurmurHash64A key seed =
     (let len = length key;
          h = seed XOR (of_nat len * murmur_m);
          h = foldl (\<lambda>h i. murmur_block h (le_val (take 8 (drop (8 * i) key)))) h [0..<len div 8];
          data2 = drop (8 * (len div 8)) key;
          r = len mod 8;
          h = (if r = 0 then h else murmur_tail r data2 h * murmur_m);
          h = h XOR drop_bit 47 h;
          h = h * murmur_m
      in h XOR drop_bit 47 h)"

subsection \<open>ConsistentHash\<close>

type_synonym node = "u8 list"

record consistent_hash =
  ch_hash2ip :: "(u64 \<times> node) list"
  ch_ip2hash :: "(node \<times> u64 list) list"
  ch_disable_set :: "u64 list"
  ch_physical_nodes :: "node list"
  ch_virtual_node_num :: int

definition ConsistentHash_new :: "int \<Rightarrow> consistent_hash" where
  "ConsistentHash_new n =
     \<lparr>ch_hash2ip = [], ch_ip2hash = [], ch_disable_set = [], ch_physical_nodes = [], ch_virtual_node_num = n\<rparr>"

definition ConsistentHash_Remove :: "node \<Rightarrow> consistent_hash \<Rightarrow> consistent_hash" where
  "ConsistentHash_Remove nd c =
     (let c = (case map_of (ch_ip2hash c) nd of
           None \<Rightarrow> c
         | Some hs \<Rightarrow> foldl (\<lambda>c h. c\<lparr>ch_hash2ip := map_erase h (ch_hash2ip c),
                                   ch_disable_set := set_erase h (ch_disable_set c)\<rparr>) c hs)
      in c\<lparr>ch_ip2hash := map_erase nd (ch_ip2hash c), ch_physical_nodes := set_erase nd (ch_physical_nodes c)\<rparr>)"

definition ConsistentHash_MarkEnable :: "node \<Rightarrow> bool \<Rightarrow> consistent_hash \<Rightarrow> consistent_hash" where
  "ConsistentHash_MarkEnable nd enable c =
     (case map_of (ch_ip2hash c) nd of
        None \<Rightarrow> c
      | Some hs \<Rightarrow>
          foldl (\<lambda>c h. c\<lparr>ch_disable_set :=
            (if enable then set_erase h (ch_disable_set c) else List.insert h (ch_disable_set c))\<rparr>) c hs)"

definition ConsistentHash_GetHashs :: "node \<Rightarrow> consistent_hash \<Rightarrow> u64 list" where
  "ConsistentHash_GetHashs nd c = (case map_of (ch_ip2hash c) nd of Some hs \<Rightarrow> hs | None \<Rightarrow> [])"

definition ConsistentHash_GetNode :: "u64 \<Rightarrow> consistent_hash \<Rightarrow> node" where
  "ConsistentHash_GetNode h c = (case map_of (ch_hash2ip c) h of None \<Rightarrow> [] | Some nd \<Rightarrow> nd)"

text \<open>An iterator of the map is an offset; the offset past the last entry cannot be dereferenced, and
  the one of the first entry cannot be decremented.\<close>

definition map_find :: "'k \<Rightarrow> ('k \<times> 'v) list \<Rightarrow> nat" where
  "map_find k m = length (takeWhile (\<lambda>(k', v). k' \<noteq> k) m)"

definition ConsistentHash_GetNeighbour :: "u64 \<Rightarrow> consistent_hash \<Rightarrow> (u64 \<times> u64) option" where
  "ConsistentHash_GetNeighbour h c =
     (let m = ch_hash2ip c; iter = map_find h m in
      do {
        (right, iter) \<leftarrow> (if iter = length m then do { x \<leftarrow> at m 0; Some (fst x, iter) }
                          else do { x \<leftarrow> at m (iter + 1); Some (fst x, iter + 1) });
        let iter = (if iter = 0 then length m else iter);
        if iter = 0 then None
        else do { x \<leftarrow> at m (iter - 1); Some (fst x, right) } })"

text \<open>The two methods \<open>AddNode\<close>: with the hashes of the virtual nodes, and with given ones.\<close>

definition virtual_hash :: "node \<Rightarrow> nat \<Rightarrow> u64" where
  "virtual_hash nd i = MurmurHash64A (nd @ [35] @ to_string i) 0"

definition ConsistentHash_AddNode_hashs :: "node \<Rightarrow> u64 list \<Rightarrow> consistent_hash \<Rightarrow> consistent_hash" where
  "ConsistentHash_AddNode_hashs nd hs c =
     (let c = foldl (\<lambda>c h. c\<lparr>ch_hash2ip := map_put h nd (ch_hash2ip c)\<rparr>) c hs
      in c\<lparr>ch_ip2hash := AList.update nd hs (ch_ip2hash c), ch_physical_nodes := List.insert nd (ch_physical_nodes c)\<rparr>)"

definition ConsistentHash_AddNode :: "node \<Rightarrow> consistent_hash \<Rightarrow> consistent_hash" where
  "ConsistentHash_AddNode nd c =
     ConsistentHash_AddNode_hashs nd (map (virtual_hash nd) [0..<nat (ch_virtual_node_num c)]) c"

text \<open>The loop of \<open>GetKeyNode\<close>, which has no bound of its own.\<close>

partial_function (option) key_node_loop :: "u64 list \<Rightarrow> (u64 \<times> node) list \<Rightarrow> nat \<Rightarrow> node option" where
  "key_node_loop disabled m iter =
     (let iter = (if iter = length m then 0 else iter) in
      do {
        x \<leftarrow> at m iter;
        if fst x \<notin> set disabled then Some (snd x) else key_node_loop disabled m (iter + 1) })"

definition ConsistentHash_GetKeyNode :: "u8 list \<Rightarrow> consistent_hash \<Rightarrow> node option" where
  "ConsistentHash_GetKeyNode key c =
     (if length (ch_hash2ip c) \<le> length (ch_disable_set c) then Some []
      else key_node_loop (ch_disable_set c) (ch_hash2ip c) (map_lower_bound (MurmurHash64A key 0) (ch_hash2ip c)))"

subsection \<open>Reachable rings\<close>

inductive ch_step :: "consistent_hash \<Rightarrow> consistent_hash \<Rightarrow> bool" where
  ch_add: "ch_step c (ConsistentHash_AddNode nd c)"
| ch_add_hashs: "ch_step c (ConsistentHash_AddNode_hashs nd hs c)"
| ch_remove: "ch_step c (ConsistentHash_Remove nd c)"
| ch_mark: "ch_step c (ConsistentHash_MarkEnable nd enable c)"

inductive ch_reachable :: "int \<Rightarrow> consistent_hash \<Rightarrow> bool" for n where
  ch_init: "ch_reachable n (ConsistentHash_new n)"
| ch_next: "ch_reachable n c \<Longrightarrow> ch_step c c' \<Longrightarrow> ch_reachable n c'"

definition ch_ok :: "consistent_hash \<Rightarrow> bool" where
  "ch_ok c \<longleftrightarrow> map_wf (ch_hash2ip c) \<and> distinct (ch_disable_set c)"

lemma ch_ok_add_hashs: "ch_ok c \<Longrightarrow> ch_ok (ConsistentHash_AddNode_hashs nd hs c)"
proof -
  have "ch_ok c \<Longrightarrow> ch_ok (foldl (\<lambda>c h. c\<lparr>ch_hash2ip := map_put h nd (ch_hash2ip c)\<rparr>) c hs)"
    by (induction hs arbitrary: c) (auto simp: ch_ok_def)
  then show "ch_ok c \<Longrightarrow> ?thesis" by (simp add: ConsistentHash_AddNode_hashs_def ch_ok_def Let_def)
qed

lemma ch_ok_remove: "ch_ok c \<Longrightarrow> ch_ok (ConsistentHash_Remove nd c)"
proof -
  have "ch_ok c \<Longrightarrow> ch_ok (foldl (\<lambda>c h. c\<lparr>ch_hash2ip := map_erase h (ch_hash2ip c),
      ch_disable_set := set_erase h (ch_disable_set c)\<rparr>) c hs)" for hs
    by (induction hs arbitrary: c) (auto simp: ch_ok_def)
  then show "ch_ok c \<Longrightarrow> ?thesis" by (simp add: ConsistentHash_Remove_def ch_ok_def Let_def split: option.split)
qed

lemma ch_ok_mark: "ch_ok c \<Longrightarrow> ch_ok (ConsistentHash_MarkEnable nd enable c)"
proof -
  have "ch_ok c \<Longrightarrow> ch_ok (foldl (\<lambda>c h. c\<lparr>ch_disable_set :=
      (if enable then set_erase h (ch_disable_set c) else List.insert h (ch_disable_set c))\<rparr>) c hs)" for hs
    by (induction hs arbitrary: c) (auto simp: ch_ok_def)
  then show "ch_ok c \<Longrightarrow> ?thesis" by (simp add: ConsistentHash_MarkEnable_def split: option.split)
qed

lemma ch_reachable_ok: "ch_reachable n c \<Longrightarrow> ch_ok c"
proof (induction rule: ch_reachable.induct)
  case ch_init
  show ?case by (simp add: ConsistentHash_new_def ch_ok_def)
next
  case (ch_next c c')
  from ch_next.hyps(2) ch_next.IH show ?case
    by cases (simp_all add: ch_ok_add_hashs ch_ok_remove ch_ok_mark ConsistentHash_AddNode_def)
qed

subsection \<open>GetKeyNode\<close>

text \<open>The first enabled entry at or after the hash of the key, going round the ring.\<close>

definition ring_from :: "u64 \<Rightarrow> (u64 \<times> node) list \<Rightarrow> (u64 \<times> node) list" where
  "ring_from h m = filter (\<lambda>x. h \<le> fst x) m @ filter (\<lambda>x. fst x < h) m"

definition ring_node :: "u64 \<Rightarrow> consistent_hash \<Rightarrow> node option" where
  "ring_node h c = map_option snd (find (\<lambda>x. fst x \<notin> set (ch_disable_set c)) (ring_from h (ch_hash2ip c)))"

lemma ring_from_lower_bound:
  assumes "map_wf m"
  shows "ring_from h m = drop (map_lower_bound h m) m @ take (map_lower_bound h m) m"
proof -
  have "takeWhile (\<lambda>x. fst x < h) m = filter (\<lambda>x. fst x < h) m \<and> dropWhile (\<lambda>x. fst x < h) m = filter (\<lambda>x. h \<le> fst x) m"
    using assms
  proof (induction m)
    case (Cons x m)
    show ?case
    proof (cases "fst x < h")
      case True
      with Cons show ?thesis by auto
    next
      case False
      then have "\<forall>y \<in> set m. \<not> fst y < h" using Cons.prems by (auto simp: not_less dest!: bspec)
      then have "filter (\<lambda>x. fst x < h) m = []" "filter (\<lambda>x. h \<le> fst x) m = m"
        by (auto simp: filter_empty_conv filter_id_conv not_less)
      with False show ?thesis by (auto simp: not_less)
    qed
  qed simp
  then show ?thesis
    unfolding ring_from_def map_lower_bound_def case_prod_unfold by (metis takeWhile_eq_take dropWhile_eq_drop)
qed

lemma find_append: "find P (xs @ ys) = (case find P xs of None \<Rightarrow> find P ys | Some x \<Rightarrow> Some x)"
  by (induction xs) auto

lemma key_loop_skip:
  "i < length m \<Longrightarrow> fst (m ! i) \<in> set ds \<Longrightarrow> key_node_loop ds m i = key_node_loop ds m (Suc i)"
  by (subst key_node_loop.simps) simp

lemma key_loop_found:
  "find (\<lambda>x. fst x \<notin> set ds) (drop i m) = Some x \<Longrightarrow> key_node_loop ds m i = Some (snd x)"
proof (induction "length m - i" arbitrary: i)
  case (Suc k)
  then have i: "i < length m" by simp
  then have d: "drop i m = m ! i # drop (Suc i) m" by (simp add: Cons_nth_drop_Suc)
  show ?case
  proof (cases "fst (m ! i) \<notin> set ds")
    case True
    with i d Suc.prems show ?thesis by (subst key_node_loop.simps) simp
  next
    case False
    with Suc d i show ?thesis by (simp add: key_loop_skip)
  qed
qed simp

lemma key_loop_wraps:
  "find (\<lambda>x. fst x \<notin> set ds) (drop i m) = None \<Longrightarrow> i \<le> length m \<Longrightarrow>
   key_node_loop ds m i = key_node_loop ds m (length m)"
proof (induction "length m - i" arbitrary: i)
  case (Suc k)
  then have i: "i < length m" by simp
  then have d: "drop i m = m ! i # drop (Suc i) m" by (simp add: Cons_nth_drop_Suc)
  with Suc i show ?case by (auto simp: key_loop_skip split: if_splits)
qed simp

lemma key_loop_start: "key_node_loop ds m (length m) = key_node_loop ds m 0"
  by (subst (1 2) key_node_loop.simps) simp

lemma key_loop_ring:
  assumes ex: "find (\<lambda>x. fst x \<notin> set ds) m \<noteq> None" and i: "i \<le> length m"
  shows "key_node_loop ds m i = map_option snd (find (\<lambda>x. fst x \<notin> set ds) (drop i m @ take i m))"
proof (cases "find (\<lambda>x. fst x \<notin> set ds) (drop i m)")
  case (Some x)
  then show ?thesis by (simp add: find_append key_loop_found)
next
  case None
  have "find (\<lambda>x. fst x \<notin> set ds) (take i m @ drop i m) = find (\<lambda>x. fst x \<notin> set ds) (take i m)"
    by (simp add: find_append None del: append_take_drop_id split: option.split)
  then have t: "find (\<lambda>x. fst x \<notin> set ds) m = find (\<lambda>x. fst x \<notin> set ds) (take i m)" by simp
  then obtain x where x: "find (\<lambda>x. fst x \<notin> set ds) m = Some x" using ex by auto
  have "key_node_loop ds m i = key_node_loop ds m 0"
    using key_loop_wraps[OF None i] key_loop_start by simp
  also have "\<dots> = Some (snd x)" using key_loop_found[of ds 0 m x] x by simp
  finally show ?thesis using x t None by (simp add: find_append)
qed

lemma map_lower_bound_le: "map_lower_bound k m \<le> length m"
  by (simp add: map_lower_bound_def length_takeWhile_le)

text \<open>Fewer disabled hashes than entries leave an entry enabled.\<close>

lemma ring_enabled:
  assumes "ch_ok c" and "length (ch_disable_set c) < length (ch_hash2ip c)"
  shows "find (\<lambda>x. fst x \<notin> set (ch_disable_set c)) (ch_hash2ip c) \<noteq> None"
proof
  assume "find (\<lambda>x. fst x \<notin> set (ch_disable_set c)) (ch_hash2ip c) = None"
  then have "fst ` set (ch_hash2ip c) \<subseteq> set (ch_disable_set c)" by (auto simp: find_None_iff)
  then have "card (fst ` set (ch_hash2ip c)) \<le> card (set (ch_disable_set c))" by (simp add: card_mono)
  with assms show False by (simp add: ch_ok_def map_wf_card distinct_card)
qed

lemma GetKeyNode_ring:
  assumes "ch_ok c"
  shows "ConsistentHash_GetKeyNode key c =
    (if length (ch_hash2ip c) \<le> length (ch_disable_set c) then Some [] else ring_node (MurmurHash64A key 0) c)"
proof (cases "length (ch_hash2ip c) \<le> length (ch_disable_set c)")
  case False
  then have "find (\<lambda>x. fst x \<notin> set (ch_disable_set c)) (ch_hash2ip c) \<noteq> None"
    using ring_enabled[OF assms] by simp
  from key_loop_ring[OF this map_lower_bound_le] False assms show ?thesis
    by (simp add: ConsistentHash_GetKeyNode_def ring_node_def ring_from_lower_bound ch_ok_def)
qed (simp add: ConsistentHash_GetKeyNode_def)

text \<open>Going round the ring from \<open>h\<close> visits the entries by their distance from \<open>h\<close>, which is the
  difference modulo \<open>2 ^ 64\<close>.\<close>

lemma clockwise: "unat ((a :: u64) - h) = (if h \<le> a then unat a - unat h else unat a + 2 ^ 64 - unat h)"
  by (simp add: unat_sub_if_size word_le_nat_alt word_size)

lemma clockwise_mono: "a < b \<Longrightarrow> (h \<le> a \<longleftrightarrow> h \<le> b) \<Longrightarrow> (a :: u64) - h \<le> b - h"
  by (simp add: word_le_nat_alt[of "a - h"] clockwise word_less_nat_alt diff_le_mono)

lemma clockwise_wrap: "h \<le> a \<Longrightarrow> b < h \<Longrightarrow> (a :: u64) - h \<le> b - h"
proof -
  have "unat a < 2 ^ 64" using unsigned_less[of a] by simp
  then have "unat a - unat h \<le> unat b + 2 ^ 64 - unat h" by (intro diff_le_mono) simp
  then show "h \<le> a \<Longrightarrow> b < h \<Longrightarrow> ?thesis" by (simp add: word_le_nat_alt[of "a - h"] clockwise)
qed

lemma ring_from_sorted:
  assumes "map_wf m"
  shows "sorted_wrt (\<lambda>x y. fst x - h \<le> fst y - h) (ring_from h m)"
proof -
  have m: "sorted_wrt (\<lambda>x y. fst x < fst y) m" using assms by (simp add: map_wf_def sorted_wrt_map)
  have s: "sorted_wrt (\<lambda>x y. fst x - h \<le> fst y - h) (filter P m)"
    if P: "\<And>x y. P x \<Longrightarrow> P y \<Longrightarrow> fst x < fst y \<Longrightarrow> fst x - h \<le> fst y - h" for P
    using m by (induction m) (simp_all add: P)
  have "sorted_wrt (\<lambda>x y. fst x - h \<le> fst y - h) (filter (\<lambda>x. h \<le> fst x) m @ filter (\<lambda>x. fst x < h) m)"
    unfolding sorted_wrt_append by (intro conjI s) (auto intro: clockwise_mono clockwise_wrap)
  then show ?thesis by (simp add: ring_from_def)
qed

lemma find_sorted_least:
  "find P xs = Some x \<Longrightarrow> sorted_wrt R xs \<Longrightarrow> y \<in> set xs \<Longrightarrow> P y \<Longrightarrow> R x y \<or> x = y"
  by (induction xs) (auto split: if_splits)

lemma set_ring_from [simp]: "set (ring_from h m) = set m"
  by (auto simp: ring_from_def)

lemma ring_node_some:
  assumes ok: "ch_ok c" and less: "length (ch_disable_set c) < length (ch_hash2ip c)"
  shows "\<exists>h' nd. ring_node h c = Some nd \<and> (h', nd) \<in> set (ch_hash2ip c) \<and> h' \<notin> set (ch_disable_set c) \<and>
    (\<forall>x \<in> set (ch_hash2ip c). fst x \<notin> set (ch_disable_set c) \<longrightarrow> h' - h \<le> fst x - h)"
proof -
  let ?P = "\<lambda>x. fst x \<notin> set (ch_disable_set c)"
  have "find ?P (ring_from h (ch_hash2ip c)) \<noteq> None"
    using ring_enabled[OF ok less] by (simp add: find_None_iff)
  then obtain x where x: "find ?P (ring_from h (ch_hash2ip c)) = Some x" by auto
  have "x \<in> set (ch_hash2ip c) \<and> ?P x" using x by (auto simp: find_Some_iff dest!: nth_mem)
  moreover have "fst x - h \<le> fst y - h" if "y \<in> set (ch_hash2ip c)" "?P y" for y
    using find_sorted_least[OF x ring_from_sorted] that ok by (fastforce simp: ch_ok_def)
  ultimately show ?thesis using x by (intro exI[of _ "fst x"] exI[of _ "snd x"]) (auto simp: ring_node_def)
qed

subsection \<open>Nodes of the ring\<close>

text \<open>C6. After any sequence of \<open>AddNode\<close>, \<open>Remove\<close> and \<open>MarkEnable\<close> on a new ring, the unbounded loop
  of \<open>GetKeyNode\<close> returns.  When at least as many hashes are disabled as the ring has, the result is the
  empty string; otherwise it is the node of the enabled entry whose hash is reached first when going
  upwards from the hash of the key, wrapping at \<open>2 ^ 64\<close>.\<close>

theorem GetKeyNode_terminates:
  assumes "ch_reachable n c"
  shows "\<exists>nd. ConsistentHash_GetKeyNode key c = Some nd \<and>
    (if length (ch_hash2ip c) \<le> length (ch_disable_set c) then nd = []
     else \<exists>h. (h, nd) \<in> set (ch_hash2ip c) \<and> h \<notin> set (ch_disable_set c) \<and>
       (\<forall>x \<in> set (ch_hash2ip c). fst x \<notin> set (ch_disable_set c) \<longrightarrow>
          h - MurmurHash64A key 0 \<le> fst x - MurmurHash64A key 0))"
proof (cases "length (ch_hash2ip c) \<le> length (ch_disable_set c)")
  case True
  then show ?thesis using GetKeyNode_ring[OF ch_reachable_ok[OF assms]] by simp
next
  case False
  then have "length (ch_disable_set c) < length (ch_hash2ip c)" by simp
  from ring_node_some[OF ch_reachable_ok[OF assms] this, of "MurmurHash64A key 0"] False show ?thesis
    using GetKeyNode_ring[OF ch_reachable_ok[OF assms]] by auto
qed

definition demo_ring :: consistent_hash where
  "demo_ring = ConsistentHash_MarkEnable [98] False
     (ConsistentHash_AddNode_hashs [98] [5, 40] (ConsistentHash_AddNode_hashs [97] [30, 10] (ConsistentHash_new 3)))"

theorem GetKeyNode_terminates_witness:
  "ConsistentHash_GetKeyNode [107, 49] demo_ring = Some [97]"
proof -
  have "ch_reachable 3 demo_ring"
    unfolding demo_ring_def by (intro ch_init ch_next[OF _ ch_add_hashs] ch_next[OF _ ch_mark])
  from GetKeyNode_terminates[OF this, of "[107, 49]"] show ?thesis
    by (auto simp: demo_ring_def ConsistentHash_MarkEnable_def ConsistentHash_AddNode_hashs_def ConsistentHash_new_def)
qed

end
