(* ===== verification/PostingList.thy ===== *)
theory PostingList
  imports Base128 "HOL-Library.AList"
begin

text \<open>
  The compressed postings lists of \<^verbatim>\<open>index/invertedindex.h\<close> and \<^verbatim>\<open>index/invertedindex.cc\<close>: the
  base-128 and delta streams of the namespace \<open>details\<close>, \<open>CompressedPList\<close> with its iterator and set
  operations, \<open>CMSketch\<close> and \<open>InvertedIndex\<close>.  The writer streams hold a pointer to the buffer of their
  list, so their state (the previous value) is part of the list.  A hash table of the program is a
  finite map.
\<close>

subsection \<open>Streams\<close>

function vec_put :: "u8 list \<Rightarrow> u64 \<Rightarrow> u8 list" where
  "vec_put vec value =
     (let p = ucast (value AND 127); value = drop_bit 7 value in
      if value \<noteq> 0 then vec_put (vec @ [p OR 128]) value else vec @ [p])"
  by pat_completeness auto
termination
  by (relation "measure (\<lambda>(vec, value). unat value)") (simp_all add: unat_drop_bit_7_less)

declare vec_put.simps [simp del]

definition vec_get :: "u8 list \<Rightarrow> nat \<Rightarrow> (nat \<times> u64) option" where
  "vec_get data begin =
     (if \<not> begin < length data then None
      else case b128_get_loop data begin 0 0 of
             None \<Rightarrow> None
           | Some None \<Rightarrow> Some (begin, 0)
           | Some (Some (v, p)) \<Rightarrow> Some (p, v))"

record delta_reader =
  dr_data :: "u8 list"
  dr_pos :: nat
  dr_prev :: u64

definition vec_next :: "delta_reader \<Rightarrow> (u64 \<times> delta_reader) option" where
  "vec_next r = do {
     (p, value) \<leftarrow> vec_get (dr_data r) (dr_pos r);
     if p = dr_pos r then None else Some (value, r\<lparr>dr_pos := p\<rparr>) }"

definition DeltaStreamReader_next :: "delta_reader \<Rightarrow> (u64 \<times> delta_reader) option" where
  "DeltaStreamReader_next r = do {
     (delta, r) \<leftarrow> vec_next r;
     let value = dr_prev r + delta;
     Some (value, r\<lparr>dr_prev := value\<rparr>) }"

subsection \<open>The iterator\<close>

record plist_iter =
  pi_card :: nat
  pi_delta :: delta_reader
  pi_pos :: nat
  pi_curr :: u64

definition PListIter_begin :: "u8 list \<Rightarrow> nat \<Rightarrow> plist_iter option" where
  "PListIter_begin vec c =
     (let it = \<lparr>pi_card = c, pi_delta = \<lparr>dr_data = vec, dr_pos = 0, dr_prev = 0\<rparr>, pi_pos = 0, pi_curr = 0\<rparr> in
      if 0 < c then do { (v, d) \<leftarrow> DeltaStreamReader_next (pi_delta it); Some (it\<lparr>pi_delta := d, pi_curr := v\<rparr>) }
      else Some it)"

definition PListIter_end :: "u8 list \<Rightarrow> nat \<Rightarrow> plist_iter" where
  "PListIter_end vec c =
     \<lparr>pi_card = c, pi_delta = \<lparr>dr_data = vec, dr_pos = 0, dr_prev = 0\<rparr>, pi_pos = c, pi_curr = 0\<rparr>"

definition PListIter_deref :: "plist_iter \<Rightarrow> u64" where
  "PListIter_deref it = pi_curr it"

definition PListIter_incr :: "plist_iter \<Rightarrow> plist_iter option" where
  "PListIter_incr it =
     (let it = it\<lparr>pi_pos := pi_pos it + 1\<rparr> in
      if pi_pos it < pi_card it
      then do { (v, d) \<leftarrow> DeltaStreamReader_next (pi_delta it); Some (it\<lparr>pi_delta := d, pi_curr := v\<rparr>) }
      else Some it)"

definition PListIter_neq :: "plist_iter \<Rightarrow> plist_iter \<Rightarrow> bool" where
  "PListIter_neq a b \<longleftrightarrow> pi_pos a \<noteq> pi_pos b"

text \<open>The values from an iterator to the end, in the order a loop or an algorithm of the standard library
  sees them; the loop has no bound of its own.\<close>

partial_function (option) PListIter_walk :: "plist_iter \<Rightarrow> plist_iter \<Rightarrow> u64 list option" where
  "PListIter_walk it e =
     (if PListIter_neq it e
      then do { it' \<leftarrow> PListIter_incr it; xs \<leftarrow> PListIter_walk it' e; Some (PListIter_deref it # xs) }
      else Some [])"

subsection \<open>CompressedPList\<close>

record plist =
  pl_buffer :: "u8 list"
  pl_prev :: u64
  pl_cardinality :: nat
  pl_moved :: bool

definition CompressedPList_new :: plist where
  "CompressedPList_new = \<lparr>pl_buffer = [], pl_prev = 0, pl_cardinality = 0, pl_moved = False\<rparr>"

definition CompressedPList_copy :: "plist \<Rightarrow> plist option" where
  "CompressedPList_copy other =
     (if pl_moved other then None
      else Some \<lparr>pl_buffer = pl_buffer other, pl_prev = 0, pl_cardinality = pl_cardinality other, pl_moved = False\<rparr>)"

text \<open>The move operations return the new list and what is left of the other one.\<close>

definition CompressedPList_move_assign :: "plist \<Rightarrow> plist \<Rightarrow> (plist \<times> plist) option" where
  "CompressedPList_move_assign this other =
     (if pl_moved other then None
      else Some (this\<lparr>pl_buffer := pl_buffer other, pl_prev := pl_prev other, pl_cardinality := pl_cardinality other\<rparr>,
                 other\<lparr>pl_moved := True, pl_buffer := pl_buffer this\<rparr>))"

definition CompressedPList_move :: "plist \<Rightarrow> (plist \<times> plist) option" where
  "CompressedPList_move other =
     (if pl_moved other then None
      else Some (\<lparr>pl_buffer = pl_buffer other, pl_prev = 0, pl_cardinality = pl_cardinality other, pl_moved = False\<rparr>,
                 other\<lparr>pl_moved := True, pl_buffer := []\<rparr>))"

definition DeltaStreamWriter_put :: "u64 \<Rightarrow> plist \<Rightarrow> plist" where
  "DeltaStreamWriter_put value p =
     p\<lparr>pl_buffer := vec_put (pl_buffer p) (value - pl_prev p), pl_prev := value\<rparr>"

definition CompressedPList_add :: "u64 \<Rightarrow> plist \<Rightarrow> plist option" where
  "CompressedPList_add x p =
     (if pl_moved p then None
      else let p = DeltaStreamWriter_put x p in Some (p\<lparr>pl_cardinality := pl_cardinality p + 1\<rparr>))"

definition CompressedPList_push_back :: "u64 \<Rightarrow> plist \<Rightarrow> plist option" where
  "CompressedPList_push_back x p = (if pl_moved p then None else CompressedPList_add x p)"

definition CompressedPList_cardinality :: "plist \<Rightarrow> nat option" where
  "CompressedPList_cardinality p = (if pl_moved p then None else Some (pl_cardinality p))"

definition CompressedPList_begin :: "plist \<Rightarrow> plist_iter option" where
  "CompressedPList_begin p = (if pl_moved p then None else PListIter_begin (pl_buffer p) (pl_cardinality p))"

definition CompressedPList_end :: "plist \<Rightarrow> plist_iter option" where
  "CompressedPList_end p = (if pl_moved p then None else Some (PListIter_end (pl_buffer p) (pl_cardinality p)))"

definition plist_values :: "plist \<Rightarrow> u64 list option" where
  "plist_values p = do { b \<leftarrow> CompressedPList_begin p; e \<leftarrow> CompressedPList_end p; PListIter_walk b e }"

text \<open>\<open>std::back_inserter\<close>.\<close>

primrec push_back_all :: "u64 list \<Rightarrow> plist \<Rightarrow> plist option" where
  "push_back_all [] p = Some p"
| "push_back_all (x # xs) p = do { p \<leftarrow> CompressedPList_push_back x p; push_back_all xs p }"

text \<open>The algorithms \<open>set_intersection\<close>, \<open>set_union\<close> and \<open>set_difference\<close> of the standard library.\<close>

fun set_intersection :: "'a::linorder list \<Rightarrow> 'a list \<Rightarrow> 'a list" where
  "set_intersection (x # xs) (y # ys) =
     (if x < y then set_intersection xs (y # ys)
      else if y < x then set_intersection (x # xs) ys
      else x # set_intersection xs ys)"
| "set_intersection _ _ = []"

fun set_union :: "'a::linorder list \<Rightarrow> 'a list \<Rightarrow> 'a list" where
  "set_union (x # xs) (y # ys) =
     (if x < y then x # set_union xs (y # ys)
      else if y < x then y # set_union (x # xs) ys
      else x # set_union xs ys)"
| "set_union [] ys = ys"
| "set_union xs [] = xs"

fun set_difference :: "'a::linorder list \<Rightarrow> 'a list \<Rightarrow> 'a list" where
  "set_difference (x # xs) (y # ys) =
     (if x < y then x # set_difference xs (y # ys)
      else if y < x then set_difference (x # xs) ys
      else set_difference xs ys)"
| "set_difference [] ys = []"
| "set_difference xs [] = xs"

definition CompressedPList_and :: "plist \<Rightarrow> plist \<Rightarrow> plist option" where
  "CompressedPList_and p other = do {
     xs \<leftarrow> plist_values p; ys \<leftarrow> plist_values other;
     push_back_all (set_intersection xs ys) CompressedPList_new }"

definition CompressedPList_or :: "plist \<Rightarrow> plist \<Rightarrow> plist option" where
  "CompressedPList_or p other = do {
     xs \<leftarrow> plist_values p; ys \<leftarrow> plist_values other;
     push_back_all (set_union xs ys) CompressedPList_new }"

definition CompressedPList_xor :: "plist \<Rightarrow> plist \<Rightarrow> plist option" where
  "CompressedPList_xor p other = do {
     xs \<leftarrow> plist_values p; ys \<leftarrow> plist_values other;
     push_back_all (set_difference xs ys) CompressedPList_new }"

definition CompressedPList_unique :: "plist \<Rightarrow> plist option" where
  "CompressedPList_unique p = do {
     xs \<leftarrow> plist_values p;
     push_back_all (remdups_adj xs) CompressedPList_new }"

subsection \<open>CMSketch\<close>

record cm_sketch =
  cm_table :: "plist list list"
  cm_mask :: u32
  cm_bits :: u32

text \<open>The logarithm of zero has no value of type \<open>u32\<close>.\<close>

definition CMSketch_new :: "u32 \<Rightarrow> cm_sketch option" where
  "CMSketch_new M =
     (let mask = M - 1 in
      if mask = 0 then None
      else if mask AND M \<noteq> 0 then None
      else Some \<lparr>cm_table = replicate 3 (replicate (unat M) CompressedPList_new), cm_mask = mask,
                 cm_bits = of_nat (63 - clzll (ucast mask))\<rparr>)"

definition CMSketch_extracthash :: "cm_sketch \<Rightarrow> u64 \<Rightarrow> nat \<Rightarrow> u32" where
  "CMSketch_extracthash s key i = ucast (drop_bit (i * unat (cm_bits s)) key) AND cm_mask s"

definition cm_add_row :: "u64 \<Rightarrow> u64 \<Rightarrow> cm_sketch \<Rightarrow> nat \<Rightarrow> cm_sketch option" where
  "cm_add_row key v s i = do {
     row \<leftarrow> at (cm_table s) i;
     let h = unat (CMSketch_extracthash s key i);
     p \<leftarrow> at row h;
     p \<leftarrow> CompressedPList_add v p;
     Some (s\<lparr>cm_table := (cm_table s)[i := row[h := p]]\<rparr>) }"

definition CMSketch_add :: "u64 \<Rightarrow> u64 \<Rightarrow> cm_sketch \<Rightarrow> cm_sketch option" where
  "CMSketch_add key v s = do {
     s \<leftarrow> cm_add_row key v s 0; s \<leftarrow> cm_add_row key v s 1; cm_add_row key v s 2 }"

definition CMSketch_extract :: "u64 \<Rightarrow> cm_sketch \<Rightarrow> plist option" where
  "CMSketch_extract key s = do {
     r0 \<leftarrow> at (cm_table s) 0; a \<leftarrow> at r0 (unat (CMSketch_extracthash s key 0));
     r1 \<leftarrow> at (cm_table s) 1; b \<leftarrow> at r1 (unat (CMSketch_extracthash s key 1));
     r2 \<leftarrow> at (cm_table s) 2; c \<leftarrow> at r2 (unat (CMSketch_extracthash s key 2));
     ab \<leftarrow> CompressedPList_and a b;
     CompressedPList_and ab c }"

subsection \<open>InvertedIndex\<close>

type_synonym inverted_index = "(u64 \<times> plist) list"

definition InvertedIndex_new :: inverted_index where
  "InvertedIndex_new = []"

definition InvertedIndex_add :: "u64 \<Rightarrow> u64 \<Rightarrow> inverted_index \<Rightarrow> inverted_index option" where
  "InvertedIndex_add key v t = do {
     val \<leftarrow> CompressedPList_add v (case map_of t key of None \<Rightarrow> CompressedPList_new | Some val \<Rightarrow> val);
     Some (AList.update key val t) }"

definition InvertedIndex_extract :: "u64 \<Rightarrow> inverted_index \<Rightarrow> plist option" where
  "InvertedIndex_extract v t =
     (case map_of t v of None \<Rightarrow> Some CompressedPList_new | Some val \<Rightarrow> CompressedPList_copy val)"

subsection \<open>The values of a list\<close>

primrec delta_bytes :: "u64 \<Rightarrow> u64 list \<Rightarrow> u8 list" where
  "delta_bytes prev [] = []"
| "delta_bytes prev (x # xs) = leb128 (x - prev) @ delta_bytes x xs"

definition plist_view :: "plist \<Rightarrow> u64 list \<Rightarrow> bool" where
  "plist_view p xs \<longleftrightarrow>
     \<not> pl_moved p \<and> pl_cardinality p = length xs \<and> pl_buffer p = delta_bytes 0 xs"

text \<open>A list that can still grow: the writer knows the last value.\<close>

definition plist_ready :: "plist \<Rightarrow> u64 list \<Rightarrow> bool" where
  "plist_ready p xs \<longleftrightarrow> plist_view p xs \<and> pl_prev p = List.last (0 # xs)"

lemma vec_put_leb128: "vec_put vec v = vec @ leb128 v"
proof (induction "unat v" arbitrary: vec v rule: less_induct)
  case less
  show ?case
  proof (cases "drop_bit 7 v = 0")
    case True
    then show ?thesis by (subst vec_put.simps) (simp add: leb128_last Let_def)
  next
    case False
    have "vec_put (vec @ [ucast (v AND 127) OR 128]) (drop_bit 7 v) =
      (vec @ [ucast (v AND 127) OR 128]) @ leb128 (drop_bit 7 v)"
      using less[OF unat_drop_bit_7_less[OF False]] .
    with False show ?thesis by (subst vec_put.simps) (simp add: leb128_more Let_def)
  qed
qed

lemma vec_get_ok: "drop p data = leb128 v @ rest \<Longrightarrow> vec_get data p = Some (p + length (leb128 v), v)"
  using Base128Int_get_ok[of p data v rest 0] by (simp add: vec_get_def Base128Int_get_def)

lemma DeltaStreamReader_next_ok:
  "drop (dr_pos r) (dr_data r) = leb128 (x - dr_prev r) @ rest \<Longrightarrow>
   DeltaStreamReader_next r = Some (x, r\<lparr>dr_pos := dr_pos r + length (leb128 (x - dr_prev r)), dr_prev := x\<rparr>)"
  using leb128_length_pos[of "x - dr_prev r"]
  by (auto simp: DeltaStreamReader_next_def vec_next_def vec_get_ok)

lemma delta_bytes_append: "delta_bytes prev (xs @ ys) = delta_bytes prev xs @ delta_bytes (List.last (prev # xs)) ys"
  by (induction xs arbitrary: prev) auto

lemma walk_ok:
  "drop (dr_pos (pi_delta it)) (dr_data (pi_delta it)) = delta_bytes (pi_curr it) xs \<Longrightarrow>
   dr_prev (pi_delta it) = pi_curr it \<Longrightarrow> pi_card it = pi_pos it + Suc (length xs) \<Longrightarrow> pi_pos e = pi_card it \<Longrightarrow>
   PListIter_walk it e = Some (pi_curr it # xs)"
proof (induction xs arbitrary: it)
  case Nil
  then have "PListIter_incr it = Some (it\<lparr>pi_pos := pi_card it\<rparr>)" by (simp add: PListIter_incr_def)
  moreover have "PListIter_walk (it\<lparr>pi_pos := pi_card it\<rparr>) e = Some []"
    using Nil by (subst PListIter_walk.simps) (simp add: PListIter_neq_def)
  ultimately show ?case
    using Nil by (subst PListIter_walk.simps) (simp add: PListIter_neq_def PListIter_deref_def)
next
  case (Cons x xs)
  let ?d = "(pi_delta it)\<lparr>dr_pos := dr_pos (pi_delta it) + length (leb128 (x - pi_curr it)), dr_prev := x\<rparr>"
  let ?it = "it\<lparr>pi_pos := pi_pos it + 1, pi_delta := ?d, pi_curr := x\<rparr>"
  have d: "drop (dr_pos (pi_delta it)) (dr_data (pi_delta it)) = leb128 (x - dr_prev (pi_delta it)) @ delta_bytes x xs"
    using Cons.prems by simp
  have "PListIter_incr it = Some ?it"
    using DeltaStreamReader_next_ok[OF d] Cons.prems by (simp add: PListIter_incr_def)
  moreover have "drop (dr_pos (pi_delta it) + length (leb128 (x - pi_curr it))) (dr_data (pi_delta it)) = delta_bytes x xs"
    using d Cons.prems(2) by (metis drop_drop append_eq_conv_conj add.commute)
  then have "PListIter_walk ?it e = Some (x # xs)"
    using Cons.IH[of ?it] Cons.prems by simp
  ultimately show ?case
    using Cons.prems by (subst PListIter_walk.simps) (simp add: PListIter_neq_def PListIter_deref_def)
qed

lemma walk_end: "pi_pos it = pi_pos e \<Longrightarrow> PListIter_walk it e = Some []"
  by (subst PListIter_walk.simps) (simp add: PListIter_neq_def)

lemma plist_values_ok: "plist_view p xs \<Longrightarrow> plist_values p = Some xs"
proof (cases xs)
  case Nil
  then show "plist_view p xs \<Longrightarrow> ?thesis"
    by (simp add: plist_values_def plist_view_def CompressedPList_begin_def CompressedPList_end_def
        PListIter_begin_def PListIter_end_def walk_end)
next
  case (Cons x ys)
  assume v: "plist_view p xs"
  let ?r = "\<lparr>dr_data = pl_buffer p, dr_pos = 0, dr_prev = 0\<rparr>"
  have "DeltaStreamReader_next ?r = Some (x, ?r\<lparr>dr_pos := length (leb128 x), dr_prev := x\<rparr>)"
    using DeltaStreamReader_next_ok[of ?r x "delta_bytes x ys"] v Cons by (simp add: plist_view_def)
  then show ?thesis
    using v Cons by (simp add: plist_values_def plist_view_def CompressedPList_begin_def CompressedPList_end_def
        PListIter_begin_def PListIter_end_def walk_ok)
qed

lemma plist_new_ready [simp]: "plist_ready CompressedPList_new []"
  by (simp add: plist_ready_def plist_view_def CompressedPList_new_def)

lemma plist_add_ready:
  "plist_ready p xs \<Longrightarrow> \<exists>p'. CompressedPList_add x p = Some p' \<and> plist_ready p' (xs @ [x])"
  by (simp add: plist_ready_def plist_view_def CompressedPList_add_def DeltaStreamWriter_put_def
      vec_put_leb128 delta_bytes_append)

lemma push_back_all_ready:
  "plist_ready p xs \<Longrightarrow> \<exists>p'. push_back_all ys p = Some p' \<and> plist_ready p' (xs @ ys)"
proof (induction ys arbitrary: p xs)
  case (Cons y ys)
  obtain p' where p': "CompressedPList_add y p = Some p'" "plist_ready p' (xs @ [y])"
    using plist_add_ready[OF Cons.prems] by blast
  have "CompressedPList_push_back y p = Some p'"
    using p' Cons.prems by (simp add: CompressedPList_push_back_def plist_ready_def plist_view_def)
  with Cons.IH[OF p'(2)] show ?case by simp
qed simp

lemma plist_ready_view: "plist_ready p xs \<Longrightarrow> plist_view p xs"
  by (simp add: plist_ready_def)

lemma plist_copy_view: "plist_view p xs \<Longrightarrow> \<exists>p'. CompressedPList_copy p = Some p' \<and> plist_view p' xs"
  by (simp add: CompressedPList_copy_def plist_view_def)

text \<open>A set operation on lists with the values \<open>xs\<close> and \<open>ys\<close>.\<close>

lemma push_new_view: "\<exists>p'. push_back_all ys CompressedPList_new = Some p' \<and> plist_view p' ys"
  using push_back_all_ready[OF plist_new_ready, of ys] by (auto simp: plist_ready_def)

lemma plist_ops_view:
  assumes "plist_view p xs" and "plist_view q ys"
  shows "\<exists>r. CompressedPList_and p q = Some r \<and> plist_view r (set_intersection xs ys)"
    and "\<exists>r. CompressedPList_or p q = Some r \<and> plist_view r (set_union xs ys)"
    and "\<exists>r. CompressedPList_xor p q = Some r \<and> plist_view r (set_difference xs ys)"
    and "\<exists>r. CompressedPList_unique p = Some r \<and> plist_view r (remdups_adj xs)"
  using assms
  by (simp_all add: CompressedPList_and_def CompressedPList_or_def CompressedPList_xor_def CompressedPList_unique_def
      plist_values_ok push_new_view)

subsection \<open>The algorithms on sorted lists\<close>

lemma set_set_intersection: "sorted xs \<Longrightarrow> sorted ys \<Longrightarrow> set (set_intersection xs ys) = set xs \<inter> set ys"
  by (induction xs ys rule: set_intersection.induct) (auto simp: not_less)

lemma set_set_union: "set (set_union xs ys) = set xs \<union> set ys"
  by (induction xs ys rule: set_union.induct) auto

lemma set_set_difference:
  "sorted_wrt (<) xs \<Longrightarrow> sorted ys \<Longrightarrow> set (set_difference xs ys) = set xs - set ys"
proof (induction xs ys rule: set_difference.induct)
  case (1 x xs y ys)
  consider "x < y" | "y < x" | "x = y" by (rule linorder_cases)
  then show ?case
  proof cases
    case 1
    then have "x \<notin> set (y # ys)" using "1.prems" by fastforce
    with 1 "1.IH" "1.prems" show ?thesis by auto
  next
    case 2
    then have "y \<notin> set (x # xs)" using "1.prems" by fastforce
    with 2 "1.IH" "1.prems" show ?thesis by auto
  next
    case 3
    then have "x \<notin> set xs" using "1.prems" by fastforce
    with 3 "1.IH" "1.prems" show ?thesis by auto
  qed
qed auto

lemma sorted_set_intersection: "sorted_wrt R xs \<Longrightarrow> sorted_wrt R (set_intersection xs ys)"
proof (induction xs ys rule: set_intersection.induct)
  case (1 x xs y ys)
  have "set (set_intersection xs ys) \<subseteq> set xs" for xs ys :: "'a list"
    by (induction xs ys rule: set_intersection.induct) auto
  with 1 show ?case by auto
qed auto

lemma sorted_set_union: "sorted xs \<Longrightarrow> sorted ys \<Longrightarrow> sorted (set_union xs ys)"
  by (induction xs ys rule: set_union.induct) (auto simp: set_set_union not_less)

lemma sorted_set_difference: "sorted_wrt R xs \<Longrightarrow> sorted_wrt R (set_difference xs ys)"
proof (induction xs ys rule: set_difference.induct)
  case (1 x xs y ys)
  have "set (set_difference xs ys) \<subseteq> set xs" for xs ys :: "'a list"
    by (induction xs ys rule: set_difference.induct) auto
  with 1 show ?case by auto
qed auto

subsection \<open>The values under a key\<close>

definition inv_get :: "u64 \<Rightarrow> inverted_index \<Rightarrow> plist" where
  "inv_get k t = (case map_of t k of None \<Rightarrow> CompressedPList_new | Some val \<Rightarrow> val)"

text \<open>Every list of the table can grow; \<open>f k\<close> are the values added under the key \<open>k\<close>.\<close>

definition inv_rep :: "inverted_index \<Rightarrow> (u64 \<Rightarrow> u64 list) \<Rightarrow> bool" where
  "inv_rep t f \<longleftrightarrow> (\<forall>k. plist_ready (inv_get k t) (f k))"

lemma InvertedIndex_new_rep [simp]: "inv_rep InvertedIndex_new (\<lambda>_. [])"
  by (simp add: inv_rep_def InvertedIndex_new_def inv_get_def)

lemma inv_get_update: "inv_get k (AList.update k' p t) = (if k = k' then p else inv_get k t)"
  by (simp add: inv_get_def update_conv')

lemma InvertedIndex_add_rep:
  assumes "inv_rep t f"
  shows "\<exists>t'. InvertedIndex_add k v t = Some t' \<and> inv_rep t' (f(k := f k @ [v]))"
proof -
  have "plist_ready (inv_get k t) (f k)" using assms by (simp add: inv_rep_def)
  from plist_add_ready[OF this, of v] obtain p where p:
    "CompressedPList_add v (inv_get k t) = Some p" "plist_ready p (f k @ [v])" by blast
  have "InvertedIndex_add k v t = Some (AList.update k p t)"
    using p(1) by (simp add: InvertedIndex_add_def inv_get_def)
  moreover have "inv_rep (AList.update k p t) (f(k := f k @ [v]))"
    using assms p(2) by (simp add: inv_rep_def inv_get_update)
  ultimately show ?thesis by blast
qed

lemma InvertedIndex_extract_rep:
  assumes "inv_rep t f"
  shows "\<exists>p. InvertedIndex_extract k t = Some p \<and> plist_view p (f k)"
proof -
  have "plist_view (inv_get k t) (f k)" using assms by (simp add: inv_rep_def plist_ready_view)
  from plist_copy_view[OF this] show ?thesis
    by (cases "map_of t k") (simp_all add: InvertedIndex_extract_def inv_get_def CompressedPList_copy_def CompressedPList_new_def)
qed

end
