(* ===== verification/StringPool.thy ===== *)
theory StringPool
  imports Bytes
begin

text \<open>
  \<^verbatim>\<open>index/stringpool.h\<close> and \<^verbatim>\<open>index/stringpool.cc\<close>: the pools that own the names of the series, and
  the hash and the equality of pooled strings.  A bin reserves its whole capacity when it is created
  and the deque never moves a bin, so a pointer into a bin keeps pointing to the same characters; a
  pooled string (a pointer and a length) is therefore the list of its characters, and the null string
  the empty list.  The mutexes are left out: every method holds one for its whole body.
\<close>

type_synonym str = "u8 list"

definition LIMITS_MAX_SNAME :: nat where
  "LIMITS_MAX_SNAME = 0x1000"

definition MAX_BIN_SIZE :: nat where
  "MAX_BIN_SIZE = LIMITS_MAX_SNAME * 0x1000"

lemma MAX_BIN_SIZE_eq: "MAX_BIN_SIZE = 16777216"
  by (simp add: MAX_BIN_SIZE_def LIMITS_MAX_SNAME_def)

record string_pool =
  sp_pool :: "u8 list list"
  sp_counter :: nat

definition StringPool_new :: string_pool where
  "StringPool_new = \<lparr>sp_pool = [], sp_counter = 0\<rparr>"

definition add_bin :: "string_pool \<Rightarrow> string_pool" where
  "add_bin p = p\<lparr>sp_pool := sp_pool p @ [[]]\<rparr>"

definition push_string :: "str \<Rightarrow> string_pool \<Rightarrow> string_pool" where
  "push_string s p =
     p\<lparr>sp_pool := butlast (sp_pool p) @ [List.last (sp_pool p) @ s @ [0]], sp_counter := sp_counter p + 1\<rparr>"

subsection \<open>LegacyStringPool\<close>

definition LegacyStringPool_add :: "str \<Rightarrow> string_pool \<Rightarrow> str \<times> string_pool" where
  "LegacyStringPool_add s p =
     (let p = (if sp_pool p = [] then add_bin p else p) in
      if s = [] then ([], p)
      else let p = (if length (List.last (sp_pool p)) + (length s + 1) > MAX_BIN_SIZE then add_bin p else p)
           in (s, push_string s p))"

definition LegacyStringPool_size :: "string_pool \<Rightarrow> nat" where
  "LegacyStringPool_size p = sp_counter p"

text \<open>The regular expression is a parameter: it gives the ranges it matches in a buffer, in the order of
  the iterator.  The character after a match is read without a test of the bound.\<close>

type_synonym regex = "u8 list \<Rightarrow> (nat \<times> nat) list"

fun regex_results :: "u8 list \<Rightarrow> (nat \<times> nat) list \<Rightarrow> str list option" where
  "regex_results buf [] = Some []"
| "regex_results buf ((b, e) # ms) = do {
     c \<leftarrow> at buf e;
     rs \<leftarrow> regex_results buf ms;
     Some (if c = 0 then take (e - b) (drop b buf) # rs else rs) }"

fun regex_buffers :: "regex \<Rightarrow> nat \<Rightarrow> nat \<Rightarrow> u8 list list \<Rightarrow> str list option" where
  "regex_buffers rx buffers_skip first_row_skip [] = Some []"
| "regex_buffers rx buffers_skip first_row_skip (buf # bufs) =
     (if buffers_skip = 0
      then do {
        rs \<leftarrow> (let region = drop first_row_skip buf in regex_results region (rx region));
        rest \<leftarrow> regex_buffers rx 0 0 bufs;
        Some (rs @ rest) }
      else regex_buffers rx (buffers_skip - 1) first_row_skip bufs)"

record pool_offset =
  po_buffer_offset :: nat
  po_offset :: nat

definition LegacyStringPool_regex_match ::
  "regex \<Rightarrow> pool_offset \<Rightarrow> string_pool \<Rightarrow> (str list \<times> pool_offset \<times> nat) option" where
  "LegacyStringPool_regex_match rx off p = do {
     rs \<leftarrow> regex_buffers rx (po_buffer_offset off) (po_offset off) (sp_pool p);
     Some (rs,
       (if sp_pool p = [] then \<lparr>po_buffer_offset = 0, po_offset = 0\<rparr>
        else \<lparr>po_buffer_offset = length (sp_pool p) - 1, po_offset = length (List.last (sp_pool p))\<rparr>),
       LegacyStringPool_size p) }"

subsection \<open>StringPool\<close>

definition StringPool_add :: "str \<Rightarrow> string_pool \<Rightarrow> (u64 \<times> string_pool) option" where
  "StringPool_add s p =
     (if s = [] then None
      else let p = (if sp_pool p = [] then add_bin p else p);
               p = (if length (List.last (sp_pool p)) + (length s + 1) > MAX_BIN_SIZE then add_bin p else p);
               bin_index = (of_nat (length (sp_pool p)) :: u32);
               offset = (of_nat (length (List.last (sp_pool p))) :: u32)
           in Some (ucast bin_index * of_nat MAX_BIN_SIZE + ucast offset, push_string s p))"

text \<open>\<open>strlen\<close> must find a zero in the bin.\<close>

definition c_str :: "u8 list \<Rightarrow> str option" where
  "c_str bs = (if 0 \<in> set bs then Some (takeWhile (\<lambda>c. c \<noteq> 0) bs) else None)"

definition StringPool_str :: "u64 \<Rightarrow> string_pool \<Rightarrow> str option" where
  "StringPool_str bits p =
     (let ix = unat (bits div of_nat MAX_BIN_SIZE); offset = unat (bits mod of_nat MAX_BIN_SIZE) in
      if ix = 0 then None
      else if ix \<le> length (sp_pool p) \<and> offset < length (sp_pool p ! (ix - 1))
        then c_str (drop offset (sp_pool p ! (ix - 1)))
      else Some [])"

definition StringPool_size :: "string_pool \<Rightarrow> nat" where
  "StringPool_size p = sp_counter p"

definition StringPool_mem_used :: "string_pool \<Rightarrow> nat" where
  "StringPool_mem_used p = sum_list (map length (sp_pool p))"

subsection \<open>StringTools\<close>

text \<open>\<open>char\<close> is signed: a character from 128 on adds its sign extension.\<close>

definition StringTools_hash :: "str \<Rightarrow> u64" where
  "StringTools_hash s = foldl (\<lambda>h c. (push_bit 5 h + h) + scast c) 5381 s"

definition StringTools_equal :: "str \<Rightarrow> str \<Rightarrow> bool" where
  "StringTools_equal lhs rhs \<longleftrightarrow> length lhs = length rhs \<and> list_all2 (=) lhs rhs"

lemma StringTools_equal_eq: "StringTools_equal lhs rhs \<longleftrightarrow> lhs = rhs"
  by (auto simp: StringTools_equal_def list.rel_eq)

subsection \<open>What the pool holds\<close>

text \<open>The names that can be stored: not empty, without a zero character, and not longer than a bin.\<close>

definition pool_string :: "str \<Rightarrow> bool" where
  "pool_string s \<longleftrightarrow> s \<noteq> [] \<and> 0 \<notin> set s \<and> length s < MAX_BIN_SIZE"

definition pool_ok :: "string_pool \<Rightarrow> bool" where
  "pool_ok p \<longleftrightarrow> (\<forall>b \<in> set (sp_pool p). length b \<le> MAX_BIN_SIZE)"

text \<open>The address the next string would get if it fitted into the last bin.\<close>

definition pool_next :: "string_pool \<Rightarrow> nat" where
  "pool_next p = (if sp_pool p = [] then 0 else length (sp_pool p) * MAX_BIN_SIZE + length (List.last (sp_pool p)))"

definition pool_holds :: "string_pool \<Rightarrow> u64 \<Rightarrow> str \<Rightarrow> bool" where
  "pool_holds p i s \<longleftrightarrow>
     (\<exists>j off. unat i = Suc j * MAX_BIN_SIZE + off \<and> off + length s < MAX_BIN_SIZE \<and> 0 \<notin> set s \<and>
        j < length (sp_pool p) \<and> (\<exists>a b. sp_pool p ! j = a @ s @ [0] @ b \<and> length a = off))"

lemma c_str_prefix: "0 \<notin> set s \<Longrightarrow> c_str (s @ 0 # b) = Some s"
  by (simp add: c_str_def takeWhile_append)

lemma pool_holds_str:
  assumes "pool_holds p i s"
  shows "StringPool_str i p = Some s"
proof -
  obtain j off a b where i: "unat i = Suc j * MAX_BIN_SIZE + off" and off: "off + length s < MAX_BIN_SIZE"
    and z: "0 \<notin> set s" and j: "j < length (sp_pool p)" and ab: "sp_pool p ! j = a @ s @ [0] @ b" "length a = off"
    using assms unfolding pool_holds_def by blast
  have m: "unat (of_nat MAX_BIN_SIZE :: u64) = MAX_BIN_SIZE" by (simp add: MAX_BIN_SIZE_eq)
  have "unat (i div of_nat MAX_BIN_SIZE) = Suc j"
    using i off by (simp add: unat_div m MAX_BIN_SIZE_eq)
  moreover have "unat (i mod of_nat MAX_BIN_SIZE) = off"
    using i off mod_mult_self3[of "Suc j" MAX_BIN_SIZE off] by (simp add: unat_mod m)
  ultimately show ?thesis
    using ab j z by (simp add: StringPool_str_def Let_def c_str_prefix)
qed

text \<open>Creating a bin and pushing a string keep what the pool holds.\<close>

lemma pool_holds_add_bin: "pool_holds p i s \<Longrightarrow> pool_holds (add_bin p) i s"
  unfolding pool_holds_def by (fastforce simp: add_bin_def nth_append)

lemma pool_holds_push:
  assumes h: "pool_holds p i s"
  shows "pool_holds (push_string s' p) i s"
proof -
  obtain j off a b where j: "unat i = Suc j * MAX_BIN_SIZE + off" "off + length s < MAX_BIN_SIZE" "0 \<notin> set s"
    "j < length (sp_pool p)" "sp_pool p ! j = a @ s @ [0] @ b" "length a = off"
    using h unfolding pool_holds_def by blast
  let ?q = "sp_pool (push_string s' p)"
  have l: "length ?q = length (sp_pool p)" using j(4) by (simp add: push_string_def)
  have "\<exists>b'. ?q ! j = a @ s @ [0] @ b'"
  proof (cases "j = length (sp_pool p) - 1")
    case True
    moreover have "sp_pool p \<noteq> []" using j(4) by auto
    ultimately have "?q ! j = sp_pool p ! j @ s' @ [0]"
      using j(4) last_conv_nth[of "sp_pool p"] by (auto simp: push_string_def nth_append)
    with j(5) show ?thesis by simp
  next
    case False
    then have "j < length (sp_pool p) - 1" using j(4) by linarith
    then have "?q ! j = sp_pool p ! j"
      by (simp add: push_string_def nth_append nth_butlast)
    with j(5) show ?thesis by auto
  qed
  with j l show ?thesis unfolding pool_holds_def by metis
qed

text \<open>One \<open>add\<close>: the string is found under the new id, every id before keeps its string, and the id is
  greater than every id before.\<close>

definition pool_below :: "string_pool \<Rightarrow> u64 \<Rightarrow> bool" where
  "pool_below p i \<longleftrightarrow> unat i < pool_next p"

definition pool_room :: "string_pool \<Rightarrow> bool" where
  "pool_room p \<longleftrightarrow> length (sp_pool p) < 2 ^ 32 - 1"

lemma pool_next_add_bin: "pool_ok p \<Longrightarrow> pool_next p \<le> pool_next (add_bin p)"
  by (cases "sp_pool p" rule: rev_cases) (auto simp: pool_next_def add_bin_def pool_ok_def)

lemma StringPool_add_bin:
  assumes s: "pool_string s" and ok: "pool_ok p" and ne: "sp_pool p \<noteq> []" and l: "length (sp_pool p) < 2 ^ 32"
    and fit: "length (List.last (sp_pool p)) + (length s + 1) \<le> MAX_BIN_SIZE"
  defines "i \<equiv> ucast (of_nat (length (sp_pool p)) :: u32) * of_nat MAX_BIN_SIZE +
      ucast (of_nat (length (List.last (sp_pool p))) :: u32) :: u64"
  shows "unat i = pool_next p" and "pool_holds (push_string s p) i s" and "pool_ok (push_string s p)"
    and "pool_next (push_string s p) = pool_next p + length s + 1"
proof -
  have len: "unat (of_nat (length (sp_pool p)) :: u32) = length (sp_pool p)"
    using l by (simp add: unat_of_nat)
  have off: "unat (of_nat (length (List.last (sp_pool p))) :: u32) = length (List.last (sp_pool p))"
    using fit by (simp add: unat_of_nat MAX_BIN_SIZE_eq)
  have "length (sp_pool p) * 16777216 + length (List.last (sp_pool p)) < 2 ^ 64"
    using l fit by (simp add: MAX_BIN_SIZE_eq)
  then show i: "unat i = pool_next p"
    using ne len off
    by (simp add: i_def pool_next_def MAX_BIN_SIZE_eq unat_word_ariths unat_of_nat unsigned_ucast_eq take_bit_eq_mod)
  obtain bs b where bs: "sp_pool p = bs @ [b]" using ne by (metis rev_exhaust)
  have q: "sp_pool (push_string s p) = bs @ [b @ s @ [0]]" by (simp add: push_string_def bs)
  show "pool_holds (push_string s p) i s"
    unfolding pool_holds_def q
    by (rule exI[of _ "length bs"], rule exI[of _ "length b"], intro conjI exI[of _ b] exI[of _ "[]"])
      (use i s fit in \<open>simp_all add: bs pool_next_def pool_string_def\<close>)
  show "pool_ok (push_string s p)" using ok fit by (auto simp: pool_ok_def q bs)
  show "pool_next (push_string s p) = pool_next p + length s + 1" by (simp add: pool_next_def q bs)
qed

lemma StringPool_add_ok:
  assumes s: "pool_string s" and ok: "pool_ok p" and room: "pool_room p"
  shows "\<exists>i p'. StringPool_add s p = Some (i, p') \<and> pool_ok p' \<and> pool_holds p' i s \<and> i \<noteq> 0 \<and>
    (\<forall>i' s'. pool_holds p i' s' \<longrightarrow> pool_holds p' i' s') \<and>
    pool_next p \<le> unat i \<and> unat i < pool_next p' \<and> length (sp_pool p') \<le> length (sp_pool p) + 1"
proof -
  define p1 where "p1 = (if sp_pool p = [] then add_bin p else p)"
  define p2 where "p2 = (if length (List.last (sp_pool p1)) + (length s + 1) > MAX_BIN_SIZE then add_bin p1 else p1)"
  have bin_ok: "pool_ok (add_bin q)" if "pool_ok q" for q using that by (simp add: pool_ok_def add_bin_def)
  have ok1: "pool_ok p1" "pool_ok p2" using ok bin_ok by (simp_all add: p1_def p2_def)
  have ne: "sp_pool p2 \<noteq> []" by (simp add: p1_def p2_def add_bin_def)
  have len: "length (sp_pool p2) \<le> length (sp_pool p) + 1"
    using s by (simp add: p1_def p2_def add_bin_def pool_string_def)
  have fit: "length (List.last (sp_pool p2)) + (length s + 1) \<le> MAX_BIN_SIZE"
    using s by (simp add: p2_def add_bin_def pool_string_def)
  have next2: "pool_next p \<le> pool_next p2"
    using pool_next_add_bin[OF ok] pool_next_add_bin[OF ok1(1)] unfolding p1_def p2_def by auto
  have keep: "pool_holds p2 i' s'" if "pool_holds p i' s'" for i' s'
    using that by (simp add: p1_def p2_def pool_holds_add_bin)
  define i where "i = (ucast (of_nat (length (sp_pool p2)) :: u32) * of_nat MAX_BIN_SIZE +
      ucast (of_nat (length (List.last (sp_pool p2))) :: u32) :: u64)"
  have l32: "length (sp_pool p2) < 2 ^ 32" using len room by (simp add: pool_room_def)
  note a = StringPool_add_bin[OF s ok1(2) ne l32 fit, folded i_def]
  have "StringPool_add s p = Some (i, push_string s p2)"
    using s unfolding StringPool_add_def Let_def p1_def[symmetric] p2_def[symmetric] i_def by (simp add: pool_string_def)
  moreover have "i \<noteq> 0"
    using a(1) ne by (auto simp: pool_next_def MAX_BIN_SIZE_eq)
  moreover have "length (sp_pool (push_string s p2)) = length (sp_pool p2)"
    using ne by (simp add: push_string_def)
  ultimately show ?thesis using a next2 keep len pool_holds_push by auto
qed

subsection \<open>A sequence of additions\<close>

primrec pool_add_all :: "str list \<Rightarrow> string_pool \<Rightarrow> (u64 list \<times> string_pool) option" where
  "pool_add_all [] p = Some ([], p)"
| "pool_add_all (s # ss) p =
     do { (i, p) \<leftarrow> StringPool_add s p; (ids, p) \<leftarrow> pool_add_all ss p; Some (i # ids, p) }"

lemma pool_add_all_ok:
  "\<forall>s \<in> set ss. pool_string s \<Longrightarrow> pool_ok p \<Longrightarrow> length (sp_pool p) + length ss < 2 ^ 32 \<Longrightarrow>
   \<exists>ids p'. pool_add_all ss p = Some (ids, p') \<and> list_all2 (pool_holds p') ids ss \<and> 0 \<notin> set ids \<and>
     sorted_wrt (<) ids \<and> (\<forall>i \<in> set ids. pool_next p \<le> unat i) \<and> (\<forall>i s. pool_holds p i s \<longrightarrow> pool_holds p' i s)"
proof (induction ss arbitrary: p)
  case (Cons s ss)
  have "pool_string s" "pool_room p" using Cons.prems by (simp_all add: pool_room_def)
  from StringPool_add_ok[OF this(1) Cons.prems(2) this(2)] obtain i p1 where
    a: "StringPool_add s p = Some (i, p1)" "pool_ok p1" "pool_holds p1 i s" "i \<noteq> 0"
    "\<forall>i' s'. pool_holds p i' s' \<longrightarrow> pool_holds p1 i' s'" "pool_next p \<le> unat i" "unat i < pool_next p1"
    "length (sp_pool p1) \<le> length (sp_pool p) + 1" by blast
  have "\<forall>s \<in> set ss. pool_string s" "length (sp_pool p1) + length ss < 2 ^ 32" using Cons.prems a(8) by simp_all
  from Cons.IH[OF this(1) a(2) this(2)] obtain ids p' where
    r: "pool_add_all ss p1 = Some (ids, p')" "list_all2 (pool_holds p') ids ss" "0 \<notin> set ids" "sorted_wrt (<) ids"
    "\<forall>i \<in> set ids. pool_next p1 \<le> unat i" "\<forall>i s. pool_holds p1 i s \<longrightarrow> pool_holds p' i s" by blast
  have "\<forall>j \<in> set ids. i < j \<and> pool_next p \<le> unat j" using r(5) a(6,7) by (auto simp: word_less_nat_alt)
  with a r show ?case by simp
qed simp

text \<open>C40. Round trip of the string pool.  Any sequence of strings that are not empty, have no zero
  character and are shorter than a bin ids added to a new pool, opening new bins where the last one is
  full.  Every call returns; the ids are not zero and increase strictly, and after all the additions
  each id still gives back exactly its string.\<close>

theorem stringpool_roundtrip:
  assumes "\<forall>s \<in> set ss. s \<noteq> [] \<and> 0 \<notin> set s \<and> length s < MAX_BIN_SIZE" and "length ss < 2 ^ 32"
  shows "\<exists>ids p. pool_add_all ss StringPool_new = Some (ids, p) \<and> 0 \<notin> set ids \<and> sorted_wrt (<) ids \<and>
     map (\<lambda>i. StringPool_str i p) ids = map Some ss"
proof -
  have "\<forall>s \<in> set ss. pool_string s" "pool_ok StringPool_new" "length (sp_pool StringPool_new) + length ss < 2 ^ 32"
    using assms by (simp_all add: pool_string_def pool_ok_def StringPool_new_def)
  from pool_add_all_ok[OF this] obtain ids p where
    r: "pool_add_all ss StringPool_new = Some (ids, p)" "list_all2 (pool_holds p) ids ss" "0 \<notin> set ids" "sorted_wrt (<) ids"
    by blast
  have "list_all2 (\<lambda>i s. StringPool_str i p = Some s) ids ss" using r(2) by (rule list_all2_mono) (rule pool_holds_str)
  then have "map (\<lambda>i. StringPool_str i p) ids = map Some ss" by (induction rule: list_all2_induct) simp_all
  with r show ?thesis by blast
qed

theorem stringpool_roundtrip_witness:
  "\<exists>i j p. pool_add_all [[99, 112, 117], [109]] StringPool_new = Some ([i, j], p) \<and> i < j \<and>
     StringPool_str i p = Some [99, 112, 117] \<and> StringPool_str j p = Some [109]"
proof -
  have "\<forall>s \<in> set [[99, 112, 117], [109]]. s \<noteq> [] \<and> (0 :: u8) \<notin> set s \<and> length s < MAX_BIN_SIZE"
    by (simp add: MAX_BIN_SIZE_eq)
  from stringpool_roundtrip[OF this] obtain ids p where
    r: "pool_add_all [[99, 112, 117], [109]] StringPool_new = Some (ids, p)" "sorted_wrt (<) ids"
    "map (\<lambda>i. StringPool_str i p) ids = map Some [[99, 112, 117], [109]]" by auto
  from r(3) obtain i j where "ids = [i, j]" by (auto simp: map_eq_Cons_conv)
  with r show ?thesis by auto
qed

end
