(* ===== verification/SeriesParser.thy ===== *)
theory SeriesParser
  imports StringPool "HOL-Library.List_Lexorder" "HOL-Library.Multiset"
begin

text \<open>
  \<open>SeriesParser\<close> of \<^verbatim>\<open>index/seriesparser.cc\<close>: the canonical form of the name of a series and the
  projection of a name to some of its tags.  A pointer into the input is the list of the characters
  from it to the end of the input, so advancing a pointer is taking a suffix and the difference of two
  pointers is the difference of the lengths.
\<close>

abbreviation (input) ch_space :: u8 where "ch_space \<equiv> 32"
abbreviation (input) ch_tab :: u8 where "ch_tab \<equiv> 9"
abbreviation (input) ch_eq :: u8 where "ch_eq \<equiv> 61"

definition ESC_CHAR :: u8 where
  "ESC_CHAR = 92"

definition LIMITS_MAX_TAGS :: nat where
  "LIMITS_MAX_TAGS = 32"

fun skip_space :: "str \<Rightarrow> str" where
  "skip_space [] = []"
| "skip_space (c # s) = (if c = ch_space \<or> c = ch_tab then skip_space s else c # s)"

definition get_tag_name :: "str \<Rightarrow> str" where
  "get_tag_name tag =
     (let n = length (takeWhile (\<lambda>c. c \<noteq> ch_eq \<and> c \<noteq> ch_space \<and> c \<noteq> ch_tab) tag) in
      if n = length tag \<or> tag ! n \<noteq> ch_eq then [] else take n tag)"

text \<open>\<open>copy_until\<close> returns what it copies and the pointer where it stops.  The pointer \<open>escape_char\<close> is
  compared only with the character before the current one, so it is a truth value: whether the
  character just written is the last escape character.\<close>

fun copy_loop :: "u8 \<Rightarrow> bool \<Rightarrow> u8 \<Rightarrow> str \<Rightarrow> str \<times> str" where
  "copy_loop pattern escape c [] = ([c], [])"
| "copy_loop pattern escape c (d # s) =
     (if d = pattern \<and> \<not> escape then ([c], d # s)
      else case copy_loop pattern (d \<noteq> pattern \<and> d = ESC_CHAR) d s of (out, rest) \<Rightarrow> (c # out, rest))"

fun copy_until :: "u8 \<Rightarrow> str \<Rightarrow> str \<times> str" where
  "copy_until pattern [] = ([], [])"
| "copy_until pattern (c # s) = copy_loop pattern (c = ESC_CHAR) c s"

text \<open>The two loops of \<open>skip_tag\<close>; its result is the error flag and the new pointer.\<close>

fun skip_key :: "bool \<Rightarrow> str \<Rightarrow> str" where
  "skip_key escape [] = []"
| "skip_key escape (c # s) =
     (if c = ch_eq then c # s
      else if c = ch_space \<and> \<not> escape then c # s
      else skip_key (c \<noteq> ch_space \<and> c = ESC_CHAR) s)"

fun skip_value :: "bool \<Rightarrow> str \<Rightarrow> str" where
  "skip_value escape [] = []"
| "skip_value escape (c # s) =
     (if c = ch_space \<and> \<not> escape then c # s else skip_value (c \<noteq> ch_space \<and> c = ESC_CHAR) s)"

definition skip_tag :: "str \<Rightarrow> bool \<times> str" where
  "skip_tag begin =
     (let p = skip_key False begin in
      if length p = length begin \<or> p = [] \<or> hd p \<noteq> ch_eq then (True, [])
      else let c = skip_value False p in (length c = length p, c))"

text \<open>The pointers to the tags; \<open>None\<close> is the error flag.\<close>

primrec scan_tags :: "nat \<Rightarrow> str \<Rightarrow> str list option" where
  "scan_tags 0 it = Some []"
| "scan_tags (Suc n) it =
     (if it = [] then Some []
      else case skip_tag it of (err, it') \<Rightarrow>
        if err then None else map_option ((#) it) (scan_tags n (skip_space it')))"

text \<open>The predicate of the sort compares signed characters up to an equals sign, between the two
  pointers and between the later one and the end.\<close>

fun pred_loop :: "str \<Rightarrow> str \<Rightarrow> bool" where
  "pred_loop (a # lhs) (b # rhs) =
     (if a = ch_eq \<or> b = ch_eq then a = ch_eq \<and> b \<noteq> ch_eq
      else if sint a < sint b then True
      else if sint b < sint a then False
      else pred_loop lhs rhs)"
| "pred_loop lhs rhs = (lhs \<noteq> [])"

definition sort_pred :: "str \<Rightarrow> str \<Rightarrow> bool" where
  "sort_pred lhs rhs =
     (if length rhs < length lhs
      then pred_loop (take (length lhs - length rhs) lhs) rhs
      else pred_loop lhs (take (length rhs - length lhs) rhs))"

text \<open>\<open>std::sort\<close> with this predicate, which holds of an element and itself, is only determined for
  tags with different keys, and the properties assume them; for tags with the same key, whose order
  the source leaves open, the model keeps the order of the name.\<close>

primrec insert_tag :: "('a \<Rightarrow> 'a \<Rightarrow> bool) \<Rightarrow> 'a \<Rightarrow> 'a list \<Rightarrow> 'a list" where
  "insert_tag lt x [] = [x]"
| "insert_tag lt x (y # ys) = (if lt x y then x # y # ys else y # insert_tag lt x ys)"

definition sort_tags :: "('a \<Rightarrow> 'a \<Rightarrow> bool) \<Rightarrow> 'a list \<Rightarrow> 'a list" where
  "sort_tags lt xs = foldl (\<lambda>acc x. insert_tag lt x acc) [] xs"

text \<open>The length is an \<open>int\<close>.  The result is an error code, or the characters written to the output
  buffer and the offset of the key string in it; the key string ends where the output ends.  The
  character after the blank at that offset is the first one of a tag, so the last \<open>skip_space\<close> does not
  leave the output.\<close>

definition to_canonical_form :: "str \<Rightarrow> nat \<Rightarrow> status + (str \<times> nat)" where
  "to_canonical_form s out_size =
     (let series_name_len = sint (of_nat (length s) :: 32 word) in
      if int LIMITS_MAX_SNAME < series_name_len then Inl kBadData
      else if int out_size < series_name_len then Inl kBadArg
      else case copy_until ch_space (skip_space s) of (out, it) \<Rightarrow>
        let it = skip_space it in
        if it = [] then Inl kBadData
        else case scan_tags LIMITS_MAX_TAGS it of
               None \<Rightarrow> Inl kBadData
             | Some tags \<Rightarrow>
                 if tags = [] then Inl kBadData
                 else let keystr_begin = length out;
                          out = foldl (\<lambda>out tag. out @ [ch_space] @ fst (copy_until ch_space tag)) out
                                  (sort_tags sort_pred tags);
                          keystr = skip_space (drop keystr_begin out)
                      in Inr (out, length out - length keystr))"

subsection \<open>filter_tags\<close>

text \<open>The tags of the input that are in the set, or that are not when \<open>invert\<close> is set; at most
  \<open>LIMITS_MAX_TAGS\<close> of them are copied.\<close>

function filter_loop :: "str list \<Rightarrow> bool \<Rightarrow> nat \<Rightarrow> str \<Rightarrow> str \<Rightarrow> (str \<times> nat) option" where
  "filter_loop tags invert ix_tag out it =
     (if it = [] \<or> LIMITS_MAX_TAGS \<le> ix_tag then Some (out, ix_tag)
      else case skip_tag it of (err, it') \<Rightarrow>
        if err then None
        else let last_tag = take (length it - length it') it;
                 ntags = get_tag_name last_tag \<in> set tags
             in if (\<not> invert \<and> ntags) \<or> (invert \<and> \<not> ntags)
                then filter_loop tags invert (ix_tag + 1) (out @ [ch_space] @ last_tag) (skip_space it')
                else filter_loop tags invert ix_tag out (skip_space it'))"
  by pat_completeness auto

lemma length_skip_space: "length (skip_space s) \<le> length s"
  by (induction s) auto

lemma length_skip_key: "length (skip_key e s) \<le> length s"
  by (induction e s rule: skip_key.induct) auto

lemma length_skip_value: "length (skip_value e s) \<le> length s"
  by (induction e s rule: skip_value.induct) auto

lemma skip_tag_shorter: "skip_tag s = (False, s') \<Longrightarrow> length s' < length s"
  using length_skip_key[of False s] length_skip_value[of False "skip_key False s"]
  by (auto simp: skip_tag_def Let_def split: if_splits)

termination filter_loop
proof (relation "measure (\<lambda>(tags, invert, ix, out, it). length it)")
  have less: "length (skip_space it') < length it" if "(err, it') = skip_tag it" "\<not> err" for err it it'
    using that skip_tag_shorter[of it it'] length_skip_space[of it'] by (cases err) auto
  show "((tags, invert, ix_tag + 1, out @ [ch_space] @ last_tag, skip_space it'), (tags, invert, ix_tag, out, it))
      \<in> measure (\<lambda>(tags, invert, ix, out, it). length it)"
    if "\<not> (it = [] \<or> LIMITS_MAX_TAGS \<le> ix_tag)" "(err, it') = skip_tag it" "\<not> err"
    for tags :: "str list" and invert ix_tag out it err it' last_tag ntags
    using less[OF that(2,3)] by simp
  show "((tags, invert, ix_tag, out, skip_space it'), (tags, invert, ix_tag, out, it))
      \<in> measure (\<lambda>(tags, invert, ix, out, it). length it)"
    if "\<not> (it = [] \<or> LIMITS_MAX_TAGS \<le> ix_tag)" "(err, it') = skip_tag it" "\<not> err"
    for tags :: "str list" and invert ix_tag out it err it' last_tag ntags
    using less[OF that(2,3)] by simp
qed simp

declare filter_loop.simps [simp del]

definition filter_tags :: "str \<Rightarrow> str list \<Rightarrow> bool \<Rightarrow> status + str" where
  "filter_tags input tags invert =
     (case copy_until ch_space (skip_space input) of (out, it) \<Rightarrow>
        let it = skip_space it in
        if it = [] then Inl kBadData
        else case filter_loop tags invert 0 out it of
               None \<Rightarrow> Inl kBadData
             | Some (out, ix_tag) \<Rightarrow> if ix_tag = 0 then Inl kBadData else Inr out)"

subsection \<open>Plain names\<close>

text \<open>A plain name has a metric and tags without blanks, escapes and zero characters; every tag has a
  key before its first equals sign.\<close>

definition plain_char :: "u8 \<Rightarrow> bool" where
  "plain_char c \<longleftrightarrow> c \<notin> {0, ch_tab, ch_space, ESC_CHAR}"

definition plain_metric :: "str \<Rightarrow> bool" where
  "plain_metric m \<longleftrightarrow> m \<noteq> [] \<and> list_all plain_char m"

definition plain_tag :: "str \<Rightarrow> bool" where
  "plain_tag t \<longleftrightarrow> list_all plain_char t \<and> ch_eq \<in> set t \<and> hd t \<noteq> ch_eq"

definition tag_key :: "str \<Rightarrow> str" where
  "tag_key t = takeWhile (\<lambda>c. c \<noteq> ch_eq) t"

definition plain_tags :: "str list \<Rightarrow> bool" where
  "plain_tags ts \<longleftrightarrow> ts \<noteq> [] \<and> length ts \<le> LIMITS_MAX_TAGS \<and> list_all plain_tag ts \<and> distinct (map tag_key ts)"

text \<open>The tags are ordered by their keys, as signed characters.\<close>

definition key_rank :: "str \<Rightarrow> int list" where
  "key_rank t = map sint (tag_key t)"

definition canonical :: "str \<Rightarrow> str list \<Rightarrow> str" where
  "canonical m ts = m @ concat (map ((#) ch_space) (sort_key key_rank ts))"

text \<open>The ways to write a plain name: blanks in front, and before each tag and at the end a gap that starts
  with a space.\<close>

definition blanks :: "str \<Rightarrow> bool" where
  "blanks b \<longleftrightarrow> list_all (\<lambda>c. c = ch_space \<or> c = ch_tab) b"

definition gap :: "str \<Rightarrow> bool" where
  "gap b \<longleftrightarrow> blanks b \<and> b \<noteq> [] \<and> hd b = ch_space"

definition spell :: "(str \<times> str) list \<Rightarrow> str \<Rightarrow> str" where
  "spell bts post = concat (map (\<lambda>(b, t). b @ t) bts) @ post"

definition spelled :: "str \<Rightarrow> str list \<Rightarrow> str \<Rightarrow> bool" where
  "spelled m ts s \<longleftrightarrow>
     (\<exists>pre bs post. blanks pre \<and> length bs = length ts \<and> list_all gap bs \<and> (post = [] \<or> gap post) \<and>
        s = pre @ m @ spell (zip bs ts) post)"

lemma spell_simps [simp]: "spell [] post = post" "spell ((b, t) # bts) post = b @ t @ spell bts post"
  by (simp_all add: spell_def)

subsection \<open>Reading a plain name\<close>

definition stops :: "str \<Rightarrow> bool" where
  "stops r \<longleftrightarrow> r = [] \<or> hd r = ch_space"

lemma stops_Nil [simp]: "stops []"
  by (simp add: stops_def)

lemma stops_spell: "list_all (\<lambda>(b, t). gap b) bts \<Longrightarrow> post = [] \<or> gap post \<Longrightarrow> stops (spell bts post)"
  by (cases bts) (auto simp: stops_def gap_def)

lemma skip_space_blanks: "blanks b \<Longrightarrow> skip_space (b @ s) = skip_space s"
  by (induction b) (auto simp: blanks_def)

lemma skip_space_plain: "w \<noteq> [] \<Longrightarrow> list_all plain_char w \<Longrightarrow> skip_space (w @ r) = w @ r"
  by (cases w) (auto simp: plain_char_def)

lemma copy_loop_plain:
  "list_all plain_char (c # w) \<Longrightarrow> stops r \<Longrightarrow> copy_loop ch_space False c (w @ r) = (c # w, r)"
proof (induction w arbitrary: c)
  case Nil
  then show ?case by (cases r) (auto simp: stops_def)
qed (auto simp: plain_char_def)

lemma copy_until_plain:
  "w \<noteq> [] \<Longrightarrow> list_all plain_char w \<Longrightarrow> stops r \<Longrightarrow> copy_until ch_space (w @ r) = (w, r)"
  by (cases w) (auto simp: copy_loop_plain plain_char_def)

lemma skip_key_plain:
  "list_all plain_char k \<Longrightarrow> ch_eq \<notin> set k \<Longrightarrow> skip_key False (k @ ch_eq # r) = ch_eq # r"
  by (induction k) (auto simp: plain_char_def)

lemma skip_value_plain: "list_all plain_char v \<Longrightarrow> stops r \<Longrightarrow> skip_value False (v @ r) = r"
proof (induction v)
  case Nil
  then show ?case by (cases r) (auto simp: stops_def)
qed (auto simp: plain_char_def)

lemma plain_tag_split:
  assumes "plain_tag t"
  obtains v where "t = tag_key t @ ch_eq # v" "tag_key t \<noteq> []" "ch_eq \<notin> set (tag_key t)"
    "list_all plain_char (tag_key t)" "list_all plain_char v"
proof -
  have "ch_eq \<in> set t" using assms by (simp add: plain_tag_def)
  then obtain k v where t: "t = k @ ch_eq # v" "ch_eq \<notin> set k" by (meson split_list_first)
  have k: "tag_key t = k" using t by (simp add: tag_key_def takeWhile_append)
  show thesis
    by (rule that[of v]) (use assms t k in \<open>auto simp: plain_tag_def\<close>)
qed

lemma plain_tag_nonempty: "plain_tag t \<Longrightarrow> t \<noteq> []"
  by (auto simp: plain_tag_def)

lemma skip_tag_plain:
  assumes "plain_tag t" and "stops r"
  shows "skip_tag (t @ r) = (False, r)"
proof -
  obtain v where v: "t = tag_key t @ ch_eq # v" "tag_key t \<noteq> []" "ch_eq \<notin> set (tag_key t)"
    "list_all plain_char (tag_key t)" "list_all plain_char v" by (rule plain_tag_split[OF assms(1)])
  have e: "t @ r = tag_key t @ ch_eq # v @ r" using v(1) by (metis append.assoc append_Cons)
  have "skip_key False (t @ r) = ch_eq # v @ r" unfolding e by (rule skip_key_plain[OF v(4,3)])
  moreover have "skip_value False (ch_eq # v @ r) = r"
    using skip_value_plain[OF v(5) assms(2)] by (simp add: ESC_CHAR_def)
  moreover have "length (v @ r) + 1 < length (t @ r)" unfolding e using v(2) by simp
  ultimately show ?thesis by (simp add: skip_tag_def)
qed

text \<open>The pointers to the tags of a plain name.\<close>

fun suffs :: "(str \<times> str) list \<Rightarrow> str \<Rightarrow> str list" where
  "suffs [] post = []"
| "suffs ((b, t) # bts) post = (t @ spell bts post) # suffs bts post"

definition good_spell :: "(str \<times> str) list \<Rightarrow> str \<Rightarrow> bool" where
  "good_spell bts post \<longleftrightarrow> list_all (\<lambda>(b, t). gap b \<and> plain_tag t) bts \<and> (post = [] \<or> gap post)"

lemma good_spell_Cons [simp]:
  "good_spell ((b, t) # bts) post \<longleftrightarrow> gap b \<and> plain_tag t \<and> good_spell bts post"
  by (auto simp: good_spell_def)

lemma good_spell_stops: "good_spell bts post \<Longrightarrow> stops (spell bts post)"
  by (rule stops_spell) (auto simp: good_spell_def list.pred_set)

lemma skip_space_gap: "post = [] \<or> gap post \<Longrightarrow> skip_space post = []"
  using skip_space_blanks[of post "[]"] by (auto simp: gap_def)

lemma skip_space_spell:
  "good_spell ((b, t) # bts) post \<Longrightarrow> skip_space (spell ((b, t) # bts) post) = t @ spell bts post"
  by (simp add: gap_def skip_space_blanks plain_tag_nonempty skip_space_plain plain_tag_def)

lemma scan_tags_spell:
  "good_spell bts post \<Longrightarrow> length bts \<le> n \<Longrightarrow> scan_tags n (skip_space (spell bts post)) = Some (suffs bts post)"
proof (induction bts arbitrary: n)
  case Nil
  then show ?case by (cases n) (auto simp: good_spell_def skip_space_gap)
next
  case (Cons bt bts)
  obtain b t where bt: "bt = (b, t)" by (cases bt)
  obtain k where n: "n = Suc k" "length bts \<le> k" using Cons.prems(2) by (cases n) auto
  have t: "plain_tag t" "t \<noteq> []" using Cons.prems(1) bt plain_tag_nonempty by auto
  have "skip_tag (t @ spell bts post) = (False, spell bts post)"
    using Cons.prems(1) bt by (simp add: skip_tag_plain good_spell_stops)
  with Cons n bt t show ?case
    using skip_space_spell[of b t bts post] by simp
qed

subsection \<open>Sorting the tags\<close>

lemma pred_loop_keys:
  "ch_eq \<notin> set k \<Longrightarrow> ch_eq \<notin> set l \<Longrightarrow> pred_loop (k @ ch_eq # x) (l @ ch_eq # y) \<longleftrightarrow> map sint k < map sint l"
proof (induction k arbitrary: l)
  case Nil
  then show ?case by (cases l) auto
next
  case (Cons a k)
  then show ?case by (cases l) auto
qed

lemma pred_loop_tags:
  assumes t: "plain_tag t" and u: "plain_tag u"
  shows "pred_loop (t @ x) (u @ y) \<longleftrightarrow> key_rank t < key_rank u"
proof -
  obtain v where v: "t = tag_key t @ ch_eq # v" "ch_eq \<notin> set (tag_key t)" by (rule plain_tag_split[OF t])
  obtain w where w: "u = tag_key u @ ch_eq # w" "ch_eq \<notin> set (tag_key u)" by (rule plain_tag_split[OF u])
  have e: "t @ x = tag_key t @ ch_eq # v @ x" "u @ y = tag_key u @ ch_eq # w @ y"
    using v(1) w(1) by (metis append.assoc append_Cons)+
  show ?thesis unfolding e key_rank_def by (rule pred_loop_keys[OF v(2) w(2)])
qed

lemma sort_pred_tags:
  assumes t: "plain_tag t" and u: "plain_tag u"
    and d: "length t \<le> length (t @ x) - length (u @ y) \<or> length u \<le> length (u @ y) - length (t @ x)"
  shows "sort_pred (t @ x) (u @ y) \<longleftrightarrow> key_rank t < key_rank u"
proof (cases "length (u @ y) < length (t @ x)")
  case True
  then have "length t \<le> length (t @ x) - length (u @ y)"
    using d plain_tag_nonempty[OF u] by auto
  then have "take (length (t @ x) - length (u @ y)) (t @ x) = t @ take (length x - length (u @ y)) x"
    using True by simp
  with True show ?thesis unfolding sort_pred_def by (simp add: pred_loop_tags[OF t u] del: take_append)
next
  case False
  then have "length u \<le> length (u @ y) - length (t @ x)"
    using d plain_tag_nonempty[OF t] by auto
  then have "take (length (u @ y) - length (t @ x)) (u @ y) = u @ take (length y - length (t @ x)) y"
    using False by simp
  with False show ?thesis unfolding sort_pred_def by (simp add: pred_loop_tags[OF t u] del: take_append)
qed

lemma set_insert_tag [simp]: "set (insert_tag lt x ys) = insert x (set ys)"
  by (induction ys) auto

lemma mset_insert_tag [simp]: "mset (insert_tag lt x ys) = add_mset x (mset ys)"
  by (induction ys) auto

lemma sorted_insert_tag:
  "sorted (map f ys) \<Longrightarrow> sorted (map f (insert_tag (\<lambda>a b. f a < f b) x ys))"
  by (induction ys) (auto simp: less_imp_le)

lemma foldl_insert_tag:
  "sorted (map f acc) \<Longrightarrow>
   sorted (map f (foldl (\<lambda>acc x. insert_tag (\<lambda>a b. f a < f b) x acc) acc xs)) \<and>
   mset (foldl (\<lambda>acc x. insert_tag (\<lambda>a b. f a < f b) x acc) acc xs) = mset acc + mset xs"
  by (induction xs arbitrary: acc) (auto simp: sorted_insert_tag)

lemma sort_tags_sort_key: "inj_on f (set xs) \<Longrightarrow> sort_tags (\<lambda>a b. f a < f b) xs = sort_key f xs"
  using foldl_insert_tag[of f "[]" xs] unfolding sort_tags_def
  by (intro sort_key_inj_key_eq[symmetric]) auto

lemma insert_tag_map:
  "\<forall>y \<in> set ys. lt x y \<longleftrightarrow> lt' (f x) (f y) \<Longrightarrow> map f (insert_tag lt x ys) = insert_tag lt' (f x) (map f ys)"
  by (induction ys) auto

lemma foldl_insert_map:
  "distinct (acc @ xs) \<Longrightarrow> \<forall>x \<in> set (acc @ xs). \<forall>y \<in> set (acc @ xs). x \<noteq> y \<longrightarrow> (lt x y \<longleftrightarrow> lt' (f x) (f y)) \<Longrightarrow>
   map f (foldl (\<lambda>acc x. insert_tag lt x acc) acc xs) = foldl (\<lambda>acc x. insert_tag lt' x acc) (map f acc) (map f xs)"
proof (induction xs arbitrary: acc)
  case (Cons x xs)
  have "distinct (insert_tag lt x acc) \<longleftrightarrow> distinct (x # acc)"
    by (rule mset_eq_imp_distinct_iff) simp
  then have "distinct (insert_tag lt x acc @ xs)" using Cons.prems(1) by auto
  moreover have "map f (insert_tag lt x acc) = insert_tag lt' (f x) (map f acc)"
    by (rule insert_tag_map) (use Cons.prems in auto)
  ultimately show ?case using Cons.IH[of "insert_tag lt x acc"] Cons.prems(2) by simp
qed simp

lemma sort_tags_map:
  "distinct xs \<Longrightarrow> \<forall>x \<in> set xs. \<forall>y \<in> set xs. x \<noteq> y \<longrightarrow> (lt x y \<longleftrightarrow> lt' (f x) (f y)) \<Longrightarrow>
   map f (sort_tags lt xs) = sort_tags lt' (map f xs)"
  using foldl_insert_map[of "[]" xs lt lt' f] by (simp add: sort_tags_def)

text \<open>The tag at a pointer.\<close>

definition tag_at :: "str \<Rightarrow> str" where
  "tag_at p = fst (copy_until ch_space p)"

lemma tag_at_plain: "plain_tag t \<Longrightarrow> stops r \<Longrightarrow> tag_at (t @ r) = t"
  by (simp add: tag_at_def copy_until_plain plain_tag_nonempty plain_tag_def)

lemma suffs_tag_at: "good_spell bts post \<Longrightarrow> map tag_at (suffs bts post) = map snd bts"
  by (induction bts) (auto simp: tag_at_plain good_spell_stops)

lemma suffs_length: "p \<in> set (suffs bts post) \<Longrightarrow> length p \<le> length (spell bts post)"
  by (induction bts post rule: suffs.induct) auto

lemma suffs_shape:
  "good_spell bts post \<Longrightarrow> p \<in> set (suffs bts post) \<Longrightarrow> \<exists>t r. p = t @ r \<and> plain_tag t \<and> stops r \<and> tag_at p = t"
  by (induction bts) (auto simp: tag_at_plain good_spell_stops)

lemma suffs_apart:
  "good_spell bts post \<Longrightarrow>
   sorted_wrt (\<lambda>p q. length (tag_at p) + length q \<le> length p \<and> length q < length p) (suffs bts post)"
proof (induction bts)
  case (Cons bt bts)
  obtain b t where bt: "bt = (b, t)" by (cases bt)
  have t: "t \<noteq> []" using Cons.prems bt plain_tag_nonempty by auto
  have "length q \<le> length (spell bts post) \<and> length q < length t + length (spell bts post)"
    if "q \<in> set (suffs bts post)" for q
    using suffs_length[OF that] t by (cases t) auto
  then show ?case
    using Cons bt by (simp add: tag_at_plain good_spell_stops)
qed simp

lemma suffs_sort_pred:
  assumes g: "good_spell bts post" and p: "p \<in> set (suffs bts post)" and q: "q \<in> set (suffs bts post)" and ne: "p \<noteq> q"
  shows "sort_pred p q \<longleftrightarrow> key_rank (tag_at p) < key_rank (tag_at q)"
proof -
  have "length (tag_at p) \<le> length p - length q \<or> length (tag_at q) \<le> length q - length p"
    using suffs_apart[OF g] p q ne unfolding in_set_conv_nth sorted_wrt_iff_nth_less
    by (metis add_le_imp_le_diff linorder_neqE_nat)
  moreover obtain t r where t: "p = t @ r" "plain_tag t" "tag_at p = t" using suffs_shape[OF g p] by blast
  moreover obtain u r' where u: "q = u @ r'" "plain_tag u" "tag_at q = u" using suffs_shape[OF g q] by blast
  ultimately show ?thesis using sort_pred_tags[OF t(2) u(2)] by auto
qed

lemma suffs_distinct: "good_spell bts post \<Longrightarrow> distinct (suffs bts post)"
  using suffs_apart by (fastforce simp: distinct_conv_nth sorted_wrt_iff_nth_less nat_neq_iff)

lemma sort_suffs:
  assumes "good_spell bts post" and "inj_on key_rank (snd ` set bts)"
  shows "map tag_at (sort_tags sort_pred (suffs bts post)) = sort_key key_rank (map snd bts)"
proof -
  have "map tag_at (sort_tags sort_pred (suffs bts post)) =
      sort_tags (\<lambda>a b. key_rank a < key_rank b) (map tag_at (suffs bts post))"
    by (rule sort_tags_map) (use assms suffs_distinct suffs_sort_pred in auto)
  with assms show ?thesis by (simp add: suffs_tag_at sort_tags_sort_key)
qed

subsection \<open>The canonical form\<close>

lemma key_rank_inj: "distinct (map tag_key ts) \<Longrightarrow> inj_on key_rank (set ts)"
  by (auto simp: key_rank_def distinct_map inj_on_def dest!: map_injective intro!: injI signed_word_eqI)

lemma foldl_copy: "foldl (\<lambda>out tag. out @ [ch_space] @ fst (copy_until ch_space tag)) out ps =
  out @ concat (map ((#) ch_space) (map tag_at ps))"
  by (induction ps arbitrary: out) (auto simp: tag_at_def)

lemma good_spell_zip:
  "plain_tags ts \<Longrightarrow> length bs = length ts \<Longrightarrow> list_all gap bs \<Longrightarrow> post = [] \<or> gap post \<Longrightarrow> good_spell (zip bs ts) post"
  by (auto simp: good_spell_def plain_tags_def list.pred_set dest: set_zip_leftD set_zip_rightD)

lemma canonical_length:
  "length (canonical m ts) = length m + length ts + sum_list (map length ts)"
proof -
  have "length (concat (map ((#) ch_space) xs)) = length xs + sum_list (map length xs)" for xs :: "str list"
    by (induction xs) auto
  moreover have "sum_list (map length (sort_key key_rank ts)) = sum_list (map length ts)"
    by (metis mset_map mset_sort sum_mset_sum_list)
  ultimately show ?thesis by (simp add: canonical_def)
qed

lemma spell_length:
  "length bs = length ts \<Longrightarrow> list_all gap bs \<Longrightarrow> length ts + sum_list (map length ts) \<le> length (spell (zip bs ts) post)"
proof (induction bs ts rule: list_induct2)
  case (Cons b bs t ts)
  then have "b \<noteq> []" by (simp add: gap_def)
  with Cons show ?case by (cases b) auto
qed simp

lemma canonical_form:
  assumes m: "plain_metric m" and ts: "plain_tags ts" and s: "spelled m ts s" and len: "length s \<le> LIMITS_MAX_SNAME"
    and out: "length s \<le> out_size"
  shows "to_canonical_form s out_size = Inr (canonical m ts, length m + 1) \<and> length (canonical m ts) \<le> length s"
proof -
  obtain pre bs post where w: "blanks pre" "length bs = length ts" "list_all gap bs" "post = [] \<or> gap post"
    "s = pre @ m @ spell (zip bs ts) post" using s unfolding spelled_def by blast
  have g: "good_spell (zip bs ts) post" using good_spell_zip[OF ts w(2-4)] .
  have sint: "sint (of_nat (length s) :: 32 word) = int (length s)"
    using len by (simp add: LIMITS_MAX_SNAME_def signed_of_nat signed_take_bit_int_eq_self)
  have metric: "copy_until ch_space (skip_space s) = (m, spell (zip bs ts) post)"
    using m w(1,5) g by (simp add: skip_space_blanks plain_metric_def skip_space_plain copy_until_plain good_spell_stops)
  obtain b bs' t ts' where bt: "bs = b # bs'" "ts = t # ts'" using ts w(2) by (cases bs; cases ts) (auto simp: plain_tags_def)
  have it: "skip_space (spell (zip bs ts) post) \<noteq> []"
    using skip_space_spell[of b t "zip bs' ts'" post] g plain_tag_nonempty[of t] bt by simp
  have scan: "scan_tags LIMITS_MAX_TAGS (skip_space (spell (zip bs ts) post)) = Some (suffs (zip bs ts) post)"
    by (rule scan_tags_spell[OF g]) (use ts w(2) in \<open>simp add: plain_tags_def\<close>)
  have sorted: "map tag_at (sort_tags sort_pred (suffs (zip bs ts) post)) = sort_key key_rank ts"
    using sort_suffs[OF g] ts w(2) by (simp add: key_rank_inj plain_tags_def image_set del: set_map flip: set_map)
  obtain x xs where x: "sort_key key_rank ts = x # xs" using bt by (cases "sort_key key_rank ts") (auto dest: arg_cong[of _ _ length])
  have "x \<in> set ts" using x by (metis list.set_intros(1) set_sort)
  then have "x \<noteq> []" "list_all plain_char x" using ts by (auto simp: plain_tags_def list.pred_set plain_tag_def)
  then have key: "skip_space (drop (length m) (canonical m ts)) = drop (length m + 1) (canonical m ts)"
    by (simp add: canonical_def x skip_space_plain)
  have fold: "foldl (\<lambda>out tag. out @ [ch_space] @ fst (copy_until ch_space tag)) m
      (sort_tags sort_pred (suffs (zip bs ts) post)) = canonical m ts"
    unfolding foldl_copy sorted canonical_def ..
  have ne: "suffs (zip bs ts) post \<noteq> []" "length (canonical m ts) - (length (canonical m ts) - (length m + 1)) = length m + 1"
    using canonical_length[of m ts] bt by simp_all
  have "to_canonical_form s out_size = Inr (canonical m ts, length m + 1)"
    unfolding to_canonical_form_def Let_def sint metric prod.case scan option.case fold key length_drop ne(2)
    using len out it ne(1) by simp
  moreover have "length (canonical m ts) \<le> length s"
    using spell_length[OF w(2,3), of post] by (simp add: canonical_length w(5))
  ultimately show ?thesis by blast
qed

lemma canonical_spelled: "spelled m (sort_key key_rank ts) (canonical m ts)"
proof -
  have "concat (map ((#) ch_space) xs) = spell (zip (map (\<lambda>_. [ch_space]) xs) xs) []" for xs :: "str list"
    by (induction xs) auto
  then show ?thesis
    unfolding spelled_def canonical_def
    by (intro exI[of _ "[]"] exI[of _ "map (\<lambda>_. [ch_space]) (sort_key key_rank ts)"])
      (simp add: blanks_def gap_def list.pred_set)
qed

lemma canonical_mset: "distinct (map tag_key ts) \<Longrightarrow> mset ts = mset ts' \<Longrightarrow> canonical m ts = canonical m ts'"
  unfolding canonical_def
  by (metis (no_types, lifting) key_rank_inj sort_key_inj_key_eq mset_sort sorted_sort_key)

lemma plain_tags_mset: "plain_tags ts \<Longrightarrow> mset ts = mset ts' \<Longrightarrow> plain_tags ts'"
proof -
  assume p: "plain_tags ts" and m: "mset ts = mset ts'"
  have "distinct (map tag_key ts) \<longleftrightarrow> distinct (map tag_key ts')"
    by (rule mset_eq_imp_distinct_iff) (simp add: m)
  with p show ?thesis
    using mset_eq_length[OF m] mset_eq_setD[OF m] by (auto simp: plain_tags_def list.pred_set)
qed

text \<open>C9. Two spellings of a name, with other blanks and the tags in another order, have the same canonical
  form: the metric and the tags sorted by their keys, each after one space.  It is not longer than the
  input, so it fits the output buffer, and it is its own canonical form.\<close>

theorem canonical_form_unique:
  assumes "plain_metric m" and "plain_tags ts" and "mset ts = mset ts'"
    and "spelled m ts s" and "length s \<le> LIMITS_MAX_SNAME" and "length s \<le> out_size"
    and "spelled m ts' s'" and "length s' \<le> LIMITS_MAX_SNAME" and "length s' \<le> out_size"
  shows "to_canonical_form s out_size = Inr (canonical m ts, length m + 1) \<and>
    to_canonical_form s' out_size = to_canonical_form s out_size \<and>
    length (canonical m ts) \<le> length s \<and>
    to_canonical_form (canonical m ts) out_size = Inr (canonical m ts, length m + 1)"
proof -
  have d: "distinct (map tag_key ts)" using assms(2) by (simp add: plain_tags_def)
  have a: "to_canonical_form s out_size = Inr (canonical m ts, length m + 1) \<and> length (canonical m ts) \<le> length s"
    by (rule canonical_form[OF assms(1,2,4-6)])
  have "to_canonical_form s' out_size = Inr (canonical m ts', length m + 1) \<and> length (canonical m ts') \<le> length s'"
    by (rule canonical_form[OF assms(1) plain_tags_mset[OF assms(2,3)] assms(7-9)])
  moreover have "canonical m ts = canonical m (sort_key key_rank ts)" by (rule canonical_mset[OF d]) simp
  then have "to_canonical_form (canonical m ts) out_size = Inr (canonical m ts, length m + 1)"
    using canonical_form[OF assms(1) plain_tags_mset[OF assms(2)] canonical_spelled[of m ts], of out_size] a assms(5,6)
    by simp
  ultimately show ?thesis using a canonical_mset[OF d assms(3)] by simp
qed

text \<open>The name \<open>m b=2 a=1\<close> with two blanks, and \<open>m a=1 b=2\<close>.\<close>

theorem canonical_form_unique_witness:
  "to_canonical_form [109, 32, 9, 98, 61, 50, 32, 97, 61, 49] 4096 = Inr (canonical [109] [[98, 61, 50], [97, 61, 49]], 2) \<and>
   to_canonical_form [109, 32, 97, 61, 49, 32, 98, 61, 50, 32] 4096 =
     to_canonical_form [109, 32, 9, 98, 61, 50, 32, 97, 61, 49] 4096"
proof -
  have "plain_metric [109]" "plain_tags [[98, 61, 50], [97, 61, 49]]" by code_simp+
  moreover have "spelled [109] [[98, 61, 50], [97, 61, 49]] [109, 32, 9, 98, 61, 50, 32, 97, 61, 49]"
    unfolding spelled_def
    by (rule exI[of _ "[]"], rule exI[of _ "[[32, 9], [32]]"], rule exI[of _ "[]"]) (simp add: blanks_def gap_def)
  moreover have "spelled [109] [[97, 61, 49], [98, 61, 50]] [109, 32, 97, 61, 49, 32, 98, 61, 50, 32]"
    unfolding spelled_def
    by (rule exI[of _ "[]"], rule exI[of _ "[[32], [32]]"], rule exI[of _ "[32]"]) (simp add: blanks_def gap_def)
  ultimately show ?thesis
    using canonical_form_unique[of "[109]" "[[98, 61, 50], [97, 61, 49]]" "[[97, 61, 49], [98, 61, 50]]"
        "[109, 32, 9, 98, 61, 50, 32, 97, 61, 49]" 4096 "[109, 32, 97, 61, 49, 32, 98, 61, 50, 32]"]
    by (simp add: LIMITS_MAX_SNAME_def add_mset_commute)
qed

end
