(* ===== verification/SeriesIndex.thy ===== *)
theory SeriesIndex
  imports PostingList SeriesParser Containers
begin

text \<open>
  The series index of \<^verbatim>\<open>index/invertedindex.h\<close> and \<^verbatim>\<open>index/invertedindex.cc\<close>: \<open>Index\<close>, which owns the
  canonical names and the postings lists of their metrics and tags, \<open>SeriesNameTopology\<close>, the results
  of a query and the query nodes.  Metric names and tag-value pairs are strings.  A pointer into a name
  is the list of the characters from it to the end of the name; a loop that leaves the name is \<open>None\<close>.
  The order in which a hash table lists its keys is a parameter.
\<close>

subsection \<open>Tokens\<close>

text \<open>These helpers are local to the file; unlike those of the parser they know no escape character.\<close>

definition ix_skip_tag :: "str \<Rightarrow> bool \<times> str" where
  "ix_skip_tag s =
     (let p = dropWhile (\<lambda>c. c \<noteq> ch_eq \<and> c \<noteq> ch_space \<and> c \<noteq> ch_tab) s in
      if p = [] \<or> hd p \<noteq> ch_eq then (True, [])
      else let c = dropWhile (\<lambda>c. c \<noteq> ch_space) p in (length c = length p, c))"

text \<open>A tag that is read without an error moves the pointer.\<close>

lemma ix_skip_tag_shorter: "ix_skip_tag s = (False, s') \<Longrightarrow> length s' < length s"
proof -
  let ?p = "dropWhile (\<lambda>c. c \<noteq> ch_eq \<and> c \<noteq> ch_space \<and> c \<noteq> ch_tab) s"
  assume "ix_skip_tag s = (False, s')"
  then have "s' = dropWhile (\<lambda>c. c \<noteq> ch_space) ?p" "length s' \<noteq> length ?p"
    by (auto simp: ix_skip_tag_def Let_def split: if_splits)
  then show ?thesis
    using length_dropWhile_le[of "\<lambda>c. c \<noteq> ch_space" ?p] length_dropWhile_le[of "\<lambda>c. c \<noteq> ch_eq \<and> c \<noteq> ch_space \<and> c \<noteq> ch_tab" s]
    by simp
qed

lemma ix_skip_tag_step:
  assumes "(err, s') = ix_skip_tag s" and "\<not> err"
  shows "length s' < length s" and "length (skip_space s') < length s"
proof -
  show l: "length s' < length s" using assms ix_skip_tag_shorter[of s s'] by (cases err) auto
  show "length (skip_space s') < length s" using l length_skip_space[of s'] by simp
qed

function write_tags :: "str \<Rightarrow> u64 \<Rightarrow> inverted_index \<Rightarrow> inverted_index option" where
  "write_tags tag_begin i dest =
     (if tag_begin = [] then Some dest
      else let tag_begin = skip_space tag_begin in
           case ix_skip_tag tag_begin of (err, tag_end) \<Rightarrow>
             do { dest \<leftarrow> InvertedIndex_add (StringTools_hash (take (length tag_begin - length tag_end) tag_begin)) i dest;
                  if err then Some dest else write_tags tag_end i dest })"
  by pat_completeness auto
termination
  by (relation "measure (\<lambda>(s, i, d). length s)") (auto intro: less_le_trans[OF ix_skip_tag_step(1) length_skip_space])

declare write_tags.simps [simp del]

definition skip_metric_name :: "str \<Rightarrow> str option" where
  "skip_metric_name s =
     (let p = skip_space s in
      if p = [] then Some []
      else if ch_space \<in> set p then Some (takeWhile (\<lambda>c. c \<noteq> ch_space) p)
      else None)"

definition split_pair :: "str \<Rightarrow> (str \<times> str) option" where
  "split_pair pair =
     (let n = length (takeWhile (\<lambda>c. c \<noteq> ch_eq) pair) in
      if n = length pair then None else Some (take n pair, drop (n + 1) pair))"

subsection \<open>MetricName and TagValuePair\<close>

definition MetricName_check :: "str \<Rightarrow> str \<Rightarrow> bool option" where
  "MetricName_check nm s = do {
     name \<leftarrow> skip_metric_name s;
     Some (if length name = 0 then False else if length name \<noteq> length nm then False else name = nm) }"

function tag_check_loop :: "str \<Rightarrow> str \<Rightarrow> bool" where
  "tag_check_loop val p =
     (if p = [] then False
      else case ix_skip_tag p of (err, tag_end) \<Rightarrow>
        let tag = take (length p - length tag_end) p in
        if length tag = length val \<and> tag = val then True
        else if err then False
        else tag_check_loop val (skip_space tag_end))"
  by pat_completeness auto
termination
  by (relation "measure (\<lambda>(v, s). length s)") (use ix_skip_tag_step in auto)

declare tag_check_loop.simps [simp del]

definition TagValuePair_check :: "str \<Rightarrow> str \<Rightarrow> bool option" where
  "TagValuePair_check val s =
     (let p = skip_space s in
      if p = [] then Some False
      else if ch_space \<notin> set p then None
      else let p = skip_space (dropWhile (\<lambda>c. c \<noteq> ch_space) p) in
           Some (if p = [] then False else tag_check_loop val p))"

subsection \<open>IndexQueryResults\<close>

text \<open>The pool is referred to by a pointer that is null in a result without names.\<close>

record query_results =
  qr_postinglist :: plist
  qr_spool :: "string_pool option"

definition IndexQueryResults_empty :: query_results where
  "IndexQueryResults_empty = \<lparr>qr_postinglist = CompressedPList_new, qr_spool = None\<rparr>"

text \<open>The argument of the constructor has a name, so the postings list is copied and not moved.\<close>

definition IndexQueryResults_new :: "plist \<Rightarrow> string_pool option \<Rightarrow> query_results option" where
  "IndexQueryResults_new p spool = do {
     p \<leftarrow> CompressedPList_copy p; Some \<lparr>qr_postinglist = p, qr_spool = spool\<rparr> }"

definition IndexQueryResults_copy :: "query_results \<Rightarrow> query_results option" where
  "IndexQueryResults_copy r = do {
     p \<leftarrow> CompressedPList_copy (qr_postinglist r); Some (r\<lparr>qr_postinglist := p\<rparr>) }"

definition spool_str :: "string_pool option \<Rightarrow> u64 \<Rightarrow> str option" where
  "spool_str spool i = do { p \<leftarrow> spool; StringPool_str i p }"

text \<open>The loop that looks for a false positive, and the two loops that rewrite the list.\<close>

fun false_positive :: "(str \<Rightarrow> bool option) \<Rightarrow> string_pool option \<Rightarrow> u64 list \<Rightarrow> bool option" where
  "false_positive check spool [] = Some False"
| "false_positive check spool (i # ids) = do {
     s \<leftarrow> spool_str spool i;
     b \<leftarrow> check s;
     if \<not> b then Some True else false_positive check spool ids }"

fun any_check :: "(str \<Rightarrow> bool option) list \<Rightarrow> str \<Rightarrow> bool option" where
  "any_check [] s = Some False"
| "any_check (check # checks) s = do { b \<leftarrow> check s; if b then Some True else any_check checks s }"

fun rewrite_value :: "(str \<Rightarrow> bool option) \<Rightarrow> string_pool option \<Rightarrow> u64 list \<Rightarrow> plist \<Rightarrow> plist option" where
  "rewrite_value check spool [] newplist = Some newplist"
| "rewrite_value check spool (i # ids) newplist = do {
     s \<leftarrow> spool_str spool i;
     b \<leftarrow> check s;
     newplist \<leftarrow> (if b then CompressedPList_add i newplist else Some newplist);
     rewrite_value check spool ids newplist }"

text \<open>The inner loop of the rewrite for several values leaves as soon as a value matches, before the id is
  added.\<close>

fun rewrite_inner :: "(str \<Rightarrow> bool option) list \<Rightarrow> u64 \<Rightarrow> str \<Rightarrow> plist \<Rightarrow> plist option" where
  "rewrite_inner [] i s newplist = Some newplist"
| "rewrite_inner (check # checks) i s newplist = do {
     b \<leftarrow> check s;
     if b then Some newplist
     else let add = False in do {
       newplist \<leftarrow> (if add then CompressedPList_add i newplist else Some newplist);
       rewrite_inner checks i s newplist } }"

fun rewrite_values :: "(str \<Rightarrow> bool option) list \<Rightarrow> string_pool option \<Rightarrow> u64 list \<Rightarrow> plist \<Rightarrow> plist option" where
  "rewrite_values checks spool [] newplist = Some newplist"
| "rewrite_values checks spool (i # ids) newplist = do {
     s \<leftarrow> spool_str spool i;
     newplist \<leftarrow> rewrite_inner checks i s newplist;
     rewrite_values checks spool ids newplist }"

definition IndexQueryResults_filter :: "(str \<Rightarrow> bool option) \<Rightarrow> query_results \<Rightarrow> query_results option" where
  "IndexQueryResults_filter check r = do {
     ids \<leftarrow> plist_values (qr_postinglist r);
     rewrite \<leftarrow> false_positive check (qr_spool r) ids;
     if rewrite then do {
       newplist \<leftarrow> rewrite_value check (qr_spool r) ids CompressedPList_new;
       IndexQueryResults_new newplist (qr_spool r) }
     else IndexQueryResults_copy r }"

definition IndexQueryResults_filter_all :: "(str \<Rightarrow> bool option) list \<Rightarrow> query_results \<Rightarrow> query_results option" where
  "IndexQueryResults_filter_all checks r = do {
     ids \<leftarrow> plist_values (qr_postinglist r);
     rewrite \<leftarrow> false_positive (any_check checks) (qr_spool r) ids;
     if rewrite then do {
       newplist \<leftarrow> rewrite_values checks (qr_spool r) ids CompressedPList_new;
       IndexQueryResults_new newplist (qr_spool r) }
     else IndexQueryResults_copy r }"

definition IndexQueryResults_unique :: "query_results \<Rightarrow> query_results option" where
  "IndexQueryResults_unique r = do {
     p \<leftarrow> CompressedPList_unique (qr_postinglist r); IndexQueryResults_new p (qr_spool r) }"

definition either_spool :: "query_results \<Rightarrow> query_results \<Rightarrow> string_pool option" where
  "either_spool r other = (case qr_spool r of None \<Rightarrow> qr_spool other | Some p \<Rightarrow> Some p)"

definition IndexQueryResults_intersection :: "query_results \<Rightarrow> query_results \<Rightarrow> query_results option" where
  "IndexQueryResults_intersection r other = do {
     p \<leftarrow> CompressedPList_and (qr_postinglist r) (qr_postinglist other);
     IndexQueryResults_new p (either_spool r other) }"

definition IndexQueryResults_difference :: "query_results \<Rightarrow> query_results \<Rightarrow> query_results option" where
  "IndexQueryResults_difference r other = do {
     p \<leftarrow> CompressedPList_xor (qr_postinglist r) (qr_postinglist other);
     IndexQueryResults_new p (either_spool r other) }"

definition IndexQueryResults_join :: "query_results \<Rightarrow> query_results \<Rightarrow> query_results option" where
  "IndexQueryResults_join r other = do {
     p \<leftarrow> CompressedPList_or (qr_postinglist r) (qr_postinglist other);
     IndexQueryResults_new p (either_spool r other) }"

definition IndexQueryResults_cardinality :: "query_results \<Rightarrow> nat option" where
  "IndexQueryResults_cardinality r = CompressedPList_cardinality (qr_postinglist r)"

text \<open>The names an iteration over the result gives.\<close>

primrec spool_strs :: "string_pool option \<Rightarrow> u64 list \<Rightarrow> str list option" where
  "spool_strs spool [] = Some []"
| "spool_strs spool (i # ids) = do { s \<leftarrow> spool_str spool i; ss \<leftarrow> spool_strs spool ids; Some (s # ss) }"

definition query_names :: "query_results \<Rightarrow> str list option" where
  "query_names r = do { ids \<leftarrow> plist_values (qr_postinglist r); spool_strs (qr_spool r) ids }"

subsection \<open>Query nodes\<close>

text \<open>The virtual functions of \<open>IndexBase\<close> that the nodes call.\<close>

record index_base =
  ib_tagvalue_query :: "str \<Rightarrow> query_results option"
  ib_metric_query :: "str \<Rightarrow> query_results option"
  ib_list_tag_values :: "str \<Rightarrow> str \<Rightarrow> str list"

primrec fold_query ::
  "(query_results \<Rightarrow> query_results \<Rightarrow> query_results option) \<Rightarrow> (str \<Rightarrow> query_results option) \<Rightarrow> str list
   \<Rightarrow> query_results \<Rightarrow> query_results option" where
  "fold_query f q [] results = Some results"
| "fold_query f q (tv # tvs) results = do { res \<leftarrow> q tv; results \<leftarrow> f results res; fold_query f q tvs results }"

definition IncludeIfAllTagsMatch_query :: "str \<Rightarrow> str list \<Rightarrow> index_base \<Rightarrow> query_results option" where
  "IncludeIfAllTagsMatch_query metric pairs index = do {
     results \<leftarrow> ib_metric_query index metric;
     results \<leftarrow> fold_query IndexQueryResults_intersection (ib_tagvalue_query index) pairs results;
     results \<leftarrow> IndexQueryResults_filter (MetricName_check metric) results;
     IndexQueryResults_filter_all (map TagValuePair_check pairs) results }"

text \<open>One key of \<open>IncludeMany2Many\<close>: the series that have one of the values.\<close>

definition tag_pair :: "str \<Rightarrow> str \<Rightarrow> str" where
  "tag_pair key val = key @ [ch_eq] @ val"

definition join_unique :: "query_results \<Rightarrow> query_results \<Rightarrow> query_results option" where
  "join_unique results res = do { r \<leftarrow> IndexQueryResults_join results res; IndexQueryResults_unique r }"

fun many_loop ::
  "index_base \<Rightarrow> bool \<Rightarrow> (str \<times> str list) list \<Rightarrow> str list \<Rightarrow> query_results \<Rightarrow> (str list \<times> query_results) option" where
  "many_loop index first [] tgv final_res = Some (tgv, final_res)"
| "many_loop index first ((key, []) # tags) tgv final_res = many_loop index first tags tgv final_res"
| "many_loop index first ((key, val # vals) # tags) tgv final_res = do {
     results \<leftarrow> ib_tagvalue_query index (tag_pair key val);
     results \<leftarrow> fold_query join_unique (ib_tagvalue_query index) (map (tag_pair key) vals) results;
     final_res \<leftarrow> (if first then Some results else IndexQueryResults_intersection final_res results);
     many_loop index False tags (tgv @ tag_pair key val # map (tag_pair key) vals) final_res }"

definition IncludeMany2Many_query :: "str \<Rightarrow> (str \<times> str list) list \<Rightarrow> index_base \<Rightarrow> query_results option" where
  "IncludeMany2Many_query metric tags index = do {
     (tgv, final_res) \<leftarrow> many_loop index True tags [] IndexQueryResults_empty;
     allmetric \<leftarrow> ib_metric_query index metric;
     if tgv = [] then IndexQueryResults_filter (MetricName_check metric) allmetric
     else do {
       final_res \<leftarrow> IndexQueryResults_intersection final_res allmetric;
       final_res \<leftarrow> IndexQueryResults_filter (MetricName_check metric) final_res;
       IndexQueryResults_filter_all (map TagValuePair_check tgv) final_res } }"

text \<open>The map from tags to values is ordered by the tags, as unsigned characters.\<close>

definition IncludeIfHasTag_query :: "str \<Rightarrow> str list \<Rightarrow> index_base \<Rightarrow> query_results option" where
  "IncludeIfHasTag_query metric tagnames index =
     IncludeMany2Many_query metric
       (foldl (\<lambda>pairs tag. map_put tag (ib_list_tag_values index metric tag) pairs) [] tagnames) index"

definition ExcludeTags_query :: "str \<Rightarrow> str list \<Rightarrow> index_base \<Rightarrow> query_results option" where
  "ExcludeTags_query metric pairs index = do {
     results \<leftarrow> ib_metric_query index metric;
     results \<leftarrow> fold_query IndexQueryResults_difference (ib_tagvalue_query index) pairs results;
     IndexQueryResults_filter (MetricName_check metric) results }"

text \<open>The difference is computed and its result dropped.\<close>

definition drop_difference :: "query_results \<Rightarrow> query_results \<Rightarrow> query_results option" where
  "drop_difference results res = do { d \<leftarrow> IndexQueryResults_difference results res; Some results }"

definition JoinByTags_query :: "str list \<Rightarrow> str list \<Rightarrow> index_base \<Rightarrow> query_results option" where
  "JoinByTags_query metrics pairs index = do {
     results \<leftarrow> fold_query IndexQueryResults_join (ib_metric_query index) metrics IndexQueryResults_empty;
     results \<leftarrow> fold_query drop_difference (ib_tagvalue_query index) pairs results;
     results \<leftarrow> IndexQueryResults_filter_all (map MetricName_check metrics) results;
     IndexQueryResults_filter_all (map TagValuePair_check pairs) results }"

subsection \<open>SeriesNameTopology\<close>

type_synonym tag_table = "(str \<times> str list) list"
type_synonym topology = "(str \<times> tag_table) list"

definition add_tag_value :: "str \<Rightarrow> str \<Rightarrow> tag_table \<Rightarrow> tag_table" where
  "add_tag_value tag val tt =
     AList.update tag (List.insert val (case map_of tt tag of None \<Rightarrow> [] | Some vs \<Rightarrow> vs)) tt"

function add_name_loop :: "str \<Rightarrow> tag_table \<Rightarrow> tag_table" where
  "add_name_loop p tt =
     (if p = [] then tt
      else case ix_skip_tag p of (err, tag_end) \<Rightarrow>
        case (case split_pair (take (length p - length tag_end) p) of
                None \<Rightarrow> (True, [], []) | Some (tag, val) \<Rightarrow> (err, tag, val)) of
          (err', tag, val) \<Rightarrow>
            let tt = add_tag_value tag val tt in
            if err' then tt
            else add_name_loop (skip_space tag_end) tt)"
  by pat_completeness auto
termination
  by (relation "measure (\<lambda>(s, tt). length s)") (use ix_skip_tag_step in \<open>auto split: option.splits\<close>)

declare add_name_loop.simps [simp del]

definition SeriesNameTopology_add_name :: "str \<Rightarrow> topology \<Rightarrow> topology option" where
  "SeriesNameTopology_add_name name t = do {
     metric \<leftarrow> skip_metric_name name;
     let tags = drop (length metric) name;
     let tt = (case map_of t metric of None \<Rightarrow> [] | Some tt \<Rightarrow> tt);
     Some (AList.update metric (add_name_loop (skip_space tags) tt) t) }"

type_synonym table_order = "str list \<Rightarrow> str list"

definition SeriesNameTopology_list_metric_names :: "table_order \<Rightarrow> topology \<Rightarrow> str list" where
  "SeriesNameTopology_list_metric_names ord t = ord (map fst t)"

definition SeriesNameTopology_list_tags :: "table_order \<Rightarrow> topology \<Rightarrow> str \<Rightarrow> str list" where
  "SeriesNameTopology_list_tags ord t metric =
     (case map_of t metric of None \<Rightarrow> [] | Some tt \<Rightarrow> ord (map fst tt))"

definition SeriesNameTopology_list_tag_values :: "table_order \<Rightarrow> topology \<Rightarrow> str \<Rightarrow> str \<Rightarrow> str list" where
  "SeriesNameTopology_list_tag_values ord t metric tag =
     (case map_of t metric of None \<Rightarrow> []
      | Some tt \<Rightarrow> (case map_of tt tag of None \<Rightarrow> [] | Some vs \<Rightarrow> ord vs))"

subsection \<open>Index\<close>

record series_index =
  ix_pool :: string_pool
  ix_table :: "(str \<times> u64) list"
  ix_metrics_names :: inverted_index
  ix_tagvalue_pairs :: inverted_index
  ix_topology :: topology

definition Index_new :: series_index where
  "Index_new = \<lparr>ix_pool = StringPool_new, ix_table = [], ix_metrics_names = InvertedIndex_new,
     ix_tagvalue_pairs = InvertedIndex_new, ix_topology = []\<rparr>"

definition Index_cardinality :: "series_index \<Rightarrow> nat" where
  "Index_cardinality ix = length (ix_table ix)"

definition Index_pool_memory_use :: "series_index \<Rightarrow> nat" where
  "Index_pool_memory_use ix = StringPool_mem_used (ix_pool ix)"

definition Index_append :: "str \<Rightarrow> series_index \<Rightarrow> (status \<times> str \<times> series_index) option" where
  "Index_append s ix =
     (case to_canonical_form s 0x1000 of
        Inl status \<Rightarrow> Some (status, [], ix)
      | Inr (buffer, tags_begin) \<Rightarrow>
          if map_of (ix_table ix) buffer = None then do {
            (i, pool) \<leftarrow> StringPool_add buffer (ix_pool ix);
            let ix = ix\<lparr>ix_pool := pool\<rparr>;
            if i = 0 then Some (kBadData, [], ix)
            else do {
              tags \<leftarrow> write_tags (drop tags_begin buffer) i (ix_tagvalue_pairs ix);
              let ix = ix\<lparr>ix_tagvalue_pairs := tags\<rparr>;
              name \<leftarrow> StringPool_str i (ix_pool ix);
              let ix = ix\<lparr>ix_table := AList.update name i (ix_table ix)\<rparr>;
              mname \<leftarrow> skip_metric_name (take tags_begin buffer);
              if mname = [] then Some (kBadData, [], ix)
              else do {
                metrics \<leftarrow> InvertedIndex_add (StringTools_hash mname) i (ix_metrics_names ix);
                let ix = ix\<lparr>ix_metrics_names := metrics\<rparr>;
                topo \<leftarrow> SeriesNameTopology_add_name name (ix_topology ix);
                Some (kOk, name, ix\<lparr>ix_topology := topo\<rparr>) } } }
          else Some (kOk, buffer, ix))"

definition Index_tagvalue_query :: "series_index \<Rightarrow> str \<Rightarrow> query_results option" where
  "Index_tagvalue_query ix value = do {
     post \<leftarrow> InvertedIndex_extract (StringTools_hash value) (ix_tagvalue_pairs ix);
     IndexQueryResults_new post (Some (ix_pool ix)) }"

definition Index_metric_query :: "series_index \<Rightarrow> str \<Rightarrow> query_results option" where
  "Index_metric_query ix value = do {
     post \<leftarrow> InvertedIndex_extract (StringTools_hash value) (ix_metrics_names ix);
     IndexQueryResults_new post (Some (ix_pool ix)) }"

definition Index_base :: "table_order \<Rightarrow> series_index \<Rightarrow> index_base" where
  "Index_base ord ix = \<lparr>ib_tagvalue_query = Index_tagvalue_query ix, ib_metric_query = Index_metric_query ix,
     ib_list_tag_values = SeriesNameTopology_list_tag_values ord (ix_topology ix)\<rparr>"

end
