(* ===== verification/IndexQueries.thy ===== *)
theory IndexQueries
  imports SeriesIndex
begin

text \<open>
  What the series index holds after any names have been appended, and what the query nodes return.
  The names are plain names in any spelling; \<open>index_rep\<close> relates the state of the index to the list of
  its series, each with its id, its metric and its sorted tags.
\<close>

subsection \<open>The characters of a canonical name\<close>

definition tagline :: "str list \<Rightarrow> str" where
  "tagline ts = concat (map ((#) ch_space) ts)"

lemma tagline_simps [simp]: "tagline [] = []" "tagline (t # ts) = ch_space # t @ tagline ts"
  by (simp_all add: tagline_def)

lemma canonical_tagline: "canonical m ts = m @ tagline (sort_key key_rank ts)"
  by (simp add: canonical_def tagline_def)

lemma stops_tagline [simp]: "stops (tagline ts)"
  by (cases ts) (auto simp: stops_def)

lemma plain_chars:
  "list_all plain_char w \<Longrightarrow> c \<in> set w \<Longrightarrow> c \<noteq> 0 \<and> c \<noteq> ch_space \<and> c \<noteq> ch_tab"
  by (auto simp: list.pred_set plain_char_def)

lemma takeWhile_plain: "list_all plain_char w \<Longrightarrow> stops r \<Longrightarrow> takeWhile (\<lambda>c. c \<noteq> ch_space) (w @ r) = w"
  by (cases r) (auto simp: takeWhile_append stops_def dest: plain_chars)

lemma dropWhile_plain: "list_all plain_char w \<Longrightarrow> stops r \<Longrightarrow> dropWhile (\<lambda>c. c \<noteq> ch_space) (w @ r) = r"
  by (cases r) (auto simp: dropWhile_append stops_def dest: plain_chars)

lemma ix_skip_tag_plain:
  assumes "plain_tag t" and "stops r"
  shows "ix_skip_tag (t @ r) = (False, r)"
proof -
  obtain v where v: "t = tag_key t @ ch_eq # v" "ch_eq \<notin> set (tag_key t)"
    "list_all plain_char (tag_key t)" "list_all plain_char v" by (rule plain_tag_split[OF assms(1)])
  have e: "t @ r = tag_key t @ ch_eq # v @ r" using v(1) by (metis append.assoc append_Cons)
  have "dropWhile (\<lambda>c. c \<noteq> ch_eq \<and> c \<noteq> ch_space \<and> c \<noteq> ch_tab) (t @ r) = ch_eq # v @ r"
    unfolding e using v(2,3) by (subst dropWhile_append2) (auto dest: plain_chars)
  moreover have "dropWhile (\<lambda>c. c \<noteq> ch_space) (v @ r) = r" using dropWhile_plain[OF v(4) assms(2)] .
  ultimately show ?thesis by (simp add: ix_skip_tag_def)
qed

lemma skip_metric_name_plain:
  "plain_metric m \<Longrightarrow> stops r \<Longrightarrow> r \<noteq> [] \<Longrightarrow> skip_metric_name (m @ r) = Some m"
  by (cases r) (auto simp: skip_metric_name_def plain_metric_def skip_space_plain takeWhile_plain stops_def)

lemma skip_space_tag: "plain_tag t \<Longrightarrow> skip_space (t @ r) = t @ r"
  by (rule skip_space_plain) (auto simp: plain_tag_def)

text \<open>Two plain names with the same characters are the same name.\<close>

lemma tagline_inj:
  "list_all plain_tag ts \<Longrightarrow> list_all plain_tag us \<Longrightarrow> tagline ts = tagline us \<Longrightarrow> ts = us"
proof (induction ts arbitrary: us)
  case Nil
  then show ?case by (cases us) auto
next
  case (Cons t ts)
  then obtain u us' where us: "us = u # us'" by (cases us) auto
  with Cons.prems have e: "t @ tagline ts = u @ tagline us'" by simp
  have p: "list_all plain_char t" "list_all plain_char u" using Cons.prems us by (auto simp: plain_tag_def)
  have "t = u" using takeWhile_plain[OF p(1), of "tagline ts"] takeWhile_plain[OF p(2), of "tagline us'"] e by simp
  with e Cons us show ?case by auto
qed

lemma name_inj:
  assumes "plain_metric m" "list_all plain_tag ts" "plain_metric n" "list_all plain_tag us" "m @ tagline ts = n @ tagline us"
  shows "m = n \<and> ts = us"
proof -
  have "m = n"
    using takeWhile_plain[of m "tagline ts"] takeWhile_plain[of n "tagline us"] assms by (simp add: plain_metric_def)
  with assms tagline_inj[of ts us] show ?thesis by simp
qed

subsection \<open>The checks on a canonical name\<close>

lemma MetricName_check_plain:
  "plain_metric m \<Longrightarrow> ts \<noteq> [] \<Longrightarrow> MetricName_check n (m @ tagline ts) = Some (m = n)"
  using skip_metric_name_plain[of m "tagline ts"]
  by (cases ts) (auto simp: MetricName_check_def plain_metric_def stops_def)

lemma tag_check_plain:
  "list_all plain_tag (t # ts) \<Longrightarrow> tag_check_loop v (t @ tagline ts) \<longleftrightarrow> v \<in> set (t # ts)"
proof (induction ts arbitrary: t)
  case Nil
  then show ?case
    using ix_skip_tag_plain[of t "[]"] plain_tag_nonempty[of t]
    by (subst tag_check_loop.simps) (auto simp: tag_check_loop.simps[of v "[]"])
next
  case (Cons u ts)
  have "skip_space (tagline (u # ts)) = u @ tagline ts" using Cons.prems by (simp add: skip_space_tag)
  then show ?case
    using Cons ix_skip_tag_plain[of t "tagline (u # ts)"] plain_tag_nonempty[of t]
    by (subst tag_check_loop.simps) (auto simp del: tagline_simps)
qed

lemma TagValuePair_check_plain:
  assumes "plain_metric m" "list_all plain_tag ts" "ts \<noteq> []"
  shows "TagValuePair_check v (m @ tagline ts) = Some (v \<in> set ts)"
proof -
  obtain t us where ts: "ts = t # us" using assms(3) by (cases ts) auto
  have m: "m \<noteq> []" "list_all plain_char m" using assms(1) by (auto simp: plain_metric_def)
  have "dropWhile (\<lambda>c. c \<noteq> ch_space) (m @ tagline ts) = tagline ts"
    by (rule dropWhile_plain) (use m in auto)
  moreover have "skip_space (tagline ts) = t @ tagline us" using assms(2) ts by (simp add: skip_space_tag)
  moreover have "t \<noteq> []" using assms(2) ts plain_tag_nonempty by auto
  ultimately show ?thesis
    using m assms(2) ts by (simp add: TagValuePair_check_def skip_space_plain tag_check_plain)
qed

subsection \<open>Writing the tags\<close>

definition add_values :: "u64 list \<Rightarrow> u64 \<Rightarrow> (u64 \<Rightarrow> u64 list) \<Rightarrow> u64 \<Rightarrow> u64 list" where
  "add_values hs i f k = f k @ map (\<lambda>_. i) (filter (\<lambda>h. h = k) hs)"

lemma write_tags_rep:
  "list_all plain_tag ts \<Longrightarrow> inv_rep d f \<Longrightarrow>
   \<exists>d'. write_tags (tagline ts) i d = Some d' \<and> inv_rep d' (add_values (map StringTools_hash ts) i f)"
proof (induction ts arbitrary: d f)
  case Nil
  then show ?case by (subst write_tags.simps) (simp add: add_values_def[abs_def])
next
  case (Cons t ts)
  let ?h = "StringTools_hash t"
  obtain d1 where d1: "InvertedIndex_add ?h i d = Some d1" "inv_rep d1 (f(?h := f ?h @ [i]))"
    using InvertedIndex_add_rep[OF Cons.prems(2)] by blast
  obtain d2 where d2: "write_tags (tagline ts) i d1 = Some d2"
    "inv_rep d2 (add_values (map StringTools_hash ts) i (f(?h := f ?h @ [i])))"
    using Cons.IH[OF _ d1(2)] Cons.prems(1) by (metis list.pred_inject(2))
  have "skip_space (tagline (t # ts)) = t @ tagline ts" using Cons.prems(1) by (simp add: skip_space_tag)
  moreover have "ix_skip_tag (t @ tagline ts) = (False, tagline ts)"
    using Cons.prems(1) by (simp add: ix_skip_tag_plain)
  ultimately have "write_tags (tagline (t # ts)) i d = Some d2"
    using d1(1) d2(1) by (subst write_tags.simps) (simp del: tagline_simps add: tagline_simps(2)[of t ts, THEN arg_cong[of _ _ "\<lambda>s. s = []"]])
  moreover have "add_values (map StringTools_hash ts) i (f(?h := f ?h @ [i])) = add_values (map StringTools_hash (t # ts)) i f"
    by (auto simp: add_values_def fun_eq_iff)
  ultimately show ?case using d2(2) by metis
qed

lemma write_tags_space: "s \<noteq> [] \<Longrightarrow> write_tags (ch_space # s) i d = write_tags s i d"
  by (subst (1 2) write_tags.simps) simp

subsection \<open>What the index holds\<close>

type_synonym entry = "u64 \<times> str \<times> str list"

definition entry_name :: "entry \<Rightarrow> str" where
  "entry_name e = (case e of (i, m, ts) \<Rightarrow> m @ tagline ts)"

definition entry_ok :: "string_pool \<Rightarrow> entry \<Rightarrow> bool" where
  "entry_ok p e = (case e of (i, m, ts) \<Rightarrow>
     plain_metric m \<and> plain_tags ts \<and> pool_holds p i (m @ tagline ts) \<and> unat i < pool_next p)"

definition metric_ids :: "entry list \<Rightarrow> u64 \<Rightarrow> u64 list" where
  "metric_ids E h = map fst (filter (\<lambda>(i, m, ts). StringTools_hash m = h) E)"

definition tag_ids :: "entry list \<Rightarrow> u64 \<Rightarrow> u64 list" where
  "tag_ids E h = concat (map (\<lambda>(i, m, ts). map (\<lambda>_. i) (filter (\<lambda>k. k = h) (map StringTools_hash ts))) E)"

definition index_rep :: "series_index \<Rightarrow> entry list \<Rightarrow> bool" where
  "index_rep ix E \<longleftrightarrow>
     pool_ok (ix_pool ix) \<and> length (sp_pool (ix_pool ix)) \<le> length E \<and> list_all (entry_ok (ix_pool ix)) E \<and>
     sorted_wrt (<) (map fst E) \<and> distinct (map entry_name E) \<and>
     map_of (ix_table ix) = map_of (map (\<lambda>e. (entry_name e, fst e)) E) \<and>
     inv_rep (ix_metrics_names ix) (metric_ids E) \<and> inv_rep (ix_tagvalue_pairs ix) (tag_ids E)"

lemma Index_new_rep: "index_rep Index_new []"
proof -
  have "metric_ids [] = (\<lambda>_. [])" "tag_ids [] = (\<lambda>_. [])" by (auto simp: metric_ids_def tag_ids_def)
  then show ?thesis by (simp add: index_rep_def Index_new_def StringPool_new_def pool_ok_def)
qed

text \<open>A name that can be appended.\<close>

definition plain_name :: "str \<times> str list \<Rightarrow> str \<Rightarrow> bool" where
  "plain_name n s \<longleftrightarrow> (case n of (m, ts) \<Rightarrow>
     plain_metric m \<and> plain_tags ts \<and> spelled m ts s \<and> length s \<le> LIMITS_MAX_SNAME)"

lemma plain_tags_sort: "plain_tags ts \<Longrightarrow> plain_tags (sort_key key_rank ts)"
proof -
  have "distinct (map tag_key (sort_key key_rank ts)) \<longleftrightarrow> distinct (map tag_key ts)"
    by (rule mset_eq_imp_distinct_iff) simp
  moreover have "sort_key key_rank ts = [] \<longleftrightarrow> ts = []" using length_sort[of key_rank ts] by (metis length_0_conv)
  ultimately show "plain_tags ts \<Longrightarrow> ?thesis" by (simp add: plain_tags_def list.pred_set)
qed

lemma entry_ok_mono:
  assumes "entry_ok p e" and "\<And>i s. pool_holds p i s \<Longrightarrow> pool_holds p' i s" and "pool_next p \<le> pool_next p'"
  shows "entry_ok p' e"
  using assms by (auto simp: entry_ok_def split: prod.splits)

lemma name_string:
  assumes "plain_metric m" "plain_tags ts" "length (m @ tagline ts) \<le> LIMITS_MAX_SNAME"
  shows "pool_string (m @ tagline ts)"
proof -
  have "list_all plain_tag ts \<Longrightarrow> 0 \<notin> set (tagline ts)"
    by (induction ts) (auto simp: plain_tag_def dest: plain_chars)
  with assms show ?thesis
    by (auto simp: pool_string_def plain_metric_def plain_tags_def MAX_BIN_SIZE_eq LIMITS_MAX_SNAME_def dest: plain_chars)
qed

lemma table_lookup:
  assumes "index_rep ix E"
  shows "map_of (ix_table ix) s = None \<longleftrightarrow> s \<notin> entry_name ` set E"
  using assms by (auto simp: index_rep_def map_of_eq_None_iff image_image)

lemma Index_append_known:
  assumes r: "index_rep ix E" and n: "plain_name (m, ts) s" and k: "canonical m ts \<in> entry_name ` set E"
  shows "Index_append s ix = Some (kOk, canonical m ts, ix)"
proof -
  have "to_canonical_form s 0x1000 = Inr (canonical m ts, length m + 1)"
    using canonical_form[of m ts s "0x1000"] n by (simp add: plain_name_def LIMITS_MAX_SNAME_def)
  then show ?thesis using table_lookup[OF r] k by (simp add: Index_append_def)
qed

lemma index_rep_snoc:
  assumes r: "index_rep ix E" and e: "plain_metric m" "plain_tags ts"
    and p: "pool_ok p'" "length (sp_pool p') \<le> length (sp_pool (ix_pool ix)) + 1" "pool_holds p' i (m @ tagline ts)"
      "\<And>i' s'. pool_holds (ix_pool ix) i' s' \<Longrightarrow> pool_holds p' i' s'" "pool_next (ix_pool ix) \<le> unat i" "unat i < pool_next p'"
    and new: "m @ tagline ts \<notin> entry_name ` set E"
    and inv: "inv_rep mn ((metric_ids E)(StringTools_hash m := metric_ids E (StringTools_hash m) @ [i]))"
      "inv_rep tv (add_values (map StringTools_hash ts) i (tag_ids E))"
  shows "index_rep (ix\<lparr>ix_pool := p', ix_tagvalue_pairs := tv,
      ix_table := AList.update (m @ tagline ts) i (ix_table ix), ix_metrics_names := mn, ix_topology := t\<rparr>)
    (E @ [(i, m, ts)])"
proof -
  have E: "list_all (entry_ok (ix_pool ix)) E" "sorted_wrt (<) (map fst E)" "distinct (map entry_name E)"
    "length (sp_pool (ix_pool ix)) \<le> length E"
    using r by (auto simp: index_rep_def)
  have next': "pool_next (ix_pool ix) \<le> pool_next p'" using p(5,6) by simp
  have old: "list_all (entry_ok p') E"
    using E(1) entry_ok_mono[OF _ p(4) next'] by (simp add: list.pred_set)
  have below: "fst e < i" if "e \<in> set E" for e
  proof -
    have "unat (fst e) < pool_next (ix_pool ix)"
      using that E(1) by (cases e) (auto simp: list.pred_set entry_ok_def dest!: bspec)
    with p(5) show ?thesis by (simp add: word_less_nat_alt)
  qed
  have mi: "metric_ids (E @ [(i, m, ts)]) =
      (metric_ids E)(StringTools_hash m := metric_ids E (StringTools_hash m) @ [i])"
    by (auto simp: metric_ids_def fun_eq_iff)
  have ti: "tag_ids (E @ [(i, m, ts)]) = add_values (map StringTools_hash ts) i (tag_ids E)"
    by (auto simp: tag_ids_def add_values_def fun_eq_iff)
  have tab: "map_of (AList.update (m @ tagline ts) i (ix_table ix)) =
      map_of (map (\<lambda>e. (entry_name e, fst e)) (E @ [(i, m, ts)]))"
  proof
    fix s
    have "map_of (ix_table ix) s = map_of (map (\<lambda>e. (entry_name e, fst e)) E) s" using r by (simp add: index_rep_def)
    moreover have "map_of (map (\<lambda>e. (entry_name e, fst e)) E) (m @ tagline ts) = None"
      using new by (auto simp: map_of_eq_None_iff image_image)
    ultimately show "map_of (AList.update (m @ tagline ts) i (ix_table ix)) s =
        map_of (map (\<lambda>e. (entry_name e, fst e)) (E @ [(i, m, ts)])) s"
      by (auto simp: update_conv' map_add_def entry_name_def split: option.split)
  qed
  show ?thesis
    unfolding index_rep_def
    using p e old below E new inv tab
    by (auto simp: mi ti entry_ok_def entry_name_def sorted_wrt_append)
qed

lemma Index_append_new:
  assumes r: "index_rep ix E" and n: "plain_name (m, ts) s" and k: "canonical m ts \<notin> entry_name ` set E"
    and len: "length E < 2 ^ 32 - 1"
  shows "\<exists>i ix'. Index_append s ix = Some (kOk, canonical m ts, ix') \<and> index_rep ix' (E @ [(i, m, sort_key key_rank ts)])"
proof -
  let ?us = "sort_key key_rank ts" and ?p = "ix_pool ix"
  let ?name = "m @ tagline ?us"
  have nm: "canonical m ts = ?name" by (rule canonical_tagline)
  have m: "plain_metric m" and us: "plain_tags ?us" using n plain_tags_sort by (auto simp: plain_name_def)
  have form: "to_canonical_form s 0x1000 = Inr (?name, length m + 1)" "length ?name \<le> LIMITS_MAX_SNAME"
    using canonical_form[of m ts s "0x1000"] n by (auto simp: plain_name_def LIMITS_MAX_SNAME_def nm)
  have str: "pool_string ?name" using name_string[OF m us form(2)] .
  have "pool_ok ?p" "pool_room ?p" using r len by (auto simp: index_rep_def pool_room_def)
  from StringPool_add_ok[OF str this] obtain i p' where p': "StringPool_add ?name ?p = Some (i, p')" "pool_ok p'"
    "pool_holds p' i ?name" "i \<noteq> 0" "\<And>i' s'. pool_holds ?p i' s' \<Longrightarrow> pool_holds p' i' s'"
    "pool_next ?p \<le> unat i" "unat i < pool_next p'" "length (sp_pool p') \<le> length (sp_pool ?p) + 1" by blast
  have tags: "list_all plain_tag ?us" using us by (simp add: plain_tags_def)
  obtain tv where tv: "write_tags (tagline ?us) i (ix_tagvalue_pairs ix) = Some tv"
    "inv_rep tv (add_values (map StringTools_hash ?us) i (tag_ids E))"
    using write_tags_rep[OF tags] r unfolding index_rep_def by blast
  obtain u us' where u: "?us = u # us'" using us by (cases ?us) (auto simp: plain_tags_def)
  have rest: "drop (length m + 1) ?name = u @ tagline us'" "u \<noteq> []" "take (length m + 1) ?name = m @ [ch_space]"
    using u tags plain_tag_nonempty by auto
  have tv': "write_tags (drop (length m + 1) ?name) i (ix_tagvalue_pairs ix) = Some tv"
    using tv(1) rest(2) write_tags_space[of "u @ tagline us'"] unfolding rest(1) u by simp
  have mn: "skip_metric_name (take (length m + 1) ?name) = Some m" "skip_metric_name ?name = Some m" "m \<noteq> []"
    using skip_metric_name_plain[OF m, of "[ch_space]"] skip_metric_name_plain[OF m, of "tagline ?us"] u m
    unfolding rest(3) by (auto simp: stops_def plain_metric_def)
  obtain mt where mt: "InvertedIndex_add (StringTools_hash m) i (ix_metrics_names ix) = Some mt"
    "inv_rep mt ((metric_ids E)(StringTools_hash m := metric_ids E (StringTools_hash m) @ [i]))"
    using InvertedIndex_add_rep r unfolding index_rep_def by blast
  obtain t where t: "SeriesNameTopology_add_name ?name (ix_topology ix) = Some t"
    by (simp add: SeriesNameTopology_add_name_def mn)
  have none: "map_of (ix_table ix) ?name = None" using table_lookup[OF r] k by (simp add: nm)
  have "Index_append s ix = Some (kOk, ?name, ix\<lparr>ix_pool := p', ix_tagvalue_pairs := tv,
      ix_table := AList.update ?name i (ix_table ix), ix_metrics_names := mt, ix_topology := t\<rparr>)"
    unfolding Index_append_def form(1) by (simp add: none p'(1,4) tv' pool_holds_str[OF p'(3)] mn mt(1) t Let_def
        del: One_nat_def drop_append take_append)
  moreover have "?name \<notin> entry_name ` set E" using k by (simp add: nm)
  note index_rep_snoc[OF r m us p'(2,8,3,5-7) this mt(2) tv(2), of t]
  ultimately show ?thesis unfolding nm by blast
qed

text \<open>Appending any list of names: the index holds each name once.\<close>

primrec index_append_all :: "str list \<Rightarrow> series_index \<Rightarrow> series_index option" where
  "index_append_all [] ix = Some ix"
| "index_append_all (s # ss) ix = do { (st, nm, ix) \<leftarrow> Index_append s ix; index_append_all ss ix }"

definition sort_name :: "str \<times> str list \<Rightarrow> str \<times> str list" where
  "sort_name n = (fst n, sort_key key_rank (snd n))"

lemma Index_append_rep:
  assumes r: "index_rep ix E" and n: "plain_name (m, ts) s" and len: "length E < 2 ^ 32 - 1"
  shows "\<exists>ix' E'. Index_append s ix = Some (kOk, canonical m ts, ix') \<and> index_rep ix' E' \<and>
    length E' \<le> length E + 1 \<and> snd ` set E' = insert (sort_name (m, ts)) (snd ` set E)"
proof (cases "canonical m ts \<in> entry_name ` set E")
  case True
  then obtain i m' us where e: "(i, m', us) \<in> set E" "m @ tagline (sort_key key_rank ts) = m' @ tagline us"
    by (auto simp: canonical_tagline entry_name_def)
  have "plain_metric m' \<and> plain_tags us"
    using r e(1) by (auto simp: index_rep_def list.pred_set entry_ok_def dest!: bspec)
  then have "m = m' \<and> sort_key key_rank ts = us"
    using n plain_tags_sort[of ts] by (intro name_inj[OF _ _ _ _ e(2)]) (auto simp: plain_name_def plain_tags_def)
  then have "sort_name (m, ts) \<in> snd ` set E" using e(1) by (force simp: sort_name_def)
  then have "snd ` set E = insert (sort_name (m, ts)) (snd ` set E)" by blast
  with Index_append_known[OF r n True] r show ?thesis by (metis le_add1)
next
  case False
  from Index_append_new[OF r n False len] obtain i ix' where
    "Index_append s ix = Some (kOk, canonical m ts, ix')" "index_rep ix' (E @ [(i, m, sort_key key_rank ts)])" by blast
  then show ?thesis
    by (intro exI[of _ ix'] exI[of _ "E @ [(i, m, sort_key key_rank ts)]"]) (auto simp: sort_name_def)
qed

lemma index_append_all_rep:
  "list_all2 plain_name ns ss \<Longrightarrow> index_rep ix E \<Longrightarrow> length E + length ns < 2 ^ 32 \<Longrightarrow>
   \<exists>ix' E'. index_append_all ss ix = Some ix' \<and> index_rep ix' E' \<and> snd ` set E' = snd ` set E \<union> sort_name ` set ns"
proof (induction ns ss arbitrary: ix E rule: list_all2_induct)
  case (Cons n ns s ss)
  obtain m ts where n: "n = (m, ts)" by (cases n)
  have pn: "plain_name (m, ts) s" using Cons.hyps n by simp
  have "length E < 2 ^ 32 - 1" using Cons.prems(2) by simp
  from Index_append_rep[OF Cons.prems(1) pn this]
  obtain ix1 E1 where 1: "Index_append s ix = Some (kOk, canonical m ts, ix1)" "index_rep ix1 E1"
    "length E1 \<le> length E + 1" "snd ` set E1 = insert (sort_name n) (snd ` set E)" unfolding n by blast
  have "length E1 + length ns < 2 ^ 32" using 1(3) Cons.prems(2) by simp
  from Cons.IH[OF 1(2) this] obtain ix' E' where "index_append_all ss ix1 = Some ix'" "index_rep ix' E'"
    "snd ` set E' = snd ` set E1 \<union> sort_name ` set ns" by blast
  with 1 show ?case by (intro exI[of _ ix'] exI[of _ E']) auto
qed auto

subsection \<open>The results of a query\<close>

text \<open>A result with the ids \<open>xs\<close>, which are ids of the entries, over a pool that holds their names.\<close>

definition named :: "string_pool \<Rightarrow> entry list \<Rightarrow> bool" where
  "named p E \<longleftrightarrow> list_all (entry_ok p) E \<and> sorted_wrt (<) (map fst E) \<and> distinct (map entry_name E)"

definition query_rep :: "string_pool \<Rightarrow> entry list \<Rightarrow> query_results \<Rightarrow> u64 list \<Rightarrow> bool" where
  "query_rep p E r xs \<longleftrightarrow>
     plist_view (qr_postinglist r) xs \<and> sorted xs \<and> set xs \<subseteq> fst ` set E \<and> qr_spool r = Some p"

lemma named_entry:
  assumes "named p E" and "(i, m, ts) \<in> set E"
  shows "plain_metric m" "plain_tags ts" "spool_str (Some p) i = Some (m @ tagline ts)"
proof -
  have "entry_ok p (i, m, ts)" using assms by (auto simp: named_def list.pred_set)
  then show "plain_metric m" "plain_tags ts" "spool_str (Some p) i = Some (m @ tagline ts)"
    by (auto simp: entry_ok_def spool_str_def pool_holds_str)
qed

lemma named_unique: "named p E \<Longrightarrow> (i, e) \<in> set E \<Longrightarrow> (i, e') \<in> set E \<Longrightarrow> e = e'"
  unfolding named_def strict_sorted_iff distinct_map inj_on_def by (metis fst_conv prod.inject)

lemma IndexQueryResults_new_rep:
  "plist_view q xs \<Longrightarrow> sorted xs \<Longrightarrow> set xs \<subseteq> fst ` set E \<Longrightarrow>
   \<exists>r. IndexQueryResults_new q (Some p) = Some r \<and> query_rep p E r xs"
  using plist_copy_view[of q xs] by (auto simp: IndexQueryResults_new_def query_rep_def)

lemma IndexQueryResults_copy_rep:
  "query_rep p E r xs \<Longrightarrow> \<exists>r'. IndexQueryResults_copy r = Some r' \<and> query_rep p E r' xs"
  using plist_copy_view[of "qr_postinglist r" xs] by (auto simp: IndexQueryResults_copy_def query_rep_def)

lemma either_spool_rep: "query_rep p E r xs \<Longrightarrow> either_spool r other = Some p"
  by (simp add: either_spool_def query_rep_def)

lemma query_ops_rep:
  assumes r: "query_rep p E r xs" and q: "query_rep p E q ys"
  shows "\<exists>s. IndexQueryResults_intersection r q = Some s \<and> query_rep p E s (set_intersection xs ys)"
    and "\<exists>s. IndexQueryResults_difference r q = Some s \<and> query_rep p E s (set_difference xs ys)"
    and "\<exists>s. IndexQueryResults_join r q = Some s \<and> query_rep p E s (set_union xs ys)"
proof -
  have v: "plist_view (qr_postinglist r) xs" "plist_view (qr_postinglist q) ys" "sorted xs" "sorted ys"
    "set xs \<subseteq> fst ` set E" "set ys \<subseteq> fst ` set E" using r q by (auto simp: query_rep_def)
  have sub: "set (set_difference xs ys) \<subseteq> set xs" "set (set_intersection xs ys) \<subseteq> set xs"
    by (induction xs ys rule: set_difference.induct) (auto simp: set_set_intersection[OF v(3,4)])
  show "\<exists>s. IndexQueryResults_intersection r q = Some s \<and> query_rep p E s (set_intersection xs ys)"
    using plist_ops_view(1)[OF v(1,2)] IndexQueryResults_new_rep[of _ "set_intersection xs ys" E p] v sub
    by (auto simp: IndexQueryResults_intersection_def either_spool_rep[OF r] sorted_set_intersection)
  show "\<exists>s. IndexQueryResults_difference r q = Some s \<and> query_rep p E s (set_difference xs ys)"
    using plist_ops_view(3)[OF v(1,2)] IndexQueryResults_new_rep[of _ "set_difference xs ys" E p] v sub
    by (auto simp: IndexQueryResults_difference_def either_spool_rep[OF r] sorted_set_difference)
  show "\<exists>s. IndexQueryResults_join r q = Some s \<and> query_rep p E s (set_union xs ys)"
    using plist_ops_view(2)[OF v(1,2)] IndexQueryResults_new_rep[of _ "set_union xs ys" E p] v
    by (auto simp: IndexQueryResults_join_def either_spool_rep[OF r] sorted_set_union set_set_union)
qed

subsection \<open>Filters\<close>

text \<open>A check that decides the property \<open>P\<close> of an entry.\<close>

definition decides :: "(str \<Rightarrow> bool option) \<Rightarrow> string_pool \<Rightarrow> entry list \<Rightarrow> (u64 \<Rightarrow> bool) \<Rightarrow> bool" where
  "decides check p E P \<longleftrightarrow> (\<forall>i \<in> fst ` set E. \<exists>s. spool_str (Some p) i = Some s \<and> check s = Some (P i))"

lemma decidesD:
  "decides check p E P \<Longrightarrow> i \<in> fst ` set E \<Longrightarrow> \<exists>s. spool_str (Some p) i = Some s \<and> check s = Some (P i)"
  unfolding decides_def by (rule bspec)

lemma false_positive_rep:
  "decides check p E P \<Longrightarrow> set xs \<subseteq> fst ` set E \<Longrightarrow>
   false_positive check (Some p) xs = Some (\<not> list_all P xs)"
proof (induction xs)
  case (Cons x xs)
  then show ?case using decidesD[of check p E P x] by fastforce
qed simp

lemma rewrite_value_rep:
  "decides check p E P \<Longrightarrow> set xs \<subseteq> fst ` set E \<Longrightarrow> plist_ready q ys \<Longrightarrow>
   \<exists>q'. rewrite_value check (Some p) xs q = Some q' \<and> plist_ready q' (ys @ filter P xs)"
proof (induction xs arbitrary: q ys)
  case (Cons x xs)
  obtain s where s: "spool_str (Some p) x = Some s" "check s = Some (P x)"
    using decidesD[OF Cons.prems(1), of x] Cons.prems(2) by auto
  obtain q1 where q1: "CompressedPList_add x q = Some q1" "plist_ready q1 (ys @ [x])"
    using plist_add_ready[OF Cons.prems(3)] by blast
  show ?case
    using Cons.IH[OF Cons.prems(1) _ q1(2)] Cons.IH[OF Cons.prems(1) _ Cons.prems(3)] Cons.prems(2) s q1(1)
    by (cases "P x") auto
qed simp

lemma IndexQueryResults_filter_rep:
  assumes d: "decides check p E P" and r: "query_rep p E r xs"
  shows "\<exists>r'. IndexQueryResults_filter check r = Some r' \<and> query_rep p E r' (filter P xs)"
proof -
  have v: "plist_values (qr_postinglist r) = Some xs" "sorted xs" "set xs \<subseteq> fst ` set E" "qr_spool r = Some p"
    using r by (auto simp: query_rep_def plist_values_ok)
  show ?thesis
  proof (cases "list_all P xs")
    case True
    then have "filter P xs = xs" by (simp add: filter_id_conv list.pred_set)
    with True IndexQueryResults_copy_rep[OF r] show ?thesis
      by (simp add: IndexQueryResults_filter_def v(1,4) false_positive_rep[OF d v(3)])
  next
    case False
    obtain q where q: "rewrite_value check (Some p) xs CompressedPList_new = Some q" "plist_ready q (filter P xs)"
      using rewrite_value_rep[OF d v(3) plist_new_ready] by auto
    have "\<exists>r'. IndexQueryResults_new q (Some p) = Some r' \<and> query_rep p E r' (filter P xs)"
      by (rule IndexQueryResults_new_rep) (use q(2) v in \<open>auto simp: plist_ready_view sorted_wrt_filter\<close>)
    with False q(1) show ?thesis
      by (simp add: IndexQueryResults_filter_def v(1,4) false_positive_rep[OF d v(3)])
  qed
qed

lemma rewrite_inner_same:
  "list_all (\<lambda>c. c s \<noteq> None) checks \<Longrightarrow> rewrite_inner checks i s q = Some q"
  by (induction checks) auto

lemma rewrite_values_same:
  "\<forall>i \<in> set xs. \<exists>s. spool_str sp i = Some s \<and> list_all (\<lambda>c. c s \<noteq> None) checks \<Longrightarrow> rewrite_values checks sp xs q = Some q"
proof (induction xs)
  case (Cons x xs)
  then obtain s where "spool_str sp x = Some s" "list_all (\<lambda>c. c s \<noteq> None) checks" by auto
  with Cons show ?case by (simp add: rewrite_inner_same)
qed simp

text \<open>The filter for several values: everything stays when every series has one of the values, and
  nothing when one has none of them.\<close>

lemma filter_all_rep:
  assumes d: "\<forall>c \<in> set checks. \<exists>P. decides c p E P" "decides (any_check checks) p E P" and r: "query_rep p E r xs"
  shows "\<exists>r'. IndexQueryResults_filter_all checks r = Some r' \<and>
    query_rep p E r' (if list_all P xs then xs else [])"
proof -
  have v: "plist_values (qr_postinglist r) = Some xs" "sorted xs" "set xs \<subseteq> fst ` set E" "qr_spool r = Some p"
    using r by (auto simp: query_rep_def plist_values_ok)
  show ?thesis
  proof (cases "list_all P xs")
    case True
    with IndexQueryResults_copy_rep[OF r] show ?thesis
      by (simp add: IndexQueryResults_filter_all_def v(1,4) false_positive_rep[OF d(2) v(3)])
  next
    case False
    have "rewrite_values checks (Some p) xs CompressedPList_new = Some CompressedPList_new"
    proof (rule rewrite_values_same, rule ballI)
      fix i assume "i \<in> set xs"
      then have i: "i \<in> fst ` set E" using v(3) by blast
      then obtain s where s: "spool_str (Some p) i = Some s" using decidesD[OF d(2)] by blast
      have "list_all (\<lambda>c. c s \<noteq> None) checks"
        unfolding list.pred_set using d(1) decidesD[OF _ i] s by fastforce
      with s show "\<exists>s. spool_str (Some p) i = Some s \<and> list_all (\<lambda>c. c s \<noteq> None) checks" by blast
    qed
    moreover have "\<exists>r'. IndexQueryResults_new CompressedPList_new (Some p) = Some r' \<and> query_rep p E r' []"
      by (rule IndexQueryResults_new_rep) (simp_all add: plist_ready_view)
    ultimately show ?thesis
      using False by (simp add: IndexQueryResults_filter_all_def v(1,4) false_positive_rep[OF d(2) v(3)])
  qed
qed

text \<open>The checks of the query nodes.\<close>

definition has_metric :: "entry list \<Rightarrow> str \<Rightarrow> u64 \<Rightarrow> bool" where
  "has_metric E m i \<longleftrightarrow> (\<exists>ts. (i, m, ts) \<in> set E)"

definition has_tag :: "entry list \<Rightarrow> str \<Rightarrow> u64 \<Rightarrow> bool" where
  "has_tag E t i \<longleftrightarrow> (\<exists>m ts. (i, m, ts) \<in> set E \<and> t \<in> set ts)"

lemma decides_metric:
  assumes n: "named p E"
  shows "decides (MetricName_check m) p E (has_metric E m)"
  unfolding decides_def
proof
  fix i assume "i \<in> fst ` set E"
  then obtain m' ts where e: "(i, m', ts) \<in> set E" by auto
  note a = named_entry[OF n e]
  have "has_metric E m i \<longleftrightarrow> m' = m" unfolding has_metric_def using named_unique[OF n e] e by blast
  with a show "\<exists>s. spool_str (Some p) i = Some s \<and> MetricName_check m s = Some (has_metric E m i)"
    using MetricName_check_plain[of m' ts m] by (auto simp: plain_tags_def)
qed

lemma decides_tag:
  assumes n: "named p E"
  shows "decides (TagValuePair_check t) p E (has_tag E t)"
  unfolding decides_def
proof
  fix i assume "i \<in> fst ` set E"
  then obtain m ts where e: "(i, m, ts) \<in> set E" by auto
  note a = named_entry[OF n e]
  have "has_tag E t i \<longleftrightarrow> t \<in> set ts" unfolding has_tag_def using named_unique[OF n e] e by blast
  with a show "\<exists>s. spool_str (Some p) i = Some s \<and> TagValuePair_check t s = Some (has_tag E t i)"
    using TagValuePair_check_plain[of m ts t] by (auto simp: plain_tags_def)
qed

lemma any_check_decides:
  assumes "\<And>c P. (c, P) \<in> set cps \<Longrightarrow> decides c p E P" and "named p E"
  shows "decides (any_check (map fst cps)) p E (\<lambda>i. \<exists>P \<in> snd ` set cps. P i)"
  unfolding decides_def
proof
  fix i assume i: "i \<in> fst ` set E"
  then obtain m ts where "(i, m, ts) \<in> set E" by auto
  from named_entry(3)[OF assms(2) this] have s: "spool_str (Some p) i = Some (m @ tagline ts)" .
  have "any_check (map fst cps) (m @ tagline ts) = Some (\<exists>P \<in> snd ` set cps. P i)"
    using assms(1)
  proof (induction cps)
    case (Cons cp cps)
    have "fst cp (m @ tagline ts) = Some (snd cp i)"
      using decidesD[OF Cons.prems[of "fst cp" "snd cp"] i] s by auto
    with Cons show ?case by auto
  qed simp
  with s show "\<exists>s. spool_str (Some p) i = Some s \<and> any_check (map fst cps) s = Some (\<exists>P \<in> snd ` set cps. P i)" by blast
qed

lemma decides_any_tag:
  assumes n: "named p E"
  shows "decides (any_check (map TagValuePair_check pairs)) p E (\<lambda>i. \<exists>t \<in> set pairs. has_tag E t i)"
proof -
  let ?cps = "map (\<lambda>t. (TagValuePair_check t, has_tag E t)) pairs"
  have "decides (any_check (map fst ?cps)) p E (\<lambda>i. \<exists>P \<in> snd ` set ?cps. P i)"
    by (rule any_check_decides) (auto simp: decides_tag[OF n] n)
  then show ?thesis by (simp add: comp_def image_image)
qed

subsection \<open>The ids under a hash\<close>

lemma sorted_metric_ids: "sorted_wrt (<) (map fst E) \<Longrightarrow> sorted_wrt (<) (metric_ids E h)"
  unfolding metric_ids_def by (simp add: sorted_wrt_map sorted_wrt_filter)

lemma set_metric_ids: "set (metric_ids E h) = {i. \<exists>m ts. (i, m, ts) \<in> set E \<and> StringTools_hash m = h}"
  by (force simp: metric_ids_def)

lemma set_tag_ids: "set (tag_ids E h) = {i. \<exists>m ts. (i, m, ts) \<in> set E \<and> h \<in> StringTools_hash ` set ts}"
  by (fastforce simp: tag_ids_def)

lemma sorted_tag_ids: "sorted_wrt (<) (map fst E) \<Longrightarrow> sorted (tag_ids E h)"
proof (induction E)
  case (Cons e E)
  obtain i m ts where e: "e = (i, m, ts)" by (cases e)
  have "\<forall>y \<in> set (tag_ids E h). i \<le> y" using Cons.prems e by (fastforce simp: set_tag_ids)
  moreover have "sorted (map (\<lambda>_. i) xs)" for xs :: "u64 list" by (induction xs) auto
  moreover have "tag_ids (e # E) h = map (\<lambda>_. i) (filter (\<lambda>k. k = h) (map StringTools_hash ts)) @ tag_ids E h"
    by (simp add: tag_ids_def e)
  ultimately show ?case using Cons by (auto simp: sorted_append)
qed (simp add: tag_ids_def)

lemma strict_sorted_sorted: "sorted_wrt (<) (xs :: u64 list) \<Longrightarrow> sorted xs"
  by (simp add: strict_sorted_iff)

lemma fold_inter_ids:
  "sorted_wrt (<) (map fst E) \<Longrightarrow> sorted_wrt (<) xs \<Longrightarrow>
   sorted_wrt (<) (foldl (\<lambda>xs t. set_intersection xs (tag_ids E (StringTools_hash t))) xs ts) \<and>
   set (foldl (\<lambda>xs t. set_intersection xs (tag_ids E (StringTools_hash t))) xs ts) =
     set xs \<inter> {i. \<forall>t \<in> set ts. i \<in> set (tag_ids E (StringTools_hash t))}"
  by (induction ts arbitrary: xs)
    (auto simp: sorted_set_intersection set_set_intersection strict_sorted_sorted sorted_tag_ids)

lemma fold_diff_ids:
  "sorted_wrt (<) (map fst E) \<Longrightarrow> sorted_wrt (<) xs \<Longrightarrow>
   sorted_wrt (<) (foldl (\<lambda>xs t. set_difference xs (tag_ids E (StringTools_hash t))) xs ts) \<and>
   set (foldl (\<lambda>xs t. set_difference xs (tag_ids E (StringTools_hash t))) xs ts) =
     set xs - (\<Union>t \<in> set ts. set (tag_ids E (StringTools_hash t)))"
  by (induction ts arbitrary: xs) (auto simp: sorted_set_difference set_set_difference sorted_tag_ids)

text \<open>A series with the metric whose id is under the hash of every tag has tags with these hashes.\<close>

lemma candidates:
  assumes n: "named p E"
    and ys: "set ys = set (metric_ids E (StringTools_hash m)) \<inter> {i. \<forall>t \<in> set pairs. i \<in> set (tag_ids E (StringTools_hash t))}"
  shows "set (filter (has_metric E m) ys) =
    {i. \<exists>ts. (i, m, ts) \<in> set E \<and> StringTools_hash ` set pairs \<subseteq> StringTools_hash ` set ts}" (is "?l = ?r")
proof
  show "?l \<subseteq> ?r"
  proof
    fix i assume "i \<in> ?l"
    then obtain ts where ts: "(i, m, ts) \<in> set E" and t: "\<forall>t \<in> set pairs. i \<in> set (tag_ids E (StringTools_hash t))"
      by (auto simp: ys has_metric_def)
    have "StringTools_hash ` set pairs \<subseteq> StringTools_hash ` set ts"
      using t named_unique[OF n ts] by (fastforce simp: set_tag_ids)
    with ts show "i \<in> ?r" by blast
  qed
  show "?r \<subseteq> ?l" unfolding set_filter ys has_metric_def set_metric_ids set_tag_ids by blast
qed

subsection \<open>Queries over any index\<close>

locale index_lookup =
  fixes mk :: "'i \<Rightarrow> index_base" and pool_of :: "'i \<Rightarrow> string_pool" and rep :: "'i \<Rightarrow> entry list \<Rightarrow> bool"
  assumes names: "rep ix E \<Longrightarrow> named (pool_of ix) E"
    and metric: "rep ix E \<Longrightarrow> \<exists>r. ib_metric_query (mk ix) m = Some r \<and>
      query_rep (pool_of ix) E r (metric_ids E (StringTools_hash m))"
    and tag: "rep ix E \<Longrightarrow> \<exists>r. ib_tagvalue_query (mk ix) t = Some r \<and>
      query_rep (pool_of ix) E r (tag_ids E (StringTools_hash t))"
begin

lemma fold_rep:
  assumes step: "\<And>r xs q ys. query_rep (pool_of ix) E r xs \<Longrightarrow> query_rep (pool_of ix) E q ys \<Longrightarrow>
      \<exists>s. f r q = Some s \<and> query_rep (pool_of ix) E s (g xs ys)"
    and ix: "rep ix E"
  shows "query_rep (pool_of ix) E r xs \<Longrightarrow> \<exists>r'. fold_query f (ib_tagvalue_query (mk ix)) ts r = Some r' \<and>
    query_rep (pool_of ix) E r' (foldl (\<lambda>xs t. g xs (tag_ids E (StringTools_hash t))) xs ts)"
proof (induction ts arbitrary: r xs)
  case (Cons t ts)
  obtain q where q: "ib_tagvalue_query (mk ix) t = Some q" "query_rep (pool_of ix) E q (tag_ids E (StringTools_hash t))"
    using tag[OF ix] by blast
  obtain s where s: "f r q = Some s" "query_rep (pool_of ix) E s (g xs (tag_ids E (StringTools_hash t)))"
    using step[OF Cons.prems q(2)] by blast
  with Cons.IH[OF s(2)] q(1) show ?case by simp
qed simp

lemma all_tags:
  assumes ix: "rep ix E"
  shows "\<exists>r xs. IncludeIfAllTagsMatch_query m pairs (mk ix) = Some r \<and> sorted_wrt (<) xs \<and>
    set xs = {i. \<exists>ts. (i, m, ts) \<in> set E \<and> StringTools_hash ` set pairs \<subseteq> StringTools_hash ` set ts} \<and>
    query_rep (pool_of ix) E r (if \<forall>i \<in> set xs. \<exists>t \<in> set pairs. has_tag E t i then xs else [])"
proof -
  let ?p = "pool_of ix"
  have n: "named ?p E" by (rule names[OF ix])
  have so: "sorted_wrt (<) (map fst E)" using n by (simp add: named_def)
  obtain r0 where r0: "ib_metric_query (mk ix) m = Some r0" "query_rep ?p E r0 (metric_ids E (StringTools_hash m))"
    using metric[OF ix] by blast
  define ys where "ys = foldl (\<lambda>xs t. set_intersection xs (tag_ids E (StringTools_hash t))) (metric_ids E (StringTools_hash m)) pairs"
  obtain r1 where r1: "fold_query IndexQueryResults_intersection (ib_tagvalue_query (mk ix)) pairs r0 = Some r1" "query_rep ?p E r1 ys"
    using fold_rep[of ix E IndexQueryResults_intersection set_intersection, OF query_ops_rep(1) ix r0(2)]
    unfolding ys_def by blast
  obtain r2 where r2: "IndexQueryResults_filter (MetricName_check m) r1 = Some r2" "query_rep ?p E r2 (filter (has_metric E m) ys)"
    using IndexQueryResults_filter_rep[OF decides_metric[OF n] r1(2)] by blast
  have dec: "\<forall>c \<in> set (map TagValuePair_check pairs). \<exists>P. decides c ?p E P" using decides_tag[OF n] by auto
  obtain r3 where r3: "IndexQueryResults_filter_all (map TagValuePair_check pairs) r2 = Some r3"
    "query_rep ?p E r3 (if list_all (\<lambda>i. \<exists>t \<in> set pairs. has_tag E t i) (filter (has_metric E m) ys)
       then filter (has_metric E m) ys else [])"
    using filter_all_rep[OF dec decides_any_tag[OF n] r2(2)] by blast
  have ys: "sorted_wrt (<) ys"
    "set ys = set (metric_ids E (StringTools_hash m)) \<inter> {i. \<forall>t \<in> set pairs. i \<in> set (tag_ids E (StringTools_hash t))}"
    using fold_inter_ids[OF so sorted_metric_ids[OF so]] unfolding ys_def by blast+
  have "set (filter (has_metric E m) ys) =
      {i. \<exists>ts. (i, m, ts) \<in> set E \<and> StringTools_hash ` set pairs \<subseteq> StringTools_hash ` set ts}"
    by (rule candidates[OF n ys(2)])
  moreover have "sorted_wrt (<) (filter (has_metric E m) ys)" using ys(1) by (rule sorted_wrt_filter)
  moreover have "IncludeIfAllTagsMatch_query m pairs (mk ix) = Some r3"
    by (simp add: IncludeIfAllTagsMatch_query_def r0(1) r1(1) r2(1) r3(1))
  ultimately show ?thesis
    using r3(2) unfolding list.pred_set by blast
qed

lemma exclude:
  assumes ix: "rep ix E"
  shows "\<exists>r xs. ExcludeTags_query m pairs (mk ix) = Some r \<and> query_rep (pool_of ix) E r xs \<and> sorted_wrt (<) xs \<and>
    set xs = {i. \<exists>ts. (i, m, ts) \<in> set E \<and> StringTools_hash ` set pairs \<inter> StringTools_hash ` set ts = {}}"
proof -
  let ?p = "pool_of ix"
  have n: "named ?p E" by (rule names[OF ix])
  have so: "sorted_wrt (<) (map fst E)" using n by (simp add: named_def)
  obtain r0 where r0: "ib_metric_query (mk ix) m = Some r0" "query_rep ?p E r0 (metric_ids E (StringTools_hash m))"
    using metric[OF ix] by blast
  define ys where "ys = foldl (\<lambda>xs t. set_difference xs (tag_ids E (StringTools_hash t))) (metric_ids E (StringTools_hash m)) pairs"
  obtain r1 where r1: "fold_query IndexQueryResults_difference (ib_tagvalue_query (mk ix)) pairs r0 = Some r1" "query_rep ?p E r1 ys"
    using fold_rep[of ix E IndexQueryResults_difference set_difference, OF query_ops_rep(2) ix r0(2)]
    unfolding ys_def by blast
  obtain r2 where r2: "IndexQueryResults_filter (MetricName_check m) r1 = Some r2" "query_rep ?p E r2 (filter (has_metric E m) ys)"
    using IndexQueryResults_filter_rep[OF decides_metric[OF n] r1(2)] by blast
  have ys: "sorted_wrt (<) ys"
    "set ys = set (metric_ids E (StringTools_hash m)) - (\<Union>t \<in> set pairs. set (tag_ids E (StringTools_hash t)))"
    using fold_diff_ids[OF so sorted_metric_ids[OF so]] unfolding ys_def by blast+
  have "set (filter (has_metric E m) ys) =
      {i. \<exists>ts. (i, m, ts) \<in> set E \<and> StringTools_hash ` set pairs \<inter> StringTools_hash ` set ts = {}}" (is "?l = ?r")
  proof
    show "?l \<subseteq> ?r" by (fastforce simp: ys has_metric_def set_tag_ids)
    show "?r \<subseteq> ?l"
    proof
      fix i assume "i \<in> ?r"
      then obtain ts where ts: "(i, m, ts) \<in> set E" "StringTools_hash ` set pairs \<inter> StringTools_hash ` set ts = {}" by blast
      have "i \<notin> set (tag_ids E (StringTools_hash t))" if "t \<in> set pairs" for t
        using named_unique[OF n ts(1)] ts(2) that by (fastforce simp: set_tag_ids)
      with ts(1) show "i \<in> ?l" by (auto simp: ys has_metric_def set_metric_ids)
    qed
  qed
  moreover have "sorted_wrt (<) (filter (has_metric E m) ys)" using ys(1) by (rule sorted_wrt_filter)
  moreover have "ExcludeTags_query m pairs (mk ix) = Some r2"
    by (simp add: ExcludeTags_query_def r0(1) r1(1) r2(1))
  ultimately show ?thesis using r2(2) by blast
qed

end

interpretation series_queries: index_lookup "Index_base ord" ix_pool index_rep
proof
  fix ix E assume r: "index_rep ix E"
  then show "named (ix_pool ix) E" by (auto simp: index_rep_def named_def)
  have so: "sorted_wrt (<) (map fst E)" using r by (simp add: index_rep_def)
  fix m
  obtain q where q: "InvertedIndex_extract (StringTools_hash m) (ix_metrics_names ix) = Some q"
    "plist_view q (metric_ids E (StringTools_hash m))"
    using InvertedIndex_extract_rep r unfolding index_rep_def by blast
  have "\<exists>r. IndexQueryResults_new q (Some (ix_pool ix)) = Some r \<and> query_rep (ix_pool ix) E r (metric_ids E (StringTools_hash m))"
    by (rule IndexQueryResults_new_rep[OF q(2)])
      (use strict_sorted_sorted[OF sorted_metric_ids[OF so]] in \<open>auto simp: set_metric_ids image_iff, metis fst_conv\<close>)
  then show "\<exists>r. ib_metric_query (Index_base ord ix) m = Some r \<and> query_rep (ix_pool ix) E r (metric_ids E (StringTools_hash m))"
    by (simp add: Index_base_def Index_metric_query_def q(1))
next
  fix ix E t assume r: "index_rep ix E"
  have so: "sorted_wrt (<) (map fst E)" using r by (simp add: index_rep_def)
  obtain q where q: "InvertedIndex_extract (StringTools_hash t) (ix_tagvalue_pairs ix) = Some q"
    "plist_view q (tag_ids E (StringTools_hash t))"
    using InvertedIndex_extract_rep r unfolding index_rep_def by blast
  have "\<exists>r. IndexQueryResults_new q (Some (ix_pool ix)) = Some r \<and> query_rep (ix_pool ix) E r (tag_ids E (StringTools_hash t))"
    by (rule IndexQueryResults_new_rep[OF q(2)])
      (use sorted_tag_ids[OF so] in \<open>auto simp: set_tag_ids image_iff, metis fst_conv\<close>)
  then show "\<exists>r. ib_tagvalue_query (Index_base ord ix) t = Some r \<and> query_rep (ix_pool ix) E r (tag_ids E (StringTools_hash t))"
    by (simp add: Index_base_def Index_tagvalue_query_def q(1))
qed

subsection \<open>The names of a result\<close>

lemma spool_strs_entries:
  assumes "named p E"
  shows "set xs \<subseteq> fst ` set E \<Longrightarrow> sorted_wrt (<) xs \<Longrightarrow> \<exists>ns. spool_strs (Some p) xs = Some ns \<and> distinct ns \<and>
    set ns = {m @ tagline ts | i m ts. i \<in> set xs \<and> (i, m, ts) \<in> set E}"
proof (induction xs)
  case (Cons x xs)
  obtain m ts where e: "(x, m, ts) \<in> set E" using Cons.prems(1) by auto
  obtain ns where ns: "spool_strs (Some p) xs = Some ns" "distinct ns"
    "set ns = {m @ tagline ts | i m ts. i \<in> set xs \<and> (i, m, ts) \<in> set E}" using Cons by auto
  have x: "x \<notin> set xs" using Cons.prems(2) by auto
  have inj: "inj_on entry_name (set E)" using assms by (simp add: named_def distinct_map)
  have "m @ tagline ts \<notin> set ns"
  proof
    assume "m @ tagline ts \<in> set ns"
    then obtain i m' ts' where i: "i \<in> set xs" "(i, m', ts') \<in> set E" "m @ tagline ts = m' @ tagline ts'"
      using ns(3) by blast
    then have "(x, m, ts) = (i, m', ts')" using inj e by (intro inj_onD[OF inj]) (auto simp: entry_name_def)
    with i x show False by simp
  qed
  moreover have "set ((m @ tagline ts) # ns) = {m @ tagline ts | i m ts. i \<in> set (x # xs) \<and> (i, m, ts) \<in> set E}"
    using ns(3) e named_unique[OF assms e] by auto
  ultimately show ?case using ns(1,2) named_entry(3)[OF assms e] by simp
qed simp

lemma query_names_rep:
  assumes "index_rep ix E" and "query_rep (ix_pool ix) E r xs" and "sorted_wrt (<) xs"
  shows "\<exists>ns. query_names r = Some ns \<and> distinct ns \<and>
    set ns = {m @ tagline ts | i m ts. i \<in> set xs \<and> (i, m, ts) \<in> set E}"
proof -
  have "named (ix_pool ix) E" using assms(1) by (rule series_queries.names)
  moreover have "plist_values (qr_postinglist r) = Some xs" "qr_spool r = Some (ix_pool ix)" "set xs \<subseteq> fst ` set E"
    using assms(2) by (auto simp: query_rep_def plist_values_ok)
  ultimately show ?thesis using spool_strs_entries[OF _ _ assms(3)] by (simp add: query_names_def)
qed

subsection \<open>Queries after any appends\<close>

lemma appended_entries:
  assumes "list_all2 plain_name ns ss" and "length ns < 2 ^ 32"
  obtains ix E where "index_append_all ss Index_new = Some ix" "index_rep ix E" "snd ` set E = sort_name ` set ns"
  using index_append_all_rep[OF assms(1) Index_new_rep] assms(2) by auto

text \<open>The names of a set of entries, as the canonical forms of the names that were appended.\<close>

lemma entry_names:
  assumes E: "snd ` set E = sort_name ` set ns" and P: "\<And>ts. P (sort_key key_rank ts) \<longleftrightarrow> P ts"
    and xs: "set xs = {i. \<exists>ts. (i, m, ts) \<in> set E \<and> P ts}" and n: "named p E"
  shows "{m' @ tagline ts | i m' ts. i \<in> set xs \<and> (i, m', ts) \<in> set E} = {canonical m ts | ts. (m, ts) \<in> set ns \<and> P ts}"
    (is "?l = ?r")
proof
  show "?l \<subseteq> ?r"
  proof
    fix s assume "s \<in> ?l"
    then obtain i m' ts us where a: "s = m' @ tagline ts" "(i, m', ts) \<in> set E" "(i, m, us) \<in> set E" "P us"
      using xs by blast
    have e: "(m', ts) = (m, us)" by (rule named_unique[OF n a(2,3)])
    have "(m, us) \<in> sort_name ` set ns" using a(3) E by (metis image_eqI snd_conv)
    then obtain vs where "(m, vs) \<in> set ns" "us = sort_key key_rank vs" by (auto simp: sort_name_def)
    with a e P show "s \<in> ?r" by (auto simp: canonical_tagline)
  qed
  show "?r \<subseteq> ?l"
  proof
    fix s assume "s \<in> ?r"
    then obtain ts where a: "s = canonical m ts" "(m, ts) \<in> set ns" "P ts" by blast
    then have "(m, sort_key key_rank ts) \<in> snd ` set E" unfolding E by (force simp: sort_name_def)
    then obtain i where i: "(i, m, sort_key key_rank ts) \<in> set E" by auto
    then have "i \<in> set xs" unfolding xs using a(3) P by blast
    with i a(1) show "s \<in> ?l" unfolding canonical_tagline by blast
  qed
qed

lemma entry_tags:
  assumes "snd ` set E = sort_name ` set ns" "(i, m, ts) \<in> set E"
  shows "\<exists>us. (m, us) \<in> set ns \<and> set us = set ts"
proof -
  have "(m, ts) \<in> sort_name ` set ns" using assms by (metis image_eqI snd_conv)
  then obtain us where "(m, us) \<in> set ns" "ts = sort_key key_rank us" by (auto simp: sort_name_def)
  then show ?thesis by auto
qed

definition no_collision :: "(str \<times> str list) list \<Rightarrow> str list \<Rightarrow> bool" where
  "no_collision ns pairs \<longleftrightarrow>
     (\<forall>n \<in> set ns. \<forall>t \<in> set (snd n). \<forall>p \<in> set pairs. StringTools_hash t = StringTools_hash p \<longrightarrow> t = p)"

lemma no_collision_tags:
  assumes "no_collision ns pairs" "snd ` set E = sort_name ` set ns" "(i, m, ts) \<in> set E" "t \<in> set pairs"
  shows "StringTools_hash t \<in> StringTools_hash ` set ts \<longleftrightarrow> t \<in> set ts"
proof -
  obtain us where us: "(m, us) \<in> set ns" "set us = set ts" using entry_tags[OF assms(2,3)] by blast
  have "u = t" if "u \<in> set ts" "StringTools_hash u = StringTools_hash t" for u
    using assms(1,4) us that unfolding no_collision_def by fastforce
  then show ?thesis by force
qed

lemma no_collision_subset:
  assumes "no_collision ns pairs" "snd ` set E = sort_name ` set ns" "(i, m, ts) \<in> set E"
  shows "StringTools_hash ` set pairs \<subseteq> StringTools_hash ` set ts \<longleftrightarrow> set pairs \<subseteq> set ts"
  unfolding image_subset_iff using no_collision_tags[OF assms] by auto

lemma all_tags_names:
  assumes ix: "index_rep ix E" "snd ` set E = sort_name ` set ns" and ne: "pairs \<noteq> []" and nc: "no_collision ns pairs"
  shows "\<exists>r rs. IncludeIfAllTagsMatch_query m pairs (Index_base ord ix) = Some r \<and> query_names r = Some rs \<and> distinct rs \<and>
    set rs = {canonical m ts | ts. (m, ts) \<in> set ns \<and> set pairs \<subseteq> set ts}"
proof -
  obtain r xs where r: "IncludeIfAllTagsMatch_query m pairs (Index_base ord ix) = Some r" "sorted_wrt (<) xs"
    "set xs = {i. \<exists>ts. (i, m, ts) \<in> set E \<and> StringTools_hash ` set pairs \<subseteq> StringTools_hash ` set ts}"
    "query_rep (ix_pool ix) E r (if \<forall>i \<in> set xs. \<exists>t \<in> set pairs. has_tag E t i then xs else [])"
    using series_queries.all_tags[OF ix(1), where ord = ord and m = m and pairs = pairs] by (elim exE conjE)
  have xs: "set xs = {i. \<exists>ts. (i, m, ts) \<in> set E \<and> set pairs \<subseteq> set ts}"
    unfolding r(3) using no_collision_subset[OF nc ix(2)] by (simp cong: conj_cong)
  obtain t where t: "t \<in> set pairs" using ne by (cases pairs) auto
  have "\<forall>i \<in> set xs. \<exists>t \<in> set pairs. has_tag E t i"
    unfolding xs has_tag_def using t by blast
  with r(4) have "query_rep (ix_pool ix) E r xs" by simp
  from query_names_rep[OF ix(1) this r(2)] obtain rs where "query_names r = Some rs" "distinct rs"
    "set rs = {m @ tagline ts | i m ts. i \<in> set xs \<and> (i, m, ts) \<in> set E}" by blast
  moreover have "\<dots> = {canonical m ts | ts. (m, ts) \<in> set ns \<and> set pairs \<subseteq> set ts}"
    by (rule entry_names[OF ix(2) _ xs series_queries.names[OF ix(1)]]) simp
  ultimately show ?thesis by (intro exI[of _ r] exI[of _ rs]) (simp add: r(1))
qed

text \<open>C7. Append any plain names, in any spelling, to a new index.  When no tag of theirs has the hash of
  another tag of the query, \<open>IncludeIfAllTagsMatch\<close> with at least one tag returns exactly the canonical
  names with the metric and all tags of the query, each once.\<close>

theorem all_tags_query_exact:
  assumes "list_all2 plain_name ns ss" and "length ns < 2 ^ 32" and "pairs \<noteq> []" and "no_collision ns pairs"
  shows "\<exists>ix r rs. index_append_all ss Index_new = Some ix \<and>
    IncludeIfAllTagsMatch_query m pairs (Index_base ord ix) = Some r \<and> query_names r = Some rs \<and> distinct rs \<and>
    set rs = {canonical m ts | ts. (m, ts) \<in> set ns \<and> set pairs \<subseteq> set ts}"
proof -
  obtain ix E where ix: "index_append_all ss Index_new = Some ix" "index_rep ix E" "snd ` set E = sort_name ` set ns"
    using appended_entries[OF assms(1,2)] .
  show ?thesis
    using all_tags_names[OF ix(2,3) assms(3,4), where m = m and ord = ord]
    by (intro exI[of _ ix]) (simp add: ix(1))
qed

definition demo_names :: "(str \<times> str list) list" where
  "demo_names = [([109], [[97, 61, 49], [98, 61, 50]]), ([109], [[98, 61, 51], [97, 61, 49]]), ([110], [[97, 61, 49]])]"

definition demo_spell :: "(str \<times> str list) list \<Rightarrow> str list" where
  "demo_spell ns = map (\<lambda>n. fst n @ tagline (snd n)) ns"

lemma spelled_tagline: "spelled m ts (m @ tagline ts)"
proof -
  have "tagline ts = spell (zip (map (\<lambda>_. [ch_space]) ts) ts) []" by (induction ts) auto
  then show ?thesis
    unfolding spelled_def
    by (intro exI[of _ "[]"] exI[of _ "map (\<lambda>_. [ch_space]) ts"]) (simp add: blanks_def gap_def list.pred_set)
qed

lemma demo_spell_plain:
  "list_all (\<lambda>n. plain_metric (fst n) \<and> plain_tags (snd n) \<and> length (fst n @ tagline (snd n)) \<le> LIMITS_MAX_SNAME) ns \<Longrightarrow>
   list_all2 plain_name ns (demo_spell ns)"
  by (induction ns) (auto simp: demo_spell_def plain_name_def spelled_tagline)

theorem all_tags_query_exact_witness:
  "\<exists>ix r rs. index_append_all (demo_spell demo_names) Index_new = Some ix \<and>
    IncludeIfAllTagsMatch_query [109] [[97, 61, 49]] (Index_base (\<lambda>ks. ks) ix) = Some r \<and> query_names r = Some rs \<and>
    distinct rs \<and> set rs = {canonical [109] [[97, 61, 49], [98, 61, 50]], canonical [109] [[98, 61, 51], [97, 61, 49]]}"
proof -
  have "list_all2 plain_name demo_names (demo_spell demo_names)"
    by (rule demo_spell_plain) code_simp
  moreover have "no_collision demo_names [[97, 61, 49]]" by code_simp
  moreover have "{canonical [109] ts | ts. ([109], ts) \<in> set demo_names \<and> set [[97, 61, 49]] \<subseteq> set ts} =
      {canonical [109] [[97, 61, 49], [98, 61, 50]], canonical [109] [[98, 61, 51], [97, 61, 49]]}"
    by (auto simp: demo_names_def)
  ultimately show ?thesis
    using all_tags_query_exact[of demo_names "demo_spell demo_names" "[[97, 61, 49]]" "[109]" "\<lambda>ks. ks"]
    by (simp add: demo_names_def)
qed

lemma no_collision_disjoint:
  assumes "no_collision ns pairs" "snd ` set E = sort_name ` set ns" "(i, m, ts) \<in> set E"
  shows "StringTools_hash ` set pairs \<inter> StringTools_hash ` set ts = {} \<longleftrightarrow> set pairs \<inter> set ts = {}"
  using no_collision_tags[OF assms] by blast

text \<open>C10. Append any plain names to a new index.  When no tag of theirs has the hash of another tag of the
  query, \<open>ExcludeTags\<close> returns exactly the canonical names with the metric that have none of the tags of
  the query, each once.\<close>

theorem exclude_query_exact:
  assumes "list_all2 plain_name ns ss" and "length ns < 2 ^ 32" and "no_collision ns pairs"
  shows "\<exists>ix r rs. index_append_all ss Index_new = Some ix \<and>
    ExcludeTags_query m pairs (Index_base ord ix) = Some r \<and> query_names r = Some rs \<and> distinct rs \<and>
    set rs = {canonical m ts | ts. (m, ts) \<in> set ns \<and> set pairs \<inter> set ts = {}}"
proof -
  obtain ix E where ix: "index_append_all ss Index_new = Some ix" "index_rep ix E" "snd ` set E = sort_name ` set ns"
    using appended_entries[OF assms(1,2)] .
  obtain r xs where r: "ExcludeTags_query m pairs (Index_base ord ix) = Some r" "query_rep (ix_pool ix) E r xs"
    "sorted_wrt (<) xs"
    "set xs = {i. \<exists>ts. (i, m, ts) \<in> set E \<and> StringTools_hash ` set pairs \<inter> StringTools_hash ` set ts = {}}"
    using series_queries.exclude[OF ix(2), where ord = ord and m = m and pairs = pairs] by (elim exE conjE)
  have xs: "set xs = {i. \<exists>ts. (i, m, ts) \<in> set E \<and> set pairs \<inter> set ts = {}}"
    unfolding r(4) using no_collision_disjoint[OF assms(3) ix(3)] by (simp cong: conj_cong)
  from query_names_rep[OF ix(2) r(2,3)] obtain rs where "query_names r = Some rs" "distinct rs"
    "set rs = {m @ tagline ts | i m ts. i \<in> set xs \<and> (i, m, ts) \<in> set E}" by blast
  moreover have "\<dots> = {canonical m ts | ts. (m, ts) \<in> set ns \<and> set pairs \<inter> set ts = {}}"
    by (rule entry_names[OF ix(3) _ xs series_queries.names[OF ix(2)]]) simp
  ultimately show ?thesis by (intro exI[of _ ix] exI[of _ r] exI[of _ rs]) (simp add: ix(1) r(1))
qed

theorem exclude_query_exact_witness:
  "\<exists>ix r rs. index_append_all (demo_spell demo_names) Index_new = Some ix \<and>
    ExcludeTags_query [109] [[98, 61, 51]] (Index_base (\<lambda>ks. ks) ix) = Some r \<and> query_names r = Some rs \<and>
    distinct rs \<and> set rs = {canonical [109] [[97, 61, 49], [98, 61, 50]]}"
proof -
  have "list_all2 plain_name demo_names (demo_spell demo_names)"
    by (rule demo_spell_plain) code_simp
  moreover have "no_collision demo_names [[98, 61, 51]]" by code_simp
  moreover have "{canonical [109] ts | ts. ([109], ts) \<in> set demo_names \<and> set [[98, 61, 51]] \<inter> set ts = {}} =
      {canonical [109] [[97, 61, 49], [98, 61, 50]]}"
    by (auto simp: demo_names_def)
  ultimately show ?thesis
    using exclude_query_exact[of demo_names "demo_spell demo_names" "[[98, 61, 51]]" "[109]" "\<lambda>ks. ks"]
    by (simp add: demo_names_def)
qed

text \<open>C8. One false positive empties the result of \<open>IncludeIfAllTagsMatch\<close>: when a series with the metric has,
  for every tag of the query, a tag with the same hash, but none of the tags of the query themselves, the
  query returns no name at all, whatever other series match.\<close>

theorem collision_empties_query:
  assumes "list_all2 plain_name ns ss" and "length ns < 2 ^ 32" and "(m, us) \<in> set ns"
    and "StringTools_hash ` set pairs \<subseteq> StringTools_hash ` set us" and "set pairs \<inter> set us = {}"
  shows "\<exists>ix r. index_append_all ss Index_new = Some ix \<and>
    IncludeIfAllTagsMatch_query m pairs (Index_base ord ix) = Some r \<and> query_names r = Some []"
proof -
  obtain ix E where ix: "index_append_all ss Index_new = Some ix" "index_rep ix E" "snd ` set E = sort_name ` set ns"
    using appended_entries[OF assms(1,2)] .
  obtain r xs where r: "IncludeIfAllTagsMatch_query m pairs (Index_base ord ix) = Some r" "sorted_wrt (<) xs"
    "set xs = {i. \<exists>ts. (i, m, ts) \<in> set E \<and> StringTools_hash ` set pairs \<subseteq> StringTools_hash ` set ts}"
    "query_rep (ix_pool ix) E r (if \<forall>i \<in> set xs. \<exists>t \<in> set pairs. has_tag E t i then xs else [])"
    using series_queries.all_tags[OF ix(2), where ord = ord and m = m and pairs = pairs] by (elim exE conjE)
  have "sort_name (m, us) \<in> snd ` set E" unfolding ix(3) using assms(3) by (rule imageI)
  then obtain i where i: "(i, m, sort_key key_rank us) \<in> set E" by (auto simp: sort_name_def)
  then have "i \<in> set xs"
    unfolding r(3) using assms(4) by (intro CollectI exI[of _ "sort_key key_rank us"]) simp
  moreover have "\<not> has_tag E t i" if "t \<in> set pairs" for t
  proof
    assume "has_tag E t i"
    then obtain m' ts where e: "(i, m', ts) \<in> set E" "t \<in> set ts" unfolding has_tag_def by blast
    have "(m, sort_key key_rank us) = (m', ts)" by (rule named_unique[OF series_queries.names[OF ix(2)] i e(1)])
    with e(2) that assms(5) show False by auto
  qed
  ultimately have "query_rep (ix_pool ix) E r []" using r(4) by (auto split: if_splits)
  from query_names_rep[OF ix(2) this] have "query_names r = Some []" by auto
  with ix(1) r(1) show ?thesis by blast
qed

text \<open>The tags \<open>t=ab\<close> and \<open>t=bA\<close> have the same hash.\<close>

theorem collision_empties_query_witness:
  "\<exists>ix r. index_append_all (demo_spell [([109], [[116, 61, 97, 98]]), ([109], [[116, 61, 98, 65]])]) Index_new = Some ix \<and>
    IncludeIfAllTagsMatch_query [109] [[116, 61, 97, 98]] (Index_base (\<lambda>ks. ks) ix) = Some r \<and> query_names r = Some []"
proof -
  let ?ns = "[([109], [[116, 61, 97, 98]]), ([109], [[116, 61, 98, 65]])] :: (str \<times> str list) list"
  have "list_all2 plain_name ?ns (demo_spell ?ns)" by (rule demo_spell_plain) code_simp
  moreover have "StringTools_hash [116, 61, 97, 98] = StringTools_hash [116, 61, 98, 65]" by code_simp
  ultimately show ?thesis
    using collision_empties_query[of ?ns "demo_spell ?ns" "[109]" "[[116, 61, 98, 65]]" "[[116, 61, 97, 98]]" "\<lambda>ks. ks"]
    by simp
qed

end
