(* ===== verification/SeriesMatcher.thy ===== *)
theory SeriesMatcher
  imports IndexQueries
begin

text \<open>
  \<open>SeriesMatcher\<close>, \<open>PlainSeriesMatcher\<close> and \<open>GroupByTag\<close> of \<^verbatim>\<open>index/seriesparser.h\<close> and
  \<^verbatim>\<open>index/seriesparser.cc\<close>: the tables between the names of the series and their ids.  An id is a
  64-bit pattern; ids of events are negative.  The mutexes are left out.
\<close>

type_synonym i64 = "64 word"

subsection \<open>SeriesMatcher\<close>

record series_matcher =
  sm_index :: series_index
  sm_table :: "(str \<times> i64) list"
  sm_inv_table :: "(i64 \<times> str) list"
  sm_series_id :: i64
  sm_names :: "(str \<times> i64) list"

definition SeriesMatcher_new :: "i64 \<Rightarrow> series_matcher option" where
  "SeriesMatcher_new starting_id =
     (if starting_id = 0 then None
      else Some \<lparr>sm_index = Index_new, sm_table = [], sm_inv_table = [], sm_series_id = starting_id, sm_names = []\<rparr>)"

text \<open>The first character is read before the name is parsed.\<close>

definition SeriesMatcher_add :: "str \<Rightarrow> series_matcher \<Rightarrow> (i64 \<times> series_matcher) option" where
  "SeriesMatcher_add s m = do {
     c \<leftarrow> at s 0;
     let prev_id = sm_series_id m;
     let m = m\<lparr>sm_series_id := sm_series_id m + 1\<rparr>;
     let i = (if c = 33 then - 1 * prev_id else prev_id);
     (status, sname, ix) \<leftarrow> Index_append s (sm_index m);
     let m = m\<lparr>sm_index := ix\<rparr>;
     if \<not> IsOk status then Some (0, m\<lparr>sm_series_id := i\<rparr>)
     else Some (i, m\<lparr>sm_table := AList.update sname i (sm_table m), sm_inv_table := AList.update i sname (sm_inv_table m),
                     sm_names := sm_names m @ [(sname, i)]\<rparr>) }"

definition SeriesMatcher_add_id :: "str \<Rightarrow> i64 \<Rightarrow> series_matcher \<Rightarrow> series_matcher option" where
  "SeriesMatcher_add_id s i m = do {
     (status, sname, ix) \<leftarrow> Index_append s (sm_index m);
     Some (m\<lparr>sm_index := ix, sm_table := AList.update sname i (sm_table m),
            sm_inv_table := AList.update i sname (sm_inv_table m)\<rparr>) }"

definition SeriesMatcher_add_string :: "str \<Rightarrow> i64 \<Rightarrow> series_matcher \<Rightarrow> series_matcher option" where
  "SeriesMatcher_add_string series i m = (if series = [] then Some m else SeriesMatcher_add_id series i m)"

definition SeriesMatcher_match :: "str \<Rightarrow> series_matcher \<Rightarrow> i64" where
  "SeriesMatcher_match s m = (case map_of (sm_table m) s of None \<Rightarrow> 0 | Some i \<Rightarrow> i)"

definition SeriesMatcher_id2str :: "i64 \<Rightarrow> series_matcher \<Rightarrow> str" where
  "SeriesMatcher_id2str i m = (case map_of (sm_inv_table m) i of None \<Rightarrow> [] | Some s \<Rightarrow> s)"

text \<open>The new names are swapped with the buffer of the caller.\<close>

definition SeriesMatcher_pull_new_names ::
  "(str \<times> i64) list \<Rightarrow> series_matcher \<Rightarrow> (str \<times> i64) list \<times> series_matcher" where
  "SeriesMatcher_pull_new_names buffer m = (sm_names m, m\<lparr>sm_names := buffer\<rparr>)"

definition SeriesMatcher_get_all_ids :: "series_matcher \<Rightarrow> i64 list" where
  "SeriesMatcher_get_all_ids m = sort_key sint (map fst (sm_inv_table m))"

primrec search_ids :: "(str \<times> i64) list \<Rightarrow> str list \<Rightarrow> (str \<times> i64) list option" where
  "search_ids table [] = Some []"
| "search_ids table (s # ss) = do {
     i \<leftarrow> map_of table s; rest \<leftarrow> search_ids table ss; Some ((s, i) # rest) }"

definition SeriesMatcher_search ::
  "table_order \<Rightarrow> (index_base \<Rightarrow> query_results option) \<Rightarrow> series_matcher \<Rightarrow> (str \<times> i64) list option" where
  "SeriesMatcher_search ord query m = do {
     resultset \<leftarrow> query (Index_base ord (sm_index m));
     names \<leftarrow> query_names resultset;
     search_ids (sm_table m) names }"

definition has_prefix :: "str \<Rightarrow> str \<Rightarrow> bool" where
  "has_prefix pre v \<longleftrightarrow> \<not> length v < length pre \<and> take (length pre) v = pre"

definition SeriesMatcher_suggest_metric :: "table_order \<Rightarrow> str \<Rightarrow> series_matcher \<Rightarrow> str list" where
  "SeriesMatcher_suggest_metric ord pre m =
     filter (has_prefix pre) (SeriesNameTopology_list_metric_names ord (ix_topology (sm_index m)))"

definition SeriesMatcher_suggest_tags :: "table_order \<Rightarrow> str \<Rightarrow> str \<Rightarrow> series_matcher \<Rightarrow> str list" where
  "SeriesMatcher_suggest_tags ord metric tag_prefix m =
     filter (has_prefix tag_prefix) (SeriesNameTopology_list_tags ord (ix_topology (sm_index m)) metric)"

definition SeriesMatcher_suggest_tag_values :: "table_order \<Rightarrow> str \<Rightarrow> str \<Rightarrow> str \<Rightarrow> series_matcher \<Rightarrow> str list" where
  "SeriesMatcher_suggest_tag_values ord metric tag value_prefix m =
     filter (has_prefix value_prefix) (SeriesNameTopology_list_tag_values ord (ix_topology (sm_index m)) metric tag)"

definition SeriesMatcher_pool_memory_use :: "series_matcher \<Rightarrow> nat" where
  "SeriesMatcher_pool_memory_use m = Index_pool_memory_use (sm_index m)"

subsection \<open>PlainSeriesMatcher\<close>

record plain_matcher =
  pm_pool :: string_pool
  pm_table :: "(str \<times> i64) list"
  pm_inv_table :: "(i64 \<times> str) list"
  pm_series_id :: i64
  pm_names :: "(str \<times> i64) list"

definition PlainSeriesMatcher_new :: "i64 \<Rightarrow> plain_matcher option" where
  "PlainSeriesMatcher_new starting_id =
     (if starting_id = 0 then None
      else Some \<lparr>pm_pool = StringPool_new, pm_table = [], pm_inv_table = [], pm_series_id = starting_id, pm_names = []\<rparr>)"

definition PlainSeriesMatcher_add_id :: "str \<Rightarrow> i64 \<Rightarrow> plain_matcher \<Rightarrow> plain_matcher" where
  "PlainSeriesMatcher_add_id s i m =
     (case LegacyStringPool_add s (pm_pool m) of (pstr, pool) \<Rightarrow>
        m\<lparr>pm_pool := pool, pm_table := AList.update pstr i (pm_table m),
          pm_inv_table := AList.update i pstr (pm_inv_table m)\<rparr>)"

definition PlainSeriesMatcher_add :: "str \<Rightarrow> plain_matcher \<Rightarrow> i64 \<times> plain_matcher" where
  "PlainSeriesMatcher_add s m =
     (let i = pm_series_id m;
          m = m\<lparr>pm_series_id := pm_series_id m + 1\<rparr>
      in case LegacyStringPool_add s (pm_pool m) of (pstr, pool) \<Rightarrow>
           (i, m\<lparr>pm_pool := pool, pm_table := AList.update pstr i (pm_table m),
                 pm_inv_table := AList.update i pstr (pm_inv_table m), pm_names := pm_names m @ [(pstr, i)]\<rparr>))"

definition PlainSeriesMatcher_add_string :: "str \<Rightarrow> i64 \<Rightarrow> plain_matcher \<Rightarrow> plain_matcher" where
  "PlainSeriesMatcher_add_string series i m = (if series = [] then m else PlainSeriesMatcher_add_id series i m)"

definition PlainSeriesMatcher_match :: "str \<Rightarrow> plain_matcher \<Rightarrow> i64" where
  "PlainSeriesMatcher_match s m = (case map_of (pm_table m) s of None \<Rightarrow> 0 | Some i \<Rightarrow> i)"

definition PlainSeriesMatcher_id2str :: "i64 \<Rightarrow> plain_matcher \<Rightarrow> str" where
  "PlainSeriesMatcher_id2str i m = (case map_of (pm_inv_table m) i of None \<Rightarrow> [] | Some s \<Rightarrow> s)"

definition PlainSeriesMatcher_pull_new_names ::
  "(str \<times> i64) list \<Rightarrow> plain_matcher \<Rightarrow> (str \<times> i64) list \<times> plain_matcher" where
  "PlainSeriesMatcher_pull_new_names buffer m = (pm_names m, m\<lparr>pm_names := buffer\<rparr>)"

definition PlainSeriesMatcher_get_all_ids :: "plain_matcher \<Rightarrow> i64 list" where
  "PlainSeriesMatcher_get_all_ids m = sort_key sint (map fst (pm_inv_table m))"

definition PlainSeriesMatcher_regex_match ::
  "regex \<Rightarrow> pool_offset \<Rightarrow> plain_matcher \<Rightarrow> ((str \<times> i64) list \<times> pool_offset \<times> nat) option" where
  "PlainSeriesMatcher_regex_match rx off m = do {
     (res, off, prevsize) \<leftarrow> LegacyStringPool_regex_match rx off (pm_pool m);
     series \<leftarrow> search_ids (pm_table m) res;
     Some (series, off, prevsize) }"

subsection \<open>GroupByTag\<close>

datatype group_by_op = PIVOT | GROUP

record group_by_tag =
  gb_ids :: "(param_id \<times> param_id) list"
  gb_metrics :: "str list"
  gb_funcs :: "str list"
  gb_tags :: "str list"
  gb_local_matcher :: plain_matcher
  gb_snames :: "str list"
  gb_type :: group_by_op

text \<open>The name with the function after the metric is copied to a buffer of \<open>LIMITS_MAX_SNAME\<close> characters.\<close>

definition add_func_name :: "str \<Rightarrow> str \<Rightarrow> str option" where
  "add_func_name fname name =
     (if ch_space \<in> set name
      then let str = takeWhile (\<lambda>c. c \<noteq> ch_space) name @ [58] @ fname @ dropWhile (\<lambda>c. c \<noteq> ch_space) name
           in if LIMITS_MAX_SNAME < length str then None else Some str
      else Some name)"

definition refresh_item :: "nat \<Rightarrow> group_by_tag \<Rightarrow> str \<times> i64 \<Rightarrow> group_by_tag option" where
  "refresh_item mindex g item =
     (case filter_tags (fst item) (gb_tags g) (gb_type g = GROUP) of
        Inl status \<Rightarrow> Some g
      | Inr result \<Rightarrow> do {
          result \<leftarrow> (if gb_funcs g \<noteq> [] then do { fname \<leftarrow> at (gb_funcs g) mindex; add_func_name fname result }
                     else Some result);
          if result \<notin> set (gb_snames g)
          then let (localid, lm) = PlainSeriesMatcher_add result (gb_local_matcher g);
                   str = PlainSeriesMatcher_id2str localid lm
               in Some (g\<lparr>gb_local_matcher := lm, gb_snames := List.insert str (gb_snames g),
                          gb_ids := AList.update (snd item) localid (gb_ids g)\<rparr>)
          else let localid = PlainSeriesMatcher_match result (gb_local_matcher g)
               in if localid = 0 then None
                  else Some (g\<lparr>gb_ids := AList.update (snd item) localid (gb_ids g)\<rparr>) })"

primrec refresh_items :: "nat \<Rightarrow> (str \<times> i64) list \<Rightarrow> group_by_tag \<Rightarrow> group_by_tag option" where
  "refresh_items mindex [] g = Some g"
| "refresh_items mindex (item # items) g = do { g \<leftarrow> refresh_item mindex g item; refresh_items mindex items g }"

primrec refresh_metrics ::
  "table_order \<Rightarrow> series_matcher \<Rightarrow> nat \<Rightarrow> str list \<Rightarrow> group_by_tag \<Rightarrow> group_by_tag option" where
  "refresh_metrics ord matcher mindex [] g = Some g"
| "refresh_metrics ord matcher mindex (metric # metrics) g = do {
     results \<leftarrow> SeriesMatcher_search ord (IncludeIfHasTag_query metric (gb_tags g)) matcher;
     g \<leftarrow> refresh_items mindex results g;
     refresh_metrics ord matcher (mindex + 1) metrics g }"

definition GroupByTag_refresh :: "table_order \<Rightarrow> series_matcher \<Rightarrow> group_by_tag \<Rightarrow> group_by_tag option" where
  "GroupByTag_refresh ord matcher g = refresh_metrics ord matcher 0 (gb_metrics g) g"

definition GroupByTag_new ::
  "table_order \<Rightarrow> series_matcher \<Rightarrow> str list \<Rightarrow> str list \<Rightarrow> str list \<Rightarrow> group_by_op \<Rightarrow> group_by_tag option" where
  "GroupByTag_new ord matcher metrics func_names tags op = do {
     lm \<leftarrow> PlainSeriesMatcher_new 1;
     GroupByTag_refresh ord matcher
       \<lparr>gb_ids = [], gb_metrics = metrics, gb_funcs = func_names, gb_tags = tags, gb_local_matcher = lm,
        gb_snames = [], gb_type = op\<rparr> }"

subsection \<open>Names and ids\<close>

primrec matcher_add_all :: "str list \<Rightarrow> series_matcher \<Rightarrow> (i64 list \<times> series_matcher) option" where
  "matcher_add_all [] m = Some ([], m)"
| "matcher_add_all (s # ss) m = do {
     (i, m) \<leftarrow> SeriesMatcher_add s m; (is, m) \<leftarrow> matcher_add_all ss m; Some (i # is, m) }"

text \<open>The ids of names added one after another: the counter, negated for a name that starts with an
  exclamation mark.\<close>

primrec event_ids :: "i64 \<Rightarrow> str list \<Rightarrow> i64 list" where
  "event_ids k [] = []"
| "event_ids k (s # ss) = (if hd s = 33 then - k else k) # event_ids (k + 1) ss"

definition matcher_rep :: "series_matcher \<Rightarrow> entry list \<Rightarrow> (str \<times> i64) list \<Rightarrow> bool" where
  "matcher_rep m E nis \<longleftrightarrow>
     index_rep (sm_index m) E \<and> entry_name ` set E = fst ` set nis \<and> map_of (sm_table m) = map_of (rev nis) \<and>
     map_of (sm_inv_table m) = map_of (rev (map prod.swap nis)) \<and> sm_names m = nis"

lemma entry_name_snd: "entry_name ` set E = (\<lambda>(m, ts). m @ tagline ts) ` snd ` set E"
  by (simp add: image_image entry_name_def case_prod_unfold)

lemma plain_name_nonempty: "plain_name n s \<Longrightarrow> s \<noteq> []"
  by (auto simp: plain_name_def spelled_def plain_metric_def)

lemma SeriesMatcher_add_rep:
  assumes r: "matcher_rep m E nis" and n: "plain_name (mt, ts) s" and len: "length E < 2 ^ 32 - 1"
  defines "i \<equiv> if hd s = 33 then - sm_series_id m else sm_series_id m"
  shows "\<exists>m' E'. SeriesMatcher_add s m = Some (i, m') \<and> matcher_rep m' E' (nis @ [(canonical mt ts, i)]) \<and>
    sm_series_id m' = sm_series_id m + 1 \<and> length E' \<le> length E + 1 \<and>
    snd ` set E' = insert (sort_name (mt, ts)) (snd ` set E)"
proof -
  have ix: "index_rep (sm_index m) E" using r by (simp add: matcher_rep_def)
  obtain ix' E' where a: "Index_append s (sm_index m) = Some (kOk, canonical mt ts, ix')" "index_rep ix' E'"
    "length E' \<le> length E + 1" "snd ` set E' = insert (sort_name (mt, ts)) (snd ` set E)"
    using Index_append_rep[OF ix n len] by blast
  let ?m = "m\<lparr>sm_series_id := sm_series_id m + 1, sm_index := ix', sm_table := AList.update (canonical mt ts) i (sm_table m),
     sm_inv_table := AList.update i (canonical mt ts) (sm_inv_table m), sm_names := sm_names m @ [(canonical mt ts, i)]\<rparr>"
  have "at s 0 = Some (hd s)" using plain_name_nonempty[OF n] by (simp add: hd_conv_nth)
  then have "SeriesMatcher_add s m = Some (i, ?m)"
    using a(1) by (simp add: SeriesMatcher_add_def i_def Let_def)
  moreover have "entry_name ` set E' = insert (canonical mt ts) (entry_name ` set E)"
    unfolding entry_name_snd a(4) by (simp add: sort_name_def canonical_tagline)
  then have "matcher_rep ?m E' (nis @ [(canonical mt ts, i)])"
    using r a(2) by (auto simp: matcher_rep_def update_conv')
  ultimately show ?thesis using a(3,4) by (intro exI[of _ ?m] exI[of _ E']) simp
qed

definition name_form :: "str \<times> str list \<Rightarrow> str" where
  "name_form n = canonical (fst n) (snd n)"

lemma matcher_add_all_rep:
  "list_all2 plain_name ns ss \<Longrightarrow> matcher_rep m E nis \<Longrightarrow> length E + length ns < 2 ^ 32 \<Longrightarrow>
   \<exists>m' E'. matcher_add_all ss m = Some (event_ids (sm_series_id m) ss, m') \<and>
     matcher_rep m' E' (nis @ zip (map name_form ns) (event_ids (sm_series_id m) ss)) \<and>
     snd ` set E' = snd ` set E \<union> sort_name ` set ns"
proof (induction ns ss arbitrary: m E nis rule: list_all2_induct)
  case (Cons n ns s ss)
  obtain mt ts where n: "n = (mt, ts)" by (cases n)
  have pn: "plain_name (mt, ts) s" using Cons.hyps n by simp
  let ?i = "if hd s = 33 then - sm_series_id m else sm_series_id m"
  have "length E < 2 ^ 32 - 1" using Cons.prems(2) by simp
  from SeriesMatcher_add_rep[OF Cons.prems(1) pn this]
  obtain m1 E1 where 1: "SeriesMatcher_add s m = Some (?i, m1)" "matcher_rep m1 E1 (nis @ [(name_form n, ?i)])"
    "sm_series_id m1 = sm_series_id m + 1" "length E1 \<le> length E + 1"
    "snd ` set E1 = insert (sort_name n) (snd ` set E)" unfolding n name_form_def by auto
  have "length E1 + length ns < 2 ^ 32" using 1(4) Cons.prems(2) by simp
  from Cons.IH[OF 1(2) this] obtain m' E' where
    "matcher_add_all ss m1 = Some (event_ids (sm_series_id m1) ss, m')"
    "matcher_rep m' E' ((nis @ [(name_form n, ?i)]) @ zip (map name_form ns) (event_ids (sm_series_id m1) ss))"
    "snd ` set E' = snd ` set E1 \<union> sort_name ` set ns" by blast
  with 1 show ?case by (intro exI[of _ m'] exI[of _ E']) auto
qed auto

lemma length_event_ids [simp]: "length (event_ids k ss) = length ss"
  by (induction ss arbitrary: k) auto

lemma event_ids_abs:
  "0 < sint k \<Longrightarrow> sint k + int (length ss) < 2 ^ 63 \<Longrightarrow>
   map (\<lambda>i. \<bar>sint i\<bar>) (event_ids k ss) = map (\<lambda>j. sint k + int j) [0..<length ss]"
proof (induction ss arbitrary: k)
  case (Cons s ss)
  have k1: "sint (k + 1) = sint k + 1"
    using Cons.prems by (simp add: sint_word_ariths(1) signed_take_bit_int_eq_self)
  have nk: "sint (- k) = - sint k"
    using Cons.prems by (simp add: sint_word_ariths(4) signed_take_bit_int_eq_self)
  have "map (\<lambda>i. \<bar>sint i\<bar>) (event_ids (k + 1) ss) = map (\<lambda>j. sint (k + 1) + int j) [0..<length ss]"
    using Cons.IH[of "k + 1"] Cons.prems k1 by simp
  moreover have "[0..<length (s # ss)] = 0 # map Suc [0..<length ss]"
    by (simp add: map_Suc_upt upt_conv_Cons del: upt_Suc)
  ultimately show ?case using Cons.prems k1 nk by (simp add: comp_def del: upt_Suc)
qed simp

lemma event_ids_distinct:
  assumes "0 < sint k" "sint k + int (length ss) < 2 ^ 63"
  shows "distinct (event_ids k ss)" "0 \<notin> set (event_ids k ss)"
proof -
  have a: "map (\<lambda>i. \<bar>sint i\<bar>) (event_ids k ss) = map (\<lambda>j. sint k + int j) [0..<length ss]"
    by (rule event_ids_abs[OF assms])
  have "distinct (map (\<lambda>i. \<bar>sint i\<bar>) (event_ids k ss))" unfolding a by (simp add: distinct_map inj_on_def)
  then show "distinct (event_ids k ss)" by (simp add: distinct_map)
  have "0 \<notin> set (map (\<lambda>i. \<bar>sint i\<bar>) (event_ids k ss))" unfolding a using assms(1) by auto
  then show "0 \<notin> set (event_ids k ss)" by force
qed

text \<open>The last entry of a list of pairs wins in the map of the reversed list.\<close>

lemma map_of_rev_last:
  "j < length xs \<Longrightarrow> length ys = length xs \<Longrightarrow> \<forall>j'. j < j' \<and> j' < length xs \<longrightarrow> xs ! j' \<noteq> xs ! j \<Longrightarrow>
   map_of (rev (zip xs ys)) (xs ! j) = Some (ys ! j)"
proof (induction xs arbitrary: ys rule: rev_induct)
  case (snoc x xs)
  obtain zs y where ys: "ys = zs @ [y]" "length zs = length xs" using snoc.prems(2) by (cases ys rule: rev_cases) auto
  show ?case
  proof (cases "j = length xs")
    case True
    then show ?thesis using ys by (simp add: nth_append)
  next
    case False
    then have j: "j < length xs" using snoc.prems(1) by simp
    have "x \<noteq> xs ! j" using snoc.prems(3) j by (auto simp: nth_append dest!: spec[of _ "length xs"])
    moreover have "xs ! j' \<noteq> xs ! j" if "j < j'" "j' < length xs" for j'
      using snoc.prems(3)[rule_format, of j'] j that by (simp add: nth_append)
    ultimately show ?thesis using snoc.IH[OF j ys(2)] ys j by (simp add: nth_append)
  qed
qed simp

lemma search_ids_table:
  "set ss \<subseteq> dom (map_of table) \<Longrightarrow> \<exists>res. search_ids table ss = Some res \<and> map fst res = ss \<and>
     (\<forall>x \<in> set res. map_of table (fst x) = Some (snd x))"
proof (induction ss)
  case (Cons s ss)
  then obtain i where "map_of table s = Some i" by auto
  with Cons show ?case by auto
qed simp

lemma matcher_new_rep:
  "k \<noteq> 0 \<Longrightarrow> \<exists>m. SeriesMatcher_new k = Some m \<and> matcher_rep m [] [] \<and> sm_series_id m = k"
  by (simp add: SeriesMatcher_new_def matcher_rep_def Index_new_rep)

lemma zip_swap: "map prod.swap (zip xs ys) = zip ys xs"
  by (induction xs ys rule: list_induct2') auto

lemma matcher_search_rep:
  assumes r: "matcher_rep m E nis" and q: "query (Index_base ord (sm_index m)) = Some r'" "query_names r' = Some rs"
    and sub: "set rs \<subseteq> fst ` set nis"
  shows "\<exists>res. SeriesMatcher_search ord query m = Some res \<and> map fst res = rs \<and>
    (\<forall>x \<in> set res. SeriesMatcher_match (fst x) m = snd x)"
proof -
  have "map_of (sm_table m) = map_of (rev nis)" using r by (simp add: matcher_rep_def)
  then have "set rs \<subseteq> dom (map_of (sm_table m))" using sub by (simp add: dom_map_of_conv_image_fst)
  from search_ids_table[OF this] obtain res where res: "search_ids (sm_table m) rs = Some res" "map fst res = rs"
    "\<forall>x \<in> set res. map_of (sm_table m) (fst x) = Some (snd x)" by blast
  then show ?thesis using q by (simp add: SeriesMatcher_search_def SeriesMatcher_match_def)
qed

text \<open>C11. Add any plain names to a new matcher whose counter starts above zero.  The ids are the counter,
  negated for events; they are distinct and not zero.  Each id gives back its canonical name; a name
  gives the id of its last addition.  A search for tags returns exactly the canonical names with the
  metric and the tags, each with the id that \<open>match\<close> gives, when no tag collides with a tag of the query.\<close>

theorem matcher_roundtrip:
  assumes "list_all2 plain_name ns ss" and "length ns < 2 ^ 32" and "0 < sint k" and "sint k + int (length ns) < 2 ^ 63"
    and "pairs \<noteq> []" and "no_collision ns pairs"
  shows "\<exists>m0 m res. SeriesMatcher_new k = Some m0 \<and> matcher_add_all ss m0 = Some (event_ids k ss, m) \<and>
    distinct (event_ids k ss) \<and> 0 \<notin> set (event_ids k ss) \<and>
    (\<forall>j < length ns. SeriesMatcher_id2str (event_ids k ss ! j) m = name_form (ns ! j)) \<and>
    (\<forall>j < length ns. (\<forall>j'. j < j' \<and> j' < length ns \<longrightarrow> name_form (ns ! j') \<noteq> name_form (ns ! j)) \<longrightarrow>
       SeriesMatcher_match (name_form (ns ! j)) m = event_ids k ss ! j) \<and>
    SeriesMatcher_search ord (IncludeIfAllTagsMatch_query mt pairs) m = Some res \<and> distinct (map fst res) \<and>
    set (map fst res) = {canonical mt ts | ts. (mt, ts) \<in> set ns \<and> set pairs \<subseteq> set ts} \<and>
    (\<forall>x \<in> set res. SeriesMatcher_match (fst x) m = snd x)"
proof -
  let ?ids = "event_ids k ss" and ?names = "map name_form ns"
  have len: "length ss = length ns" using assms(1) by (simp add: list_all2_lengthD)
  have ids: "distinct ?ids" "0 \<notin> set ?ids" using event_ids_distinct[of k ss] assms(3,4) len by simp_all
  have "k \<noteq> 0" using assms(3) by auto
  then obtain m0 where m0: "SeriesMatcher_new k = Some m0" "matcher_rep m0 [] []" "sm_series_id m0 = k"
    using matcher_new_rep by blast
  obtain m E where m: "matcher_add_all ss m0 = Some (?ids, m)" "matcher_rep m E (zip ?names ?ids)"
    "snd ` set E = sort_name ` set ns"
    using matcher_add_all_rep[OF assms(1) m0(2)] assms(2) m0(3) by auto
  have id2str: "SeriesMatcher_id2str (?ids ! j) m = name_form (ns ! j)" if "j < length ns" for j
  proof -
    have "map_of (rev (zip ?ids ?names)) (?ids ! j) = Some (?names ! j)"
      by (rule map_of_rev_last) (use that len ids(1) in \<open>auto simp: nth_eq_iff_index_eq\<close>)
    then show ?thesis using m(2) that by (simp add: SeriesMatcher_id2str_def matcher_rep_def zip_swap)
  qed
  have match: "SeriesMatcher_match (name_form (ns ! j)) m = ?ids ! j"
    if "j < length ns" "\<forall>j'. j < j' \<and> j' < length ns \<longrightarrow> name_form (ns ! j') \<noteq> name_form (ns ! j)" for j
  proof -
    have "map_of (rev (zip ?names ?ids)) (?names ! j) = Some (?ids ! j)"
      by (rule map_of_rev_last) (use that len in auto)
    then show ?thesis using m(2) that by (simp add: SeriesMatcher_match_def matcher_rep_def)
  qed
  have ix: "index_rep (sm_index m) E" using m(2) by (simp add: matcher_rep_def)
  obtain r rs where r: "IncludeIfAllTagsMatch_query mt pairs (Index_base ord (sm_index m)) = Some r"
    "query_names r = Some rs" "distinct rs" "set rs = {canonical mt ts | ts. (mt, ts) \<in> set ns \<and> set pairs \<subseteq> set ts}"
    using all_tags_names[OF ix m(3) assms(5,6), where m = mt and ord = ord] by (elim exE conjE)
  have "fst ` set (zip ?names ?ids) = name_form ` set ns"
    using len by (metis length_event_ids length_map list.set_map map_fst_zip set_map)
  then have "set rs \<subseteq> fst ` set (zip ?names ?ids)" unfolding r(4) by (force simp: name_form_def)
  from matcher_search_rep[where query = "IncludeIfAllTagsMatch_query mt pairs", OF m(2) r(1,2) this]
  obtain res where "SeriesMatcher_search ord (IncludeIfAllTagsMatch_query mt pairs) m = Some res" "map fst res = rs"
    "\<forall>x \<in> set res. SeriesMatcher_match (fst x) m = snd x" by blast
  then show ?thesis
    using m0(1) m(1) ids id2str match r(3,4)
    by (intro exI[of _ m0] exI[of _ m] exI[of _ res]) simp
qed

text \<open>The names \<open>m a=1 b=2\<close>, \<open>m b=3 a=1\<close> and \<open>n a=1\<close> with the ids 1024, 1025 and 1026.\<close>

theorem matcher_roundtrip_witness:
  "\<exists>m0 m res. SeriesMatcher_new 1024 = Some m0 \<and>
    matcher_add_all (demo_spell demo_names) m0 = Some ([1024, 1025, 1026], m) \<and>
    SeriesMatcher_search (\<lambda>ks. ks) (IncludeIfAllTagsMatch_query [109] [[98, 61, 51]]) m = Some res \<and>
    set (map fst res) = {canonical [109] [[98, 61, 51], [97, 61, 49]]}"
proof -
  have "list_all2 plain_name demo_names (demo_spell demo_names)"
    by (rule demo_spell_plain) code_simp
  moreover have "no_collision demo_names [[98, 61, 51]]" by code_simp
  moreover have "event_ids 1024 (demo_spell demo_names) = [1024, 1025, 1026]"
    by (simp add: demo_spell_def demo_names_def)
  moreover have "{canonical [109] ts | ts. ([109], ts) \<in> set demo_names \<and> set [[98, 61, 51]] \<subseteq> set ts} =
      {canonical [109] [[98, 61, 51], [97, 61, 49]]}"
    by (auto simp: demo_names_def)
  ultimately show ?thesis
    using matcher_roundtrip[of demo_names "demo_spell demo_names" 1024 "[[98, 61, 51]]" "\<lambda>ks. ks" "[109]"]
    by (auto simp: demo_names_def)
qed

end
