(* ===== verification/Spec2Isabelle.thy ===== *)
theory Spec2Isabelle
  imports DataBlock LeafBlock NBReopen ConsistentHashing SeriesMatcher
begin

text \<open>
  A verification development for FastSTDB, a time-series database.  Paths are relative to
  \<^verbatim>\<open>src/faststdb\<close>.

  \<^bold>\<open>The program.\<close>  Samples (a timestamp and a double) are compressed into 4096-byte blocks by the
  codec of \<^verbatim>\<open>storage/compression.h\<close>.  A tree of blocks per series (\<^verbatim>\<open>storage/nbtree.cc\<close>) collects
  samples in a leaf, commits full leaves to a block store and keeps their summaries in superblocks;
  it is searched, filtered, closed, opened and repaired after a crash.  Blocks live in volumes (files
  of blocks, \<^verbatim>\<open>storage/volume.cc\<close>) that a block store (\<^verbatim>\<open>storage/block_store.cc\<close>) addresses by
  logic addresses, a generation and a block number, and checks by a CRC-32C (\<^verbatim>\<open>common/crc32c.cc\<close>).
  The names of the series are parsed into a canonical form, stored in a string pool and indexed by
  their metric and tags (\<^verbatim>\<open>index/\<close>); a consistent-hash ring (\<^verbatim>\<open>common/hash.h\<close>) maps keys to nodes.

  \<^bold>\<open>Conventions.\<close>  A byte is an \<open>8 word\<close>, machine integers keep their width, a memory region is
  a list of bytes and a pointer into it an offset (in the name parsers: the suffix it points to).  An
  operation that can run into \<^verbatim>\<open>LOG(FATAL)\<close>, a failed assertion or undefined behaviour returns an
  option and \<open>None\<close> is that outcome; a \<^verbatim>\<open>common::Status\<close> is a value of the type \<open>status\<close>.  Doubles
  occur as 64-bit patterns; \<open>Doubles\<close> gives their order.  A C++ template over a stream type, or a
  virtual interface, is a definition over a record of its operations, with a locale that states what
  the client relies on and an interpretation for each implementation of the program.

  \<^bold>\<open>The theories.\<close>
  \<^item> \<open>Prelude\<close>, \<open>Bytes\<close>, \<open>Containers\<close>: integer types, status codes, option and list facts,
    little-endian bytes, decimal digits, \<^verbatim>\<open>std::map\<close> as a sorted association list.
  \<^item> \<open>Base128\<close>, \<open>Streams\<close>, \<open>VByte\<close>, \<open>IOVecStream\<close>, \<open>DeltaDelta\<close>, \<open>Fcm\<close>, \<open>BlockCodec\<close>,
    \<open>DataBlock\<close>, \<open>LeafBlock\<close>: \<^verbatim>\<open>storage/compression.h\<close> and \<^verbatim>\<open>compression.cc\<close>.  Each stream has
    round-trip lemmas; \<open>DataBlock\<close> and \<open>LeafBlock\<close> hold the properties of whole blocks: what was put is
    read back, a put never fails otherwise than by \<open>kOverflow\<close>, a lower bound for the capacity.
  \<^item> \<open>IOVecBlock\<close>, \<open>Volume\<close>, \<open>FileStorage\<close>: \<^verbatim>\<open>storage/volume.cc\<close> and the file storages of
    \<^verbatim>\<open>storage/block_store.cc\<close>, down to the bytes of the meta volume.  The storages refine a map from
    addresses to blocks; opening one gives exactly the blocks that the registry records.  Of the
    memory-mapped file the model has the content: creating keeps an existing file and creates none of size
    0, opening a missing or an empty file is fatal, and a failed write may leave part of a block behind.
  \<^item> \<open>Crc32c\<close>: the table-driven and the hardware implementation of the checksum and their equality; any
    change inside four consecutive bytes is detected.  \<open>BlockStore\<close>: checksums of blocks, \<open>MemStore\<close>,
    \<open>BlockCache\<close>, and the locales \<open>block_store\<close> and \<open>durable_store\<close> with the interpretations
    \<open>memstore\<close>, \<open>fixedstore\<close> and \<open>expandablestore\<close>.
  \<^item> \<open>SubtreeRefs\<close>, \<open>NBLeaf\<close>, \<open>NBSuper\<close>: the packed node header, leaves and superblocks.
    \<open>NBExtents\<close>, \<open>NBWrite\<close>: the write path, \<open>NBTreeExtentsList::append\<close> with the extents it
    commits, and the invariant \<open>tree_ok\<close> that a tree holds a list of samples.
  \<^item> \<open>Operators\<close>, \<open>NBIter\<close>, \<open>NBSearch\<close>: value filters, the leaf, superblock and chain iterators, and
    the relation \<open>delivers\<close> between an iterator and the samples it still has to return; a client that
    reads until \<open>kNoData\<close> (\<open>read_to_end\<close>, a partial function) is proved to stop with all of them.
  \<^item> \<open>NBOpen\<close>: \<open>open\<close>, \<open>repair\<close>, \<open>init\<close> and the public operations of the list.  \<open>NBTree\<close>,
    \<open>NBRecover\<close>, \<open>NBReopen\<close>: the properties of the tree from the first append to a search, a crash or a
    restart, over every store by the locales and for \<open>MemStore\<close> and the growing file storage by
    interpretation.
  \<^item> \<open>ConsistentHashing\<close>: \<open>MurmurHash64A\<close> and \<open>ConsistentHash\<close>; \<open>GetKeyNode\<close> returns on every ring that
    can be reached.
  \<^item> \<open>StringPool\<close>, \<open>PostingList\<close>, \<open>SeriesParser\<close>, \<open>SeriesIndex\<close>, \<open>IndexQueries\<close>, \<open>SeriesMatcher\<close>:
    \<^verbatim>\<open>index/stringpool.cc\<close>, \<^verbatim>\<open>index/invertedindex.cc\<close> and \<^verbatim>\<open>index/seriesparser.cc\<close>.  The canonical
    form does not depend on the spelling; the relation \<open>index_rep\<close> between the index and its series is
    kept by every append; the query nodes are proved over the locale \<open>index_lookup\<close>, interpreted by
    \<open>Index\<close> as \<open>series_queries\<close>; names and ids are inverse to each other in \<open>SeriesMatcher\<close>.

  \<^bold>\<open>Bounds and fuel.\<close>  The tree properties allow \<open>100000000\<close> appends, which keeps every counter and
  address below its width.  The nesting of iterators and the rounds of their loops take fuel: a read and
  \<open>open\<close> return with 200 plus the number of samples, \<open>repair\<close> with 1000 (a chain has at most 32 nodes on
  each of at most 30 levels), so no property depends on a loop running out of fuel.  The loops of \<open>GetKeyNode\<close> and of the postings iterator have no bound in the
  source; they are partial functions and are proved to return.  The index properties allow \<open>2 ^ 32\<close>
  names, the range of a bin index, and plain names: no blanks inside a word, no escapes, distinct keys.

  \<^bold>\<open>Not modelled.\<close>  The split of nodes (compiled for mutation testing only) and debug output of the
  tree; the aggregating iterators, operators and query nodes, which calculate with doubles; the input
  log, which needs LZ4 and roaring bitmaps; the meta storage over SQLite and protocol buffers; the query
  language over boost property trees; sessions, servers, configuration, the system calls behind memory-mapped
  files, locks and threads.  Methods that hold one lock for their whole body are modelled as one step.
\<close>

end
